(* ===== verification/Prelude.thy ===== *)
theory Prelude
  imports Main "HOL-Library.Word" "HOL-Library.Sublist"
begin

text \<open>
  Shared material: the machine types of the node (bytes, byte vectors, the signed and unsigned
  integer ranges), faults as values, little-endian encodings, and the generic list and word
  lemmas the components use.  The collections \<open>fault_simps\<close> and \<open>le_simps\<close> gather the rules
  that unfold fault propagation and little-endian encodings.
\<close>

unbundle bit_operations_syntax

named_theorems fault_simps \<open>rules for computations that may fail\<close>
named_theorems le_simps \<open>rules for little-endian encodings\<close>

section \<open>Types\<close>

type_synonym byte = "8 word"
type_synonym bytes = "byte list"
type_synonym valtype = bytes
type_synonym uint256 = "256 word"

section \<open>Faulting computations\<close>

text \<open>
  A C++ routine that reports an error code, throws, or runs into an assertion yields \<open>Inl\<close>;
  \<open>bindE\<close> is the sequencing of statements: the first fault ends the routine.
\<close>

definition bindE :: "'e + 'a \<Rightarrow> ('a \<Rightarrow> 'e + 'b) \<Rightarrow> 'e + 'b" where
  "bindE m f = (case m of Inl e \<Rightarrow> Inl e | Inr x \<Rightarrow> f x)"

lemma bindE_Inl [simp]: "bindE (Inl e) f = Inl e"
  by (simp add: bindE_def)

lemma bindE_Inr [simp]: "bindE (Inr x) f = f x"
  by (simp add: bindE_def)

lemma bindE_eq_Inr [fault_simps]: "bindE m f = Inr y \<longleftrightarrow> (\<exists>x. m = Inr x \<and> f x = Inr y)"
  by (cases m) auto

lemma bindE_eq_Inl [fault_simps]:
  "bindE m f = Inl e \<longleftrightarrow> m = Inl e \<or> (\<exists>x. m = Inr x \<and> f x = Inl e)"
  by (cases m) auto

lemma if_Inl_eq_Inr [fault_simps]:
  "(if c then Inl e else m) = Inr y \<longleftrightarrow> \<not> c \<and> m = Inr y"
  by simp

lemma bindE_cong [fundef_cong]:
  "m = m' \<Longrightarrow> (\<And>x. m' = Inr x \<Longrightarrow> f x = g x) \<Longrightarrow> bindE m f = bindE m' g"
  by (cases m') auto

section \<open>Integer ranges\<close>

definition INT64_MIN :: int where "INT64_MIN = - (2 ^ 63)"
definition INT64_MAX :: int where "INT64_MAX = 2 ^ 63 - 1"
definition INT32_MIN :: int where "INT32_MIN = - (2 ^ 31)"
definition INT32_MAX :: int where "INT32_MAX = 2 ^ 31 - 1"

section \<open>Little-endian encodings\<close>

text \<open>\<open>le_bytes n v\<close> is the memory image of an \<open>n\<close>-byte unsigned integer on the little-endian
  hosts the code copies integers with \<open>memcpy\<close> on.\<close>

fun le_bytes :: "nat \<Rightarrow> nat \<Rightarrow> bytes" where
  "le_bytes 0 v = []"
| "le_bytes (Suc n) v = of_nat v # le_bytes n (v div 256)"

fun le_val :: "bytes \<Rightarrow> nat" where
  "le_val [] = 0"
| "le_val (b # bs) = unat b + 256 * le_val bs"

lemma unat_of_nat_byte: "unat (of_nat v :: byte) = v mod 256"
  by (simp add: unat_of_nat)

lemma byte_of_nat_unat [simp]: "(of_nat (unat b) :: byte) = b"
  by simp

lemma unat_byte_less [simp]: "unat (b :: byte) < 256"
  using unsigned_less [of b] by simp

lemma length_le_bytes [simp, le_simps]: "length (le_bytes n v) = n"
  by (induction n arbitrary: v) auto

lemma le_val_less [le_simps]: "le_val bs < 256 ^ length bs"
proof (induction bs)
  case (Cons b bs)
  have "unat b < 256" by simp
  moreover have "256 * le_val bs + 256 \<le> 256 * 256 ^ length bs"
    using Cons by linarith
  ultimately have "unat b + 256 * le_val bs < 256 * 256 ^ length bs" by linarith
  then show ?case by simp
qed simp

lemma le_val_le_bytes [le_simps]: "le_val (le_bytes n v) = v mod 256 ^ n"
proof (induction n arbitrary: v)
  case (Suc n)
  have "v mod 256 ^ Suc n = v mod 256 + 256 * (v div 256 mod 256 ^ n)"
    by (simp add: mod_mult2_eq)
  then show ?case using Suc by (simp add: unat_of_nat_byte)
qed simp

lemma le_bytes_le_val [le_simps]: "le_bytes (length bs) (le_val bs) = bs"
proof (induction bs)
  case (Cons b bs)
  have b: "unat b < 256" by simp
  have "(unat b + 256 * le_val bs) div 256 = le_val bs"
    using b by simp
  moreover have "(of_nat (unat b + 256 * le_val bs) :: byte) = b"
  proof -
    have "unat (of_nat (unat b + 256 * le_val bs) :: byte) = unat b"
      using b by (simp add: unat_of_nat_byte del: of_nat_add of_nat_mult)
    then show ?thesis by (rule unsigned_word_eqI)
  qed
  ultimately show ?case using Cons by (simp del: of_nat_add of_nat_mult)
qed simp

lemma le_val_append [le_simps]: "le_val (xs @ ys) = le_val xs + 256 ^ length xs * le_val ys"
  by (induction xs) (auto simp: algebra_simps)

lemma le_val_inj: "length xs = length ys \<Longrightarrow> le_val xs = le_val ys \<Longrightarrow> xs = ys"
  by (metis le_bytes_le_val)

section \<open>Lists\<close>

lemma butlast_last_cases:
  obtains "xs = []" | ys y where "xs = ys @ [y]"
  by (cases xs rule: rev_cases) auto

lemma take_append_eq: "length xs = n \<Longrightarrow> take n (xs @ ys) = xs"
  by auto

lemma drop_append_eq: "length xs = n \<Longrightarrow> drop n (xs @ ys) = ys"
  by auto

text \<open>Collecting flags into the bits of a byte.\<close>

lemma bit_or_loop:
  "n \<le> 8 \<Longrightarrow> bit (foldl (\<lambda>ch i. if P i then ch OR push_bit i 1 else ch) (0 :: byte) [0..<n]) p \<longleftrightarrow> p < n \<and> P p"
  by (induction n) (auto simp: bit_or_iff bit_exp_iff less_Suc_eq)

end
