(* ===== verification/ScriptNum.thy ===== *)
theory ScriptNum
  imports Prelude
begin

text \<open>
  The numbers of the script language: class CScriptNum of script/script.h.  The object's only
  field, the int64 m_value, is an \<open>int\<close>; the byte-level decoder set_vch works on 64-bit words as
  the code does.  The lemmas show that the encoder and the decoder are inverse to each other on
  4-byte operands, that the fRequireMinimal test accepts exactly the encoder's output, and that no
  arithmetic operation on operands of the permitted size leaves the int64 range, so that the
  assertions of the operators never fire.
\<close>

section \<open>Faults of the script engine\<close>

text \<open>The error codes of script/script_error.h, in the order of the enumeration.\<close>

datatype script_error =
    SCRIPT_ERR_OK
  | SCRIPT_ERR_UNKNOWN_ERROR
  | SCRIPT_ERR_EVAL_FALSE
  | SCRIPT_ERR_OP_RETURN
  | SCRIPT_ERR_SCRIPT_SIZE
  | SCRIPT_ERR_PUSH_SIZE
  | SCRIPT_ERR_OP_COUNT
  | SCRIPT_ERR_STACK_SIZE
  | SCRIPT_ERR_SIG_COUNT
  | SCRIPT_ERR_PUBKEY_COUNT
  | SCRIPT_ERR_VERIFY
  | SCRIPT_ERR_EQUALVERIFY
  | SCRIPT_ERR_CHECKMULTISIGVERIFY
  | SCRIPT_ERR_CHECKSIGVERIFY
  | SCRIPT_ERR_NUMEQUALVERIFY
  | SCRIPT_ERR_BAD_OPCODE
  | SCRIPT_ERR_DISABLED_OPCODE
  | SCRIPT_ERR_INVALID_STACK_OPERATION
  | SCRIPT_ERR_INVALID_ALTSTACK_OPERATION
  | SCRIPT_ERR_UNBALANCED_CONDITIONAL
  | SCRIPT_ERR_SIG_HASHTYPE
  | SCRIPT_ERR_SIG_DER
  | SCRIPT_ERR_MINIMALDATA
  | SCRIPT_ERR_SIG_PUSHONLY
  | SCRIPT_ERR_SIG_HIGH_S
  | SCRIPT_ERR_SIG_NULLDUMMY
  | SCRIPT_ERR_PUBKEYTYPE
  | SCRIPT_ERR_DISCOURAGE_UPGRADABLE_NOPS
  | SCRIPT_ERR_ERROR_COUNT

text \<open>
  How a routine of the engine can end other than by its normal result: it returns false with an
  error code in *serror, it throws a C++ exception, or an assert() stops the process.
\<close>

datatype fault = Fail script_error | Throw | Abort

section \<open>Definitions\<close>

definition nMaxNumSize :: nat where "nMaxNumSize = 4"

text \<open>The loop of set_vch: \<open>result |= (int64)vch[i] << 8*i\<close>.\<close>

fun set_vch_loop :: "nat \<Rightarrow> bytes \<Rightarrow> 64 word \<Rightarrow> 64 word" where
  "set_vch_loop i [] result = result"
| "set_vch_loop i (b # bs) result =
     set_vch_loop (Suc i) bs (result OR push_bit (8 * i) (ucast b))"

definition set_vch :: "bytes \<Rightarrow> int" where
  "set_vch vch =
     (if vch = [] then 0
      else let result = set_vch_loop 0 vch 0 in
        if last vch AND 0x80 \<noteq> 0
        then - sint (result AND NOT (push_bit (8 * (length vch - 1)) 0x80))
        else sint result)"

definition CScriptNum :: "bytes \<Rightarrow> bool \<Rightarrow> fault + int" where
  "CScriptNum vch fRequireMinimal =
     (if length vch > nMaxNumSize then Inl Throw
      else if fRequireMinimal \<and> length vch > 0 \<and> last vch AND 0x7f = 0 \<and>
              (length vch \<le> 1 \<or> vch ! (length vch - 2) AND 0x80 = 0)
      then Inl Throw
      else Inr (set_vch vch))"

text \<open>Operators + and - build a new object from the raw sum; += , -= and unary minus assert first.\<close>

definition scriptnum_add :: "int \<Rightarrow> int \<Rightarrow> int" where
  "scriptnum_add m rhs = m + rhs"

definition scriptnum_sub :: "int \<Rightarrow> int \<Rightarrow> int" where
  "scriptnum_sub m rhs = m - rhs"

definition scriptnum_neg :: "int \<Rightarrow> fault + int" where
  "scriptnum_neg m = (if m \<noteq> INT64_MIN then Inr (- m) else Inl Abort)"

definition scriptnum_add_assign :: "int \<Rightarrow> int \<Rightarrow> fault + int" where
  "scriptnum_add_assign m rhs =
     (if rhs = 0 \<or> (rhs > 0 \<and> m \<le> INT64_MAX - rhs) \<or> (rhs < 0 \<and> m \<ge> INT64_MIN - rhs)
      then Inr (m + rhs) else Inl Abort)"

definition scriptnum_sub_assign :: "int \<Rightarrow> int \<Rightarrow> fault + int" where
  "scriptnum_sub_assign m rhs =
     (if rhs = 0 \<or> (rhs > 0 \<and> m \<ge> INT64_MIN + rhs) \<or> (rhs < 0 \<and> m \<le> INT64_MAX + rhs)
      then Inr (m - rhs) else Inl Abort)"

definition getint :: "int \<Rightarrow> int" where
  "getint m = (if m > INT32_MAX then INT32_MAX else if m < INT32_MIN then INT32_MIN else m)"

text \<open>The loop of serialize over the magnitude: the base-256 digits, least significant first.\<close>

fun abs_bytes :: "nat \<Rightarrow> bytes" where
  "abs_bytes absvalue =
     (if absvalue = 0 then [] else of_nat (absvalue mod 256) # abs_bytes (absvalue div 256))"

declare abs_bytes.simps [simp del]

definition scriptnum_serialize :: "int \<Rightarrow> bytes" where
  "scriptnum_serialize value =
     (if value = 0 then []
      else
        let neg = value < 0;
            result = abs_bytes (nat \<bar>value\<bar>)
        in if last result AND 0x80 \<noteq> 0 then result @ [if neg then 0x80 else 0]
           else if neg then butlast result @ [last result OR 0x80]
           else result)"

section \<open>Bit-level facts about single bytes\<close>

lemma byte_and_7f: "unat (b AND 0x7f :: byte) = unat b mod 128"
proof -
  have "unat (b AND 0x7f) = unat b AND mask 7"
    by (simp add: unsigned_and_eq mask_eq_exp_minus_1)
  then show ?thesis by (simp add: take_bit_eq_mask [symmetric] take_bit_eq_mod)
qed

lemma byte_and_80: "(b :: byte) AND 0x80 = 0 \<longleftrightarrow> unat b < 128"
proof -
  have "b AND 0x80 = 0 \<longleftrightarrow> unat (b AND 0x80) = 0"
    by (simp add: unat_eq_0)
  also have "unat (b AND 0x80) = unat b AND 2 ^ 7"
    by (simp add: unsigned_and_eq)
  also have "unat b AND 2 ^ 7 = 0 \<longleftrightarrow> \<not> bit (unat b) 7"
    by (rule and_exp_eq_0_iff_not_bit)
  also have "\<dots> \<longleftrightarrow> even (unat b div 128)"
    by (simp add: bit_iff_odd)
  also have "unat b div 128 = (if unat b \<ge> 128 then 1 else 0)"
    using unat_byte_less [of b] by (auto simp: div_nat_eqI)
  finally show ?thesis by simp
qed

lemma byte_or_80: "unat b < 128 \<Longrightarrow> unat (b OR 0x80 :: byte) = unat b + 128"
proof -
  assume "unat b < 128"
  then have "b AND 0x80 = 0" by (simp add: byte_and_80)
  then have "b OR 0x80 = b + 0x80"
    using word_plus_and_or [of b "0x80"] by simp
  with \<open>unat b < 128\<close> show ?thesis by (simp add: unat_word_ariths)
qed

section \<open>The decoder\<close>

lemma and_push_bit_disjoint:
  "unat (r :: 64 word) < 2 ^ k \<Longrightarrow> r AND push_bit k x = 0"
proof -
  assume "unat r < 2 ^ k"
  then have "take_bit k (unat r) = unat r" by (simp add: take_bit_nat_eq_self)
  then have "take_bit k r = r"
    by (simp add: word_unat_eq_iff unsigned_take_bit_eq)
  then have "\<not> bit r n" if "k \<le> n" for n
    using that by (metis bit_take_bit_iff not_less)
  then show ?thesis by (auto simp: bit_eq_iff bit_simps)
qed

lemma unat_push_bit_byte:
  assumes "k + 8 \<le> 64"
  shows "unat (push_bit k (ucast (b :: byte)) :: 64 word) = 2 ^ k * unat b"
proof -
  have "2 ^ k * unat b < 2 ^ k * 2 ^ 8" by simp
  also have "\<dots> = (2 :: nat) ^ (k + 8)" by (simp add: power_add)
  also have "\<dots> \<le> 2 ^ 64" using assms by (intro power_increasing) auto
  finally have "2 ^ k * unat b < 2 ^ 64" .
  then have "take_bit 64 (push_bit k (unat b)) = 2 ^ k * unat b"
    by (simp add: push_bit_eq_mult take_bit_nat_eq_self mult.commute)
  moreover have "unat (ucast b :: 64 word) = unat b"
  proof -
    have "unat b < 2 ^ 64" by (rule less_trans [OF unat_byte_less]) simp
    then show ?thesis by (simp add: unsigned_ucast_eq take_bit_nat_eq_self)
  qed
  ultimately show ?thesis by (simp add: unsigned_push_bit_eq)
qed

lemma unat_or_push_bit_byte:
  assumes "unat (r :: 64 word) < 2 ^ k" "k + 8 \<le> 64"
  shows "unat (r OR push_bit k (ucast (b :: byte))) = unat r + 2 ^ k * unat b"
proof -
  have "unat r + 2 ^ k * unat b < 2 ^ k * 256"
  proof -
    have "2 ^ k * unat b + 2 ^ k \<le> 2 ^ k * (256 :: nat)"
      using unat_byte_less [of b] by (metis Suc_leI mult_Suc_right add.commute mult_le_mono2)
    with assms(1) show ?thesis by linarith
  qed
  also have "\<dots> = (2 :: nat) ^ (k + 8)" by (simp add: power_add)
  also have "\<dots> \<le> 2 ^ 64" using assms by (intro power_increasing) auto
  finally have lt: "unat r + 2 ^ k * unat b < 2 ^ 64" .
  have "r OR push_bit k (ucast b) = r + push_bit k (ucast b)"
    using and_push_bit_disjoint [OF assms(1)] by (simp add: disjunctive_add_eq_or)
  then show ?thesis using lt by (simp add: unat_word_ariths unat_push_bit_byte [OF assms(2)])
qed

lemma unat_set_vch_loop:
  "unat r < 2 ^ (8 * i) \<Longrightarrow> i + length bs \<le> 8 \<Longrightarrow>
     unat (set_vch_loop i bs r) = unat r + 2 ^ (8 * i) * le_val bs"
proof (induction bs arbitrary: i r)
  case (Cons b bs)
  let ?r = "r OR push_bit (8 * i) (ucast b) :: 64 word"
  have r: "unat ?r = unat r + 2 ^ (8 * i) * unat b"
    using Cons.prems by (intro unat_or_push_bit_byte) auto
  have "2 ^ (8 * i) * unat b + 2 ^ (8 * i) \<le> 2 ^ (8 * i) * (256 :: nat)"
    using unat_byte_less [of b] by (metis Suc_leI mult_Suc_right add.commute mult_le_mono2)
  then have "unat ?r < 2 ^ (8 * i) * 256"
    using r Cons.prems(1) by linarith
  then have lt: "unat ?r < 2 ^ (8 * Suc i)" by (simp add: power_add)
  show ?case
    using Cons.IH [OF lt] Cons.prems(2) r by (simp add: power_add algebra_simps)
qed simp

lemma set_vch_loop_snoc:
  "set_vch_loop i (xs @ [y]) r = set_vch_loop i xs r OR push_bit (8 * (i + length xs)) (ucast y)"
  by (induction xs arbitrary: i r) (auto simp: algebra_simps)

lemma sint_small:
  assumes "unat (w :: 64 word) < 2 ^ 63"
  shows "sint w = int (unat w)"
proof -
  have u: "uint w = int (unat w)" by simp
  have "int (unat w) < int (2 ^ 63)" using assms by (simp only: of_nat_less_iff)
  with u have "uint w < 2 ^ 63" by (simp del: of_nat_unat)
  then have "signed_take_bit 63 (uint w) = uint w"
    by (intro signed_take_bit_int_eq_self) (auto intro: order_trans [of _ 0])
  then have "sint w = uint w" by (simp add: sint_uint)
  then show ?thesis by (simp only: u)
qed

lemma or_push_bit_clear_80:
  "unat (r :: 64 word) < 2 ^ k \<Longrightarrow> k + 8 \<le> 64 \<Longrightarrow>
     (r OR push_bit k (ucast (b :: byte))) AND NOT (push_bit k 0x80)
       = r OR push_bit k (ucast (b AND 0x7f))"
proof -
  assume r: "unat r < 2 ^ k" "k + 8 \<le> 64"
  have "r AND push_bit k 0x80 = 0" using r by (intro and_push_bit_disjoint)
  then have "r AND NOT (push_bit k 0x80) = r"
    by (auto simp: bit_eq_iff bit_simps)
  moreover have "push_bit k (ucast b) AND NOT (push_bit k 0x80) = push_bit k (ucast (b AND 0x7f) :: 64 word)"
  proof -
    have c: "(0x80 :: 64 word) = 2 ^ 7" "(0x7f :: byte) = mask 7"
      by (simp_all add: mask_eq_exp_minus_1)
    have lt8: "bit b n \<Longrightarrow> n < 8" for n using bit_imp_le_length [of b n] by simp
    have b128: "bit (128 :: int) m \<longleftrightarrow> m = 7" for m
      using bit_exp_iff [where ?'a = int, of 7 m] by auto
    show ?thesis unfolding c
    proof (rule bit_word_eqI)
      fix n assume "n < LENGTH(64)"
      have "bit b (n - k) \<longrightarrow> n - k < 8" using lt8 by blast
      moreover have "n - k < 8 \<longleftrightarrow> n - k < 7 \<or> n - k = 7" by linarith
      ultimately show "bit (push_bit k (ucast b) AND NOT (push_bit k (2 ^ 7)) :: 64 word) n
          = bit (push_bit k (ucast (b AND mask 7)) :: 64 word) n"
        by (auto simp: bit_simps b128)
    qed
  qed
  ultimately show ?thesis
    by (simp only: bit.conj_disj_distrib2)
qed

lemma set_vch_snoc:
  assumes "length ys \<le> 6"
  shows "set_vch (ys @ [y]) =
    (if unat y < 128 then int (le_val (ys @ [y]))
     else - int (le_val ys + 256 ^ length ys * (unat y - 128)))"
proof -
  let ?k = "8 * length ys" and ?r = "set_vch_loop 0 ys 0"
  have pow: "(2 :: nat) ^ ?k = 256 ^ length ys" by (simp add: power_mult)
  have r: "unat ?r = le_val ys"
    using assms by (subst unat_set_vch_loop) auto
  then have lt: "unat ?r < 2 ^ ?k" using le_val_less [of ys] by (simp add: pow)
  have k: "?k + 8 \<le> 64" using assms by simp
  have val: "unat (?r OR push_bit ?k (ucast b)) = le_val (ys @ [b])" for b :: byte
    using unat_or_push_bit_byte [OF lt k] r by (simp add: le_val_append pow)
  have small: "unat (?r OR push_bit ?k (ucast b)) < 2 ^ 63" for b :: byte
  proof -
    have "le_val (ys @ [b]) < 256 ^ length (ys @ [b])" by (rule le_val_less)
    also have "\<dots> \<le> (256 :: nat) ^ 7" using assms by (intro power_increasing) auto
    also have "\<dots> < 2 ^ 63" by simp
    finally show ?thesis by (simp add: val)
  qed
  have si: "sint (?r OR push_bit ?k (ucast b)) = int (le_val (ys @ [b]))" for b :: byte
    using sint_small [OF small] by (simp add: val)
  have m: "unat (y AND 0x7f) = unat y - 128" if "\<not> unat y < 128"
  proof -
    have "unat y mod 128 = (unat y - 128) mod 128" using that by (intro le_mod_geq) simp
    also have "\<dots> = unat y - 128" using that unat_byte_less [of y] by (intro mod_less) linarith
    finally show ?thesis by (simp only: byte_and_7f)
  qed
  have sv: "set_vch (ys @ [y]) =
      (if unat y < 128 then sint (?r OR push_bit ?k (ucast y))
       else - sint ((?r OR push_bit ?k (ucast y)) AND NOT (push_bit ?k 0x80)))"
    by (simp add: set_vch_def Let_def set_vch_loop_snoc byte_and_80)
  show ?thesis
  proof (cases "unat y < 128")
    case True
    show ?thesis unfolding sv or_push_bit_clear_80 [OF lt k] si by (simp only: True if_True)
  next
    case False
    have "le_val (ys @ [y AND 0x7f]) = le_val ys + 256 ^ length ys * (unat y - 128)"
      by (simp only: le_val_append le_val.simps m [OF False] mult_0_right add_0_right)
    then show ?thesis unfolding sv or_push_bit_clear_80 [OF lt k] si by (simp only: False if_False)
  qed
qed

section \<open>The encoder\<close>

lemma abs_bytes_0 [simp]: "abs_bytes 0 = []"
  by (simp add: abs_bytes.simps)

lemma abs_bytes_pos: "0 < n \<Longrightarrow> abs_bytes n = of_nat n # abs_bytes (n div 256)"
  by (subst abs_bytes.simps) (simp add: word_unat_eq_iff unat_of_nat_byte)

lemma abs_bytes_eq_Nil [simp]: "abs_bytes n = [] \<longleftrightarrow> n = 0"
  by (cases "n = 0") (simp_all add: abs_bytes_pos)

lemma le_val_abs_bytes [simp]: "le_val (abs_bytes n) = n"
proof (induction n rule: abs_bytes.induct)
  case (1 n)
  then show ?case by (cases "n = 0") (simp_all add: abs_bytes_pos unat_of_nat_byte)
qed

lemma last_abs_bytes: "0 < n \<Longrightarrow> last (abs_bytes n) \<noteq> 0"
proof (induction n rule: abs_bytes.induct)
  case (1 n)
  show ?case
  proof (cases "n div 256 = 0")
    case True
    with "1.prems" show ?thesis
      by (simp add: abs_bytes_pos word_unat_eq_iff unat_of_nat_byte)
  next
    case False
    with 1 show ?thesis by (simp add: abs_bytes_pos)
  qed
qed

lemma abs_bytes_le_val:
  "ds \<noteq> [] \<longrightarrow> last ds \<noteq> 0 \<Longrightarrow> abs_bytes (le_val ds) = ds"
proof (induction ds)
  case (Cons d ds)
  have d: "unat d < 256" by simp
  have pos: "0 < le_val (d # ds)"
  proof (cases "ds = []")
    case True
    with Cons.prems show ?thesis by (simp add: unat_gt_0)
  next
    case False
    then have "abs_bytes (le_val ds) = ds" using Cons by auto
    with False have "le_val ds \<noteq> 0" by (metis abs_bytes_0)
    then show ?thesis by simp
  qed
  have "le_val (d # ds) div 256 = le_val ds" using d by simp
  moreover have "of_nat (le_val (d # ds)) = d"
    using d by (simp add: word_unat_eq_iff unat_of_nat_byte del: of_nat_add of_nat_mult)
  moreover have "abs_bytes (le_val ds) = ds" using Cons by (cases "ds = []") auto
  ultimately show ?case
    unfolding abs_bytes_pos [OF pos] by simp
qed simp

lemma length_abs_bytes_le: "length (abs_bytes n) \<le> k \<longleftrightarrow> n < 256 ^ k"
proof
  assume "length (abs_bytes n) \<le> k"
  then have "(256 :: nat) ^ length (abs_bytes n) \<le> 256 ^ k" by (intro power_increasing) auto
  then show "n < 256 ^ k"
    by (rule less_le_trans [OF le_val_less [of "abs_bytes n", unfolded le_val_abs_bytes]])
next
  show "n < 256 ^ k \<Longrightarrow> length (abs_bytes n) \<le> k"
  proof (induction k arbitrary: n)
    case (Suc k)
    show ?case
    proof (cases "n = 0")
      case False
      with Suc show ?thesis by (simp add: abs_bytes_pos less_mult_imp_div_less mult.commute)
    qed simp
  qed simp
qed

lemma serialize_shape:
  assumes "v \<noteq> 0"
  obtains (long) ys t where "abs_bytes (nat \<bar>v\<bar>) = ys @ [t]" "128 \<le> unat t"
      "scriptnum_serialize v = ys @ [t, if v < 0 then 0x80 else 0]"
  | (short) ys t where "abs_bytes (nat \<bar>v\<bar>) = ys @ [t]" "unat t < 128" "t \<noteq> 0"
      "scriptnum_serialize v = ys @ [if v < 0 then t OR 0x80 else t]"
proof -
  have "abs_bytes (nat \<bar>v\<bar>) \<noteq> []" using assms by simp
  then obtain ys t where yt: "abs_bytes (nat \<bar>v\<bar>) = ys @ [t]"
    by (metis append_butlast_last_id)
  then have "t \<noteq> 0" using last_abs_bytes [of "nat \<bar>v\<bar>"] assms by simp
  show thesis
  proof (cases "unat t < 128")
    case True
    then show thesis using \<open>t \<noteq> 0\<close> yt assms
      by (intro short [OF yt]) (auto simp: scriptnum_serialize_def Let_def byte_and_80)
  next
    case False
    then show thesis using yt assms
      by (intro long [OF yt]) (auto simp: scriptnum_serialize_def Let_def byte_and_80)
  qed
qed

lemma set_vch_serialize:
  assumes "\<bar>v\<bar> < 2 ^ 47"
  shows "set_vch (scriptnum_serialize v) = v"
proof (cases "v = 0")
  case False
  have len: "length (abs_bytes (nat \<bar>v\<bar>)) \<le> 6"
    using assms by (simp add: length_abs_bytes_le nat_less_iff)
  from False show ?thesis
  proof (cases rule: serialize_shape)
    case (long ys t)
    have le: "le_val (ys @ [t]) = nat \<bar>v\<bar>" using long(1) by (metis le_val_abs_bytes)
    have l: "length (ys @ [t]) \<le> 6" using len long(1) by simp
    have "le_val ((ys @ [t]) @ [0]) = le_val (ys @ [t])" by (simp only: le_val_append) simp
    then show ?thesis
      using le long(3) set_vch_snoc [of "ys @ [t]" 0] set_vch_snoc [of "ys @ [t]" "0x80"] l
      by (cases "v < 0") simp_all
  next
    case (short ys t)
    have le: "le_val (ys @ [t]) = nat \<bar>v\<bar>" using short(1) by (metis le_val_abs_bytes)
    have "length ys \<le> 6" using len short(1) by simp
    then show ?thesis
      using le short set_vch_snoc [of ys t] set_vch_snoc [of ys "t OR 0x80"]
      by (cases "v < 0") (simp_all add: byte_or_80 le_val_append)
  qed
qed (simp add: scriptnum_serialize_def set_vch_def)

lemma byte_mod_128: "\<not> unat (y :: byte) < 128 \<Longrightarrow> unat y mod 128 = unat y - 128"
proof -
  assume y: "\<not> unat y < 128"
  have "unat y mod 128 = (unat y - 128) mod 128" using y by (intro le_mod_geq) simp
  also have "\<dots> = unat y - 128" using y unat_byte_less [of y] by (intro mod_less) linarith
  finally show ?thesis .
qed

definition minimal_num :: "bytes \<Rightarrow> bool" where
  "minimal_num vch \<longleftrightarrow> vch = [] \<or>
     \<not> (last vch AND 0x7f = 0 \<and> (length vch \<le> 1 \<or> vch ! (length vch - 2) AND 0x80 = 0))"

lemma byte_and_7f_0: "(b :: byte) AND 0x7f = 0 \<longleftrightarrow> b = 0 \<or> b = 0x80"
proof -
  have "b AND 0x7f = 0 \<longleftrightarrow> unat b mod 128 = 0"
    by (metis byte_and_7f unat_eq_0)
  also have "\<dots> \<longleftrightarrow> unat b = 0 \<or> unat b = 128"
    using unat_byte_less [of b] by presburger
  also have "unat b = 128 \<longleftrightarrow> b = 0x80"
    by (simp add: word_unat_eq_iff)
  finally show ?thesis by (simp add: unat_eq_0)
qed

lemma serialize_minimal: "minimal_num (scriptnum_serialize v)"
proof (cases "v = 0")
  case False
  then show ?thesis
  proof (cases rule: serialize_shape)
    case (long ys t)
    then show ?thesis by (simp add: minimal_num_def byte_and_80 nth_append)
  next
    case (short ys t)
    then have "(if v < 0 then t OR 0x80 else t) AND 0x7f \<noteq> 0"
      unfolding byte_and_7f_0 by (auto simp: word_unat_eq_iff byte_or_80)
    with short show ?thesis by (simp add: minimal_num_def)
  qed
qed (simp add: scriptnum_serialize_def minimal_num_def)

lemma length_serialize:
  "length (scriptnum_serialize v) \<le> Suc k \<longleftrightarrow> \<bar>v\<bar> < 128 * 256 ^ k"
proof (cases "v = 0")
  case False
  define n where "n = nat \<bar>v\<bar>"
  have n: "\<bar>v\<bar> < 128 * 256 ^ k \<longleftrightarrow> n < 128 * 256 ^ k" by (simp add: n_def nat_less_iff)
  from False show ?thesis unfolding n
  proof (cases rule: serialize_shape)
    case (long ys t)
    have "n = le_val ys + 256 ^ length ys * unat t"
      using arg_cong [OF long(1) [folded n_def], of le_val] by (simp add: le_val_append)
    then have ge: "128 * 256 ^ length ys \<le> n" using long(2) by (simp add: mult.commute trans_le_add2)
    have iff: "length (ys @ [t]) \<le> k \<longleftrightarrow> n < 256 ^ k"
      by (metis length_abs_bytes_le long(1) [folded n_def])
    have "n < 256 ^ k" if "n < 128 * 256 ^ k"
    proof -
      from that ge have "(256 :: nat) ^ length ys < 256 ^ k" by linarith
      then have "length ys < k" by simp
      then show ?thesis using iff by simp
    qed
    moreover have "n < 128 * 256 ^ k" if "n < 256 ^ k" using that by simp
    ultimately have "length (ys @ [t]) \<le> k \<longleftrightarrow> n < 128 * 256 ^ k" using iff by blast
    then show "length (scriptnum_serialize v) \<le> Suc k \<longleftrightarrow> n < 128 * 256 ^ k"
      using long(3) by auto
  next
    case (short ys t)
    have eq: "n = le_val ys + 256 ^ length ys * unat t"
      using arg_cong [OF short(1) [folded n_def], of le_val] by (simp add: le_val_append)
    have "256 ^ length ys * unat t + 256 ^ length ys \<le> 256 ^ length ys * (128 :: nat)"
      using short(2) by (metis Suc_leI add.commute mult_Suc_right mult_le_mono2)
    then have lt: "n < 128 * 256 ^ length ys" using eq le_val_less [of ys] by linarith
    have ge: "256 ^ length ys \<le> n"
      using short(3) eq by (simp add: trans_le_add2 Suc_leI unat_gt_0)
    have "length ys \<le> k \<longleftrightarrow> n < 128 * 256 ^ k"
    proof
      assume "length ys \<le> k"
      then have "(256 :: nat) ^ length ys \<le> 256 ^ k" by (intro power_increasing) auto
      with lt show "n < 128 * 256 ^ k" by linarith
    next
      assume "n < 128 * 256 ^ k"
      moreover have "128 * 256 ^ k < (256 :: nat) ^ Suc k" by simp
      ultimately have "(256 :: nat) ^ length ys < 256 ^ Suc k" using ge by linarith
      then have "length ys < Suc k" by (rule power_less_imp_less_exp [rotated]) simp
      then show "length ys \<le> k" by simp
    qed
    then show "length (scriptnum_serialize v) \<le> Suc k \<longleftrightarrow> n < 128 * 256 ^ k"
      using short(4) by simp
  qed
qed (simp add: scriptnum_serialize_def)

lemma serialize_set_vch:
  assumes "minimal_num vch" "length vch \<le> 7"
  shows "scriptnum_serialize (set_vch vch) = vch"
proof (cases vch rule: rev_cases)
  case Nil
  then show ?thesis by (simp add: set_vch_def scriptnum_serialize_def)
next
  case (snoc ys y)
  have len: "length ys \<le> 6" using assms(2) snoc by simp
  define m where "m = le_val (ys @ [y AND 0x7f])"
  have m: "m = (if unat y < 128 then le_val (ys @ [y]) else le_val ys + 256 ^ length ys * (unat y - 128))"
    by (auto simp: m_def le_val_append byte_and_7f byte_mod_128)
  have sv: "set_vch (ys @ [y]) = (if unat y < 128 then int m else - int m)"
    using set_vch_snoc [OF len, of y] by (simp add: m)
  show ?thesis
  proof (cases "y AND 0x7f = 0")
    case False
    have ab: "abs_bytes m = ys @ [y AND 0x7f]"
      unfolding m_def using False by (intro abs_bytes_le_val) simp
    then have pos: "m \<noteq> 0" by (metis abs_bytes_0 append_is_Nil_conv list.distinct(1))
    have lt: "unat (y AND 0x7f) < 128" by (simp add: byte_and_7f)
    have "(y AND 0x7f) OR 0x80 = y" if "\<not> unat y < 128"
    proof -
      have "unat y mod 128 + 128 = unat y" using that byte_mod_128 [of y] by linarith
      then show ?thesis by (simp add: word_unat_eq_iff byte_or_80 [OF lt] byte_and_7f)
    qed
    moreover have "y AND 0x7f = y" if "unat y < 128"
      using that by (simp add: word_unat_eq_iff byte_and_7f)
    ultimately show ?thesis
      using pos ab lt by (auto simp: sv scriptnum_serialize_def Let_def snoc byte_and_80 nat_int)
  next
    case True
    then have y: "y = 0 \<or> y = 0x80" by (simp add: byte_and_7f_0)
    from True assms(1) obtain zs t where ys: "ys = zs @ [t]" and t: "\<not> unat t < 128"
      by (cases ys rule: rev_cases) (auto simp: minimal_num_def snoc nth_append byte_and_80)
    have "m = le_val ys" using True by (simp add: m_def le_val_append)
    moreover have "abs_bytes (le_val ys) = ys" using t by (intro abs_bytes_le_val) (auto simp: ys)
    ultimately have ab: "abs_bytes m = ys" by simp
    then have pos: "m \<noteq> 0" using ys by (metis abs_bytes_0 append_is_Nil_conv list.distinct(1))
    have lst: "last ys AND 0x80 \<noteq> 0" using t by (simp add: ys byte_and_80)
    have "set_vch (ys @ [y]) = (if y = 0 then int m else - int m)"
      unfolding sv using y by auto
    then show ?thesis
      using y pos ab lst by (auto simp: snoc scriptnum_serialize_def Let_def)
  qed
qed

text \<open>The constructor with fRequireMinimal accepts exactly the encodings of the 32-bit range.\<close>

lemma CScriptNum_minimal_iff:
  "CScriptNum vch True = Inr n \<longleftrightarrow> \<bar>n\<bar> < 2 ^ 31 \<and> vch = scriptnum_serialize n"
proof -
  have eq: "CScriptNum vch True = Inr n \<longleftrightarrow> length vch \<le> 4 \<and> minimal_num vch \<and> n = set_vch vch"
    by (auto simp: CScriptNum_def nMaxNumSize_def minimal_num_def)
  have b: "\<bar>n\<bar> < 2 ^ 31 \<longleftrightarrow> length (scriptnum_serialize n) \<le> 4" for n
    using length_serialize [of n 3] by (simp add: eval_nat_numeral)
  show ?thesis
  proof
    assume "CScriptNum vch True = Inr n"
    with eq have v: "length vch \<le> 4" "minimal_num vch" "n = set_vch vch" by auto
    then have "scriptnum_serialize n = vch" by (simp add: serialize_set_vch)
    with v(1) show "\<bar>n\<bar> < 2 ^ 31 \<and> vch = scriptnum_serialize n" unfolding b by simp
  next
    assume a: "\<bar>n\<bar> < 2 ^ 31 \<and> vch = scriptnum_serialize n"
    then have "\<bar>n\<bar> < 2 ^ 47" by simp
    then have "set_vch vch = n" using a set_vch_serialize by blast
    then show "CScriptNum vch True = Inr n"
      using a serialize_minimal unfolding eq b by simp
  qed
qed

section \<open>Range of the arithmetic\<close>

lemma set_vch_range:
  assumes "length vch \<le> 4"
  shows "\<bar>set_vch vch\<bar> < 2 ^ 31"
proof (cases vch rule: rev_cases)
  case Nil
  then show ?thesis by (simp add: set_vch_def)
next
  case (snoc ys y)
  have p: "(256 :: nat) ^ length ys \<le> 256 ^ 3" using assms snoc by (intro power_increasing) auto
  have b: "le_val ys + 256 ^ length ys * t < 2 ^ 31" if "t < 128" for t
  proof -
    have "256 ^ length ys * t + 256 ^ length ys \<le> 256 ^ length ys * (128 :: nat)"
      using that by (metis Suc_leI add.commute mult_Suc_right mult_le_mono2)
    then have "le_val ys + 256 ^ length ys * t < 256 ^ length ys * 128"
      using le_val_less [of ys] by linarith
    also have "\<dots> \<le> 256 ^ 3 * 128" using p by simp
    finally show ?thesis by simp
  qed
  have i: "int n < 2 ^ 31" if "n < 2 ^ 31" for n :: nat using that by simp
  have "set_vch vch = (if unat y < 128 then int (le_val ys + 256 ^ length ys * unat y)
      else - int (le_val ys + 256 ^ length ys * (unat y - 128)))"
    using set_vch_snoc [of ys y] assms snoc by (simp add: le_val_append)
  moreover have "int (le_val ys + 256 ^ length ys * unat y) < 2 ^ 31" if "unat y < 128"
    by (rule i [OF b [OF that]])
  moreover have "int (le_val ys + 256 ^ length ys * (unat y - 128)) < 2 ^ 31"
  proof -
    have y: "unat y - 128 < 128" using unat_byte_less [of y] by linarith
    show ?thesis by (rule i [OF b [OF y]])
  qed
  ultimately show ?thesis by (cases "unat y < 128") (simp_all only: abs_of_nat abs_minus_cancel if_True if_False simp_thms)
qed

lemma CScriptNum_range: "CScriptNum vch req = Inr n \<Longrightarrow> \<bar>n\<bar> < 2 ^ 31"
  using set_vch_range [of vch] by (auto simp: CScriptNum_def nMaxNumSize_def split: if_splits)

lemma CScriptNum_Throw: "CScriptNum vch req = Inl e \<Longrightarrow> e = Throw"
  by (auto simp: CScriptNum_def split: if_splits)

lemma scriptnum_no_abort:
  assumes "\<bar>m\<bar> < 2 ^ 31" "\<bar>r\<bar> < 2 ^ 31"
  shows "scriptnum_neg m = Inr (- m)"
    and "scriptnum_add_assign m r = Inr (m + r)"
    and "scriptnum_sub_assign m r = Inr (m - r)"
  using assms
  by (auto simp: scriptnum_neg_def scriptnum_add_assign_def scriptnum_sub_assign_def
      INT64_MIN_def INT64_MAX_def)

lemma getint_id: "\<bar>n\<bar> < 2 ^ 31 \<Longrightarrow> getint n = n"
  by (auto simp: getint_def INT32_MIN_def INT32_MAX_def)


end
