(* ===== verification/Script.thy ===== *)
theory Script
  imports ScriptNum
begin

text \<open>
  Serialized scripts: class CScript of script/script.h and script/script.cpp.  A script is its
  byte vector; an iterator pc into it is the list of bytes from pc to end(), so that pc < end()
  is \<open>pc \<noteq> []\<close> and end() - pc is the length.  Opcodes are numbers because the code casts any
  byte to opcodetype; the names of the enumeration abbreviate their values.  The lemmas show
  that reading inverts pushing, that every successful read consumes input (so the loops over a
  script end), and what the scanners (signature-operation counts, FindAndDelete, the script
  shape tests) compute.
\<close>

type_synonym opcodetype = nat
type_synonym CScript = bytes

section \<open>Opcodes\<close>

definition MAX_SCRIPT_ELEMENT_SIZE :: nat where "MAX_SCRIPT_ELEMENT_SIZE = 520"

abbreviation (input) OP_0 :: opcodetype where "OP_0 \<equiv> (0x00 :: opcodetype)"
abbreviation (input) OP_FALSE :: opcodetype where "OP_FALSE \<equiv> OP_0"
abbreviation (input) OP_PUSHDATA1 :: opcodetype where "OP_PUSHDATA1 \<equiv> (0x4c :: opcodetype)"
abbreviation (input) OP_PUSHDATA2 :: opcodetype where "OP_PUSHDATA2 \<equiv> (0x4d :: opcodetype)"
abbreviation (input) OP_PUSHDATA4 :: opcodetype where "OP_PUSHDATA4 \<equiv> (0x4e :: opcodetype)"
abbreviation (input) OP_1NEGATE :: opcodetype where "OP_1NEGATE \<equiv> (0x4f :: opcodetype)"
abbreviation (input) OP_RESERVED :: opcodetype where "OP_RESERVED \<equiv> (0x50 :: opcodetype)"
abbreviation (input) OP_1 :: opcodetype where "OP_1 \<equiv> (0x51 :: opcodetype)"
abbreviation (input) OP_TRUE :: opcodetype where "OP_TRUE \<equiv> OP_1"
abbreviation (input) OP_2 :: opcodetype where "OP_2 \<equiv> (0x52 :: opcodetype)"
abbreviation (input) OP_3 :: opcodetype where "OP_3 \<equiv> (0x53 :: opcodetype)"
abbreviation (input) OP_4 :: opcodetype where "OP_4 \<equiv> (0x54 :: opcodetype)"
abbreviation (input) OP_5 :: opcodetype where "OP_5 \<equiv> (0x55 :: opcodetype)"
abbreviation (input) OP_6 :: opcodetype where "OP_6 \<equiv> (0x56 :: opcodetype)"
abbreviation (input) OP_7 :: opcodetype where "OP_7 \<equiv> (0x57 :: opcodetype)"
abbreviation (input) OP_8 :: opcodetype where "OP_8 \<equiv> (0x58 :: opcodetype)"
abbreviation (input) OP_9 :: opcodetype where "OP_9 \<equiv> (0x59 :: opcodetype)"
abbreviation (input) OP_10 :: opcodetype where "OP_10 \<equiv> (0x5a :: opcodetype)"
abbreviation (input) OP_11 :: opcodetype where "OP_11 \<equiv> (0x5b :: opcodetype)"
abbreviation (input) OP_12 :: opcodetype where "OP_12 \<equiv> (0x5c :: opcodetype)"
abbreviation (input) OP_13 :: opcodetype where "OP_13 \<equiv> (0x5d :: opcodetype)"
abbreviation (input) OP_14 :: opcodetype where "OP_14 \<equiv> (0x5e :: opcodetype)"
abbreviation (input) OP_15 :: opcodetype where "OP_15 \<equiv> (0x5f :: opcodetype)"
abbreviation (input) OP_16 :: opcodetype where "OP_16 \<equiv> (0x60 :: opcodetype)"
abbreviation (input) OP_NOP :: opcodetype where "OP_NOP \<equiv> (0x61 :: opcodetype)"
abbreviation (input) OP_VER :: opcodetype where "OP_VER \<equiv> (0x62 :: opcodetype)"
abbreviation (input) OP_IF :: opcodetype where "OP_IF \<equiv> (0x63 :: opcodetype)"
abbreviation (input) OP_NOTIF :: opcodetype where "OP_NOTIF \<equiv> (0x64 :: opcodetype)"
abbreviation (input) OP_VERIF :: opcodetype where "OP_VERIF \<equiv> (0x65 :: opcodetype)"
abbreviation (input) OP_VERNOTIF :: opcodetype where "OP_VERNOTIF \<equiv> (0x66 :: opcodetype)"
abbreviation (input) OP_ELSE :: opcodetype where "OP_ELSE \<equiv> (0x67 :: opcodetype)"
abbreviation (input) OP_ENDIF :: opcodetype where "OP_ENDIF \<equiv> (0x68 :: opcodetype)"
abbreviation (input) OP_VERIFY :: opcodetype where "OP_VERIFY \<equiv> (0x69 :: opcodetype)"
abbreviation (input) OP_RETURN :: opcodetype where "OP_RETURN \<equiv> (0x6a :: opcodetype)"
abbreviation (input) OP_TOALTSTACK :: opcodetype where "OP_TOALTSTACK \<equiv> (0x6b :: opcodetype)"
abbreviation (input) OP_FROMALTSTACK :: opcodetype where "OP_FROMALTSTACK \<equiv> (0x6c :: opcodetype)"
abbreviation (input) OP_2DROP :: opcodetype where "OP_2DROP \<equiv> (0x6d :: opcodetype)"
abbreviation (input) OP_2DUP :: opcodetype where "OP_2DUP \<equiv> (0x6e :: opcodetype)"
abbreviation (input) OP_3DUP :: opcodetype where "OP_3DUP \<equiv> (0x6f :: opcodetype)"
abbreviation (input) OP_2OVER :: opcodetype where "OP_2OVER \<equiv> (0x70 :: opcodetype)"
abbreviation (input) OP_2ROT :: opcodetype where "OP_2ROT \<equiv> (0x71 :: opcodetype)"
abbreviation (input) OP_2SWAP :: opcodetype where "OP_2SWAP \<equiv> (0x72 :: opcodetype)"
abbreviation (input) OP_IFDUP :: opcodetype where "OP_IFDUP \<equiv> (0x73 :: opcodetype)"
abbreviation (input) OP_DEPTH :: opcodetype where "OP_DEPTH \<equiv> (0x74 :: opcodetype)"
abbreviation (input) OP_DROP :: opcodetype where "OP_DROP \<equiv> (0x75 :: opcodetype)"
abbreviation (input) OP_DUP :: opcodetype where "OP_DUP \<equiv> (0x76 :: opcodetype)"
abbreviation (input) OP_NIP :: opcodetype where "OP_NIP \<equiv> (0x77 :: opcodetype)"
abbreviation (input) OP_OVER :: opcodetype where "OP_OVER \<equiv> (0x78 :: opcodetype)"
abbreviation (input) OP_PICK :: opcodetype where "OP_PICK \<equiv> (0x79 :: opcodetype)"
abbreviation (input) OP_ROLL :: opcodetype where "OP_ROLL \<equiv> (0x7a :: opcodetype)"
abbreviation (input) OP_ROT :: opcodetype where "OP_ROT \<equiv> (0x7b :: opcodetype)"
abbreviation (input) OP_SWAP :: opcodetype where "OP_SWAP \<equiv> (0x7c :: opcodetype)"
abbreviation (input) OP_TUCK :: opcodetype where "OP_TUCK \<equiv> (0x7d :: opcodetype)"
abbreviation (input) OP_CAT :: opcodetype where "OP_CAT \<equiv> (0x7e :: opcodetype)"
abbreviation (input) OP_SUBSTR :: opcodetype where "OP_SUBSTR \<equiv> (0x7f :: opcodetype)"
abbreviation (input) OP_LEFT :: opcodetype where "OP_LEFT \<equiv> (0x80 :: opcodetype)"
abbreviation (input) OP_RIGHT :: opcodetype where "OP_RIGHT \<equiv> (0x81 :: opcodetype)"
abbreviation (input) OP_SIZE :: opcodetype where "OP_SIZE \<equiv> (0x82 :: opcodetype)"
abbreviation (input) OP_INVERT :: opcodetype where "OP_INVERT \<equiv> (0x83 :: opcodetype)"
abbreviation (input) OP_AND :: opcodetype where "OP_AND \<equiv> (0x84 :: opcodetype)"
abbreviation (input) OP_OR :: opcodetype where "OP_OR \<equiv> (0x85 :: opcodetype)"
abbreviation (input) OP_XOR :: opcodetype where "OP_XOR \<equiv> (0x86 :: opcodetype)"
abbreviation (input) OP_EQUAL :: opcodetype where "OP_EQUAL \<equiv> (0x87 :: opcodetype)"
abbreviation (input) OP_EQUALVERIFY :: opcodetype where "OP_EQUALVERIFY \<equiv> (0x88 :: opcodetype)"
abbreviation (input) OP_RESERVED1 :: opcodetype where "OP_RESERVED1 \<equiv> (0x89 :: opcodetype)"
abbreviation (input) OP_RESERVED2 :: opcodetype where "OP_RESERVED2 \<equiv> (0x8a :: opcodetype)"
abbreviation (input) OP_1ADD :: opcodetype where "OP_1ADD \<equiv> (0x8b :: opcodetype)"
abbreviation (input) OP_1SUB :: opcodetype where "OP_1SUB \<equiv> (0x8c :: opcodetype)"
abbreviation (input) OP_2MUL :: opcodetype where "OP_2MUL \<equiv> (0x8d :: opcodetype)"
abbreviation (input) OP_2DIV :: opcodetype where "OP_2DIV \<equiv> (0x8e :: opcodetype)"
abbreviation (input) OP_NEGATE :: opcodetype where "OP_NEGATE \<equiv> (0x8f :: opcodetype)"
abbreviation (input) OP_ABS :: opcodetype where "OP_ABS \<equiv> (0x90 :: opcodetype)"
abbreviation (input) OP_NOT :: opcodetype where "OP_NOT \<equiv> (0x91 :: opcodetype)"
abbreviation (input) OP_0NOTEQUAL :: opcodetype where "OP_0NOTEQUAL \<equiv> (0x92 :: opcodetype)"
abbreviation (input) OP_ADD :: opcodetype where "OP_ADD \<equiv> (0x93 :: opcodetype)"
abbreviation (input) OP_SUB :: opcodetype where "OP_SUB \<equiv> (0x94 :: opcodetype)"
abbreviation (input) OP_MUL :: opcodetype where "OP_MUL \<equiv> (0x95 :: opcodetype)"
abbreviation (input) OP_DIV :: opcodetype where "OP_DIV \<equiv> (0x96 :: opcodetype)"
abbreviation (input) OP_MOD :: opcodetype where "OP_MOD \<equiv> (0x97 :: opcodetype)"
abbreviation (input) OP_LSHIFT :: opcodetype where "OP_LSHIFT \<equiv> (0x98 :: opcodetype)"
abbreviation (input) OP_RSHIFT :: opcodetype where "OP_RSHIFT \<equiv> (0x99 :: opcodetype)"
abbreviation (input) OP_BOOLAND :: opcodetype where "OP_BOOLAND \<equiv> (0x9a :: opcodetype)"
abbreviation (input) OP_BOOLOR :: opcodetype where "OP_BOOLOR \<equiv> (0x9b :: opcodetype)"
abbreviation (input) OP_NUMEQUAL :: opcodetype where "OP_NUMEQUAL \<equiv> (0x9c :: opcodetype)"
abbreviation (input) OP_NUMEQUALVERIFY :: opcodetype where "OP_NUMEQUALVERIFY \<equiv> (0x9d :: opcodetype)"
abbreviation (input) OP_NUMNOTEQUAL :: opcodetype where "OP_NUMNOTEQUAL \<equiv> (0x9e :: opcodetype)"
abbreviation (input) OP_LESSTHAN :: opcodetype where "OP_LESSTHAN \<equiv> (0x9f :: opcodetype)"
abbreviation (input) OP_GREATERTHAN :: opcodetype where "OP_GREATERTHAN \<equiv> (0xa0 :: opcodetype)"
abbreviation (input) OP_LESSTHANOREQUAL :: opcodetype where "OP_LESSTHANOREQUAL \<equiv> (0xa1 :: opcodetype)"
abbreviation (input) OP_GREATERTHANOREQUAL :: opcodetype where "OP_GREATERTHANOREQUAL \<equiv> (0xa2 :: opcodetype)"
abbreviation (input) OP_MIN :: opcodetype where "OP_MIN \<equiv> (0xa3 :: opcodetype)"
abbreviation (input) OP_MAX :: opcodetype where "OP_MAX \<equiv> (0xa4 :: opcodetype)"
abbreviation (input) OP_WITHIN :: opcodetype where "OP_WITHIN \<equiv> (0xa5 :: opcodetype)"
abbreviation (input) OP_RIPEMD160 :: opcodetype where "OP_RIPEMD160 \<equiv> (0xa6 :: opcodetype)"
abbreviation (input) OP_SHA1 :: opcodetype where "OP_SHA1 \<equiv> (0xa7 :: opcodetype)"
abbreviation (input) OP_SHA256 :: opcodetype where "OP_SHA256 \<equiv> (0xa8 :: opcodetype)"
abbreviation (input) OP_HASH160 :: opcodetype where "OP_HASH160 \<equiv> (0xa9 :: opcodetype)"
abbreviation (input) OP_HASH256 :: opcodetype where "OP_HASH256 \<equiv> (0xaa :: opcodetype)"
abbreviation (input) OP_CODESEPARATOR :: opcodetype where "OP_CODESEPARATOR \<equiv> (0xab :: opcodetype)"
abbreviation (input) OP_CHECKSIG :: opcodetype where "OP_CHECKSIG \<equiv> (0xac :: opcodetype)"
abbreviation (input) OP_CHECKSIGVERIFY :: opcodetype where "OP_CHECKSIGVERIFY \<equiv> (0xad :: opcodetype)"
abbreviation (input) OP_CHECKMULTISIG :: opcodetype where "OP_CHECKMULTISIG \<equiv> (0xae :: opcodetype)"
abbreviation (input) OP_CHECKMULTISIGVERIFY :: opcodetype where "OP_CHECKMULTISIGVERIFY \<equiv> (0xaf :: opcodetype)"
abbreviation (input) OP_NOP1 :: opcodetype where "OP_NOP1 \<equiv> (0xb0 :: opcodetype)"
abbreviation (input) OP_NOP2 :: opcodetype where "OP_NOP2 \<equiv> (0xb1 :: opcodetype)"
abbreviation (input) OP_NOP3 :: opcodetype where "OP_NOP3 \<equiv> (0xb2 :: opcodetype)"
abbreviation (input) OP_NOP4 :: opcodetype where "OP_NOP4 \<equiv> (0xb3 :: opcodetype)"
abbreviation (input) OP_NOP5 :: opcodetype where "OP_NOP5 \<equiv> (0xb4 :: opcodetype)"
abbreviation (input) OP_NOP6 :: opcodetype where "OP_NOP6 \<equiv> (0xb5 :: opcodetype)"
abbreviation (input) OP_NOP7 :: opcodetype where "OP_NOP7 \<equiv> (0xb6 :: opcodetype)"
abbreviation (input) OP_NOP8 :: opcodetype where "OP_NOP8 \<equiv> (0xb7 :: opcodetype)"
abbreviation (input) OP_NOP9 :: opcodetype where "OP_NOP9 \<equiv> (0xb8 :: opcodetype)"
abbreviation (input) OP_NOP10 :: opcodetype where "OP_NOP10 \<equiv> (0xb9 :: opcodetype)"
abbreviation (input) OP_ZEROCOINMINT :: opcodetype where "OP_ZEROCOINMINT \<equiv> (0xc1 :: opcodetype)"
abbreviation (input) OP_ZEROCOINSPEND :: opcodetype where "OP_ZEROCOINSPEND \<equiv> (0xc2 :: opcodetype)"
abbreviation (input) OP_SMALLINTEGER :: opcodetype where "OP_SMALLINTEGER \<equiv> (0xfa :: opcodetype)"
abbreviation (input) OP_PUBKEYS :: opcodetype where "OP_PUBKEYS \<equiv> (0xfb :: opcodetype)"
abbreviation (input) OP_PUBKEYHASH :: opcodetype where "OP_PUBKEYHASH \<equiv> (0xfd :: opcodetype)"
abbreviation (input) OP_PUBKEY :: opcodetype where "OP_PUBKEY \<equiv> (0xfe :: opcodetype)"
abbreviation (input) OP_INVALIDOPCODE :: opcodetype where "OP_INVALIDOPCODE \<equiv> (0xff :: opcodetype)"

definition op_names :: "(opcodetype \<times> string) list" where
  "op_names =
   [
    (OP_0, ''0''), (OP_PUSHDATA1, ''OP_PUSHDATA1''),
    (OP_PUSHDATA2, ''OP_PUSHDATA2''), (OP_PUSHDATA4, ''OP_PUSHDATA4''),
    (OP_1NEGATE, ''-1''), (OP_RESERVED, ''OP_RESERVED''),
    (OP_1, ''1''), (OP_2, ''2''),
    (OP_3, ''3''), (OP_4, ''4''),
    (OP_5, ''5''), (OP_6, ''6''),
    (OP_7, ''7''), (OP_8, ''8''),
    (OP_9, ''9''), (OP_10, ''10''),
    (OP_11, ''11''), (OP_12, ''12''),
    (OP_13, ''13''), (OP_14, ''14''),
    (OP_15, ''15''), (OP_16, ''16''),
    (OP_NOP, ''OP_NOP''), (OP_VER, ''OP_VER''),
    (OP_IF, ''OP_IF''), (OP_NOTIF, ''OP_NOTIF''),
    (OP_VERIF, ''OP_VERIF''), (OP_VERNOTIF, ''OP_VERNOTIF''),
    (OP_ELSE, ''OP_ELSE''), (OP_ENDIF, ''OP_ENDIF''),
    (OP_VERIFY, ''OP_VERIFY''), (OP_RETURN, ''OP_RETURN''),
    (OP_TOALTSTACK, ''OP_TOALTSTACK''), (OP_FROMALTSTACK, ''OP_FROMALTSTACK''),
    (OP_2DROP, ''OP_2DROP''), (OP_2DUP, ''OP_2DUP''),
    (OP_3DUP, ''OP_3DUP''), (OP_2OVER, ''OP_2OVER''),
    (OP_2ROT, ''OP_2ROT''), (OP_2SWAP, ''OP_2SWAP''),
    (OP_IFDUP, ''OP_IFDUP''), (OP_DEPTH, ''OP_DEPTH''),
    (OP_DROP, ''OP_DROP''), (OP_DUP, ''OP_DUP''),
    (OP_NIP, ''OP_NIP''), (OP_OVER, ''OP_OVER''),
    (OP_PICK, ''OP_PICK''), (OP_ROLL, ''OP_ROLL''),
    (OP_ROT, ''OP_ROT''), (OP_SWAP, ''OP_SWAP''),
    (OP_TUCK, ''OP_TUCK''), (OP_CAT, ''OP_CAT''),
    (OP_SUBSTR, ''OP_SUBSTR''), (OP_LEFT, ''OP_LEFT''),
    (OP_RIGHT, ''OP_RIGHT''), (OP_SIZE, ''OP_SIZE''),
    (OP_INVERT, ''OP_INVERT''), (OP_AND, ''OP_AND''),
    (OP_OR, ''OP_OR''), (OP_XOR, ''OP_XOR''),
    (OP_EQUAL, ''OP_EQUAL''), (OP_EQUALVERIFY, ''OP_EQUALVERIFY''),
    (OP_RESERVED1, ''OP_RESERVED1''), (OP_RESERVED2, ''OP_RESERVED2''),
    (OP_1ADD, ''OP_1ADD''), (OP_1SUB, ''OP_1SUB''),
    (OP_2MUL, ''OP_2MUL''), (OP_2DIV, ''OP_2DIV''),
    (OP_NEGATE, ''OP_NEGATE''), (OP_ABS, ''OP_ABS''),
    (OP_NOT, ''OP_NOT''), (OP_0NOTEQUAL, ''OP_0NOTEQUAL''),
    (OP_ADD, ''OP_ADD''), (OP_SUB, ''OP_SUB''),
    (OP_MUL, ''OP_MUL''), (OP_DIV, ''OP_DIV''),
    (OP_MOD, ''OP_MOD''), (OP_LSHIFT, ''OP_LSHIFT''),
    (OP_RSHIFT, ''OP_RSHIFT''), (OP_BOOLAND, ''OP_BOOLAND''),
    (OP_BOOLOR, ''OP_BOOLOR''), (OP_NUMEQUAL, ''OP_NUMEQUAL''),
    (OP_NUMEQUALVERIFY, ''OP_NUMEQUALVERIFY''), (OP_NUMNOTEQUAL, ''OP_NUMNOTEQUAL''),
    (OP_LESSTHAN, ''OP_LESSTHAN''), (OP_GREATERTHAN, ''OP_GREATERTHAN''),
    (OP_LESSTHANOREQUAL, ''OP_LESSTHANOREQUAL''), (OP_GREATERTHANOREQUAL, ''OP_GREATERTHANOREQUAL''),
    (OP_MIN, ''OP_MIN''), (OP_MAX, ''OP_MAX''),
    (OP_WITHIN, ''OP_WITHIN''), (OP_RIPEMD160, ''OP_RIPEMD160''),
    (OP_SHA1, ''OP_SHA1''), (OP_SHA256, ''OP_SHA256''),
    (OP_HASH160, ''OP_HASH160''), (OP_HASH256, ''OP_HASH256''),
    (OP_CODESEPARATOR, ''OP_CODESEPARATOR''), (OP_CHECKSIG, ''OP_CHECKSIG''),
    (OP_CHECKSIGVERIFY, ''OP_CHECKSIGVERIFY''), (OP_CHECKMULTISIG, ''OP_CHECKMULTISIG''),
    (OP_CHECKMULTISIGVERIFY, ''OP_CHECKMULTISIGVERIFY''), (OP_NOP1, ''OP_NOP1''),
    (OP_NOP2, ''OP_NOP2''), (OP_NOP3, ''OP_NOP3''),
    (OP_NOP4, ''OP_NOP4''), (OP_NOP5, ''OP_NOP5''),
    (OP_NOP6, ''OP_NOP6''), (OP_NOP7, ''OP_NOP7''),
    (OP_NOP8, ''OP_NOP8''), (OP_NOP9, ''OP_NOP9''),
    (OP_NOP10, ''OP_NOP10''), (OP_ZEROCOINMINT, ''OP_ZEROCOINMINT''),
    (OP_ZEROCOINSPEND, ''OP_ZEROCOINSPEND''), (OP_INVALIDOPCODE, ''OP_INVALIDOPCODE'')
   ]"

definition GetOpName :: "opcodetype \<Rightarrow> string" where
  "GetOpName opcode = (case map_of op_names opcode of Some s \<Rightarrow> s | None \<Rightarrow> ''OP_UNKNOWN'')"

section \<open>Reading and writing operations\<close>

text \<open>The size of an immediate operand and the position after the size bytes.\<close>

definition push_size :: "opcodetype \<Rightarrow> bytes \<Rightarrow> (nat \<times> bytes) option" where
  "push_size opcode pc =
     (if opcode < OP_PUSHDATA1 then Some (opcode, pc)
      else if opcode = OP_PUSHDATA1 then
        (if length pc < 1 then None else Some (le_val (take 1 pc), drop 1 pc))
      else if opcode = OP_PUSHDATA2 then
        (if length pc < 2 then None else Some (le_val (take 2 pc), drop 2 pc))
      else
        (if length pc < 4 then None else Some (le_val (take 4 pc), drop 4 pc)))"

text \<open>GetOp2 returns (fRet, opcodeRet, *pvchRet, pc); on failure pc may have moved.\<close>

fun GetOp2 :: "bytes \<Rightarrow> bool \<times> opcodetype \<times> valtype \<times> bytes" where
  "GetOp2 [] = (False, OP_INVALIDOPCODE, [], [])"
| "GetOp2 (b # pc) =
     (let opcode = unat b in
      if opcode \<le> OP_PUSHDATA4 then
        (case push_size opcode pc of
           None \<Rightarrow> (False, OP_INVALIDOPCODE, [], pc)
         | Some (nSize, pc') \<Rightarrow>
             if length pc' < nSize then (False, OP_INVALIDOPCODE, [], pc')
             else (True, opcode, take nSize pc', drop nSize pc'))
      else (True, opcode, [], pc))"

declare GetOp2.simps(2) [simp del]

text \<open>The overloads without the data argument.\<close>

definition GetOp :: "bytes \<Rightarrow> bool \<times> opcodetype \<times> bytes" where
  "GetOp pc = (case GetOp2 pc of (fRet, opcode, vch, pc') \<Rightarrow> (fRet, opcode, pc'))"

definition push_opcode :: "CScript \<Rightarrow> opcodetype \<Rightarrow> fault + CScript" where
  "push_opcode s opcode = (if opcode > 0xff then Inl Throw else Inr (s @ [of_nat opcode]))"

definition push_data :: "bytes \<Rightarrow> bytes" where
  "push_data b =
     (if length b < OP_PUSHDATA1 then [of_nat (length b)]
      else if length b \<le> 0xff then [of_nat OP_PUSHDATA1, of_nat (length b)]
      else if length b \<le> 0xffff then of_nat OP_PUSHDATA2 # le_bytes 2 (length b)
      else of_nat OP_PUSHDATA4 # le_bytes 4 (length b)) @ b"

definition push_vector :: "CScript \<Rightarrow> bytes \<Rightarrow> CScript" where
  "push_vector s b = s @ push_data b"

definition push_scriptnum :: "CScript \<Rightarrow> int \<Rightarrow> CScript" where
  "push_scriptnum s n = push_vector s (scriptnum_serialize n)"

definition push_int64 :: "CScript \<Rightarrow> int \<Rightarrow> CScript" where
  "push_int64 s n =
     (if n = -1 \<or> (n \<ge> 1 \<and> n \<le> 16) then s @ [of_int (n + (int OP_1 - 1))]
      else if n = 0 then s @ [of_nat OP_0]
      else push_vector s (scriptnum_serialize n))"

definition script_append :: "CScript \<Rightarrow> CScript \<Rightarrow> CScript" where
  "script_append a b = a @ b"

definition DecodeOP_N :: "opcodetype \<Rightarrow> fault + nat" where
  "DecodeOP_N opcode =
     (if opcode = OP_0 then Inr 0
      else if opcode \<ge> OP_1 \<and> opcode \<le> OP_16 then Inr (opcode - (OP_1 - 1))
      else Inl Abort)"

definition EncodeOP_N :: "int \<Rightarrow> fault + opcodetype" where
  "EncodeOP_N n =
     (if n \<ge> 0 \<and> n \<le> 16 then (if n = 0 then Inr OP_0 else Inr (OP_1 + nat n - 1))
      else Inl Abort)"

section \<open>Every successful read consumes input\<close>

lemma push_size_length: "push_size opcode pc = Some (n, pc') \<Longrightarrow> length pc' \<le> length pc"
  by (auto simp: push_size_def split: if_splits)

lemma GetOp2_length: "GetOp2 pc = (f, opc, vch, pc') \<Longrightarrow> pc \<noteq> [] \<Longrightarrow> length pc' < length pc"
  by (cases pc) (auto simp: GetOp2.simps(2) Let_def dest!: push_size_length
      split: if_splits option.splits)

lemma GetOp_length [termination_simp]:
  "(True, opc, pc') = GetOp pc \<Longrightarrow> length pc' < length pc"
  by (cases pc; cases "GetOp2 pc") (auto simp: GetOp_def dest: GetOp2_length)

lemma GetOp_length_nonempty [termination_simp]:
  "(f, opc, pc') = GetOp (b # pc) \<Longrightarrow> length pc' < Suc (length pc)"
  by (cases "GetOp2 (b # pc)") (auto simp: GetOp_def dest: GetOp2_length)

section \<open>Scanning a script\<close>

text \<open>FindAndDelete: the inner loop that erases copies of b at pc, then the outer loop.\<close>

function erase_copies :: "bytes \<Rightarrow> bytes \<Rightarrow> bytes \<times> nat" where
  "erase_copies b pc =
     (if b \<noteq> [] \<and> length pc \<ge> length b \<and> take (length b) pc = b
      then (case erase_copies b (drop (length b) pc) of (r, n) \<Rightarrow> (r, Suc n))
      else (pc, 0))"
  by pat_completeness auto
termination
  by (relation "measure (length \<circ> snd)") (auto simp flip: length_greater_0_conv)

declare erase_copies.simps [simp del]

lemma erase_copies_length:
  "erase_copies b pc = (r, n) \<Longrightarrow> length r + n * length b = length pc"
proof (induction b pc arbitrary: r n rule: erase_copies.induct)
  case (1 b pc)
  then show ?case
    by (subst (asm) (2) erase_copies.simps) (auto split: if_splits prod.splits)
qed

function find_and_delete_loop :: "bytes \<Rightarrow> bytes \<Rightarrow> bytes \<times> nat" where
  "find_and_delete_loop b pc =
     (case erase_copies b pc of (pc1, n) \<Rightarrow>
        (case GetOp pc1 of (fRet, opcode, pc2) \<Rightarrow>
           if fRet then
             (case find_and_delete_loop b pc2 of
                (r, m) \<Rightarrow> (take (length pc1 - length pc2) pc1 @ r, n + m))
           else (pc1, n)))"
  by pat_completeness auto
termination
  by (relation "measure (\<lambda>(b, pc). length pc)")
    (auto dest!: erase_copies_length [OF sym] GetOp_length)

declare find_and_delete_loop.simps [simp del]

definition FindAndDelete :: "CScript \<Rightarrow> CScript \<Rightarrow> CScript \<times> nat" where
  "FindAndDelete script b = (if b = [] then (script, 0) else find_and_delete_loop b script)"

function Find :: "CScript \<Rightarrow> opcodetype \<Rightarrow> nat" where
  "Find pc op =
     (if pc = [] then 0
      else case GetOp pc of (fRet, opcode, pc') \<Rightarrow>
        if fRet then (if opcode = op then 1 else 0) + Find pc' op else 0)"
  by pat_completeness auto
termination
  by (relation "measure (length \<circ> fst)") (auto intro: GetOp_length)

declare Find.simps [simp del]

text \<open>GetSigOpCount(bool): the loop carries lastOpcode and the count n, both unsigned int.\<close>

function sigop_loop :: "bool \<Rightarrow> opcodetype \<Rightarrow> bytes \<Rightarrow> nat" where
  "sigop_loop fAccurate lastOpcode pc =
     (if pc = [] then 0
      else case GetOp pc of (fRet, opcode, pc') \<Rightarrow>
        if \<not> fRet then 0
        else
          (if opcode = OP_CHECKSIG \<or> opcode = OP_CHECKSIGVERIFY then 1
           else if opcode = OP_CHECKMULTISIG \<or> opcode = OP_CHECKMULTISIGVERIFY then
             (if fAccurate \<and> lastOpcode \<ge> OP_1 \<and> lastOpcode \<le> OP_16
              then (case DecodeOP_N lastOpcode of Inr k \<Rightarrow> k | Inl _ \<Rightarrow> 0)
              else 20)
           else 0)
          + sigop_loop fAccurate opcode pc')"
  by pat_completeness auto
termination
  by (relation "measure (\<lambda>(a, l, pc). length pc)") (auto intro: GetOp_length)

declare sigop_loop.simps [simp del]

definition GetSigOpCount :: "CScript \<Rightarrow> bool \<Rightarrow> nat" where
  "GetSigOpCount script fAccurate = sigop_loop fAccurate OP_INVALIDOPCODE script"

definition IsPayToScriptHash :: "CScript \<Rightarrow> bool" where
  "IsPayToScriptHash s \<longleftrightarrow>
     length s = 23 \<and> unat (s ! 0) = OP_HASH160 \<and> s ! 1 = 0x14 \<and> unat (s ! 22) = OP_EQUAL"

text \<open>The loop of GetSigOpCount(scriptSig): the last item pushed, None for the early returns.\<close>

function last_push :: "valtype \<Rightarrow> bytes \<Rightarrow> valtype option" where
  "last_push data pc =
     (if pc = [] then Some data
      else case GetOp2 pc of (fRet, opcode, data', pc') \<Rightarrow>
        if \<not> fRet \<or> opcode > OP_16 then None else last_push data' pc')"
  by pat_completeness auto
termination
  by (relation "measure (length \<circ> snd)") (auto dest: GetOp2_length [OF sym])

declare last_push.simps [simp del]

definition GetSigOpCount_P2SH :: "CScript \<Rightarrow> CScript \<Rightarrow> nat" where
  "GetSigOpCount_P2SH script scriptSig =
     (if \<not> IsPayToScriptHash script then GetSigOpCount script True
      else case last_push [] scriptSig of
        None \<Rightarrow> 0
      | Some subscript \<Rightarrow> GetSigOpCount subscript True)"

function normal_payment_loop :: "nat \<Rightarrow> bytes \<Rightarrow> bool" where
  "normal_payment_loop i pc =
     (if pc = [] then True
      else case GetOp pc of (fRet, opcode, pc') \<Rightarrow>
        if i = 0 \<and> opcode \<noteq> OP_DUP then False
        else if i = 1 \<and> opcode \<noteq> OP_HASH160 then False
        else if i = 3 \<and> opcode \<noteq> OP_EQUALVERIFY then False
        else if i = 4 \<and> opcode \<noteq> OP_CHECKSIG then False
        else if i = 5 then False
        else normal_payment_loop (Suc i) pc')"
  by pat_completeness auto
termination
  by (relation "measure (length \<circ> snd)") (auto simp: neq_Nil_conv dest: GetOp_length_nonempty)

declare normal_payment_loop.simps [simp del]

definition IsNormalPaymentScript :: "CScript \<Rightarrow> bool" where
  "IsNormalPaymentScript s = (if length s \<noteq> 25 then False else normal_payment_loop 0 s)"

definition IsZerocoinMint :: "CScript \<Rightarrow> bool" where
  "IsZerocoinMint s \<longleftrightarrow> length s > 0 \<and> unat (s ! 0) = OP_ZEROCOINMINT"

definition IsZerocoinSpend :: "CScript \<Rightarrow> bool" where
  "IsZerocoinSpend s = (if s = [] then False else unat (s ! 0) = OP_ZEROCOINSPEND)"

function IsPushOnly :: "bytes \<Rightarrow> bool" where
  "IsPushOnly pc =
     (if pc = [] then True
      else case GetOp pc of (fRet, opcode, pc') \<Rightarrow>
        if \<not> fRet then False else if opcode > OP_16 then False else IsPushOnly pc')"
  by pat_completeness auto
termination
  by (relation "measure length") (auto intro: GetOp_length)

declare IsPushOnly.simps [simp del]

definition IsUnspendable :: "CScript \<Rightarrow> bool" where
  "IsUnspendable s \<longleftrightarrow> length s > 0 \<and> unat (s ! 0) = OP_RETURN"

section \<open>Reading inverts pushing\<close>

definition push_op :: "bytes \<Rightarrow> opcodetype" where
  "push_op b = (if length b < OP_PUSHDATA1 then length b
     else if length b \<le> 0xff then OP_PUSHDATA1
     else if length b \<le> 0xffff then OP_PUSHDATA2 else OP_PUSHDATA4)"

lemma push_op_le [simp]: "push_op b \<le> OP_PUSHDATA4"
  by (simp add: push_op_def)

lemma of_nat_byte_eq: "n < 256 \<Longrightarrow> unat (of_nat n :: byte) = n"
  by (simp add: unat_of_nat_byte)

lemma take_le_bytes [simp]: "take n (le_bytes n v @ xs) = le_bytes n v"
  by (simp add: take_append_eq)

lemma drop_le_bytes [simp]: "drop n (le_bytes n v @ xs) = xs"
  by (simp add: drop_append_eq)

lemma GetOp2_push_data:
  assumes "length b < 2 ^ 32"
  shows "GetOp2 (push_data b @ rest) = (True, push_op b, b, rest)"
proof -
  consider (direct) "length b < OP_PUSHDATA1" | (one) "OP_PUSHDATA1 \<le> length b" "length b \<le> 0xff"
    | (two) "0xff < length b" "length b \<le> 0xffff" | (four) "0xffff < length b" by linarith
  then show ?thesis
  proof cases
    case direct
    then show ?thesis
      by (simp add: push_data_def push_op_def GetOp2.simps(2) push_size_def of_nat_byte_eq)
  next
    case one
    then show ?thesis
      by (simp add: push_data_def push_op_def GetOp2.simps(2) push_size_def of_nat_byte_eq)
  next
    case two
    have v: "le_val (le_bytes 2 (length b)) = length b"
      using two by (simp add: le_val_le_bytes)
    from two show ?thesis
      by (simp add: push_data_def push_op_def GetOp2.simps(2) push_size_def v del: le_bytes.simps)
  next
    case four
    have v: "le_val (le_bytes 4 (length b)) = length b"
      using assms by (simp add: le_val_le_bytes)
    from four show ?thesis
      by (simp add: push_data_def push_op_def GetOp2.simps(2) push_size_def v del: le_bytes.simps)
  qed
qed

lemma GetOp2_op:
  "OP_PUSHDATA4 < opc \<Longrightarrow> opc < 256 \<Longrightarrow> GetOp2 (of_nat opc # rest) = (True, opc, [], rest)"
  by (simp add: GetOp2.simps(2) of_nat_byte_eq)

text \<open>
  The abstract view of a script: the list of its operations.  \<open>assemble\<close> writes each the way the
  stream operators do, \<open>disassemble\<close> is the loop every scanner of the code runs.
\<close>

datatype instr = Push bytes | Op opcodetype

fun instr_ok :: "instr \<Rightarrow> bool" where
  "instr_ok (Push b) = (length b < 2 ^ 32)"
| "instr_ok (Op opc) = (OP_PUSHDATA4 < opc \<and> opc < 256)"

fun instr_bytes :: "instr \<Rightarrow> bytes" where
  "instr_bytes (Push b) = push_data b"
| "instr_bytes (Op opc) = [of_nat opc]"

fun instr_read :: "instr \<Rightarrow> opcodetype \<times> valtype" where
  "instr_read (Push b) = (push_op b, b)"
| "instr_read (Op opc) = (opc, [])"

definition assemble :: "instr list \<Rightarrow> CScript" where
  "assemble is = concat (map instr_bytes is)"

function disassemble :: "bytes \<Rightarrow> (opcodetype \<times> valtype) list option" where
  "disassemble pc =
     (if pc = [] then Some []
      else case GetOp2 pc of (fRet, opcode, vch, pc') \<Rightarrow>
        if fRet then map_option (\<lambda>r. (opcode, vch) # r) (disassemble pc') else None)"
  by pat_completeness auto
termination
  by (relation "measure length") (auto dest: GetOp2_length [OF sym])

declare disassemble.simps [simp del]

lemma assemble_Nil [simp]: "assemble [] = []"
  by (simp add: assemble_def)

lemma assemble_Cons [simp]: "assemble (i # is) = instr_bytes i @ assemble is"
  by (simp add: assemble_def)

lemma push_data_nonempty [simp]: "push_data b \<noteq> []"
  by (simp add: push_data_def)

lemma instr_bytes_nonempty [simp]: "instr_bytes i \<noteq> []"
  by (cases i) auto

lemma GetOp2_instr:
  "instr_ok i \<Longrightarrow> GetOp2 (instr_bytes i @ rest) = (True, fst (instr_read i), snd (instr_read i), rest)"
  by (cases i) (auto simp: GetOp2_push_data GetOp2_op)

lemma GetOp_instr:
  "instr_ok i \<Longrightarrow> GetOp (instr_bytes i @ rest) = (True, fst (instr_read i), rest)"
  by (simp add: GetOp_def GetOp2_instr)

lemma disassemble_assemble:
  "\<forall>i \<in> set is. instr_ok i \<Longrightarrow> disassemble (assemble is) = Some (map instr_read is)"
proof (induction "is")
  case Nil
  then show ?case by (simp add: disassemble.simps)
next
  case (Cons i "is")
  then show ?case by (subst disassemble.simps) (simp add: GetOp2_instr)
qed

lemma assemble_inj:
  assumes "\<forall>i \<in> set is. instr_ok i" "\<forall>i \<in> set js. instr_ok i" "assemble is = assemble js"
  shows "map instr_read is = map instr_read js"
  using disassemble_assemble [OF assms(1)] disassemble_assemble [OF assms(2)] assms(3) by simp

section \<open>The scanners in terms of the operations\<close>

lemma IsPushOnly_iff:
  "IsPushOnly pc \<longleftrightarrow> (\<exists>xs. disassemble pc = Some xs \<and> (\<forall>(opc, d) \<in> set xs. opc \<le> OP_16))"
proof (induction pc rule: IsPushOnly.induct)
  case (1 pc)
  show ?case
  proof (cases "pc = []")
    case True
    then show ?thesis by (simp add: IsPushOnly.simps disassemble.simps)
  next
    case False
    obtain f opc d pc' where g: "GetOp2 pc = (f, opc, d, pc')" by (cases "GetOp2 pc") auto
    then have g': "GetOp pc = (f, opc, pc')" by (simp add: GetOp_def)
    show ?thesis
    proof (cases "f \<and> opc \<le> OP_16")
      case True
      then have "IsPushOnly pc' \<longleftrightarrow> (\<exists>xs. disassemble pc' = Some xs \<and> (\<forall>(opc, d) \<in> set xs. opc \<le> OP_16))"
        using 1 False g' by simp
      then show ?thesis using False True g g'
        by (subst IsPushOnly.simps, subst disassemble.simps) auto
    next
      case c: False
      then show ?thesis using False g g'
        by (subst IsPushOnly.simps, subst disassemble.simps) auto
    qed
  qed
qed

lemma sigop_loop_le: "sigop_loop acc l pc \<le> 20 * length pc"
proof (induction acc l pc rule: sigop_loop.induct)
  case (1 acc l pc)
  obtain f opc pc' where g: "GetOp pc = (f, opc, pc')" by (cases "GetOp pc") auto
  show ?case
  proof (cases "pc \<noteq> [] \<and> f")
    case False
    then show ?thesis by (subst sigop_loop.simps) (auto simp: g)
  next
    case True
    then have len: "length pc' < length pc" using GetOp_length [of opc pc' pc] g by simp
    have "sigop_loop acc opc pc' \<le> 20 * length pc'" using 1 True g by simp
    moreover have "20 * length pc' + 20 \<le> 20 * length pc" using len by linarith
    ultimately show ?thesis using True
      by (subst sigop_loop.simps) (auto simp: g DecodeOP_N_def)
  qed
qed

lemma GetSigOpCount_le: "GetSigOpCount s acc \<le> 20 * length s"
  by (simp add: GetSigOpCount_def sigop_loop_le)

lemma find_and_delete_loop_length:
  "find_and_delete_loop b pc = (r, n) \<Longrightarrow> length r + n * length b = length pc"
proof (induction b pc arbitrary: r n rule: find_and_delete_loop.induct)
  case (1 b pc)
  obtain pc1 k where e: "erase_copies b pc = (pc1, k)" by (cases "erase_copies b pc") auto
  obtain f opc pc2 where g: "GetOp pc1 = (f, opc, pc2)" by (cases "GetOp pc1") auto
  have l1: "length pc1 + k * length b = length pc" by (rule erase_copies_length [OF e])
  show ?case
  proof (cases f)
    case False
    with 1(2) l1 show ?thesis by (subst (asm) find_and_delete_loop.simps) (auto simp: e g)
  next
    case True
    obtain r' m where rec: "find_and_delete_loop b pc2 = (r', m)" by (cases "find_and_delete_loop b pc2") auto
    with 1 True e g have "length r' + m * length b = length pc2" by simp
    moreover have "length pc2 < length pc1" using g True GetOp_length by metis
    ultimately show ?thesis using 1(2) l1 True rec
      by (subst (asm) find_and_delete_loop.simps) (auto simp: e g algebra_simps)
  qed
qed

lemma FindAndDelete_length:
  "FindAndDelete s b = (r, n) \<Longrightarrow> length r + n * length b = length s"
  by (auto simp: FindAndDelete_def dest: find_and_delete_loop_length split: if_splits)

text \<open>An operation is read off a script exactly when its bytes are a prefix.\<close>

lemma instr_read_inj: "instr_ok i \<Longrightarrow> instr_ok d \<Longrightarrow> instr_read i = instr_read d \<longleftrightarrow> i = d"
  using push_op_le by (cases i; cases d) (auto simp: not_less [symmetric])

lemma instr_prefix_iff:
  assumes "instr_ok i" "instr_ok d"
  shows "take (length (instr_bytes d)) (instr_bytes i @ rest) = instr_bytes d \<longleftrightarrow> i = d"
proof
  assume "take (length (instr_bytes d)) (instr_bytes i @ rest) = instr_bytes d"
  then obtain r where "instr_bytes i @ rest = instr_bytes d @ r"
    by (metis append_take_drop_id)
  then have "instr_read i = instr_read d"
    using GetOp2_instr [OF assms(1), of rest] GetOp2_instr [OF assms(2), of r]
    by (simp add: prod_eq_iff)
  then show "i = d" using instr_read_inj [OF assms] by simp
qed simp

lemma erase_copies_assemble:
  assumes "instr_ok d" "\<forall>i \<in> set is. instr_ok i"
  shows "erase_copies (instr_bytes d) (assemble is) =
    (assemble (dropWhile (\<lambda>i. i = d) is), length (takeWhile (\<lambda>i. i = d) is))"
  using assms(2)
proof (induction "is")
  case Nil
  then show ?case by (simp add: erase_copies.simps)
next
  case (Cons i "is")
  then have i: "instr_ok i" by simp
  show ?case
  proof (cases "i = d")
    case True
    with Cons show ?thesis by (subst erase_copies.simps) auto
  next
    case False
    then show ?thesis
      using instr_prefix_iff [OF i assms(1)] by (subst erase_copies.simps) auto
  qed
qed

lemma find_and_delete_loop_assemble:
  assumes "instr_ok d" "\<forall>i \<in> set is. instr_ok i"
  shows "find_and_delete_loop (instr_bytes d) (assemble is) =
    (assemble (filter (\<lambda>i. i \<noteq> d) is), length (filter (\<lambda>i. i = d) is))"
  using assms(2)
proof (induction "length is" arbitrary: "is" rule: less_induct)
  case less
  define ds ts where "ds = dropWhile (\<lambda>i. i = d) is" and "ts = takeWhile (\<lambda>i. i = d) is"
  have e: "erase_copies (instr_bytes d) (assemble is) = (assemble ds, length ts)"
    unfolding ds_def ts_def by (rule erase_copies_assemble [OF assms(1) less.prems])
  have split: "is = ts @ ds" by (simp add: ds_def ts_def)
  have t: "filter (\<lambda>i. i \<noteq> d) is = filter (\<lambda>i. i \<noteq> d) ds"
    "filter (\<lambda>i. i = d) is = ts @ filter (\<lambda>i. i = d) ds"
    unfolding split
    by (auto simp: ts_def filter_empty_conv filter_id_conv dest: set_takeWhileD)
  show ?case
  proof (cases ds)
    case Nil
    then show ?thesis
      unfolding t find_and_delete_loop.simps [of "instr_bytes d" "assemble is"] e
      by (simp add: GetOp_def)
  next
    case (Cons i js)
    have ok: "instr_ok i" "\<forall>i \<in> set js. instr_ok i" using less.prems split Cons by auto
    have "dropWhile (\<lambda>i. i = d) is = i # js" using Cons by (simp add: ds_def)
    with hd_dropWhile [of "\<lambda>i. i = d" "is"] have i: "i \<noteq> d" by simp
    have "length js < length is" using split Cons by simp
    then have IH: "find_and_delete_loop (instr_bytes d) (assemble js) =
        (assemble (filter (\<lambda>i. i \<noteq> d) js), length (filter (\<lambda>i. i = d) js))"
      using less.hyps ok(2) by blast
    show ?thesis
      unfolding t find_and_delete_loop.simps [of "instr_bytes d" "assemble is"] e
      using i by (simp add: Cons GetOp_instr [OF ok(1)] IH)
  qed
qed

text \<open>Deleting an operation from a script the code assembled.\<close>

lemma FindAndDelete_instr:
  assumes "instr_ok d" "\<forall>i \<in> set is. instr_ok i"
  shows "FindAndDelete (assemble is) (instr_bytes d) =
    (assemble (filter (\<lambda>i. i \<noteq> d) is), length (filter (\<lambda>i. i = d) is))"
  using find_and_delete_loop_assemble [OF assms] by (simp add: FindAndDelete_def)

lemma FindAndDelete_assemble:
  assumes "length sig < 2 ^ 32" "\<forall>i \<in> set is. instr_ok i"
  shows "FindAndDelete (assemble is) (push_data sig) =
    (assemble (filter (\<lambda>i. i \<noteq> Push sig) is), length (filter (\<lambda>i. i = Push sig) is))"
  using FindAndDelete_instr [of "Push sig" "is"] assms by simp

lemma normal_payment_p2pkh:
  assumes "length h = 20"
  shows "IsNormalPaymentScript
    (assemble [Op OP_DUP, Op OP_HASH160, Push h, Op OP_EQUALVERIFY, Op OP_CHECKSIG])"
proof -
  let ?is = "[Op OP_DUP, Op OP_HASH160, Push h, Op OP_EQUALVERIFY, Op OP_CHECKSIG]"
  have ok: "instr_ok (Op OP_DUP)" "instr_ok (Op OP_HASH160)" "instr_ok (Push h)"
    "instr_ok (Op OP_EQUALVERIFY)" "instr_ok (Op OP_CHECKSIG)" using assms by auto
  have len: "length (assemble ?is) = 25" using assms by (simp add: push_data_def)
  have step: "normal_payment_loop i (instr_bytes x @ r) =
      (if i = 0 \<and> fst (instr_read x) \<noteq> OP_DUP then False
       else if i = 1 \<and> fst (instr_read x) \<noteq> OP_HASH160 then False
       else if i = 3 \<and> fst (instr_read x) \<noteq> OP_EQUALVERIFY then False
       else if i = 4 \<and> fst (instr_read x) \<noteq> OP_CHECKSIG then False
       else if i = 5 then False
       else normal_payment_loop (Suc i) r)" if "instr_ok x" for i x r
    by (subst normal_payment_loop.simps) (simp add: GetOp_instr [OF that])
  have "normal_payment_loop 0 (assemble ?is)"
    unfolding assemble_Cons assemble_Nil step [OF ok(1)] step [OF ok(2)] step [OF ok(3)]
      step [OF ok(4)] step [OF ok(5)]
    by (simp add: normal_payment_loop.simps)
  then show ?thesis using len by (simp add: IsNormalPaymentScript_def del: assemble_Cons)
qed

end
