(* ===== verification/SigEncoding.thy ===== *)
theory SigEncoding
  imports Script
begin

text \<open>
  The syntactic checks of script/interpreter.cpp on stack elements, signatures, public keys and
  pushes, and the range check of eccryptoverify.cpp.  The verification flags are bits of an
  unsigned int.  The lemmas give each check its meaning: a valid signature encoding is exactly the
  DER frame around two minimal positive integers, CompareBigEndian compares the numbers, and the
  minimal-push test accepts exactly the canonical operation for the data.
\<close>

section \<open>Flags\<close>

type_synonym flags = "32 word"

abbreviation (input) SCRIPT_VERIFY_NONE :: flags where "SCRIPT_VERIFY_NONE \<equiv> 0"
abbreviation (input) SCRIPT_VERIFY_P2SH :: flags where "SCRIPT_VERIFY_P2SH \<equiv> 0x01"
abbreviation (input) SCRIPT_VERIFY_STRICTENC :: flags where "SCRIPT_VERIFY_STRICTENC \<equiv> 0x02"
abbreviation (input) SCRIPT_VERIFY_DERSIG :: flags where "SCRIPT_VERIFY_DERSIG \<equiv> 0x04"
abbreviation (input) SCRIPT_VERIFY_LOW_S :: flags where "SCRIPT_VERIFY_LOW_S \<equiv> 0x08"
abbreviation (input) SCRIPT_VERIFY_NULLDUMMY :: flags where "SCRIPT_VERIFY_NULLDUMMY \<equiv> 0x10"
abbreviation (input) SCRIPT_VERIFY_SIGPUSHONLY :: flags where "SCRIPT_VERIFY_SIGPUSHONLY \<equiv> 0x20"
abbreviation (input) SCRIPT_VERIFY_MINIMALDATA :: flags where "SCRIPT_VERIFY_MINIMALDATA \<equiv> 0x40"
abbreviation (input) SCRIPT_VERIFY_DISCOURAGE_UPGRADABLE_NOPS :: flags
  where "SCRIPT_VERIFY_DISCOURAGE_UPGRADABLE_NOPS \<equiv> 0x80"

definition has_flag :: "flags \<Rightarrow> flags \<Rightarrow> bool" where
  "has_flag flags f \<longleftrightarrow> flags AND f \<noteq> 0"

abbreviation (input) SIGHASH_ALL :: nat where "SIGHASH_ALL \<equiv> 1"
abbreviation (input) SIGHASH_NONE :: nat where "SIGHASH_NONE \<equiv> 2"
abbreviation (input) SIGHASH_SINGLE :: nat where "SIGHASH_SINGLE \<equiv> 3"
abbreviation (input) SIGHASH_ANYONECANPAY :: nat where "SIGHASH_ANYONECANPAY \<equiv> 0x80"

section \<open>Stack elements as booleans\<close>

fun CastToBool :: "valtype \<Rightarrow> bool" where
  "CastToBool [] = False"
| "CastToBool (b # vch) =
     (if b \<noteq> 0 then (if vch = [] \<and> b = 0x80 then False else True) else CastToBool vch)"

section \<open>Public keys and signatures\<close>

definition IsCompressedOrUncompressedPubKey :: "valtype \<Rightarrow> bool" where
  "IsCompressedOrUncompressedPubKey vchPubKey =
     (if length vchPubKey < 33 then False
      else if vchPubKey ! 0 = 0x04 then length vchPubKey = 65
      else if vchPubKey ! 0 = 0x02 \<or> vchPubKey ! 0 = 0x03 then length vchPubKey = 33
      else False)"

definition IsValidSignatureEncoding :: "valtype \<Rightarrow> bool" where
  "IsValidSignatureEncoding sig =
     (if length sig < 9 then False
      else if length sig > 73 then False
      else if sig ! 0 \<noteq> 0x30 then False
      else if unat (sig ! 1) \<noteq> length sig - 3 then False
      else let lenR = unat (sig ! 3) in
        if 5 + lenR \<ge> length sig then False
        else let lenS = unat (sig ! (5 + lenR)) in
          if lenR + lenS + 7 \<noteq> length sig then False
          else if sig ! 2 \<noteq> 0x02 then False
          else if lenR = 0 then False
          else if sig ! 4 AND 0x80 \<noteq> 0 then False
          else if lenR > 1 \<and> sig ! 4 = 0 \<and> sig ! 5 AND 0x80 = 0 then False
          else if sig ! (lenR + 4) \<noteq> 0x02 then False
          else if lenS = 0 then False
          else if sig ! (lenR + 6) AND 0x80 \<noteq> 0 then False
          else if lenS > 1 \<and> sig ! (lenR + 6) = 0 \<and> sig ! (lenR + 7) AND 0x80 = 0 then False
          else True)"

text \<open>CompareBigEndian: strip the longer operand, then compare byte by byte.\<close>

fun compare_bytes :: "bytes \<Rightarrow> bytes \<Rightarrow> int" where
  "compare_bytes (a # c1) (b # c2) =
     (if unat a > unat b then 1 else if unat b > unat a then -1 else compare_bytes c1 c2)"
| "compare_bytes _ _ = 0"

function CompareBigEndian :: "bytes \<Rightarrow> bytes \<Rightarrow> int" where
  "CompareBigEndian c1 c2 =
     (if length c1 > length c2 then
        (if hd c1 \<noteq> 0 then 1 else CompareBigEndian (tl c1) c2)
      else if length c2 > length c1 then
        (if hd c2 \<noteq> 0 then -1 else CompareBigEndian c1 (tl c2))
      else compare_bytes c1 c2)"
  by pat_completeness auto
termination
  by (relation "measure (\<lambda>(c1, c2). length c1 + length c2)") auto

declare CompareBigEndian.simps [simp del]

definition vchMaxModOrder :: bytes where
  "vchMaxModOrder =
     [0xFF, 0xFF, 0xFF, 0xFF, 0xFF, 0xFF, 0xFF, 0xFF,
      0xFF, 0xFF, 0xFF, 0xFF, 0xFF, 0xFF, 0xFF, 0xFE,
      0xBA, 0xAE, 0xDC, 0xE6, 0xAF, 0x48, 0xA0, 0x3B,
      0xBF, 0xD2, 0x5E, 0x8C, 0xD0, 0x36, 0x41, 0x40]"

definition vchMaxModHalfOrder :: bytes where
  "vchMaxModHalfOrder =
     [0x7F, 0xFF, 0xFF, 0xFF, 0xFF, 0xFF, 0xFF, 0xFF,
      0xFF, 0xFF, 0xFF, 0xFF, 0xFF, 0xFF, 0xFF, 0xFF,
      0x5D, 0x57, 0x6E, 0x73, 0x57, 0xA4, 0x50, 0x1D,
      0xDF, 0xE9, 0x2F, 0x46, 0x68, 0x1B, 0x20, 0xA0]"

definition CheckSignatureElement :: "bytes \<Rightarrow> bool \<Rightarrow> bool" where
  "CheckSignatureElement vch half \<longleftrightarrow>
     CompareBigEndian vch [] > 0 \<and>
     CompareBigEndian vch (if half then vchMaxModHalfOrder else vchMaxModOrder) \<le> 0"

text \<open>The checks that report an error code: \<open>Inr ()\<close> is the result true.\<close>

definition IsLowDERSignature :: "valtype \<Rightarrow> fault + unit" where
  "IsLowDERSignature vchSig =
     (if \<not> IsValidSignatureEncoding vchSig then Inl (Fail SCRIPT_ERR_SIG_DER)
      else let nLenR = unat (vchSig ! 3);
               nLenS = unat (vchSig ! (5 + nLenR));
               S = take nLenS (drop (6 + nLenR) vchSig)
        in if \<not> CheckSignatureElement S True then Inl (Fail SCRIPT_ERR_SIG_HIGH_S) else Inr ())"

definition IsDefinedHashtypeSignature :: "valtype \<Rightarrow> bool" where
  "IsDefinedHashtypeSignature vchSig =
     (if length vchSig = 0 then False
      else let nHashType = unat (last vchSig AND 0x7f) in
        if nHashType < SIGHASH_ALL \<or> nHashType > SIGHASH_SINGLE then False else True)"

definition CheckSignatureEncoding :: "valtype \<Rightarrow> flags \<Rightarrow> fault + unit" where
  "CheckSignatureEncoding vchSig flags =
     (if length vchSig = 0 then Inr ()
      else if has_flag flags (SCRIPT_VERIFY_DERSIG OR SCRIPT_VERIFY_LOW_S OR SCRIPT_VERIFY_STRICTENC)
              \<and> \<not> IsValidSignatureEncoding vchSig
      then Inl (Fail SCRIPT_ERR_SIG_DER)
      else if has_flag flags SCRIPT_VERIFY_LOW_S \<and> IsLowDERSignature vchSig \<noteq> Inr ()
      then IsLowDERSignature vchSig
      else if has_flag flags SCRIPT_VERIFY_STRICTENC \<and> \<not> IsDefinedHashtypeSignature vchSig
      then Inl (Fail SCRIPT_ERR_SIG_HASHTYPE)
      else Inr ())"

definition CheckPubKeyEncoding :: "valtype \<Rightarrow> flags \<Rightarrow> fault + unit" where
  "CheckPubKeyEncoding vchSig flags =
     (if has_flag flags SCRIPT_VERIFY_STRICTENC \<and> \<not> IsCompressedOrUncompressedPubKey vchSig
      then Inl (Fail SCRIPT_ERR_PUBKEYTYPE) else Inr ())"

definition CheckMinimalPush :: "valtype \<Rightarrow> opcodetype \<Rightarrow> bool" where
  "CheckMinimalPush data opcode =
     (if length data = 0 then opcode = OP_0
      else if length data = 1 \<and> unat (data ! 0) \<ge> 1 \<and> unat (data ! 0) \<le> 16
      then opcode = OP_1 + (unat (data ! 0) - 1)
      else if length data = 1 \<and> data ! 0 = 0x81 then opcode = OP_1NEGATE
      else if length data \<le> 75 then opcode = length data
      else if length data \<le> 255 then opcode = OP_PUSHDATA1
      else if length data \<le> 65535 then opcode = OP_PUSHDATA2
      else True)"

section \<open>CastToBool\<close>

lemma CastToBool_snoc: "CastToBool (ys @ [y]) \<longleftrightarrow> (\<exists>b \<in> set ys. b \<noteq> 0) \<or> (y \<noteq> 0 \<and> y \<noteq> 0x80)"
  by (induction ys) auto

lemma le_val_eq_0: "le_val bs = 0 \<longleftrightarrow> (\<forall>b \<in> set bs. b = 0)"
  by (induction bs) (auto simp: unat_eq_0)

lemma CastToBool_set_vch:
  assumes "length vch \<le> 7"
  shows "CastToBool vch \<longleftrightarrow> set_vch vch \<noteq> 0"
proof (cases vch rule: rev_cases)
  case Nil
  then show ?thesis by (simp add: set_vch_def)
next
  case (snoc ys y)
  have y: "y = 0 \<longleftrightarrow> unat y = 0" "y = 0x80 \<longleftrightarrow> unat y = 128"
    by (simp_all add: word_unat_eq_iff)
  have s: "set_vch vch = (if unat y < 128 then int (le_val ys + 256 ^ length ys * unat y)
      else - int (le_val ys + 256 ^ length ys * (unat y - 128)))"
    using set_vch_snoc [of ys y] assms snoc by (simp add: le_val_append)
  have "set_vch vch = 0 \<longleftrightarrow> le_val ys = 0 \<and> (unat y = 0 \<or> unat y = 128)"
    unfolding s by (auto simp del: of_nat_add of_nat_mult)
  then show ?thesis unfolding snoc CastToBool_snoc y le_val_eq_0 by auto
qed

lemma CastToBool_serialize: "\<bar>n\<bar> < 2 ^ 47 \<Longrightarrow> CastToBool (scriptnum_serialize n) \<longleftrightarrow> n \<noteq> 0"
proof -
  assume n: "\<bar>n\<bar> < 2 ^ 47"
  then have "\<bar>n\<bar> < 128 * 256 ^ 6" by simp
  then have "length (scriptnum_serialize n) \<le> 7" using length_serialize [of n 6] by simp
  then show ?thesis using CastToBool_set_vch set_vch_serialize [OF n] by simp
qed

section \<open>CompareBigEndian compares the numbers\<close>

fun be_val :: "bytes \<Rightarrow> nat" where
  "be_val [] = 0"
| "be_val (b # bs) = unat b * 256 ^ length bs + be_val bs"

lemma be_val_less: "be_val bs < 256 ^ length bs"
proof (induction bs)
  case (Cons b bs)
  have "unat b + 1 \<le> 256" using unat_byte_less [of b] by linarith
  then have "(unat b + 1) * 256 ^ length bs \<le> 256 * 256 ^ length bs" by (rule mult_le_mono1)
  then have "unat b * 256 ^ length bs + 256 ^ length bs \<le> 256 ^ length (b # bs)" by simp
  with Cons show ?case by (simp only: be_val.simps)
qed simp

lemma be_val_lead:
  assumes "unat a < unat b" "length xs = length ys"
  shows "be_val (a # xs) < be_val (b # ys)"
proof -
  have "(unat a + 1) * 256 ^ length xs \<le> unat b * 256 ^ length xs"
    using assms(1) by (intro mult_le_mono1) simp
  then show ?thesis using be_val_less [of xs] assms(2) by simp
qed

lemma sgn_diff: "y < x \<Longrightarrow> sgn (int x - int y) = 1" "x < y \<Longrightarrow> sgn (int x - int y) = -1"
  by simp_all

lemma compare_bytes_sgn:
  "length c1 = length c2 \<Longrightarrow> compare_bytes c1 c2 = sgn (int (be_val c1) - int (be_val c2))"
proof (induction c1 c2 rule: compare_bytes.induct)
  case (1 a c1 b c2)
  then have len: "length c1 = length c2" by simp
  consider "unat a > unat b" | "unat b > unat a" | "a = b"
    by (metis linorder_neqE_nat word_unat_eq_iff)
  then show ?case
  proof cases
    case 1
    then show ?thesis
      using sgn_diff(1) [OF be_val_lead [OF 1 len [symmetric]]] by (simp del: be_val.simps)
  next
    case 2
    then show ?thesis
      using sgn_diff(2) [OF be_val_lead [OF 2 len]] by (simp del: be_val.simps)
  next
    case 3
    then show ?thesis using "1.IH" len by simp
  qed
qed auto

lemma be_val_strip: "be_val (0 # bs) = be_val bs"
  by simp

lemma be_val_longer:
  assumes "length c2 < length c1" "hd c1 \<noteq> 0"
  shows "be_val c2 < be_val c1"
proof -
  from assms obtain a xs where c1: "c1 = a # xs" by (cases c1) auto
  have "be_val c2 < 256 ^ length c2" by (rule be_val_less)
  also have "\<dots> \<le> (256 :: nat) ^ length xs" using assms c1 by (intro power_increasing) auto
  also have "\<dots> \<le> unat a * 256 ^ length xs" using assms c1 by (simp add: Suc_leI unat_gt_0)
  also have "\<dots> \<le> be_val c1" by (simp add: c1)
  finally show ?thesis .
qed

lemma CompareBigEndian_sgn:
  "CompareBigEndian c1 c2 = sgn (int (be_val c1) - int (be_val c2))"
proof (induction c1 c2 rule: CompareBigEndian.induct)
  case (1 c1 c2)
  consider (long) "length c2 < length c1" | (short) "length c1 < length c2" | (eq) "length c1 = length c2"
    by linarith
  then show ?case
  proof cases
    case long
    then obtain a xs where c1: "c1 = a # xs" by (cases c1) auto
    show ?thesis
    proof (cases "a = 0")
      case True
      then show ?thesis using 1(1) long c1 by (simp add: CompareBigEndian.simps [of "0 # xs" c2])
    next
      case False
      then show ?thesis
        using sgn_diff(1) [OF be_val_longer [OF long]] long c1
        by (simp add: CompareBigEndian.simps [of "a # xs" c2] del: be_val.simps)
    qed
  next
    case short
    then obtain b ys where c2: "c2 = b # ys" by (cases c2) auto
    show ?thesis
    proof (cases "b = 0")
      case True
      then show ?thesis using 1(2) short c2 by (simp add: CompareBigEndian.simps [of c1 "0 # ys"])
    next
      case False
      then show ?thesis
        using sgn_diff(2) [OF be_val_longer [OF short]] short c2
        by (simp add: CompareBigEndian.simps [of c1 "b # ys"] del: be_val.simps)
    qed
  next
    case eq
    then show ?thesis by (simp add: CompareBigEndian.simps [of c1 c2] compare_bytes_sgn)
  qed
qed

lemma CheckSignatureElement_iff:
  "CheckSignatureElement vch half \<longleftrightarrow>
     0 < be_val vch \<and> be_val vch \<le> be_val (if half then vchMaxModHalfOrder else vchMaxModOrder)"
  by (auto simp: CheckSignatureElement_def CompareBigEndian_sgn sgn_if split: if_splits)

section \<open>The DER frame of a signature\<close>

text \<open>A positive integer in its shortest big-endian form, and the frame the comment of
  IsValidSignatureEncoding describes.\<close>

definition der_int :: "bytes \<Rightarrow> bool" where
  "der_int bs \<longleftrightarrow> bs \<noteq> [] \<and> bs ! 0 AND 0x80 = 0 \<and>
     \<not> (length bs > 1 \<and> bs ! 0 = 0 \<and> bs ! 1 AND 0x80 = 0)"

definition der_frame :: "bytes \<Rightarrow> bytes \<Rightarrow> byte \<Rightarrow> valtype" where
  "der_frame R S h =
     [0x30, of_nat (length R + length S + 4), 0x02, of_nat (length R)] @ R @
     [0x02, of_nat (length S)] @ S @ [h]"

lemma length_der_frame: "length (der_frame R S h) = length R + length S + 7"
  by (simp add: der_frame_def)

lemma der_frame_valid:
  assumes "der_int R" "der_int S" "length R + length S \<le> 66"
  shows "IsValidSignatureEncoding (der_frame R S h)"
proof -
  let ?s = "der_frame R S h"
  have len: "length ?s = length R + length S + 7" by (rule length_der_frame)
  have pos: "0 < length R" "0 < length S" using assms by (auto simp: der_int_def)
  have two: "2 \<le> length R + length S" using pos by linarith
  have hd: "?s ! 0 = 0x30" "?s ! 1 = of_nat (length R + length S + 4)" "?s ! 2 = 0x02"
    "?s ! 3 = of_nat (length R)"
    by (simp_all add: der_frame_def eval_nat_numeral)
  have R: "?s ! (4 + i) = R ! i" if "i < length R" for i
    using that by (simp add: der_frame_def nth_append)
  have mid: "?s ! (length R + 4) = 0x02" "?s ! (5 + length R) = of_nat (length S)"
    by (simp_all add: der_frame_def nth_append)
  have S: "?s ! (length R + 6 + i) = S ! i" if "i < length S" for i
    using that by (simp add: der_frame_def nth_append)
  have u: "unat (?s ! 1) = length ?s - 3" "unat (?s ! 3) = length R"
    "unat (?s ! (5 + length R)) = length S"
    unfolding hd mid len using assms(3) by (simp_all add: unat_of_nat_byte del: of_nat_add)
  have e: "?s ! 4 = R ! 0" "?s ! (length R + 6) = S ! 0"
    "1 < length R \<Longrightarrow> ?s ! 5 = R ! 1" "1 < length S \<Longrightarrow> ?s ! (length R + 7) = S ! 1"
    using R [of 0] S [of 0] R [of 1] S [of 1] pos by (simp_all add: numeral_eq_Suc)
  show ?thesis
    using assms two
    by (auto simp: IsValidSignatureEncoding_def Let_def u u(1) [unfolded One_nat_def] hd(1,3)
        mid(1) e len der_int_def)
qed

lemma valid_der_frame:
  assumes "IsValidSignatureEncoding sig"
  obtains R S h where "sig = der_frame R S h" "der_int R" "der_int S" "length R + length S \<le> 66"
proof -
  define r where "r = unat (sig ! 3)"
  define s where "s = unat (sig ! (5 + r))"
  define R where "R = take r (drop 4 sig)"
  define S where "S = take s (drop (r + 6) sig)"
  have len: "length sig = r + s + 7" and bound: "length sig \<le> 73"
    and h: "sig ! 0 = 0x30" "unat (sig ! 1) = length sig - 3" "sig ! 2 = 0x02" "sig ! (r + 4) = 0x02"
    using assms by (auto simp: IsValidSignatureEncoding_def Let_def r_def s_def split: if_splits)
  have pos: "0 < r" "0 < s"
    and i1: "sig ! 4 AND 0x80 = 0" "\<not> (r > 1 \<and> sig ! 4 = 0 \<and> sig ! 5 AND 0x80 = 0)"
    and i2: "sig ! (r + 6) AND 0x80 = 0" "\<not> (s > 1 \<and> sig ! (r + 6) = 0 \<and> sig ! (r + 7) AND 0x80 = 0)"
    using assms by (auto simp: IsValidSignatureEncoding_def Let_def r_def s_def split: if_splits)
  have l: "length R = r" "length S = s" by (simp_all add: R_def S_def len)
  have R: "R ! i = sig ! (4 + i)" if "i < r" for i using that len by (simp add: R_def)
  have S: "S ! i = sig ! (r + 6 + i)" if "i < s" for i using that len by (simp add: S_def)
  have "der_int R"
    using pos i1 R [of 0] R [of 1] l unfolding der_int_def by (auto simp: numeral_eq_Suc)
  moreover have "der_int S"
    using pos i2 S [of 0] S [of 1] l unfolding der_int_def by (auto simp: numeral_eq_Suc)
  moreover have "sig = der_frame R S (last sig)"
  proof (rule nth_equalityI)
    show "length sig = length (der_frame R S (last sig))" by (simp add: length_der_frame l len)
  next
    fix i assume i: "i < length sig"
    have one: "sig ! 1 = of_nat (length R + length S + 4)"
    proof -
      have "unat (sig ! 1) = length R + length S + 4" using h(2) len l by simp
      then show ?thesis by (metis byte_of_nat_unat)
    qed
    have ls: "last sig = sig ! (r + s + 6)" using len by (subst last_conv_nth) (auto simp: add.commute)
    consider "i = 0" | "i = 1" | "i = 2" | "i = 3" | j where "i = 4 + j" "j < r" | "i = r + 4"
      | "i = r + 5" | j where "i = r + 6 + j" "j < s" | "i = r + s + 6"
    proof -
      have "i < 4 \<or> (\<exists>j. j < r \<and> i = 4 + j) \<or> i = r + 4 \<or> i = r + 5 \<or> (\<exists>j. j < s \<and> i = r + 6 + j) \<or> i = r + s + 6"
        using i len by presburger
      then show thesis using that by (auto simp: less_Suc_eq numeral_eq_Suc)
    qed
    then show "sig ! i = der_frame R S (last sig) ! i"
    proof cases
      case (5 j)
      then show ?thesis using R [of j] l by (simp add: der_frame_def nth_append)
    next
      case (8 j)
      then show ?thesis using S [of j] l by (simp add: der_frame_def nth_append)
    next
      case 9
      then show ?thesis using l ls by (simp add: der_frame_def nth_append)
    next
      case 7
      then show ?thesis using l s_def by (simp add: der_frame_def nth_append add.commute)
    qed (use h one l r_def in \<open>simp_all add: der_frame_def nth_append eval_nat_numeral\<close>)
  qed
  moreover have "length R + length S \<le> 66" using len bound l by simp
  ultimately show thesis using that by blast
qed

lemma IsValidSignatureEncoding_iff:
  "IsValidSignatureEncoding sig \<longleftrightarrow>
     (\<exists>R S h. sig = der_frame R S h \<and> der_int R \<and> der_int S \<and> length R + length S \<le> 66)"
  by (metis der_frame_valid valid_der_frame)

section \<open>Minimal pushes\<close>

definition small_int_push :: "bytes \<Rightarrow> bool" where
  "small_int_push b \<longleftrightarrow> length b = 1 \<and> (1 \<le> unat (b ! 0) \<and> unat (b ! 0) \<le> 16 \<or> b ! 0 = 0x81)"

lemma CheckMinimalPush_push_op:
  "CheckMinimalPush b (push_op b) \<longleftrightarrow> \<not> small_int_push b"
  by (auto simp: CheckMinimalPush_def push_op_def small_int_push_def)

end
