(* ===== verification/Interpreter.thy ===== *)
theory Interpreter
  imports SigEncoding
begin

text \<open>
  The script virtual machine: EvalScript and VerifyScript of script/interpreter.cpp.  The main
  stack, the alternative stack and vfExec are lists whose head is the back of the C++ vector, so
  stacktop(-1) is the head and stacktop(-i) is element \<open>i - 1\<close>.  pc and pbegincodehash are the
  remaining bytes of the script.  Every case of the switch is one definition; \<open>exec_op\<close> is the
  switch, \<open>eval_step\<close> the body of the loop, \<open>eval_loop\<close> the loop.  The signature checker (the
  virtual method CheckSig of BaseSignatureChecker) and the three hash functions are fields of the
  environment.
\<close>

section \<open>State and environment\<close>

record interp =
  stack :: "valtype list"
  altstack :: "valtype list"
  vfExec :: "bool list"
  pbegincodehash :: bytes
  nOpCount :: nat

record script_env =
  env_flags :: flags
  env_CheckSig :: "valtype \<Rightarrow> valtype \<Rightarrow> CScript \<Rightarrow> bool"
  env_RIPEMD160 :: "bytes \<Rightarrow> bytes"
  env_SHA1 :: "bytes \<Rightarrow> bytes"
  env_SHA256 :: "bytes \<Rightarrow> bytes"

type_synonym 'a op_result = "fault + 'a"

abbreviation (input) serr :: "script_error \<Rightarrow> fault + 'a" where "serr e \<equiv> Inl (Fail e)"

definition vchFalse :: valtype where "vchFalse = []"
definition vchTrue :: valtype where "vchTrue = [1]"

definition bool_vch :: "bool \<Rightarrow> valtype" where
  "bool_vch b = (if b then vchTrue else vchFalse)"

definition fRequireMinimal :: "script_env \<Rightarrow> bool" where
  "fRequireMinimal env = has_flag (env_flags env) SCRIPT_VERIFY_MINIMALDATA"

definition push :: "valtype \<Rightarrow> interp \<Rightarrow> interp" where
  "push v st = st\<lparr>stack := v # stack st\<rparr>"

section \<open>Push value and control\<close>

definition op_push_value :: "opcodetype \<Rightarrow> interp \<Rightarrow> interp op_result" where
  "op_push_value opcode st = Inr (push (scriptnum_serialize (int opcode - int (OP_1 - 1))) st)"

definition op_NOPn :: "script_env \<Rightarrow> interp \<Rightarrow> interp op_result" where
  "op_NOPn env st =
     (if has_flag (env_flags env) SCRIPT_VERIFY_DISCOURAGE_UPGRADABLE_NOPS
      then serr SCRIPT_ERR_DISCOURAGE_UPGRADABLE_NOPS else Inr st)"

definition op_IF :: "opcodetype \<Rightarrow> bool \<Rightarrow> interp \<Rightarrow> interp op_result" where
  "op_IF opcode fExec st =
     (if fExec then
        (case stack st of
           [] \<Rightarrow> serr SCRIPT_ERR_UNBALANCED_CONDITIONAL
         | vch # s \<Rightarrow>
             let fValue = (if opcode = OP_NOTIF then \<not> CastToBool vch else CastToBool vch)
             in Inr (st\<lparr>stack := s, vfExec := fValue # vfExec st\<rparr>))
      else Inr (st\<lparr>vfExec := False # vfExec st\<rparr>))"

definition op_ELSE :: "interp \<Rightarrow> interp op_result" where
  "op_ELSE st = (case vfExec st of
       [] \<Rightarrow> serr SCRIPT_ERR_UNBALANCED_CONDITIONAL
     | b # bs \<Rightarrow> Inr (st\<lparr>vfExec := (\<not> b) # bs\<rparr>))"

definition op_ENDIF :: "interp \<Rightarrow> interp op_result" where
  "op_ENDIF st = (case vfExec st of
       [] \<Rightarrow> serr SCRIPT_ERR_UNBALANCED_CONDITIONAL
     | b # bs \<Rightarrow> Inr (st\<lparr>vfExec := bs\<rparr>))"

definition op_VERIFY :: "interp \<Rightarrow> interp op_result" where
  "op_VERIFY st = (case stack st of
       [] \<Rightarrow> serr SCRIPT_ERR_INVALID_STACK_OPERATION
     | x # s \<Rightarrow> if CastToBool x then Inr (st\<lparr>stack := s\<rparr>) else serr SCRIPT_ERR_VERIFY)"

section \<open>Stack operations\<close>

text \<open>Most stack operations test the size and then rearrange the top elements.\<close>

definition on_stack :: "(valtype list \<Rightarrow> valtype list option) \<Rightarrow> interp \<Rightarrow> interp op_result" where
  "on_stack f st = (case f (stack st) of
       None \<Rightarrow> serr SCRIPT_ERR_INVALID_STACK_OPERATION
     | Some s \<Rightarrow> Inr (st\<lparr>stack := s\<rparr>))"

definition op_TOALTSTACK :: "interp \<Rightarrow> interp op_result" where
  "op_TOALTSTACK st = (case stack st of
       [] \<Rightarrow> serr SCRIPT_ERR_INVALID_STACK_OPERATION
     | x # s \<Rightarrow> Inr (st\<lparr>stack := s, altstack := x # altstack st\<rparr>))"

definition op_FROMALTSTACK :: "interp \<Rightarrow> interp op_result" where
  "op_FROMALTSTACK st = (case altstack st of
       [] \<Rightarrow> serr SCRIPT_ERR_INVALID_ALTSTACK_OPERATION
     | x # s \<Rightarrow> Inr (st\<lparr>stack := x # stack st, altstack := s\<rparr>))"

fun op_2DROP :: "valtype list \<Rightarrow> valtype list option" where
  "op_2DROP (x2 # x1 # s) = Some s"
| "op_2DROP _ = None"

fun op_2DUP :: "valtype list \<Rightarrow> valtype list option" where
  "op_2DUP (x2 # x1 # s) = Some (x2 # x1 # x2 # x1 # s)"
| "op_2DUP _ = None"

fun op_3DUP :: "valtype list \<Rightarrow> valtype list option" where
  "op_3DUP (x3 # x2 # x1 # s) = Some (x3 # x2 # x1 # x3 # x2 # x1 # s)"
| "op_3DUP _ = None"

fun op_2OVER :: "valtype list \<Rightarrow> valtype list option" where
  "op_2OVER (x4 # x3 # x2 # x1 # s) = Some (x2 # x1 # x4 # x3 # x2 # x1 # s)"
| "op_2OVER _ = None"

fun op_2ROT :: "valtype list \<Rightarrow> valtype list option" where
  "op_2ROT (x6 # x5 # x4 # x3 # x2 # x1 # s) = Some (x2 # x1 # x6 # x5 # x4 # x3 # s)"
| "op_2ROT _ = None"

fun op_2SWAP :: "valtype list \<Rightarrow> valtype list option" where
  "op_2SWAP (x4 # x3 # x2 # x1 # s) = Some (x2 # x1 # x4 # x3 # s)"
| "op_2SWAP _ = None"

fun op_IFDUP :: "valtype list \<Rightarrow> valtype list option" where
  "op_IFDUP (x # s) = Some (if CastToBool x then x # x # s else x # s)"
| "op_IFDUP _ = None"

definition op_DEPTH :: "valtype list \<Rightarrow> valtype list option" where
  "op_DEPTH s = Some (scriptnum_serialize (int (length s)) # s)"

fun op_DROP :: "valtype list \<Rightarrow> valtype list option" where
  "op_DROP (x # s) = Some s"
| "op_DROP _ = None"

fun op_DUP :: "valtype list \<Rightarrow> valtype list option" where
  "op_DUP (x # s) = Some (x # x # s)"
| "op_DUP _ = None"

fun op_NIP :: "valtype list \<Rightarrow> valtype list option" where
  "op_NIP (x2 # x1 # s) = Some (x2 # s)"
| "op_NIP _ = None"

fun op_OVER :: "valtype list \<Rightarrow> valtype list option" where
  "op_OVER (x2 # x1 # s) = Some (x1 # x2 # x1 # s)"
| "op_OVER _ = None"

fun op_ROT :: "valtype list \<Rightarrow> valtype list option" where
  "op_ROT (x3 # x2 # x1 # s) = Some (x1 # x3 # x2 # s)"
| "op_ROT _ = None"

fun op_SWAP :: "valtype list \<Rightarrow> valtype list option" where
  "op_SWAP (x2 # x1 # s) = Some (x1 # x2 # s)"
| "op_SWAP _ = None"

fun op_TUCK :: "valtype list \<Rightarrow> valtype list option" where
  "op_TUCK (x2 # x1 # s) = Some (x2 # x1 # x2 # s)"
| "op_TUCK _ = None"

fun op_SIZE :: "valtype list \<Rightarrow> valtype list option" where
  "op_SIZE (x # s) = Some (scriptnum_serialize (int (length x)) # x # s)"
| "op_SIZE _ = None"

text \<open>OP_PICK and OP_ROLL; after the pop, stacktop(-n-1) is element \<open>n\<close> of the rest.\<close>

definition op_PICK_ROLL :: "script_env \<Rightarrow> opcodetype \<Rightarrow> interp \<Rightarrow> interp op_result" where
  "op_PICK_ROLL env opcode st =
     (if length (stack st) < 2 then serr SCRIPT_ERR_INVALID_STACK_OPERATION
      else bindE (CScriptNum (hd (stack st)) (fRequireMinimal env)) (\<lambda>bn.
        let n = getint bn; s = tl (stack st) in
        if n < 0 \<or> n \<ge> int (length s) then serr SCRIPT_ERR_INVALID_STACK_OPERATION
        else let vch = s ! nat n;
                 s' = (if opcode = OP_ROLL then take (nat n) s @ drop (Suc (nat n)) s else s)
          in Inr (st\<lparr>stack := vch # s'\<rparr>)))"

section \<open>Bitwise logic and numbers\<close>

definition op_EQUAL :: "opcodetype \<Rightarrow> interp \<Rightarrow> interp op_result" where
  "op_EQUAL opcode st = (case stack st of
       x2 # x1 # s \<Rightarrow>
         let fEqual = (x1 = x2) in
         if opcode = OP_EQUALVERIFY then
           (if fEqual then Inr (st\<lparr>stack := s\<rparr>) else serr SCRIPT_ERR_EQUALVERIFY)
         else Inr (st\<lparr>stack := bool_vch fEqual # s\<rparr>)
     | _ \<Rightarrow> serr SCRIPT_ERR_INVALID_STACK_OPERATION)"

definition unary_num :: "opcodetype \<Rightarrow> int \<Rightarrow> fault + int" where
  "unary_num opcode bn =
     (if opcode = OP_1ADD then scriptnum_add_assign bn 1
      else if opcode = OP_1SUB then scriptnum_sub_assign bn 1
      else if opcode = OP_NEGATE then scriptnum_neg bn
      else if opcode = OP_ABS then (if bn < 0 then scriptnum_neg bn else Inr bn)
      else if opcode = OP_NOT then Inr (of_bool (bn = 0))
      else if opcode = OP_0NOTEQUAL then Inr (of_bool (bn \<noteq> 0))
      else Inl Abort)"

definition op_unary :: "script_env \<Rightarrow> opcodetype \<Rightarrow> interp \<Rightarrow> interp op_result" where
  "op_unary env opcode st = (case stack st of
       [] \<Rightarrow> serr SCRIPT_ERR_INVALID_STACK_OPERATION
     | x # s \<Rightarrow>
         bindE (CScriptNum x (fRequireMinimal env)) (\<lambda>bn.
         bindE (unary_num opcode bn) (\<lambda>r.
           Inr (st\<lparr>stack := scriptnum_serialize r # s\<rparr>))))"

definition binary_num :: "opcodetype \<Rightarrow> int \<Rightarrow> int \<Rightarrow> fault + int" where
  "binary_num opcode bn1 bn2 =
     (if opcode = OP_ADD then Inr (scriptnum_add bn1 bn2)
      else if opcode = OP_SUB then Inr (scriptnum_sub bn1 bn2)
      else if opcode = OP_BOOLAND then Inr (of_bool (bn1 \<noteq> 0 \<and> bn2 \<noteq> 0))
      else if opcode = OP_BOOLOR then Inr (of_bool (bn1 \<noteq> 0 \<or> bn2 \<noteq> 0))
      else if opcode = OP_NUMEQUAL then Inr (of_bool (bn1 = bn2))
      else if opcode = OP_NUMEQUALVERIFY then Inr (of_bool (bn1 = bn2))
      else if opcode = OP_NUMNOTEQUAL then Inr (of_bool (bn1 \<noteq> bn2))
      else if opcode = OP_LESSTHAN then Inr (of_bool (bn1 < bn2))
      else if opcode = OP_GREATERTHAN then Inr (of_bool (bn1 > bn2))
      else if opcode = OP_LESSTHANOREQUAL then Inr (of_bool (bn1 \<le> bn2))
      else if opcode = OP_GREATERTHANOREQUAL then Inr (of_bool (bn1 \<ge> bn2))
      else if opcode = OP_MIN then Inr (if bn1 < bn2 then bn1 else bn2)
      else if opcode = OP_MAX then Inr (if bn1 > bn2 then bn1 else bn2)
      else Inl Abort)"

definition op_binary :: "script_env \<Rightarrow> opcodetype \<Rightarrow> interp \<Rightarrow> interp op_result" where
  "op_binary env opcode st = (case stack st of
       x2 # x1 # s \<Rightarrow>
         bindE (CScriptNum x1 (fRequireMinimal env)) (\<lambda>bn1.
         bindE (CScriptNum x2 (fRequireMinimal env)) (\<lambda>bn2.
         bindE (binary_num opcode bn1 bn2) (\<lambda>bn.
           let v = scriptnum_serialize bn in
           if opcode = OP_NUMEQUALVERIFY then
             (if CastToBool v then Inr (st\<lparr>stack := s\<rparr>) else serr SCRIPT_ERR_NUMEQUALVERIFY)
           else Inr (st\<lparr>stack := v # s\<rparr>))))
     | _ \<Rightarrow> serr SCRIPT_ERR_INVALID_STACK_OPERATION)"

definition op_WITHIN :: "script_env \<Rightarrow> interp \<Rightarrow> interp op_result" where
  "op_WITHIN env st = (case stack st of
       x3 # x2 # x1 # s \<Rightarrow>
         bindE (CScriptNum x1 (fRequireMinimal env)) (\<lambda>bn1.
         bindE (CScriptNum x2 (fRequireMinimal env)) (\<lambda>bn2.
         bindE (CScriptNum x3 (fRequireMinimal env)) (\<lambda>bn3.
           Inr (st\<lparr>stack := bool_vch (bn2 \<le> bn1 \<and> bn1 < bn3) # s\<rparr>))))
     | _ \<Rightarrow> serr SCRIPT_ERR_INVALID_STACK_OPERATION)"

section \<open>Crypto\<close>

text \<open>CHash160 and CHash256 of hash.h: RIPEMD-160 of SHA-256, and SHA-256 twice.\<close>

definition CHash160 :: "script_env \<Rightarrow> bytes \<Rightarrow> bytes" where
  "CHash160 env v = env_RIPEMD160 env (env_SHA256 env v)"

definition CHash256 :: "script_env \<Rightarrow> bytes \<Rightarrow> bytes" where
  "CHash256 env v = env_SHA256 env (env_SHA256 env v)"

definition op_HASH :: "script_env \<Rightarrow> opcodetype \<Rightarrow> interp \<Rightarrow> interp op_result" where
  "op_HASH env opcode st = (case stack st of
       [] \<Rightarrow> serr SCRIPT_ERR_INVALID_STACK_OPERATION
     | vch # s \<Rightarrow>
         let vchHash =
           (if opcode = OP_RIPEMD160 then env_RIPEMD160 env vch
            else if opcode = OP_SHA1 then env_SHA1 env vch
            else if opcode = OP_SHA256 then env_SHA256 env vch
            else if opcode = OP_HASH160 then CHash160 env vch
            else CHash256 env vch)
         in Inr (st\<lparr>stack := vchHash # s\<rparr>))"

definition op_CHECKSIG :: "script_env \<Rightarrow> opcodetype \<Rightarrow> interp \<Rightarrow> interp op_result" where
  "op_CHECKSIG env opcode st = (case stack st of
       vchPubKey # vchSig # s \<Rightarrow>
         let scriptCode = fst (FindAndDelete (pbegincodehash st) (push_data vchSig)) in
         bindE (CheckSignatureEncoding vchSig (env_flags env)) (\<lambda>_.
         bindE (CheckPubKeyEncoding vchPubKey (env_flags env)) (\<lambda>_.
           let fSuccess = env_CheckSig env vchSig vchPubKey scriptCode in
           if opcode = OP_CHECKSIGVERIFY then
             (if fSuccess then Inr (st\<lparr>stack := s\<rparr>) else serr SCRIPT_ERR_CHECKSIGVERIFY)
           else Inr (st\<lparr>stack := bool_vch fSuccess # s\<rparr>)))
     | _ \<Rightarrow> serr SCRIPT_ERR_INVALID_STACK_OPERATION)"

text \<open>
  The loop of OP_CHECKMULTISIG over the signatures and keys still to be tried (nSigsCount and
  nKeysCount are their lengths; isig and ikey their first elements).  The last equation is never
  reached: the loop keeps nSigsCount at most nKeysCount.
\<close>

fun multisig_loop :: "script_env \<Rightarrow> CScript \<Rightarrow> valtype list \<Rightarrow> valtype list \<Rightarrow> fault + bool" where
  "multisig_loop env scriptCode [] keys = Inr True"
| "multisig_loop env scriptCode (vchSig # sigs) (vchPubKey # keys) =
     bindE (CheckSignatureEncoding vchSig (env_flags env)) (\<lambda>_.
     bindE (CheckPubKeyEncoding vchPubKey (env_flags env)) (\<lambda>_.
       let fOk = env_CheckSig env vchSig vchPubKey scriptCode;
           sigs' = (if fOk then sigs else vchSig # sigs)
       in if length sigs' > length keys then Inr False
          else multisig_loop env scriptCode sigs' keys))"
| "multisig_loop env scriptCode (vchSig # sigs) [] = Inr False"

definition drop_signatures :: "valtype list \<Rightarrow> CScript \<Rightarrow> CScript" where
  "drop_signatures sigs scriptCode =
     foldl (\<lambda>code vchSig. fst (FindAndDelete code (push_data vchSig))) scriptCode sigs"

text \<open>The end of the case: \<open>rest\<close> is the stack after its arguments are popped.\<close>

definition finish_multisig ::
  "script_env \<Rightarrow> opcodetype \<Rightarrow> nat \<Rightarrow> valtype list \<Rightarrow> bool \<Rightarrow> interp \<Rightarrow> interp op_result" where
  "finish_multisig env opcode nOps rest fSuccess st =
     (if length rest < 1 then serr SCRIPT_ERR_INVALID_STACK_OPERATION
      else if has_flag (env_flags env) SCRIPT_VERIFY_NULLDUMMY \<and> length (hd rest) > 0
      then serr SCRIPT_ERR_SIG_NULLDUMMY
      else let s = tl rest in
      if opcode = OP_CHECKMULTISIGVERIFY then
        (if fSuccess then Inr (st\<lparr>stack := s, nOpCount := nOps\<rparr>)
         else serr SCRIPT_ERR_CHECKMULTISIGVERIFY)
      else Inr (st\<lparr>stack := bool_vch fSuccess # s, nOpCount := nOps\<rparr>))"

definition op_CHECKMULTISIG :: "script_env \<Rightarrow> opcodetype \<Rightarrow> interp \<Rightarrow> interp op_result" where
  "op_CHECKMULTISIG env opcode st =
     (let stk = stack st in
      if length stk < 1 then serr SCRIPT_ERR_INVALID_STACK_OPERATION
      else bindE (CScriptNum (stk ! 0) (fRequireMinimal env)) (\<lambda>bnKeys.
        if getint bnKeys < 0 \<or> getint bnKeys > 20 then serr SCRIPT_ERR_PUBKEY_COUNT
        else let nKeysCount = nat (getint bnKeys); nOps = nOpCount st + nKeysCount in
        if nOps > 201 then serr SCRIPT_ERR_OP_COUNT
        else let ikey = 2; i = ikey + nKeysCount in
        if length stk < i then serr SCRIPT_ERR_INVALID_STACK_OPERATION
        else bindE (CScriptNum (stk ! (i - 1)) (fRequireMinimal env)) (\<lambda>bnSigs.
          if getint bnSigs < 0 \<or> getint bnSigs > int nKeysCount then serr SCRIPT_ERR_SIG_COUNT
          else let nSigsCount = nat (getint bnSigs); isig = i + 1; i = isig + nSigsCount in
          if length stk < i then serr SCRIPT_ERR_INVALID_STACK_OPERATION
          else let sigs = take nSigsCount (drop (isig - 1) stk);
                   keys = take nKeysCount (drop (ikey - 1) stk);
                   scriptCode = drop_signatures sigs (pbegincodehash st) in
          bindE (multisig_loop env scriptCode sigs keys) (\<lambda>fSuccess.
            finish_multisig env opcode nOps (drop (i - 1) stk) fSuccess st))))"

end
