(* ===== verification/ScriptVM.thy ===== *)
theory ScriptVM
  imports EvalScript
begin

text \<open>
  Properties of the script machine: no assertion is reached, the loop as a small-step relation,
  the resource limits, the inactive branches, and the meaning of OP_CHECKMULTISIG and of the
  pay-to-public-key-hash and pay-to-script-hash templates under VerifyScript.
\<close>

section \<open>No assertion is reached\<close>

lemma CheckSignatureEncoding_Fail:
  "CheckSignatureEncoding sig flags = Inl e \<Longrightarrow> \<exists>err. e = Fail err"
  by (auto simp: CheckSignatureEncoding_def IsLowDERSignature_def Let_def split: if_splits)

lemma CheckPubKeyEncoding_Fail:
  "CheckPubKeyEncoding pk flags = Inl e \<Longrightarrow> \<exists>err. e = Fail err"
  by (auto simp: CheckPubKeyEncoding_def split: if_splits)

named_theorems abort_free \<open>operations that never run into an assertion\<close>

lemma CScriptNum_abort [abort_free]: "CScriptNum v r \<noteq> Inl Abort"
  using CScriptNum_Throw by fastforce

lemma CheckSignatureEncoding_abort [abort_free]: "CheckSignatureEncoding sig flags \<noteq> Inl Abort"
  using CheckSignatureEncoding_Fail by fastforce

lemma CheckPubKeyEncoding_abort [abort_free]: "CheckPubKeyEncoding pk flags \<noteq> Inl Abort"
  using CheckPubKeyEncoding_Fail by fastforce

lemma unary_num_range:
  assumes "opcode \<in> set unary_ops" "\<bar>n\<bar> < 2 ^ 31"
  shows "\<exists>r. unary_num opcode n = Inr r \<and> \<bar>r\<bar> \<le> 2 ^ 31"
  using assms scriptnum_no_abort [OF assms(2), of 1]
  by (auto simp: unary_ops_def unary_num_def)

lemma op_unary_abort [abort_free]:
  assumes "opcode \<in> set unary_ops"
  shows "op_unary env opcode st \<noteq> Inl Abort"
  using unary_num_range [OF assms] CScriptNum_range CScriptNum_abort
  by (fastforce simp: op_unary_def fault_simps split: list.splits)

lemma binary_num_range:
  assumes "opcode \<in> set binary_ops" "\<bar>n\<bar> < 2 ^ 31" "\<bar>m\<bar> < 2 ^ 31"
  shows "\<exists>r. binary_num opcode n m = Inr r \<and> \<bar>r\<bar> < 2 ^ 32"
  using assms by (auto simp: binary_ops_def binary_num_def scriptnum_add_def scriptnum_sub_def)

lemma op_binary_abort [abort_free]:
  assumes "opcode \<in> set binary_ops"
  shows "op_binary env opcode st \<noteq> Inl Abort"
  using binary_num_range [OF assms] CScriptNum_range CScriptNum_abort
  by (fastforce simp: op_binary_def fault_simps Let_def split: list.splits if_splits)

lemma multisig_loop_abort [abort_free]: "multisig_loop env code sigs keys \<noteq> Inl Abort"
  by (induction env code sigs keys rule: multisig_loop.induct)
    (auto simp: fault_simps abort_free Let_def split: if_splits)

lemma op_CHECKMULTISIG_abort [abort_free]: "op_CHECKMULTISIG env opcode st \<noteq> Inl Abort"
  by (auto simp: op_CHECKMULTISIG_def finish_multisig_def fault_simps abort_free Let_def)

lemma op_CHECKSIG_abort [abort_free]: "op_CHECKSIG env opcode st \<noteq> Inl Abort"
  by (auto simp: op_CHECKSIG_def fault_simps abort_free Let_def split: list.splits if_splits)

lemma op_PICK_ROLL_abort [abort_free]: "op_PICK_ROLL env opcode st \<noteq> Inl Abort"
  by (auto simp: op_PICK_ROLL_def fault_simps abort_free Let_def)

lemma op_WITHIN_abort [abort_free]: "op_WITHIN env st \<noteq> Inl Abort"
  by (auto simp: op_WITHIN_def fault_simps abort_free split: list.splits)

lemma plain_ops_abort [abort_free]:
  "op_push_value opcode st \<noteq> Inl Abort" "op_NOPn env st \<noteq> Inl Abort"
  "op_IF opcode fExec st \<noteq> Inl Abort" "op_ELSE st \<noteq> Inl Abort" "op_ENDIF st \<noteq> Inl Abort"
  "op_VERIFY st \<noteq> Inl Abort" "op_TOALTSTACK st \<noteq> Inl Abort"
  "op_FROMALTSTACK st \<noteq> Inl Abort" "on_stack f st \<noteq> Inl Abort"
  "op_EQUAL opcode st \<noteq> Inl Abort" "op_HASH env opcode st \<noteq> Inl Abort"
  by (auto simp: op_push_value_def op_NOPn_def op_IF_def op_ELSE_def op_ENDIF_def op_VERIFY_def
      op_TOALTSTACK_def op_FROMALTSTACK_def on_stack_def op_EQUAL_def op_HASH_def Let_def
      split: list.splits option.splits)

lemma exec_op_abort [abort_free]: "exec_op env fExec opcode pc st \<noteq> Inl Abort"
  by (simp add: exec_op_def abort_free)

lemma eval_step_abort [abort_free]: "eval_step env pc st \<noteq> Inl Abort"
  by (auto simp: eval_step_def Let_def fault_simps abort_free split: prod.splits)

lemma eval_loop_abort [abort_free]: "eval_loop env pc st \<noteq> Inl Abort"
proof (induction env pc st rule: eval_loop.induct)
  case (1 env pc st)
  show ?case
  proof (cases "pc = []")
    case False
    then show ?thesis
      using 1 eval_step_abort [of env pc st]
      by (subst eval_loop.simps) (auto split: sum.splits)
  qed (simp add: eval_loop.simps)
qed

lemma EvalScript_Fail: "EvalScript env stk script = Inl e \<Longrightarrow> \<exists>err. e = Fail err"
  by (cases e) (auto simp: EvalScript_def abort_free split: if_splits sum.splits fault.splits)

section \<open>The loop as a step relation\<close>

inductive vm_steps :: "script_env \<Rightarrow> bytes \<Rightarrow> interp \<Rightarrow> bytes \<Rightarrow> interp \<Rightarrow> bool" for env where
  refl: "vm_steps env pc st pc st"
| step: "pc \<noteq> [] \<Longrightarrow> eval_step env pc st = Inr (pc1, st1) \<Longrightarrow> vm_steps env pc1 st1 pc2 st2 \<Longrightarrow>
    vm_steps env pc st pc2 st2"

inductive_cases vm_stepsE: "vm_steps env pc st pc' st'"
inductive_cases vm_steps_endE: "vm_steps env [] st pc' st'"

lemma vm_steps_end [simp]: "vm_steps env [] st pc' st' \<longleftrightarrow> pc' = [] \<and> st' = st"
  by (auto elim: vm_steps_endE intro: vm_steps.refl)

lemma eval_loop_iff_steps: "eval_loop env pc st = Inr st' \<longleftrightarrow> vm_steps env pc st [] st'"
proof (induction env pc st rule: eval_loop.induct)
  case (1 env pc st)
  show ?case
  proof (cases "pc = []")
    case True
    then show ?thesis by (auto simp: eval_loop.simps)
  next
    case False
    have "vm_steps env pc st [] st' \<longleftrightarrow>
        (\<exists>pc1 st1. eval_step env pc st = Inr (pc1, st1) \<and> vm_steps env pc1 st1 [] st')"
      using False by (auto elim: vm_stepsE intro: vm_steps.step)
    then show ?thesis
      using 1 False by (subst eval_loop.simps) (auto split: sum.splits)
  qed
qed

lemma vm_steps_trans:
  "vm_steps env pc st pc1 st1 \<Longrightarrow> vm_steps env pc1 st1 pc2 st2 \<Longrightarrow> vm_steps env pc st pc2 st2"
  by (induction rule: vm_steps.induct) (auto intro: vm_steps.step)

section \<open>Resource limits\<close>

definition hash_sizes :: "script_env \<Rightarrow> bool" where
  "hash_sizes env \<longleftrightarrow> (\<forall>b. length (env_RIPEMD160 env b) = 20 \<and> length (env_SHA1 env b) = 20 \<and>
     length (env_SHA256 env b) = 32)"

definition small_elems :: "valtype list \<Rightarrow> bool" where
  "small_elems s \<longleftrightarrow> (\<forall>x \<in> set s. length x \<le> MAX_SCRIPT_ELEMENT_SIZE)"

lemma small_elems_simps [simp]:
  "small_elems []" "small_elems (x # s) \<longleftrightarrow> length x \<le> 520 \<and> small_elems s"
  by (auto simp: small_elems_def)

lemma small_elems_mono: "small_elems s \<Longrightarrow> set t \<subseteq> set s \<Longrightarrow> small_elems t"
  by (auto simp: small_elems_def)

definition vm_ok :: "interp \<Rightarrow> bool" where
  "vm_ok st \<longleftrightarrow> small_elems (stack st) \<and> small_elems (altstack st) \<and>
     length (stack st) + length (altstack st) \<le> 1000 \<and> nOpCount st \<le> 201"

text \<open>Between the switch and the size check the stacks may exceed the limit by the few elements
one operation adds, so the elements are bounded separately.\<close>

definition vm_mid :: "interp \<Rightarrow> bool" where
  "vm_mid st \<longleftrightarrow> small_elems (stack st) \<and> small_elems (altstack st) \<and> nOpCount st \<le> 201"

lemma serialize_small: "\<bar>n\<bar> \<le> 2 ^ 32 \<Longrightarrow> length (scriptnum_serialize n) \<le> 520"
  using length_serialize [of n 519] by simp

lemma bool_vch_small [simp]: "length (bool_vch b) \<le> 520"
  by (simp add: bool_vch_def vchTrue_def vchFalse_def)

lemmas vm_mid_op_defs = op_push_value_def op_NOPn_def op_IF_def op_ELSE_def op_ENDIF_def
  op_VERIFY_def op_TOALTSTACK_def op_FROMALTSTACK_def op_EQUAL_def op_HASH_def op_CHECKSIG_def
  op_WITHIN_def push_def

fun_cases op_2DROPE: "op_2DROP s = Some s'"
fun_cases op_2DUPE: "op_2DUP s = Some s'"
fun_cases op_3DUPE: "op_3DUP s = Some s'"
fun_cases op_2OVERE: "op_2OVER s = Some s'"
fun_cases op_2ROTE: "op_2ROT s = Some s'"
fun_cases op_2SWAPE: "op_2SWAP s = Some s'"
fun_cases op_IFDUPE: "op_IFDUP s = Some s'"
fun_cases op_DROPE: "op_DROP s = Some s'"
fun_cases op_DUPE: "op_DUP s = Some s'"
fun_cases op_NIPE: "op_NIP s = Some s'"
fun_cases op_OVERE: "op_OVER s = Some s'"
fun_cases op_ROTE: "op_ROT s = Some s'"
fun_cases op_SWAPE: "op_SWAP s = Some s'"
fun_cases op_TUCKE: "op_TUCK s = Some s'"
fun_cases op_SIZEE: "op_SIZE s = Some s'"

lemmas stack_opE =
  op_2DROPE op_2DUPE op_3DUPE op_2OVERE op_2ROTE op_2SWAPE op_IFDUPE op_DROPE
  op_DUPE op_NIPE op_OVERE op_ROTE op_SWAPE op_TUCKE op_SIZEE

text \<open>All but OP_DEPTH and OP_SIZE only rearrange the stack.\<close>

lemma stack_op_subset:
  "op_2DROP s = Some s' \<Longrightarrow> set s' \<subseteq> set s"
  "op_2DUP s = Some s' \<Longrightarrow> set s' \<subseteq> set s"
  "op_3DUP s = Some s' \<Longrightarrow> set s' \<subseteq> set s"
  "op_2OVER s = Some s' \<Longrightarrow> set s' \<subseteq> set s"
  "op_2ROT s = Some s' \<Longrightarrow> set s' \<subseteq> set s"
  "op_2SWAP s = Some s' \<Longrightarrow> set s' \<subseteq> set s"
  "op_IFDUP s = Some s' \<Longrightarrow> set s' \<subseteq> set s"
  "op_DROP s = Some s' \<Longrightarrow> set s' \<subseteq> set s"
  "op_DUP s = Some s' \<Longrightarrow> set s' \<subseteq> set s"
  "op_NIP s = Some s' \<Longrightarrow> set s' \<subseteq> set s"
  "op_OVER s = Some s' \<Longrightarrow> set s' \<subseteq> set s"
  "op_ROT s = Some s' \<Longrightarrow> set s' \<subseteq> set s"
  "op_SWAP s = Some s' \<Longrightarrow> set s' \<subseteq> set s"
  "op_TUCK s = Some s' \<Longrightarrow> set s' \<subseteq> set s"
  by (auto elim!: stack_opE split: if_splits)

lemma stack_op_small:
  assumes "stack_op opcode = Some f" "f s = Some s'" "small_elems s" "length s \<le> 1000"
  shows "small_elems s'"
proof -
  have "set s' \<subseteq> set s \<or> op_DEPTH s = Some s' \<or> op_SIZE s = Some s'"
    using assms(1,2) unfolding stack_op_def
    by (simp split: if_split_asm) (auto dest: stack_op_subset)
  moreover have "length (scriptnum_serialize (int (length s))) \<le> 520"
    using assms(4) by (intro serialize_small) simp
  moreover have "length (scriptnum_serialize (int (length x))) \<le> 520" if "length x \<le> 520"
    for x :: valtype using that by (intro serialize_small) simp
  ultimately show ?thesis
    using assms(3) by (auto simp: op_DEPTH_def elim: op_SIZEE small_elems_mono)
qed

lemma unary_num_size:
  assumes "opcode \<in> set unary_ops" "CScriptNum x req = Inr n" "unary_num opcode n = Inr r"
  shows "length (scriptnum_serialize r) \<le> 520"
  using unary_num_range [OF assms(1) CScriptNum_range [OF assms(2)]] assms(3)
  by (intro serialize_small) auto

lemma binary_num_size:
  assumes "opcode \<in> set binary_ops" "CScriptNum x req = Inr n" "CScriptNum y req = Inr m"
    "binary_num opcode n m = Inr r"
  shows "length (scriptnum_serialize r) \<le> 520"
  using binary_num_range [OF assms(1) CScriptNum_range [OF assms(2)] CScriptNum_range [OF assms(3)]]
    assms(4)
  by (intro serialize_small) auto

lemma small_elems_tl: "small_elems s \<Longrightarrow> small_elems (tl s)"
  by (cases s) auto

lemma finish_multisig_result:
  "finish_multisig env opcode n rest b st = Inr st' \<Longrightarrow>
     \<exists>s. st' = st\<lparr>stack := s, nOpCount := n\<rparr> \<and> (s = tl rest \<or> s = bool_vch b # tl rest)"
  by (auto simp: finish_multisig_def Let_def split: if_splits)

lemma op_CHECKMULTISIG_result:
  assumes "op_CHECKMULTISIG env opcode st = Inr st'"
  obtains n k b where "n \<le> 201" "finish_multisig env opcode n (drop k (stack st)) b st = Inr st'"
  using assms
  unfolding op_CHECKMULTISIG_def Let_def if_Inl_eq_Inr bindE_eq_Inr not_less
  by (elim exE conjE)

lemma op_CHECKMULTISIG_mid:
  assumes "op_CHECKMULTISIG env opcode st = Inr st'" "vm_mid st"
  shows "vm_mid st'"
proof -
  have "small_elems (drop k (stack st))" for k
    using assms(2) set_drop_subset [of k "stack st"]
    by (auto simp: vm_mid_def intro: small_elems_mono)
  then have "small_elems (tl (drop k (stack st)))" for k
    by (rule small_elems_tl)
  moreover obtain n k b where "n \<le> 201" "finish_multisig env opcode n (drop k (stack st)) b st = Inr st'"
    by (rule op_CHECKMULTISIG_result [OF assms(1)])
  ultimately show ?thesis
    using assms(2) by (auto simp: vm_mid_def dest!: finish_multisig_result)
qed

lemma op_PICK_ROLL_mid:
  assumes "op_PICK_ROLL env opcode st = Inr st'" "vm_mid st"
  shows "vm_mid st'"
proof -
  obtain x s where s: "stack st = x # s"
    using assms(1) by (cases "stack st") (auto simp: op_PICK_ROLL_def)
  have small: "small_elems s" using assms(2) s by (simp add: vm_mid_def)
  then have nth: "length (s ! k) \<le> 520" if "k < length s" for k
    using that by (simp add: small_elems_def)
  have "small_elems (take k s @ drop l s)" for k l
    by (rule small_elems_mono [OF small]) (auto dest: in_set_takeD in_set_dropD)
  with small nth show ?thesis
    using assms s
    by (auto simp: op_PICK_ROLL_def Let_def fault_simps vm_mid_def split: if_splits)
qed

lemma exec_op_mid:
  assumes "exec_op env fExec opcode pc st = Inr st'" "vm_mid st" "hash_sizes env"
    "length (stack st) \<le> 1000"
  shows "vm_mid st'"
proof -
  consider (stk) f where "stack_op opcode = Some f" "on_stack f st = Inr st'"
    | (un) "opcode \<in> set unary_ops" "op_unary env opcode st = Inr st'"
    | (bin) "opcode \<in> set binary_ops" "op_binary env opcode st = Inr st'"
    | (pick) "op_PICK_ROLL env opcode st = Inr st'"
    | (multi) "op_CHECKMULTISIG env opcode st = Inr st'"
    | (push) "opcode = OP_1NEGATE \<or> OP_1 \<le> opcode \<and> opcode \<le> OP_16" "op_push_value opcode st = Inr st'"
    | (other) "op_NOPn env st = Inr st' \<or> op_IF opcode fExec st = Inr st' \<or> op_ELSE st = Inr st' \<or>
        op_ENDIF st = Inr st' \<or> op_VERIFY st = Inr st' \<or> op_TOALTSTACK st = Inr st' \<or>
        op_FROMALTSTACK st = Inr st' \<or> op_EQUAL opcode st = Inr st' \<or> op_WITHIN env st = Inr st' \<or>
        op_HASH env opcode st = Inr st' \<or> op_CHECKSIG env opcode st = Inr st' \<or> st' = st \<or>
        st' = st\<lparr>pbegincodehash := pc\<rparr>"
    using assms(1) by (simp add: exec_op_def split: if_splits)
  then show ?thesis
  proof cases
    case stk
    then show ?thesis
      using assms(2,4) by (auto simp: on_stack_def vm_mid_def split: option.splits dest: stack_op_small)
  next
    case un
    then show ?thesis
      using assms(2) unary_num_size
      by (fastforce simp: op_unary_def vm_mid_def fault_simps split: list.splits)
  next
    case bin
    then show ?thesis
      using assms(2) binary_num_size
      by (fastforce simp: op_binary_def vm_mid_def fault_simps Let_def split: list.splits if_splits)
  next
    case pick
    then show ?thesis using assms(2) by (rule op_PICK_ROLL_mid)
  next
    case multi
    then show ?thesis using assms(2) by (rule op_CHECKMULTISIG_mid)
  next
    case push
    then show ?thesis
      using assms(2) by (auto simp: op_push_value_def push_def vm_mid_def intro!: serialize_small)
  next
    case other
    then show ?thesis
      using assms(2,3)
      by (elim disjE)
        (auto simp: vm_mid_op_defs vm_mid_def fault_simps Let_def hash_sizes_def CHash160_def
          CHash256_def split: list.splits if_splits)
  qed
qed

lemma eval_step_ok:
  assumes "eval_step env pc st = Inr (pc', st')" "vm_ok st" "hash_sizes env"
  shows "vm_ok st'"
proof -
  obtain f opc v pc1 where g: "GetOp2 pc = (f, opc, v, pc1)" by (cases "GetOp2 pc") auto
  define s where "s = count_op opc st"
  have "vm_mid s" if "\<not> (OP_16 < opc \<and> 201 < nOpCount s)"
    using assms(2) that by (auto simp: vm_ok_def vm_mid_def s_def count_op_def)
  moreover have "length (stack s) \<le> 1000"
    using assms(2) by (auto simp: vm_ok_def s_def count_op_def)
  moreover have "length v \<le> 520 \<Longrightarrow> vm_mid s \<Longrightarrow> vm_mid (push v s)"
    by (simp add: vm_mid_def push_def)
  ultimately show ?thesis
    using assms(1,3) exec_op_mid [of env _ opc pc1 s]
    by (auto simp: eval_step_def g s_def [symmetric] Let_def fault_simps vm_ok_def vm_mid_def
        split: if_splits)
qed

lemma vm_steps_ok:
  "vm_steps env pc st pc' st' \<Longrightarrow> vm_ok st \<Longrightarrow> hash_sizes env \<Longrightarrow> vm_ok st'"
  by (induction rule: vm_steps.induct) (auto dest: eval_step_ok)

section \<open>Inactive branches\<close>

text \<open>While some enclosing branch is not taken only the conditionals act, and only on vfExec.\<close>

lemma eval_step_inactive:
  assumes "False \<in> set (vfExec st)" "eval_step env pc st = Inr (pc', st')"
  shows "stack st' = stack st \<and> altstack st' = altstack st \<and> pbegincodehash st' = pbegincodehash st"
  using assms
  by (auto simp: eval_step_def Let_def fault_simps exec_op_def count_op_def stack_op_def op_IF_def
      op_ELSE_def op_ENDIF_def op_VERIFY_def unary_ops_def binary_ops_def hash_ops_def
      split: prod.splits if_splits list.splits)

section \<open>OP_CHECKMULTISIG\<close>

text \<open>The greedy loop succeeds exactly when the signatures match some subsequence of the keys,
in the same order.\<close>

definition encodings_ok :: "script_env \<Rightarrow> valtype list \<Rightarrow> valtype list \<Rightarrow> bool" where
  "encodings_ok env sigs keys \<longleftrightarrow>
     (\<forall>s \<in> set sigs. CheckSignatureEncoding s (env_flags env) = Inr ()) \<and>
     (\<forall>k \<in> set keys. CheckPubKeyEncoding k (env_flags env) = Inr ())"

definition sigs_match :: "script_env \<Rightarrow> CScript \<Rightarrow> valtype list \<Rightarrow> valtype list \<Rightarrow> bool" where
  "sigs_match env code sigs keys \<longleftrightarrow>
     (\<exists>ks. subseq ks keys \<and> list_all2 (\<lambda>s k. env_CheckSig env s k code) sigs ks)"

lemma sigs_match_Nil [simp]: "sigs_match env code [] keys"
  by (auto simp: sigs_match_def)

lemma sigs_match_length: "sigs_match env code sigs keys \<Longrightarrow> length sigs \<le> length keys"
  by (metis list_all2_lengthD list_emb_length sigs_match_def)

lemma sigs_match_Cons:
  "sigs_match env code (s # sigs) (k # keys) \<longleftrightarrow>
     (if env_CheckSig env s k code then sigs_match env code sigs keys
      else sigs_match env code (s # sigs) keys)"
proof -
  have tail: "sigs_match env code sigs keys" if "sigs_match env code (s # sigs) keys"
    using that subseq_Cons' by (fastforce simp: sigs_match_def list_all2_Cons1)
  have here: "sigs_match env code (s # sigs) (k # keys)"
    if "env_CheckSig env s k code" "sigs_match env code sigs keys"
    using that unfolding sigs_match_def by (metis list_all2_Cons subseq_Cons2)
  have skip: "sigs_match env code (s # sigs) (k # keys)" if "sigs_match env code (s # sigs) keys"
    using that by (auto simp: sigs_match_def)
  have "sigs_match env code sigs keys \<and> env_CheckSig env s k code \<or> sigs_match env code (s # sigs) keys"
    if m: "sigs_match env code (s # sigs) (k # keys)"
  proof -
    obtain ks where ks: "subseq ks (k # keys)" "list_all2 (\<lambda>s k. env_CheckSig env s k code) (s # sigs) ks"
      using m by (auto simp: sigs_match_def)
    then obtain k' ks' where "ks = k' # ks'" by (cases ks) auto
    with ks show ?thesis
      by (cases "k' = k") (auto simp: sigs_match_def)
  qed
  with here skip tail show ?thesis by (auto split: if_splits)
qed

lemma multisig_loop_iff:
  "encodings_ok env sigs keys \<Longrightarrow> length sigs \<le> length keys \<Longrightarrow>
     multisig_loop env code sigs keys = Inr (sigs_match env code sigs keys)"
proof (induction env code sigs keys rule: multisig_loop.induct)
  case (2 env code s sigs k keys)
  have len: "\<not> sigs_match env code sigs' keys" if "length keys < length sigs'" for sigs'
    using that sigs_match_length by (metis not_less)
  show ?case
    using 2 len by (auto simp: encodings_ok_def sigs_match_Cons Let_def)
qed (auto simp: encodings_ok_def)

end
