(* ===== verification/Templates.thy ===== *)
theory Templates
  imports ScriptVM
begin

text \<open>
  Symbolic runs of the script machine on the two hash templates of script/standard.cpp, and what
  VerifyScript (script/interpreter.cpp) then says of them; the assertion of the pay-to-script-hash
  branch is never reached.
\<close>

section \<open>Running templates\<close>

definition all_exec :: "interp \<Rightarrow> bool" where
  "all_exec st \<longleftrightarrow> False \<notin> set (vfExec st)"

definition fits :: "interp \<Rightarrow> bool" where
  "fits st \<longleftrightarrow> length (stack st) + length (altstack st) \<le> 1000"

lemma disabled_ops_gt: "opc \<in> set disabled_ops \<Longrightarrow> OP_16 < opc"
  by (auto simp: disabled_ops_def)

lemma eval_loop_push:
  assumes "length b \<le> 520" "fRequireMinimal env \<longrightarrow> \<not> small_int_push b" "all_exec st"
  shows "eval_loop env (push_data b @ rest) st =
    (if fits (push b st) then eval_loop env rest (push b st) else serr SCRIPT_ERR_STACK_SIZE)"
proof -
  have g: "GetOp2 (push_data b @ rest) = (True, push_op b, b, rest)"
    using assms(1) by (intro GetOp2_push_data) simp
  have p: "push_op b \<le> OP_PUSHDATA4" by simp
  then have gt: "\<not> push_op b > OP_16" by linarith
  then have "push_op b \<notin> set disabled_ops"
    using disabled_ops_gt by blast
  then have "eval_step env (push_data b @ rest) st =
      (if fits (push b st) then Inr (rest, push b st) else serr SCRIPT_ERR_STACK_SIZE)"
    using assms p gt
    by (auto simp: eval_step_def g Let_def CheckMinimalPush_push_op all_exec_def fits_def count_op_def)
  then show ?thesis by (subst eval_loop.simps) simp
qed

lemma eval_loop_op:
  assumes "OP_16 < opc" "opc < 256" "opc \<notin> set disabled_ops" "all_exec st" "nOpCount st < 201"
  shows "eval_loop env (of_nat opc # rest) st =
    bindE (exec_op env True opc rest (st\<lparr>nOpCount := Suc (nOpCount st)\<rparr>)) (\<lambda>st'.
      if fits st' then eval_loop env rest st' else serr SCRIPT_ERR_STACK_SIZE)"
proof -
  have g: "GetOp2 (of_nat opc # rest) = (True, opc, [], rest)"
    using assms(1,2) by (intro GetOp2_op) auto
  have "eval_step env (of_nat opc # rest) st =
    bindE (exec_op env True opc rest (st\<lparr>nOpCount := Suc (nOpCount st)\<rparr>)) (\<lambda>st'.
      if fits st' then Inr (rest, st') else serr SCRIPT_ERR_STACK_SIZE)"
    using assms
    by (cases "exec_op env True opc rest (st\<lparr>nOpCount := Suc (nOpCount st)\<rparr>)")
      (auto simp: eval_step_def g Let_def all_exec_def fits_def count_op_def)
  then show ?thesis
    by (subst eval_loop.simps)
      (cases "exec_op env True opc rest (st\<lparr>nOpCount := Suc (nOpCount st)\<rparr>)", auto)
qed

lemma eval_loop_Nil [simp]: "eval_loop env [] st = Inr st"
  by (simp add: eval_loop.simps)

lemma length_hash_not_small: "length h = 20 \<Longrightarrow> \<not> small_int_push h"
  by (simp add: small_int_push_def)

definition p2pkh :: "bytes \<Rightarrow> CScript" where
  "p2pkh h = assemble [Op OP_DUP, Op OP_HASH160, Push h, Op OP_EQUALVERIFY, Op OP_CHECKSIG]"

definition p2sh :: "bytes \<Rightarrow> CScript" where
  "p2sh h = assemble [Op OP_HASH160, Push h, Op OP_EQUAL]"

lemmas exec_op_template = exec_op_def stack_op_def op_HASH_def op_EQUAL_def on_stack_def
  unary_ops_def binary_ops_def hash_ops_def

lemma length_push_data_20: "length h = 20 \<Longrightarrow> push_data h = 20 # h"
  by (simp add: push_data_def)

lemma EvalScript_p2pkh:
  assumes "length h = 20" "length s \<le> 996"
  shows "EvalScript env (pk # sig # s) (p2pkh h) =
    (if CHash160 env pk \<noteq> h then serr SCRIPT_ERR_EQUALVERIFY
     else bindE (CheckSignatureEncoding sig (env_flags env)) (\<lambda>_.
          bindE (CheckPubKeyEncoding pk (env_flags env)) (\<lambda>_.
            Inr (bool_vch (env_CheckSig env sig pk (fst (FindAndDelete (p2pkh h) (push_data sig)))) # s))))"
proof -
  have len: "length (p2pkh h) = 25"
    using assms(1) by (simp add: p2pkh_def push_data_def)
  note run = eval_loop_op [of OP_DUP, simplified] eval_loop_op [of OP_HASH160, simplified]
    eval_loop_op [of OP_EQUALVERIFY, simplified] eval_loop_op [of OP_CHECKSIG, simplified]
    eval_loop_push
  show ?thesis
    using assms length_hash_not_small [OF assms(1)] len
    by (cases "CheckSignatureEncoding sig (env_flags env)"; cases "CheckPubKeyEncoding pk (env_flags env)")
     (auto simp: EvalScript_def p2pkh_def run disabled_ops_def all_exec_def fits_def push_def
        exec_op_template op_CHECKSIG_def Let_def
        dest: CheckSignatureEncoding_Fail CheckPubKeyEncoding_Fail)
qed

section \<open>Pay to script hash\<close>

lemma EvalScript_p2sh:
  assumes "length h = 20" "length s \<le> 998"
  shows "EvalScript env (x # s) (p2sh h) = Inr (bool_vch (CHash160 env x = h) # s)"
proof -
  have len: "length (p2sh h) = 23"
    using assms(1) by (simp add: p2sh_def push_data_def)
  note run = eval_loop_op [of OP_HASH160, simplified] eval_loop_op [of OP_EQUAL, simplified]
    eval_loop_push
  show ?thesis
    using assms length_hash_not_small [OF assms(1)] len
    by (auto simp: EvalScript_def p2sh_def run disabled_ops_def all_exec_def fits_def push_def
        exec_op_template Let_def)
qed

lemma EvalScript_p2sh_full:
  assumes "length h = 20" "length s \<ge> 999"
  shows "\<exists>err. EvalScript env (x # s) (p2sh h) = Inl (Fail err)"
proof -
  have len: "length (p2sh h) = 23"
    using assms(1) by (simp add: p2sh_def push_data_def)
  note run = eval_loop_op [of OP_HASH160, simplified] eval_loop_op [of OP_EQUAL, simplified]
    eval_loop_push
  show ?thesis
    using assms length_hash_not_small [OF assms(1)] len
    by (auto simp: EvalScript_def p2sh_def run disabled_ops_def all_exec_def fits_def push_def
        exec_op_template Let_def)
qed

lemma EvalScript_p2sh_empty:
  assumes "length h = 20"
  shows "EvalScript env [] (p2sh h) = serr SCRIPT_ERR_INVALID_STACK_OPERATION"
proof -
  have len: "length (p2sh h) = 23"
    using assms(1) by (simp add: p2sh_def push_data_def)
  show ?thesis
    using assms len
    by (simp add: EvalScript_def p2sh_def eval_loop_op [of OP_HASH160, simplified] disabled_ops_def
        all_exec_def fits_def exec_op_template Let_def)
qed

lemma IsPayToScriptHash_iff: "IsPayToScriptHash s \<longleftrightarrow> (\<exists>h. length h = 20 \<and> s = p2sh h)"
proof
  assume s: "IsPayToScriptHash s"
  define h where "h = take 20 (drop 2 s)"
  have "s = [s ! 0, s ! 1] @ h @ [s ! 22]"
    using s unfolding h_def
    by (intro nth_equalityI) (auto simp: IsPayToScriptHash_def nth_append nth_Cons split: nat.splits
        intro!: arg_cong [of _ _ "(!) s"])
  moreover have "s ! 0 = 0xa9" "s ! 22 = 0x87" "s ! 1 = 0x14" "length h = 20"
    using s by (auto simp: IsPayToScriptHash_def word_unat_eq_iff h_def)
  ultimately have "s = [0xa9, 0x14] @ h @ [0x87]" by metis
  then show "\<exists>h. length h = 20 \<and> s = p2sh h"
    using \<open>length h = 20\<close> by (intro exI [of _ h]) (simp add: p2sh_def push_data_def)
next
  assume "\<exists>h. length h = 20 \<and> s = p2sh h"
  then obtain h where "length h = 20" "s = p2sh h" by blast
  then show "IsPayToScriptHash s"
    by (auto simp: IsPayToScriptHash_def p2sh_def push_data_def nth_append nth_Cons)
qed

lemma check_top_bool_vch [simp]: "check_top (bool_vch b # s) = (if b then Inr () else serr SCRIPT_ERR_EVAL_FALSE)"
  by (simp add: check_top_def bool_vch_def vchTrue_def vchFalse_def)

lemma check_top_Fail: "check_top s = Inl e \<Longrightarrow> \<exists>err. e = Fail err"
  by (auto simp: check_top_def split: list.splits if_splits)

lemma VerifyScript_Fail: "VerifyScript env scriptSig scriptPubKey = Inl e \<Longrightarrow> \<exists>err. e = Fail err"
  by (auto simp: VerifyScript_def fault_simps EvalScript_p2sh_empty IsPayToScriptHash_iff
      dest!: EvalScript_Fail check_top_Fail split: if_splits list.splits)

lemma VerifyScript_p2sh:
  assumes "has_flag (env_flags env) SCRIPT_VERIFY_P2SH" "length h = 20" "IsPushOnly scriptSig"
  shows "VerifyScript env scriptSig (p2sh h) = Inr () \<longleftrightarrow>
    (\<exists>redeem s stk. EvalScript env [] scriptSig = Inr (redeem # s) \<and> length s \<le> 998 \<and>
       CHash160 env redeem = h \<and> EvalScript env s redeem = Inr stk \<and> check_top stk = Inr ())"
proof (cases "EvalScript env [] scriptSig")
  case (Inl e)
  then show ?thesis using assms(3) by (auto simp: VerifyScript_def)
next
  case (Inr stk)
  have p: "IsPayToScriptHash (p2sh h)" using assms(2) by (auto simp: IsPayToScriptHash_iff)
  show ?thesis
  proof (cases stk)
    case Nil
    then show ?thesis using Inr assms by (simp add: VerifyScript_def EvalScript_p2sh_empty)
  next
    case (Cons x s)
    show ?thesis
    proof (cases "length s \<le> 998")
      case True
      then show ?thesis
        using Inr Cons assms p by (auto simp: VerifyScript_def EvalScript_p2sh fault_simps)
    next
      case False
      then have "\<exists>err. EvalScript env (x # s) (p2sh h) = Inl (Fail err)"
        using assms(2) by (intro EvalScript_p2sh_full) auto
      then show ?thesis
        using Inr Cons False assms(3) by (auto simp: VerifyScript_def)
    qed
  qed
qed

end
