(* ===== verification/Serialize.thy ===== *)
theory Serialize
  imports Templates
begin

text \<open>
  The serialization framework of serialize.h over in-memory streams (CDataStream of streams.h): a
  stream to read from is the list of its unread bytes, a write is the bytes it appends, and a read
  past the end throws.  The locale \<open>codec\<close> is the interface between a type's writer and its
  reader: it is interpreted for every type that has one, here and in the later theories, and gives
  injectivity, prefix-freeness and uniqueness of encodings.
\<close>

section \<open>Streams\<close>

type_synonym 'a reader = "bytes \<Rightarrow> fault + 'a \<times> bytes"

definition read_bytes :: "nat \<Rightarrow> bytes reader" where
  "read_bytes nSize s = (if nSize > length s then Inl Throw else Inr (take nSize s, drop nSize s))"

abbreviation (input) MAX_SIZE :: nat where "MAX_SIZE \<equiv> 0x02000000"

text \<open>READDATA and WRITEDATA of an \<open>n\<close>-byte unsigned integer.\<close>

definition write_uint :: "nat \<Rightarrow> nat \<Rightarrow> bytes" where
  "write_uint n v = le_bytes n v"

definition read_uint :: "nat \<Rightarrow> nat reader" where
  "read_uint n s = bindE (read_bytes n s) (\<lambda>(bs, s). Inr (le_val bs, s))"

text \<open>The same of an \<open>n\<close>-byte signed integer in two's complement.\<close>

definition write_sint :: "nat \<Rightarrow> int \<Rightarrow> bytes" where
  "write_sint n v = le_bytes n (nat (v mod 256 ^ n))"

definition read_sint :: "nat \<Rightarrow> int reader" where
  "read_sint n s = bindE (read_uint n s) (\<lambda>(u, s).
     Inr (if 2 * u < 256 ^ n then int u else int u - 256 ^ n, s))"

section \<open>Compact sizes\<close>

definition GetSizeOfCompactSize :: "nat \<Rightarrow> nat" where
  "GetSizeOfCompactSize nSize =
     (if nSize < 253 then 1
      else if nSize \<le> 0xffff then 1 + 2
      else if nSize \<le> 0xffffffff then 1 + 4
      else 1 + 8)"

definition WriteCompactSize :: "nat \<Rightarrow> bytes" where
  "WriteCompactSize nSize =
     (if nSize < 253 then write_uint 1 nSize
      else if nSize \<le> 0xffff then write_uint 1 253 @ write_uint 2 nSize
      else if nSize \<le> 0xffffffff then write_uint 1 254 @ write_uint 4 nSize
      else write_uint 1 255 @ write_uint 8 nSize)"

definition ReadCompactSize :: "nat reader" where
  "ReadCompactSize s =
     bindE (read_uint 1 s) (\<lambda>(chSize, s).
     bindE
       (if chSize < 253 then Inr (chSize, s)
        else if chSize = 253 then
          bindE (read_uint 2 s) (\<lambda>(xSize, s). if xSize < 253 then Inl Throw else Inr (xSize, s))
        else if chSize = 254 then
          bindE (read_uint 4 s) (\<lambda>(xSize, s). if xSize < 0x10000 then Inl Throw else Inr (xSize, s))
        else
          bindE (read_uint 8 s) (\<lambda>(xSize, s). if xSize < 0x100000000 then Inl Throw else Inr (xSize, s)))
       (\<lambda>(nSizeRet, s). if nSizeRet > MAX_SIZE then Inl Throw else Inr (nSizeRet, s)))"

section \<open>Variable-length integers\<close>

text \<open>The digits \<open>tmp[0..len]\<close> of WriteVarInt; the flag says whether \<open>len > 0\<close>.\<close>

lemma varint_shrinks: "\<not> n \<le> 0x7f \<Longrightarrow> unat (drop_bit 7 n - 1 :: 'a::len word) < unat n"
proof -
  assume n: "\<not> n \<le> 0x7f"
  then have "unat n > 0" by (metis gr0I unat_eq_0 word_zero_le)
  have "unat (drop_bit 7 n) = drop_bit 7 (unat n)"
    by (simp add: unsigned_drop_bit_eq take_bit_nat_eq_self)
  then have d: "unat (drop_bit 7 n) = unat n div 128"
    by (simp add: drop_bit_eq_div)
  show ?thesis
  proof (cases "drop_bit 7 n = 0")
    case True
    then have "unat n < 128" using d by (simp add: div_eq_0_iff)
    then have "unat n \<le> unat (0x7f :: 'a word)"
    proof -
      have "of_nat (unat n) = n" by simp
      have "take_bit LENGTH('a) (127 :: nat) \<ge> unat n"
      proof (cases "LENGTH('a) \<ge> 7")
        case True
        have "(127 :: nat) < 2 ^ 7" by simp
        also have "\<dots> \<le> 2 ^ LENGTH('a)" using True by (intro power_increasing) auto
        finally show ?thesis using \<open>unat n < 128\<close> by (simp add: take_bit_nat_eq_self)
      next
        case False
        have "take_bit LENGTH('a) (127 :: nat) = take_bit LENGTH('a) (mask 7)" by (simp add: mask_eq_exp_minus_1)
        also have "\<dots> = mask LENGTH('a)" using False by (simp add: min_def)
        finally have t: "take_bit LENGTH('a) (127 :: nat) = 2 ^ LENGTH('a) - 1"
          by (simp add: mask_eq_exp_minus_1)
        have "unat n < 2 ^ LENGTH('a)" by (rule unsigned_less)
        then show ?thesis unfolding t by linarith
      qed
      then show ?thesis by (simp add: unsigned_numeral)
    qed
    then show ?thesis using n by (simp add: word_le_nat_alt)
  next
    case False
    then have "unat (drop_bit 7 n - 1) = unat (drop_bit 7 n) - 1"
      by (metis One_nat_def unat_minus_one)
    then show ?thesis using d \<open>unat n > 0\<close> by (simp add: less_imp_diff_less)
  qed
qed

function varint_tmp :: "bool \<Rightarrow> 'a::len word \<Rightarrow> bytes" where
  "varint_tmp nz v =
     (ucast (v AND 0x7f) OR (if nz then 0x80 else 0)) #
     (if v \<le> 0x7f then [] else varint_tmp True (drop_bit 7 v - 1))"
  by pat_completeness auto
termination
  by (relation "measure (\<lambda>(nz, v). unat v)") (auto dest: varint_shrinks)

declare varint_tmp.simps [simp del]

function GetSizeOfVarInt :: "'a::len word \<Rightarrow> nat" where
  "GetSizeOfVarInt v = Suc (if v \<le> 0x7f then 0 else GetSizeOfVarInt (drop_bit 7 v - 1))"
  by pat_completeness auto
termination
  by (relation "measure unat") (auto dest: varint_shrinks)

declare GetSizeOfVarInt.simps [simp del]

definition WriteVarInt :: "'a::len word \<Rightarrow> bytes" where
  "WriteVarInt n = rev (varint_tmp False n)"

fun ReadVarInt_loop :: "'a::len word \<Rightarrow> 'a word reader" where
  "ReadVarInt_loop n [] = Inl Throw"
| "ReadVarInt_loop n (chData # s) =
     (let n' = push_bit 7 n OR ucast (chData AND 0x7f) in
      if chData AND 0x80 \<noteq> 0 then ReadVarInt_loop (n' + 1) s else Inr (n', s))"

definition ReadVarInt :: "'a::len word reader" where
  "ReadVarInt s = ReadVarInt_loop 0 s"


lemma mask_7: "(0x7f :: 'a::len word) = mask 7"
  by (simp add: mask_eq_exp_minus_1)

lemma bit_80: "bit (0x80 :: 'a::len word) i \<longleftrightarrow> i = 7 \<and> i < LENGTH('a)"
proof -
  have "(0x80 :: 'a word) = 2 ^ 7" by simp
  then show ?thesis by (simp only: bit_exp_iff) auto
qed

lemma varint_byte_bits:
  fixes v :: "'a::len word" and nz :: bool
  defines "d \<equiv> ucast (v AND 0x7f) OR (if nz then 0x80 else 0) :: byte"
  assumes "8 \<le> LENGTH('a)"
  shows "ucast (d AND 0x7f) = v AND 0x7f" "d AND 0x80 = 0 \<longleftrightarrow> \<not> nz"
proof -
  have db: "bit d i \<longleftrightarrow> i < 7 \<and> bit v i \<or> i = 7 \<and> nz" for i
  proof -
    define c :: byte where "c = (if nz then 0x80 else 0)"
    have "bit c i \<longleftrightarrow> i = 7 \<and> nz"
      using bit_80 [of i, where ?'a = 8] by (auto simp: c_def)
    then show ?thesis
      unfolding d_def c_def [symmetric] using assms(2) by (auto simp: mask_7 bit_simps)
  qed
  show "ucast (d AND 0x7f) = v AND 0x7f"
    by (rule bit_eqI) (auto simp: mask_7 bit_simps db)
  have "bit (d AND 0x80) i \<longleftrightarrow> i = 7 \<and> nz" for i
    by (simp only: bit_and_iff db bit_80) auto
  then show "d AND 0x80 = 0 \<longleftrightarrow> \<not> nz"
    by (metis bit_0_eq bit_eqI bot_apply bot_bool_def)
qed

lemma and_7f_small:
  assumes "8 \<le> LENGTH('a)" "v \<le> (0x7f :: 'a::len word)"
  shows "v AND 0x7f = v"
proof -
  have "unat v \<le> unat (0x7f :: 'a word)" using assms(2) by (simp add: word_le_nat_alt)
  also have "\<dots> \<le> 127" by (simp only: unat_numeral mod_less_eq_dividend)
  finally have "unat v < 2 ^ 7" by simp
  then show ?thesis
    by (simp add: mask_7 take_bit_eq_mask [symmetric] word_unat_eq_iff unsigned_take_bit_eq take_bit_nat_eq_self)
qed

lemma ReadVarInt_loop_tmp:
  assumes "8 \<le> LENGTH('a)"
  shows "ReadVarInt_loop 0 (rev (varint_tmp nz (v :: 'a::len word)) @ rest) =
    (if nz then ReadVarInt_loop (v + 1) rest else Inr (v, rest))"
proof (induction nz v arbitrary: rest rule: varint_tmp.induct)
  case (1 nz v)
  define d :: byte where "d = ucast (v AND 0x7f) OR (if nz then 0x80 else 0)"
  have dig: "ReadVarInt_loop m (d # rest) =
      (if nz then ReadVarInt_loop ((push_bit 7 m OR (v AND 0x7f)) + 1) rest
       else Inr (push_bit 7 m OR (v AND 0x7f), rest))" for m
    using varint_byte_bits [OF assms, of v nz] by (simp add: d_def Let_def)
  show ?case
  proof (cases "v \<le> 0x7f")
    case True
    then have "v AND 0x7f = v" using assms by (simp add: and_7f_small)
    then show ?thesis using True dig [of 0] by (subst varint_tmp.simps) (simp add: d_def)
  next
    case False
    have "push_bit 7 (drop_bit 7 v) OR (v AND 0x7f) = v"
      by (rule bit_eqI) (auto simp: mask_7 bit_simps)
    then show ?thesis using False 1 dig [of "drop_bit 7 v"]
      by (subst varint_tmp.simps) (simp add: d_def)
  qed
qed

lemma ReadVarInt_WriteVarInt:
  "8 \<le> LENGTH('a) \<Longrightarrow> ReadVarInt (WriteVarInt v @ rest) = Inr (v :: 'a::len word, rest)"
  by (simp add: ReadVarInt_def WriteVarInt_def ReadVarInt_loop_tmp)

lemma GetSizeOfVarInt_length: "GetSizeOfVarInt v = length (WriteVarInt v)"
proof -
  have "length (varint_tmp nz v) = GetSizeOfVarInt v" for nz
    by (induction nz v rule: varint_tmp.induct)
      (subst varint_tmp.simps, subst GetSizeOfVarInt.simps, simp)
  then show ?thesis by (simp add: WriteVarInt_def)
qed

section \<open>Strings, byte vectors and vectors\<close>

text \<open>Byte vectors are read in blocks of at most 5,000,000 bytes.\<close>

definition put_blob :: "bytes \<Rightarrow> bytes" where
  "put_blob v = WriteCompactSize (length v) @ v"

function read_blocks :: "nat \<Rightarrow> bytes reader" where
  "read_blocks todo s =
     (if todo = 0 then Inr ([], s)
      else let blk = min todo 5000000 in
        bindE (read_bytes blk s) (\<lambda>(b, s).
        bindE (read_blocks (todo - blk) s) (\<lambda>(bs, s). Inr (b @ bs, s))))"
  by pat_completeness auto
termination
  by (relation "measure fst") auto

declare read_blocks.simps [simp del]

definition get_blob :: "bytes reader" where
  "get_blob s = bindE (ReadCompactSize s) (\<lambda>(nSize, s). read_blocks nSize s)"

definition put_vector :: "('a \<Rightarrow> bytes) \<Rightarrow> 'a list \<Rightarrow> bytes" where
  "put_vector put v = WriteCompactSize (length v) @ concat (map put v)"

fun get_n :: "'a reader \<Rightarrow> nat \<Rightarrow> 'a list reader" where
  "get_n get 0 s = Inr ([], s)"
| "get_n get (Suc n) s =
     bindE (get s) (\<lambda>(x, s). bindE (get_n get n s) (\<lambda>(xs, s). Inr (x # xs, s)))"

definition get_vector :: "'a reader \<Rightarrow> 'a list reader" where
  "get_vector get s = bindE (ReadCompactSize s) (\<lambda>(nSize, s). get_n get nSize s)"

definition get_limited_string :: "nat \<Rightarrow> bytes reader" where
  "get_limited_string Limit s =
     bindE (ReadCompactSize s) (\<lambda>(size, s). if size > Limit then Inl Throw else read_bytes size s)"

definition put_pair :: "('a \<Rightarrow> bytes) \<Rightarrow> ('b \<Rightarrow> bytes) \<Rightarrow> 'a \<times> 'b \<Rightarrow> bytes" where
  "put_pair put1 put2 item = put1 (fst item) @ put2 (snd item)"

definition get_pair :: "'a reader \<Rightarrow> 'b reader \<Rightarrow> ('a \<times> 'b) reader" where
  "get_pair get1 get2 s = bindE (get1 s) (\<lambda>(x, s). bindE (get2 s) (\<lambda>(y, s). Inr ((x, y), s)))"

section \<open>The interface between writers and readers\<close>

locale codec =
  fixes put :: "'a \<Rightarrow> bytes" and get :: "'a reader" and ok :: "'a \<Rightarrow> bool"
  assumes get_put: "ok x \<Longrightarrow> get (put x @ rest) = Inr (x, rest)"
begin

lemma put_prefix_free:
  assumes "ok x" "ok y" "put x @ r = put y @ r'"
  shows "x = y \<and> r = r'"
  using get_put [OF assms(1), of r] get_put [OF assms(2), of r'] unfolding assms(3) by simp

lemma put_inj: "ok x \<Longrightarrow> ok y \<Longrightarrow> put x = put y \<longleftrightarrow> x = y"
  using put_prefix_free [of x y "[]" "[]"] by auto

lemma get_n_put:
  "list_all ok xs \<Longrightarrow> get_n get (length xs) (concat (map put xs) @ rest) = Inr (xs, rest)"
  by (induction xs) (auto simp: get_put)

end

text \<open>A reader that accepts only what the writer produces.\<close>

locale canonical_codec = codec +
  assumes put_get: "get s = Inr (x, rest) \<Longrightarrow> ok x \<and> s = put x @ rest"
begin

lemma get_iff: "get s = Inr (x, rest) \<longleftrightarrow> ok x \<and> s = put x @ rest"
  using get_put put_get by blast

lemma put_get_n:
  "get_n get n s = Inr (xs, rest) \<Longrightarrow>
     length xs = n \<and> list_all ok xs \<and> s = concat (map put xs) @ rest"
  by (induction n arbitrary: s xs) (auto simp: fault_simps split: prod.splits dest!: put_get)

end

section \<open>Its instances for the basic types\<close>

lemma read_bytes_append: "length b = n \<Longrightarrow> read_bytes n (b @ rest) = Inr (b, rest)"
  by (simp add: read_bytes_def)

lemma read_bytes_iff: "read_bytes n s = Inr (b, rest) \<longleftrightarrow> length b = n \<and> s = b @ rest"
  by (auto simp: read_bytes_def)

lemma canonical_uint: "canonical_codec (write_uint n) (read_uint n) (\<lambda>v. v < 256 ^ n)"
  by unfold_locales
    (auto simp: read_uint_def write_uint_def read_bytes_append read_bytes_iff fault_simps
      le_val_le_bytes le_bytes_le_val le_val_less)

interpretation u8: canonical_codec "write_uint 1" "read_uint 1" "\<lambda>v. v < 256 ^ 1"
  by (rule canonical_uint)
interpretation u16: canonical_codec "write_uint 2" "read_uint 2" "\<lambda>v. v < 256 ^ 2"
  by (rule canonical_uint)
interpretation u32: canonical_codec "write_uint 4" "read_uint 4" "\<lambda>v. v < 256 ^ 4"
  by (rule canonical_uint)
interpretation u64: canonical_codec "write_uint 8" "read_uint 8" "\<lambda>v. v < 256 ^ 8"
  by (rule canonical_uint)

definition sint_ok :: "nat \<Rightarrow> int \<Rightarrow> bool" where
  "sint_ok n v \<longleftrightarrow> - (256 ^ n) \<le> 2 * v \<and> 2 * v < 256 ^ n"

lemma canonical_sint: "canonical_codec (write_sint n) (read_sint n) (sint_ok n)"
proof
  fix x :: int and rest
  assume x: "sint_ok n x"
  have m: "nat (x mod 256 ^ n) < 256 ^ n"
    by (simp add: nat_less_iff)
  have "x mod 256 ^ n = (if 0 \<le> x then x else x + 256 ^ n)"
  proof (cases "0 \<le> x")
    case False
    then have "(x + 256 ^ n) mod 256 ^ n = x + 256 ^ n"
      using x by (intro mod_pos_pos_trivial) (auto simp: sint_ok_def)
    then show ?thesis using False by simp
  next
    case True
    then show ?thesis using x by (simp add: sint_ok_def)
  qed
  moreover have "2 * nat (x mod 256 ^ n) < 256 ^ n \<longleftrightarrow> 2 * (x mod 256 ^ n) < 256 ^ n"
    by (simp flip: of_nat_less_iff [where ?'a = int])
  ultimately show "read_sint n (write_sint n x @ rest) = Inr (x, rest)"
    using x m by (simp add: read_sint_def write_sint_def read_uint_def read_bytes_append
        le_val_le_bytes sint_ok_def)
next
  fix s rest and x :: int
  assume "read_sint n s = Inr (x, rest)"
  then obtain b where b: "length b = n" "s = b @ rest"
    "x = (if 2 * le_val b < 256 ^ n then int (le_val b) else int (le_val b) - 256 ^ n)"
    by (auto simp: read_sint_def read_uint_def fault_simps read_bytes_iff)
  have l: "int (le_val b) < 256 ^ n"
  proof -
    have "int (le_val b) < int (256 ^ n)"
      using le_val_less [of b] b(1) by (simp only: of_nat_less_iff)
    also have "int (256 ^ n) = 256 ^ n" by (simp only: of_nat_power of_nat_numeral)
    finally show ?thesis .
  qed
  then have "x mod 256 ^ n = int (le_val b)"
    by (simp add: b(3) minus_mod_self2)
  moreover have cond: "2 * le_val b < 256 ^ n \<longleftrightarrow> 2 * int (le_val b) < 256 ^ n"
  proof -
    have "2 * le_val b < 256 ^ n \<longleftrightarrow> int (2 * le_val b) < int (256 ^ n)"
      by (simp only: of_nat_less_iff)
    then show ?thesis by (simp only: of_nat_power of_nat_numeral of_nat_mult)
  qed
  moreover have "sint_ok n x"
  proof (cases "2 * int (le_val b) < 256 ^ n")
    case True
    then have "x = int (le_val b)" using b(3) cond by simp
    then show ?thesis using True l unfolding sint_ok_def by linarith
  next
    case False
    then have "x = int (le_val b) - 256 ^ n" using b(3) cond by simp
    then show ?thesis using False l unfolding sint_ok_def by linarith
  qed
  ultimately show "sint_ok n x \<and> s = write_sint n x @ rest"
    using b(1,2) by (auto simp: write_sint_def le_bytes_le_val)
qed

interpretation i32: canonical_codec "write_sint 4" "read_sint 4" "sint_ok 4"
  by (rule canonical_sint)
interpretation i64: canonical_codec "write_sint 8" "read_sint 8" "sint_ok 8"
  by (rule canonical_sint)

lemma canonical_CompactSize:
  "canonical_codec WriteCompactSize ReadCompactSize (\<lambda>n. n \<le> MAX_SIZE)"
proof
  fix n :: nat and rest assume "n \<le> MAX_SIZE"
  then show "ReadCompactSize (WriteCompactSize n @ rest) = Inr (n, rest)"
    by (simp add: WriteCompactSize_def ReadCompactSize_def u8.get_put [unfolded One_nat_def] u16.get_put u32.get_put)
next
  fix s rest and n assume "ReadCompactSize s = Inr (n, rest)"
  then show "n \<le> MAX_SIZE \<and> s = WriteCompactSize n @ rest"
    by (auto simp: ReadCompactSize_def fault_simps u8.get_iff [unfolded One_nat_def] u16.get_iff u32.get_iff u64.get_iff
        WriteCompactSize_def split: if_splits)
qed

interpretation compact: canonical_codec WriteCompactSize ReadCompactSize "\<lambda>n. n \<le> MAX_SIZE"
  by (rule canonical_CompactSize)

lemma GetSizeOfCompactSize_length: "GetSizeOfCompactSize n = length (WriteCompactSize n)"
  by (simp add: GetSizeOfCompactSize_def WriteCompactSize_def write_uint_def)

lemma read_blocks_eq: "read_blocks n s = read_bytes n s"
proof (induction n s rule: read_blocks.induct)
  case (1 n s)
  show ?case
  proof (cases "n = 0")
    case False
    have "take (min n 5000000) s @ take (n - min n 5000000) (drop (min n 5000000) s) = take n s"
      if "n \<le> length s"
      using that by (metis le_add_diff_inverse min.cobounded1 take_add)
    then show ?thesis
      using 1 False
      by (subst read_blocks.simps) (auto simp: read_bytes_def Let_def bindE_def min_def)
  qed (simp add: read_blocks.simps read_bytes_def)
qed

lemma canonical_blob: "canonical_codec put_blob get_blob (\<lambda>v. length v \<le> MAX_SIZE)"
  by unfold_locales
    (auto simp: put_blob_def get_blob_def compact.get_put compact.get_iff read_blocks_eq
      read_bytes_append read_bytes_iff fault_simps)

interpretation blob: canonical_codec put_blob get_blob "\<lambda>v. length v \<le> MAX_SIZE"
  by (rule canonical_blob)

definition vector_ok :: "('a \<Rightarrow> bool) \<Rightarrow> 'a list \<Rightarrow> bool" where
  "vector_ok ok xs \<longleftrightarrow> length xs \<le> MAX_SIZE \<and> list_all ok xs"

context canonical_codec
begin

lemma canonical_vector: "canonical_codec (put_vector put) (get_vector get) (vector_ok ok)"
  by unfold_locales
    (auto simp: put_vector_def get_vector_def vector_ok_def compact.get_put compact.get_iff
      fault_simps get_n_put dest: put_get_n)

lemma canonical_pair:
  assumes "canonical_codec put2 get2 ok2"
  shows "canonical_codec (put_pair put put2) (get_pair get get2) (\<lambda>(x, y). ok x \<and> ok2 y)"
proof -
  note snd_codec = canonical_codec.get_iff [OF assms]
  have "get2 (put2 y @ rest) = Inr (y, rest)" if "ok2 y" for y rest
    using that by (simp add: snd_codec)
  then show ?thesis
    by unfold_locales (auto simp: put_pair_def get_pair_def fault_simps get_put get_iff snd_codec)
qed

end

end
