(* ===== verification/Crypto.thy ===== *)
theory Crypto
  imports Serialize
begin

text \<open>
  The hash functions of crypto/: SHA-256, SHA-1 and RIPEMD-160, and the double hashes of hash.h.
  The three hasher classes share their buffering, which is \<open>hash_Write\<close> over a block
  transformation; the unrolled rounds of the sources are folds over the round constants, with the
  rotation of the working variables from one call of Round to the next written as a rotation of
  their list.  \<open>represents\<close> relates a hasher to the message written so far; Finalize computes the
  padded Merkle-Damgard hash of that message, so the result does not depend on how the message was
  cut into writes.
\<close>

section \<open>Words and bytes\<close>

type_synonym u32 = "32 word"

fun be_read :: "bytes \<Rightarrow> 'a::len word" where
  "be_read bs = foldl (\<lambda>acc b. push_bit 8 acc OR ucast b) 0 bs"

definition ReadBE32 :: "bytes \<Rightarrow> u32" where "ReadBE32 p = be_read (take 4 p)"

definition ReadLE32 :: "bytes \<Rightarrow> u32" where "ReadLE32 p = be_read (rev (take 4 p))"

definition WriteBE32 :: "u32 \<Rightarrow> bytes" where
  "WriteBE32 x = [ucast (drop_bit 24 x), ucast (drop_bit 16 x), ucast (drop_bit 8 x), ucast x]"

definition WriteLE32 :: "u32 \<Rightarrow> bytes" where "WriteLE32 x = rev (WriteBE32 x)"

definition WriteBE64 :: "64 word \<Rightarrow> bytes" where
  "WriteBE64 x = map (\<lambda>i. ucast (drop_bit i x)) [56, 48, 40, 32, 24, 16, 8, 0]"

definition WriteLE64 :: "64 word \<Rightarrow> bytes" where "WriteLE64 x = rev (WriteBE64 x)"

text \<open>The sixteen words of a 64-byte chunk.\<close>

definition chunk_words :: "(bytes \<Rightarrow> u32) \<Rightarrow> bytes \<Rightarrow> u32 list" where
  "chunk_words rd chunk = map (\<lambda>i. rd (drop (4 * i) chunk)) [0..<16]"

definition rol :: "u32 \<Rightarrow> nat \<Rightarrow> u32" where
  "rol x i = push_bit i x OR drop_bit (32 - i) x"

section \<open>SHA-256\<close>

definition sha256_Ch :: "u32 \<Rightarrow> u32 \<Rightarrow> u32 \<Rightarrow> u32" where
  "sha256_Ch x y z = z XOR (x AND (y XOR z))"

definition sha256_Maj :: "u32 \<Rightarrow> u32 \<Rightarrow> u32 \<Rightarrow> u32" where
  "sha256_Maj x y z = (x AND y) OR (z AND (x OR y))"

definition sha256_Sigma0 :: "u32 \<Rightarrow> u32" where
  "sha256_Sigma0 x = (drop_bit 2 x OR push_bit 30 x) XOR (drop_bit 13 x OR push_bit 19 x) XOR
     (drop_bit 22 x OR push_bit 10 x)"

definition sha256_Sigma1 :: "u32 \<Rightarrow> u32" where
  "sha256_Sigma1 x = (drop_bit 6 x OR push_bit 26 x) XOR (drop_bit 11 x OR push_bit 21 x) XOR
     (drop_bit 25 x OR push_bit 7 x)"

definition sha256_sigma0 :: "u32 \<Rightarrow> u32" where
  "sha256_sigma0 x = (drop_bit 7 x OR push_bit 25 x) XOR (drop_bit 18 x OR push_bit 14 x) XOR
     drop_bit 3 x"

definition sha256_sigma1 :: "u32 \<Rightarrow> u32" where
  "sha256_sigma1 x = (drop_bit 17 x OR push_bit 15 x) XOR (drop_bit 19 x OR push_bit 13 x) XOR
     drop_bit 10 x"

text \<open>One call of Round, with the arguments of the next call as its result.\<close>

fun sha256_Round :: "u32 list \<Rightarrow> u32 \<Rightarrow> u32 \<Rightarrow> u32 list" where
  "sha256_Round [a, b, c, d, e, f, g, h] k w =
     (let t1 = h + sha256_Sigma1 e + sha256_Ch e f g + k + w;
          t2 = sha256_Sigma0 a + sha256_Maj a b c
      in [t1 + t2, a, b, c, d + t1, e, f, g])"
| "sha256_Round s k w = s"

definition sha256_Initialize :: "u32 list" where
  "sha256_Initialize =
     [0x6a09e667, 0xbb67ae85, 0x3c6ef372, 0xa54ff53a, 0x510e527f, 0x9b05688c, 0x1f83d9ab, 0x5be0cd19]"

definition sha256_K :: "u32 list" where
  "sha256_K = concat
       [[0x428a2f98, 0x71374491, 0xb5c0fbcf, 0xe9b5dba5],
        [0x3956c25b, 0x59f111f1, 0x923f82a4, 0xab1c5ed5],
        [0xd807aa98, 0x12835b01, 0x243185be, 0x550c7dc3],
        [0x72be5d74, 0x80deb1fe, 0x9bdc06a7, 0xc19bf174],
        [0xe49b69c1, 0xefbe4786, 0x0fc19dc6, 0x240ca1cc],
        [0x2de92c6f, 0x4a7484aa, 0x5cb0a9dc, 0x76f988da],
        [0x983e5152, 0xa831c66d, 0xb00327c8, 0xbf597fc7],
        [0xc6e00bf3, 0xd5a79147, 0x06ca6351, 0x14292967],
        [0x27b70a85, 0x2e1b2138, 0x4d2c6dfc, 0x53380d13],
        [0x650a7354, 0x766a0abb, 0x81c2c92e, 0x92722c85],
        [0xa2bfe8a1, 0xa81a664b, 0xc24b8b70, 0xc76c51a3],
        [0xd192e819, 0xd6990624, 0xf40e3585, 0x106aa070],
        [0x19a4c116, 0x1e376c08, 0x2748774c, 0x34b0bcb5],
        [0x391c0cb3, 0x4ed8aa4a, 0x5b9cca4f, 0x682e6ff3],
        [0x748f82ee, 0x78a5636f, 0x84c87814, 0x8cc70208],
        [0x90befffa, 0xa4506ceb, 0xbef9a3f7, 0xc67178f2]]"

text \<open>The window of sixteen schedule words \<open>w0..w15\<close>, oldest first: after its sixteen initial
uses the oldest is replaced by \<open>w0 + sigma1 w14 + w9 + sigma0 w1\<close>.\<close>

definition sha256_next :: "u32 list \<Rightarrow> u32" where
  "sha256_next w = w ! 0 + (sha256_sigma1 (w ! 14) + w ! 9 + sha256_sigma0 (w ! 1))"

fun sha256_rounds :: "u32 list \<Rightarrow> u32 list \<Rightarrow> u32 list \<Rightarrow> u32 list" where
  "sha256_rounds [] w s = s"
| "sha256_rounds (k # ks) w s =
     sha256_rounds ks (tl w @ [sha256_next w]) (sha256_Round s k (hd w))"

definition sha256_Transform :: "u32 list \<Rightarrow> bytes \<Rightarrow> u32 list" where
  "sha256_Transform s chunk = map2 (+) s (sha256_rounds sha256_K (chunk_words ReadBE32 chunk) s)"

section \<open>SHA-1\<close>

fun sha1_Round :: "u32 list \<Rightarrow> u32 \<Rightarrow> u32 \<Rightarrow> u32 \<Rightarrow> u32 list" where
  "sha1_Round [a, b, c, d, e] f k w =
     [e + ((push_bit 5 a OR drop_bit 27 a) + f + k + w), a, push_bit 30 b OR drop_bit 2 b, c, d]"
| "sha1_Round s f k w = s"

definition sha1_f1 :: "u32 \<Rightarrow> u32 \<Rightarrow> u32 \<Rightarrow> u32" where
  "sha1_f1 b c d = d XOR (b AND (c XOR d))"

definition sha1_f2 :: "u32 \<Rightarrow> u32 \<Rightarrow> u32 \<Rightarrow> u32" where
  "sha1_f2 b c d = b XOR c XOR d"

definition sha1_f3 :: "u32 \<Rightarrow> u32 \<Rightarrow> u32 \<Rightarrow> u32" where
  "sha1_f3 b c d = (b AND c) OR (d AND (b OR c))"

definition sha1_left :: "u32 \<Rightarrow> u32" where
  "sha1_left x = push_bit 1 x OR drop_bit 31 x"

definition sha1_Initialize :: "u32 list" where
  "sha1_Initialize = [0x67452301, 0xEFCDAB89, 0x98BADCFE, 0x10325476, 0xC3D2E1F0]"

text \<open>The function and the constant of the four stages of twenty rounds.\<close>

definition sha1_stages :: "((u32 \<Rightarrow> u32 \<Rightarrow> u32 \<Rightarrow> u32) \<times> u32) list" where
  "sha1_stages =
     replicate 20 (sha1_f1, 0x5A827999) @ replicate 20 (sha1_f2, 0x6ED9EBA1) @
     replicate 20 (sha1_f3, 0x8F1BBCDC) @ replicate 20 (sha1_f2, 0xCA62C1D6)"

definition sha1_next :: "u32 list \<Rightarrow> u32" where
  "sha1_next w = sha1_left (w ! 0 XOR w ! 13 XOR w ! 8 XOR w ! 2)"

fun sha1_rounds ::
  "((u32 \<Rightarrow> u32 \<Rightarrow> u32 \<Rightarrow> u32) \<times> u32) list \<Rightarrow> u32 list \<Rightarrow> u32 list \<Rightarrow> u32 list" where
  "sha1_rounds [] w s = s"
| "sha1_rounds ((f, k) # fs) w s =
     sha1_rounds fs (tl w @ [sha1_next w]) (sha1_Round s (f (s ! 1) (s ! 2) (s ! 3)) k (hd w))"

definition sha1_Transform :: "u32 list \<Rightarrow> bytes \<Rightarrow> u32 list" where
  "sha1_Transform s chunk = map2 (+) s (sha1_rounds sha1_stages (chunk_words ReadBE32 chunk) s)"

section \<open>RIPEMD-160\<close>

definition ripemd160_f1 :: "u32 \<Rightarrow> u32 \<Rightarrow> u32 \<Rightarrow> u32" where
  "ripemd160_f1 x y z = x XOR y XOR z"

definition ripemd160_f2 :: "u32 \<Rightarrow> u32 \<Rightarrow> u32 \<Rightarrow> u32" where
  "ripemd160_f2 x y z = (x AND y) OR (NOT x AND z)"

definition ripemd160_f3 :: "u32 \<Rightarrow> u32 \<Rightarrow> u32 \<Rightarrow> u32" where
  "ripemd160_f3 x y z = (x OR NOT y) XOR z"

definition ripemd160_f4 :: "u32 \<Rightarrow> u32 \<Rightarrow> u32 \<Rightarrow> u32" where
  "ripemd160_f4 x y z = (x AND z) OR (y AND NOT z)"

definition ripemd160_f5 :: "u32 \<Rightarrow> u32 \<Rightarrow> u32 \<Rightarrow> u32" where
  "ripemd160_f5 x y z = x XOR (y OR NOT z)"

definition ripemd160_Initialize :: "u32 list" where
  "ripemd160_Initialize = [0x67452301, 0xEFCDAB89, 0x98BADCFE, 0x10325476, 0xC3D2E1F0]"

fun ripemd160_Round :: "u32 list \<Rightarrow> u32 \<Rightarrow> u32 \<Rightarrow> u32 \<Rightarrow> nat \<Rightarrow> u32 list" where
  "ripemd160_Round [a, b, c, d, e] f x k r = [e, rol (a + f + x + k) r + e, b, rol c 10, d]"
| "ripemd160_Round s f x k r = s"

text \<open>The functions and constants of R11..R51 and R12..R52, sixteen rounds each.\<close>

definition ripemd160_left :: "((u32 \<Rightarrow> u32 \<Rightarrow> u32 \<Rightarrow> u32) \<times> u32) list" where
  "ripemd160_left =
     replicate 16 (ripemd160_f1, 0) @ replicate 16 (ripemd160_f2, 0x5A827999) @
     replicate 16 (ripemd160_f3, 0x6ED9EBA1) @ replicate 16 (ripemd160_f4, 0x8F1BBCDC) @
     replicate 16 (ripemd160_f5, 0xA953FD4E)"

definition ripemd160_right :: "((u32 \<Rightarrow> u32 \<Rightarrow> u32 \<Rightarrow> u32) \<times> u32) list" where
  "ripemd160_right =
     replicate 16 (ripemd160_f5, 0x50A28BE6) @ replicate 16 (ripemd160_f4, 0x5C4DD124) @
     replicate 16 (ripemd160_f3, 0x6D703EF3) @ replicate 16 (ripemd160_f2, 0x7A6D76E9) @
     replicate 16 (ripemd160_f1, 0)"

text \<open>The word and the rotation of each round of the two lines.\<close>

definition ripemd160_left_sched :: "(nat \<times> nat) list" where
  "ripemd160_left_sched =
     [(0, 11), (1, 14), (2, 15), (3, 12), (4, 5), (5, 8), (6, 7), (7, 9),
      (8, 11), (9, 13), (10, 14), (11, 15), (12, 6), (13, 7), (14, 9), (15, 8),
      (7, 7), (4, 6), (13, 8), (1, 13), (10, 11), (6, 9), (15, 7), (3, 15),
      (12, 7), (0, 12), (9, 15), (5, 9), (2, 11), (14, 7), (11, 13), (8, 12),
      (3, 11), (10, 13), (14, 6), (4, 7), (9, 14), (15, 9), (8, 13), (1, 15),
      (2, 14), (7, 8), (0, 13), (6, 6), (13, 5), (11, 12), (5, 7), (12, 5),
      (1, 11), (9, 12), (11, 14), (10, 15), (0, 14), (8, 15), (12, 9), (4, 8),
      (13, 9), (3, 14), (7, 5), (15, 6), (14, 8), (5, 6), (6, 5), (2, 12),
      (4, 9), (0, 15), (5, 5), (9, 11), (7, 6), (12, 8), (2, 13), (10, 12),
      (14, 5), (1, 12), (3, 13), (8, 14), (11, 11), (6, 8), (15, 5), (13, 6)]"

definition ripemd160_right_sched :: "(nat \<times> nat) list" where
  "ripemd160_right_sched =
     [(5, 8), (14, 9), (7, 9), (0, 11), (9, 13), (2, 15), (11, 15), (4, 5),
      (13, 7), (6, 7), (15, 8), (8, 11), (1, 14), (10, 14), (3, 12), (12, 6),
      (6, 9), (11, 13), (3, 15), (7, 7), (0, 12), (13, 8), (5, 9), (10, 11),
      (14, 7), (15, 7), (8, 12), (12, 7), (4, 6), (9, 15), (1, 13), (2, 11),
      (15, 9), (5, 7), (1, 15), (3, 11), (7, 8), (14, 6), (6, 6), (9, 14),
      (11, 12), (8, 13), (12, 5), (2, 14), (10, 13), (0, 13), (4, 7), (13, 5),
      (8, 15), (6, 5), (4, 8), (1, 11), (3, 14), (11, 14), (15, 6), (0, 14),
      (5, 6), (12, 9), (2, 12), (13, 9), (9, 12), (7, 5), (10, 15), (14, 8),
      (12, 8), (15, 5), (10, 12), (4, 9), (1, 12), (5, 5), (8, 14), (7, 6),
      (6, 8), (2, 13), (13, 6), (14, 5), (0, 15), (3, 13), (9, 11), (11, 11)]"

fun ripemd160_line ::
  "u32 list \<Rightarrow> ((u32 \<Rightarrow> u32 \<Rightarrow> u32 \<Rightarrow> u32) \<times> u32) list \<Rightarrow> (nat \<times> nat) list \<Rightarrow> u32 list \<Rightarrow> u32 list" where
  "ripemd160_line w ((f, k) # fs) ((i, r) # sched) s =
     ripemd160_line w fs sched (ripemd160_Round s (f (s ! 1) (s ! 2) (s ! 3)) (w ! i) k r)"
| "ripemd160_line w _ _ s = s"

definition ripemd160_Transform :: "u32 list \<Rightarrow> bytes \<Rightarrow> u32 list" where
  "ripemd160_Transform s chunk =
     (let w = chunk_words ReadLE32 chunk;
          l = ripemd160_line w ripemd160_left ripemd160_left_sched s;
          r = ripemd160_line w ripemd160_right ripemd160_right_sched s
      in map (\<lambda>i. s ! ((i + 1) mod 5) + l ! ((i + 2) mod 5) + r ! ((i + 3) mod 5)) [0..<5])"

section \<open>The hasher classes\<close>

text \<open>The array buf is kept up to its last byte written; the code never reads beyond.\<close>

record hasher =
  hstate :: "u32 list"
  hbuf :: bytes
  hbytes :: "64 word"

definition hasher_init :: "u32 list \<Rightarrow> hasher" where
  "hasher_init s = \<lparr>hstate = s, hbuf = [], hbytes = 0\<rparr>"

text \<open>The loop over the full chunks of the source.\<close>

function write_chunks :: "(u32 list \<Rightarrow> bytes \<Rightarrow> u32 list) \<Rightarrow> hasher \<Rightarrow> bytes \<Rightarrow> hasher \<times> bytes" where
  "write_chunks Transform h data =
     (if length data < 64 then (h, data)
      else write_chunks Transform
        (h\<lparr>hstate := Transform (hstate h) (take 64 data), hbytes := hbytes h + 64\<rparr>) (drop 64 data))"
  by pat_completeness auto
termination
  by (relation "measure (\<lambda>(t, h, data). length data)") auto

declare write_chunks.simps [simp del]

definition hash_Write :: "(u32 list \<Rightarrow> bytes \<Rightarrow> u32 list) \<Rightarrow> hasher \<Rightarrow> bytes \<Rightarrow> hasher" where
  "hash_Write Transform h data =
     (let bufsize = unat (hbytes h) mod 64;
          (h, data, bufsize) =
            (if bufsize \<noteq> 0 \<and> bufsize + length data \<ge> 64 then
               (h\<lparr>hstate := Transform (hstate h)
                    (take bufsize (hbuf h) @ take (64 - bufsize) data),
                  hbytes := hbytes h + of_nat (64 - bufsize)\<rparr>,
                drop (64 - bufsize) data, 0)
             else (h, data, bufsize));
          (h, data) = write_chunks Transform h data
      in if data \<noteq> []
         then h\<lparr>hbuf := take bufsize (hbuf h) @ data, hbytes := hbytes h + of_nat (length data)\<rparr>
         else h)"

text \<open>Finalize, with the encoding of the bit count and of the state words.\<close>

definition hash_Finalize ::
  "(u32 list \<Rightarrow> bytes \<Rightarrow> u32 list) \<Rightarrow> (64 word \<Rightarrow> bytes) \<Rightarrow> (u32 \<Rightarrow> bytes) \<Rightarrow> hasher \<Rightarrow> bytes" where
  "hash_Finalize Transform wr64 wr32 h =
     (let sizedesc = wr64 (push_bit 3 (hbytes h));
          npad = 1 + (119 - unat (hbytes h) mod 64) mod 64;
          h = hash_Write Transform h (take npad (0x80 # replicate 63 0));
          h = hash_Write Transform h sizedesc
      in concat (map wr32 (hstate h)))"

definition CSHA256_Write :: "hasher \<Rightarrow> bytes \<Rightarrow> hasher" where
  "CSHA256_Write = hash_Write sha256_Transform"

definition CSHA256_Finalize :: "hasher \<Rightarrow> bytes" where
  "CSHA256_Finalize = hash_Finalize sha256_Transform WriteBE64 WriteBE32"

definition CSHA1_Write :: "hasher \<Rightarrow> bytes \<Rightarrow> hasher" where
  "CSHA1_Write = hash_Write sha1_Transform"

definition CSHA1_Finalize :: "hasher \<Rightarrow> bytes" where
  "CSHA1_Finalize = hash_Finalize sha1_Transform WriteBE64 WriteBE32"

definition CRIPEMD160_Write :: "hasher \<Rightarrow> bytes \<Rightarrow> hasher" where
  "CRIPEMD160_Write = hash_Write ripemd160_Transform"

definition CRIPEMD160_Finalize :: "hasher \<Rightarrow> bytes" where
  "CRIPEMD160_Finalize = hash_Finalize ripemd160_Transform WriteLE64 WriteLE32"

text \<open>The one-call uses: construct, write once, finalize.\<close>

definition sha256 :: "bytes \<Rightarrow> bytes" where
  "sha256 m = CSHA256_Finalize (CSHA256_Write (hasher_init sha256_Initialize) m)"

definition sha1 :: "bytes \<Rightarrow> bytes" where
  "sha1 m = CSHA1_Finalize (CSHA1_Write (hasher_init sha1_Initialize) m)"

definition ripemd160 :: "bytes \<Rightarrow> bytes" where
  "ripemd160 m = CRIPEMD160_Finalize (CRIPEMD160_Write (hasher_init ripemd160_Initialize) m)"

section \<open>The hash of the whole message\<close>

text \<open>The abstract view: fold the transformation over the full blocks of a message.\<close>

function md_blocks :: "(u32 list \<Rightarrow> bytes \<Rightarrow> u32 list) \<Rightarrow> u32 list \<Rightarrow> bytes \<Rightarrow> u32 list" where
  "md_blocks Transform s m =
     (if length m < 64 then s else md_blocks Transform (Transform s (take 64 m)) (drop 64 m))"
  by pat_completeness auto
termination
  by (relation "measure (\<lambda>(t, s, m). length m)") auto

declare md_blocks.simps [simp del]

definition md_pad :: "(64 word \<Rightarrow> bytes) \<Rightarrow> nat \<Rightarrow> bytes" where
  "md_pad wr64 n =
     0x80 # replicate ((119 - n mod 64) mod 64) 0 @ wr64 (push_bit 3 (of_nat n))"

definition md_hash ::
  "(u32 list \<Rightarrow> bytes \<Rightarrow> u32 list) \<Rightarrow> u32 list \<Rightarrow> (64 word \<Rightarrow> bytes) \<Rightarrow> (u32 \<Rightarrow> bytes) \<Rightarrow> bytes \<Rightarrow> bytes"
where
  "md_hash Transform s wr64 wr32 m =
     concat (map wr32 (md_blocks Transform s (m @ md_pad wr64 (length m))))"

text \<open>The bytes not yet transformed.\<close>

definition md_rest :: "bytes \<Rightarrow> bytes" where
  "md_rest m = drop (64 * (length m div 64)) m"

definition represents :: "(u32 list \<Rightarrow> bytes \<Rightarrow> u32 list) \<Rightarrow> u32 list \<Rightarrow> hasher \<Rightarrow> bytes \<Rightarrow> bool" where
  "represents Transform s h m \<longleftrightarrow>
     hstate h = md_blocks Transform s m \<and> hbytes h = of_nat (length m) \<and>
     take (length m mod 64) (hbuf h) = md_rest m"

lemma length_md_rest: "length (md_rest m) = length m mod 64"
  by (simp add: md_rest_def minus_mult_div_eq_mod)

lemma md_rest_short: "length m < 64 \<Longrightarrow> md_rest m = m"
  by (simp add: md_rest_def)

lemma md_rest_drop: "64 \<le> length m \<Longrightarrow> md_rest m = md_rest (drop 64 m)"
  by (simp add: md_rest_def le_div_geq add.commute)

lemma md_blocks_short: "length m < 64 \<Longrightarrow> md_blocks tr s m = s"
  by (simp add: md_blocks.simps)

lemma md_blocks_long: "64 \<le> length m \<Longrightarrow> md_blocks tr s m = md_blocks tr (tr s (take 64 m)) (drop 64 m)"
  by (simp add: md_blocks.simps)

lemma md_blocks_append:
  "md_blocks tr s (m @ d) = md_blocks tr (md_blocks tr s m) (md_rest m @ d)"
proof (induction tr s m rule: md_blocks.induct)
  case (1 tr s m)
  show ?case
  proof (cases "length m < 64")
    case True
    then show ?thesis by (simp add: md_blocks_short md_rest_short)
  next
    case False
    then show ?thesis using 1 by (simp add: md_blocks_long md_rest_drop [of m])
  qed
qed

lemma md_rest_append: "md_rest (m @ d) = md_rest (md_rest m @ d)"
proof (induction m rule: length_induct)
  case (1 m)
  show ?case
  proof (cases "length m < 64")
    case False
    then show ?thesis using 1 by (simp add: md_rest_drop [of m] md_rest_drop [of "m @ d"])
  qed (simp add: md_rest_short)
qed

lemma write_chunks_md:
  "write_chunks tr h data =
    (h\<lparr>hstate := md_blocks tr (hstate h) data,
       hbytes := hbytes h + of_nat (64 * (length data div 64))\<rparr>, md_rest data)"
proof (induction tr h data rule: write_chunks.induct)
  case (1 tr h data)
  show ?case
  proof (cases "length data < 64")
    case True
    then show ?thesis by (simp add: write_chunks.simps md_blocks_short md_rest_short)
  next
    case False
    then show ?thesis
      using 1 by (subst write_chunks.simps) (simp add: md_blocks_long md_rest_drop [of data] le_div_geq algebra_simps)
  qed
qed

lemma unat_of_nat_mod_64: "unat (of_nat n :: 64 word) mod 64 = n mod 64"
  by (simp add: unat_of_nat mod_mod_cancel)

text \<open>The last two steps of Write, for a hasher whose buffer is empty.\<close>

lemma represents_aligned:
  assumes h: "represents tr s h m" and al: "length m mod 64 = 0"
  shows "represents tr s
    (let (h, data) = write_chunks tr h d in
     if data \<noteq> [] then h\<lparr>hbuf := data, hbytes := hbytes h + of_nat (length data)\<rparr> else h) (m @ d)"
proof -
  have r: "md_rest m = []" using al length_md_rest [of m] by simp
  have len: "length (m @ d) mod 64 = length (md_rest d)"
    using al by (simp add: length_md_rest mod_add_left_eq [symmetric])
  have "length d = 64 * (length d div 64) + length (md_rest d)"
    by (simp add: length_md_rest)
  then have b: "(of_nat (length d) :: 64 word) =
      of_nat (64 * (length d div 64)) + of_nat (length (md_rest d))"
    by (metis of_nat_add)
  show ?thesis
    using h b unfolding represents_def len
    by (auto simp: write_chunks_md md_blocks_append [of _ _ m] md_rest_append [of m] r algebra_simps)
qed

lemma represents_Write:
  assumes h: "represents tr s h m"
  shows "represents tr s (hash_Write tr h d) (m @ d)"
proof -
  define r where "r = md_rest m"
  have r: "length r = length m mod 64" "take (length m mod 64) (hbuf h) = r"
    "unat (hbytes h) mod 64 = length r"
    using h by (auto simp: r_def length_md_rest represents_def unat_of_nat_mod_64)
  have st: "hstate h = md_blocks tr s m" "hbytes h = of_nat (length m)"
    using h by (auto simp: represents_def)
  consider (aligned) "r = []" | (fill) "r \<noteq> []" "length r + length d \<ge> 64"
    | (short) "r \<noteq> []" "length r + length d < 64" by linarith
  then show ?thesis
  proof cases
    case aligned
    then have al: "length m mod 64 = 0" using r(1) by simp
    show ?thesis
      using represents_aligned [OF h al, of d] r aligned
      by (auto simp: hash_Write_def Let_def case_prod_beta split: if_splits)
  next
    case fill
    define k where "k = 64 - length r"
    define m1 where "m1 = m @ take k d"
    have k: "length r + k = 64" "k \<le> length d" using r(1) fill by (auto simp: k_def)
    have al: "length m1 mod 64 = 0"
    proof -
      have "length m1 mod 64 = (length m mod 64 + k) mod 64" using k by (simp add: m1_def mod_simps)
      then show ?thesis using k r(1) by simp
    qed
    have "md_blocks tr s m1 = md_blocks tr (hstate h) (r @ take k d)"
      by (simp add: m1_def st md_blocks_append [of _ _ m] r_def)
    also have "\<dots> = tr (hstate h) (r @ take k d)"
      using k by (simp add: md_blocks_long md_blocks_short k_def [symmetric])
    finally have "represents tr s
        (h\<lparr>hstate := tr (hstate h) (r @ take k d), hbytes := hbytes h + of_nat k\<rparr>) m1"
      using al k length_md_rest [of m1] by (simp add: represents_def st m1_def)
    note al_d = represents_aligned [OF this al, of "drop k d"]
    have "hash_Write tr h d = (let (h, data) =
        write_chunks tr (h\<lparr>hstate := tr (hstate h) (r @ take k d), hbytes := hbytes h + of_nat k\<rparr>)
          (drop k d) in
        if data \<noteq> [] then h\<lparr>hbuf := data, hbytes := hbytes h + of_nat (length data)\<rparr> else h)"
      using fill r(2) [folded r(1)]
      by (simp add: hash_Write_def Let_def case_prod_beta r(3) k_def)
    then show ?thesis using al_d by (simp add: m1_def)
  next
    case short
    then have d: "length d < 64" by simp
    have len: "length (m @ d) mod 64 = length (r @ d)"
    proof -
      have "length (m @ d) mod 64 = (length m mod 64 + length d) mod 64" by (simp add: mod_simps)
      then show ?thesis using short r(1) by simp
    qed
    have rest: "md_rest (m @ d) = r @ d" "md_blocks tr s (m @ d) = md_blocks tr s m"
      using short by (simp_all add: md_rest_append [of m] md_blocks_append [of _ _ m] r_def [symmetric]
          md_rest_short md_blocks_short)
    have "hash_Write tr h d = (if d \<noteq> []
        then h\<lparr>hbuf := r @ d, hbytes := hbytes h + of_nat (length d)\<rparr> else h)"
      using short d r by (simp add: hash_Write_def Let_def write_chunks.simps)
    then show ?thesis
      using st rest r len by (simp add: represents_def)
  qed
qed

lemma represents_init: "represents tr s (hasher_init s) []"
  by (simp add: represents_def hasher_init_def md_blocks_short md_rest_short)

lemma Finalize_md:
  assumes "represents tr s h m"
  shows "hash_Finalize tr wr64 wr32 h = md_hash tr s wr64 wr32 m"
proof -
  define n where "n = (119 - length m mod 64) mod 64"
  have hb: "unat (hbytes h) mod 64 = length m mod 64" "hbytes h = of_nat (length m)"
    using assms by (auto simp: represents_def unat_of_nat_mod_64)
  have "take (1 + n) ((0x80 :: byte) # replicate 63 0) = 0x80 # replicate n 0"
  proof -
    have "n \<le> 63" by (simp add: n_def less_Suc_eq_le [symmetric])
    then show ?thesis by (simp add: min_def)
  qed
  then show ?thesis
    using represents_Write [OF represents_Write [OF assms]]
    by (simp add: hash_Finalize_def md_hash_def md_pad_def Let_def hb(2) unat_of_nat_mod_64 n_def
        represents_def)
qed

section \<open>The three instances\<close>

text \<open>The interface of a block transformation: it keeps the number of state words.\<close>

locale compression =
  fixes Transform :: "u32 list \<Rightarrow> bytes \<Rightarrow> u32 list" and s0 :: "u32 list"
    and wr64 :: "64 word \<Rightarrow> bytes" and wr32 :: "u32 \<Rightarrow> bytes"
  assumes Transform_length: "length s = length s0 \<Longrightarrow> length (Transform s chunk) = length s0"
    and wr64_length: "length (wr64 x) = 8" and wr32_length: "length (wr32 y) = 4"
begin

lemma md_blocks_length: "length s = length s0 \<Longrightarrow> length (md_blocks Transform s m) = length s0"
proof (induction m arbitrary: s rule: length_induct)
  case (1 m)
  then show ?case
    by (cases "length m < 64") (simp_all add: md_blocks_short md_blocks_long Transform_length)
qed

lemma md_hash_length: "length (md_hash Transform s0 wr64 wr32 m) = 4 * length s0"
proof -
  have "length (concat (map wr32 xs)) = 4 * length xs" for xs
    by (induction xs) (auto simp: wr32_length)
  then show ?thesis by (simp add: md_hash_def md_blocks_length)
qed

text \<open>The padded message is a whole number of blocks.\<close>

lemma md_pad_blocks: "(length m + length (md_pad wr64 (length m))) mod 64 = 0"
proof -
  define r where "r = length m mod 64"
  have "r < 64" by (simp add: r_def)
  have "(r + (1 + (119 - r) mod 64 + 8)) mod 64 = 0"
  proof (cases "r \<le> 55")
    case True
    then have "119 - r = (55 - r) + 64" by simp
    then have "(119 - r) mod 64 = 55 - r" by (simp only: mod_add_self2) simp
    then show ?thesis using True by simp
  qed (use \<open>r < 64\<close> in simp)
  then show ?thesis
    unfolding r_def by (simp add: md_pad_def wr64_length mod_simps)
qed

lemma Finalize_length:
  "length (hash_Finalize Transform wr64 wr32 (hash_Write Transform (hasher_init s0) m)) = 4 * length s0"
  using represents_Write [OF represents_init, of Transform s0 m]
  by (simp add: Finalize_md md_hash_length)

text \<open>A message written in pieces hashes as the whole.\<close>

lemma Write_pieces: "represents Transform s0 h m \<Longrightarrow>
  hash_Finalize Transform wr64 wr32 (foldl (hash_Write Transform) h bs) =
    md_hash Transform s0 wr64 wr32 (m @ concat bs)"
proof (induction bs arbitrary: h m)
  case (Cons b bs)
  from Cons.IH [OF represents_Write [OF Cons.prems, of b]] show ?case by simp
qed (simp add: Finalize_md)

lemma Write_Write:
  "hash_Finalize Transform wr64 wr32
     (hash_Write Transform (hash_Write Transform (hasher_init s0) a) b) =
   hash_Finalize Transform wr64 wr32 (hash_Write Transform (hasher_init s0) (a @ b))"
  using represents_Write [OF represents_Write [OF represents_init], of Transform s0 a b]
    represents_Write [OF represents_init, of Transform s0 "a @ b"]
  by (simp add: Finalize_md)

end

lemma length_sha256_Round [simp]: "length (sha256_Round s k w) = length s"
  by (induction s k w rule: sha256_Round.induct) (simp_all add: Let_def)

lemma length_sha256_rounds [simp]: "length (sha256_rounds ks w s) = length s"
  by (induction ks w s rule: sha256_rounds.induct) simp_all

lemma length_sha1_Round [simp]: "length (sha1_Round s f k w) = length s"
  by (induction s f k w rule: sha1_Round.induct) simp_all

lemma length_sha1_rounds [simp]: "length (sha1_rounds fs w s) = length s"
  by (induction fs w s rule: sha1_rounds.induct) simp_all

lemma length_wr:
  "length (WriteBE32 x) = 4" "length (WriteLE32 x) = 4"
  "length (WriteBE64 y) = 8" "length (WriteLE64 y) = 8"
  by (simp_all add: WriteBE32_def WriteLE32_def WriteBE64_def WriteLE64_def)

interpretation sha256: compression sha256_Transform sha256_Initialize WriteBE64 WriteBE32
  by unfold_locales (simp_all add: sha256_Transform_def sha256_Initialize_def length_wr)

interpretation sha1: compression sha1_Transform sha1_Initialize WriteBE64 WriteBE32
  by unfold_locales (simp_all add: sha1_Transform_def sha1_Initialize_def length_wr)

interpretation ripemd160: compression ripemd160_Transform ripemd160_Initialize WriteLE64 WriteLE32
  by unfold_locales (simp_all add: ripemd160_Transform_def ripemd160_Initialize_def Let_def length_wr)

lemmas hash_class_defs = sha256_def CSHA256_Write_def CSHA256_Finalize_def
  sha1_def CSHA1_Write_def CSHA1_Finalize_def ripemd160_def CRIPEMD160_Write_def CRIPEMD160_Finalize_def

lemma sha256_length: "length (sha256 m) = 32"
  using sha256.Finalize_length [of m] by (simp add: hash_class_defs sha256_Initialize_def)

lemma sha1_length: "length (sha1 m) = 20"
  using sha1.Finalize_length [of m] by (simp add: hash_class_defs sha1_Initialize_def)

lemma ripemd160_length: "length (ripemd160 m) = 20"
  using ripemd160.Finalize_length [of m] by (simp add: hash_class_defs ripemd160_Initialize_def)

lemma sha256_md: "sha256 m = md_hash sha256_Transform sha256_Initialize WriteBE64 WriteBE32 m"
  using represents_Write [OF represents_init, of _ _ m]
  by (simp add: hash_class_defs Finalize_md)

section \<open>The double hashes of hash.h\<close>

text \<open>uint256 and uint160 results are the digest read as a little-endian number.\<close>

definition uint256_of_bytes :: "bytes \<Rightarrow> uint256" where
  "uint256_of_bytes bs = of_nat (le_val bs)"

definition uint256_bytes :: "uint256 \<Rightarrow> bytes" where
  "uint256_bytes u = le_bytes 32 (unat u)"

definition Hash_bytes :: "bytes \<Rightarrow> bytes" where
  "Hash_bytes m = sha256 (sha256 m)"

definition Hash :: "bytes \<Rightarrow> uint256" where
  "Hash m = uint256_of_bytes (Hash_bytes m)"

definition Hash160 :: "bytes \<Rightarrow> bytes" where
  "Hash160 m = ripemd160 (sha256 m)"

text \<open>The two-range overload writes both ranges into one hasher.\<close>

definition Hash2 :: "bytes \<Rightarrow> bytes \<Rightarrow> uint256" where
  "Hash2 a b = uint256_of_bytes
     (sha256 (CSHA256_Finalize (CSHA256_Write (CSHA256_Write (hasher_init sha256_Initialize) a) b)))"

lemma Hash2_append: "Hash2 a b = Hash (a @ b)"
  by (simp add: Hash2_def Hash_def Hash_bytes_def hash_class_defs sha256.Write_Write)

lemma uint256_bytes_inverse: "uint256_of_bytes (uint256_bytes u) = u"
proof -
  have "unat u < 2 ^ 256" using unsigned_less [of u, where ?'a = nat] by simp
  then have "unat u < 256 ^ 32" by simp
  then show ?thesis by (simp add: uint256_of_bytes_def uint256_bytes_def le_val_le_bytes)
qed

lemma uint256_of_bytes_inj:
  assumes "length a = 32" "length b = 32" "uint256_of_bytes a = uint256_of_bytes b"
  shows "a = b"
proof -
  have l: "le_val x < 2 ^ 256" if "length x = 32" for x :: bytes
    using le_val_less [of x] that by simp
  have "unat (uint256_of_bytes x) = le_val x" if "length x = 32" for x
    using l [OF that] by (simp add: uint256_of_bytes_def unat_of_nat)
  then have "le_val a = le_val b" using assms by metis
  then show ?thesis using assms le_val_inj by metis
qed

end
