(* ===== verification/Transaction.thy ===== *)
theory Transaction
  imports Crypto
begin

text \<open>
  Transactions: the records of primitives/transaction.h, their serialization and hash, their
  classification (coin base, coin stake, zerocoin) and their amounts (primitives/transaction.cpp),
  and the fee rates of amount.cpp.  The records leave out the memory-only members: the cached hash
  (\<open>GetHash\<close> recomputes it as UpdateHash does), nRounds and prevPubKey.
\<close>

section \<open>Amounts\<close>

text \<open>CAmount is a signed 64-bit integer, kept as an \<open>int\<close>; \<open>wrap64\<close> is the two's complement
result of an operation that leaves the range.\<close>

type_synonym CAmount = int

abbreviation (input) COIN :: CAmount where "COIN \<equiv> 100000000"
abbreviation (input) CENT :: CAmount where "CENT \<equiv> 1000000"

definition wrap64 :: "int \<Rightarrow> int" where
  "wrap64 v = (v + 2 ^ 63) mod 2 ^ 64 - 2 ^ 63"

text \<open>CFeeRate: the arithmetic mixes a signed rate with a size_t, so it is done modulo
\<open>2 ^ 64\<close> and converted back.\<close>

definition u64_of :: "int \<Rightarrow> nat" where "u64_of v = nat (v mod 2 ^ 64)"

definition CFeeRate :: "CAmount \<Rightarrow> nat \<Rightarrow> CAmount" where
  "CFeeRate nFeePaid nSize =
     (if nSize > 0 then wrap64 (int (u64_of (wrap64 (nFeePaid * 1000)) div nSize)) else 0)"

definition GetFee :: "CAmount \<Rightarrow> nat \<Rightarrow> CAmount" where
  "GetFee nSatoshisPerK nSize =
     (let nFee = wrap64 (int ((u64_of nSatoshisPerK * nSize) mod 2 ^ 64 div 1000)) in
      if nFee = 0 \<and> nSatoshisPerK > 0 then nSatoshisPerK else nFee)"

section \<open>Transactions\<close>

record COutPoint =
  outhash :: uint256
  outn :: "32 word"

record CTxIn =
  prevout :: COutPoint
  scriptSig :: CScript
  nSequence :: "32 word"

record CTxOut =
  nValue :: CAmount
  scriptPubKey :: CScript

record CTransaction =
  nVersion :: int
  vin :: "CTxIn list"
  vout :: "CTxOut list"
  nLockTime :: "32 word"

definition COutPoint_null :: COutPoint where
  "COutPoint_null = \<lparr>outhash = 0, outn = -1\<rparr>"

definition COutPoint_IsNull :: "COutPoint \<Rightarrow> bool" where
  "COutPoint_IsNull p \<longleftrightarrow> outhash p = 0 \<and> outn p = -1"

definition COutPoint_less :: "COutPoint \<Rightarrow> COutPoint \<Rightarrow> bool" where
  "COutPoint_less a b \<longleftrightarrow>
     outhash a < outhash b \<or> (outhash a = outhash b \<and> outn a < outn b)"

definition CTxIn_IsFinal :: "CTxIn \<Rightarrow> bool" where
  "CTxIn_IsFinal txin \<longleftrightarrow> nSequence txin = -1"

definition CTxOut_null :: CTxOut where
  "CTxOut_null = \<lparr>nValue = -1, scriptPubKey = []\<rparr>"

definition CTxOut_IsNull :: "CTxOut \<Rightarrow> bool" where
  "CTxOut_IsNull out \<longleftrightarrow> nValue out = -1"

definition CTxOut_SetEmpty :: "CTxOut \<Rightarrow> CTxOut" where
  "CTxOut_SetEmpty out = out\<lparr>nValue := 0, scriptPubKey := []\<rparr>"

definition CTxOut_IsEmpty :: "CTxOut \<Rightarrow> bool" where
  "CTxOut_IsEmpty out \<longleftrightarrow> nValue out = 0 \<and> scriptPubKey out = []"

definition CTxOut_IsZerocoinMint :: "CTxOut \<Rightarrow> bool" where
  "CTxOut_IsZerocoinMint out \<longleftrightarrow> scriptPubKey out \<noteq> [] \<and> IsZerocoinMint (scriptPubKey out)"

subsection \<open>Serialization\<close>

definition put_word32 :: "32 word \<Rightarrow> bytes" where "put_word32 w = write_uint 4 (unat w)"
definition get_word32 :: "(32 word) reader" where
  "get_word32 s = bindE (read_uint 4 s) (\<lambda>(v, s). Inr (of_nat v, s))"

definition put_uint256 :: "uint256 \<Rightarrow> bytes" where "put_uint256 u = uint256_bytes u"
definition get_uint256 :: "uint256 reader" where
  "get_uint256 s = bindE (read_bytes 32 s) (\<lambda>(b, s). Inr (uint256_of_bytes b, s))"

definition put_COutPoint :: "COutPoint \<Rightarrow> bytes" where
  "put_COutPoint p = put_uint256 (outhash p) @ put_word32 (outn p)"

definition get_COutPoint :: "COutPoint reader" where
  "get_COutPoint s = bindE (get_uint256 s) (\<lambda>(h, s). bindE (get_word32 s) (\<lambda>(k, s).
     Inr (\<lparr>outhash = h, outn = k\<rparr>, s)))"

definition put_CTxIn :: "CTxIn \<Rightarrow> bytes" where
  "put_CTxIn i = put_COutPoint (prevout i) @ put_blob (scriptSig i) @ put_word32 (nSequence i)"

definition get_CTxIn :: "CTxIn reader" where
  "get_CTxIn s = bindE (get_COutPoint s) (\<lambda>(p, s). bindE (get_blob s) (\<lambda>(sig, s).
     bindE (get_word32 s) (\<lambda>(q, s). Inr (\<lparr>prevout = p, scriptSig = sig, nSequence = q\<rparr>, s))))"

definition put_CTxOut :: "CTxOut \<Rightarrow> bytes" where
  "put_CTxOut out = write_sint 8 (nValue out) @ put_blob (scriptPubKey out)"

definition get_CTxOut :: "CTxOut reader" where
  "get_CTxOut s = bindE (read_sint 8 s) (\<lambda>(v, s). bindE (get_blob s) (\<lambda>(pk, s).
     Inr (\<lparr>nValue = v, scriptPubKey = pk\<rparr>, s)))"

definition put_CTransaction :: "CTransaction \<Rightarrow> bytes" where
  "put_CTransaction tx =
     write_sint 4 (nVersion tx) @ put_vector put_CTxIn (vin tx) @ put_vector put_CTxOut (vout tx) @
     put_word32 (nLockTime tx)"

definition get_CTransaction :: "CTransaction reader" where
  "get_CTransaction s =
     bindE (read_sint 4 s) (\<lambda>(v, s). bindE (get_vector get_CTxIn s) (\<lambda>(ins, s).
     bindE (get_vector get_CTxOut s) (\<lambda>(outs, s). bindE (get_word32 s) (\<lambda>(t, s).
       Inr (\<lparr>nVersion = v, vin = ins, vout = outs, nLockTime = t\<rparr>, s)))))"

definition GetHash :: "CTransaction \<Rightarrow> uint256" where
  "GetHash tx = Hash (put_CTransaction tx)"

definition txin_ok :: "CTxIn \<Rightarrow> bool" where
  "txin_ok i \<longleftrightarrow> length (scriptSig i) \<le> MAX_SIZE"

definition txout_ok :: "CTxOut \<Rightarrow> bool" where
  "txout_ok out \<longleftrightarrow> sint_ok 8 (nValue out) \<and> length (scriptPubKey out) \<le> MAX_SIZE"

definition tx_ok :: "CTransaction \<Rightarrow> bool" where
  "tx_ok tx \<longleftrightarrow> sint_ok 4 (nVersion tx) \<and> vector_ok txin_ok (vin tx) \<and> vector_ok txout_ok (vout tx)"

lemma canonical_word32: "canonical_codec put_word32 get_word32 (\<lambda>w. True)"
proof
  fix w :: "32 word" and rest
  have "unat w < 256 ^ 4" using unsigned_less [of w, where ?'a = nat] by simp
  then show "get_word32 (put_word32 w @ rest) = Inr (w, rest)"
    by (simp add: get_word32_def put_word32_def u32.get_put)
next
  fix s w rest assume "get_word32 s = Inr (w, rest)"
  then show "True \<and> s = put_word32 w @ rest"
    by (auto simp: get_word32_def put_word32_def fault_simps u32.get_iff unat_of_nat)
qed

interpretation word32: canonical_codec put_word32 get_word32 "\<lambda>w. True"
  by (rule canonical_word32)

lemma length_uint256_bytes [simp]: "length (uint256_bytes u) = 32"
  by (simp add: uint256_bytes_def)

lemma uint256_bytes_of_bytes:
  assumes "length b = 32"
  shows "uint256_bytes (uint256_of_bytes b) = b"
  by (rule uint256_of_bytes_inj) (simp_all add: assms uint256_bytes_inverse)

interpretation hash256: canonical_codec put_uint256 get_uint256 "\<lambda>u. True"
  by unfold_locales
    (auto simp: get_uint256_def put_uint256_def read_bytes_append read_bytes_iff fault_simps
      uint256_bytes_inverse uint256_bytes_of_bytes)

interpretation outpoint: canonical_codec put_COutPoint get_COutPoint "\<lambda>p. True"
  by unfold_locales
    (auto simp: put_COutPoint_def get_COutPoint_def fault_simps word32.get_put word32.get_iff
      hash256.get_put hash256.get_iff)

interpretation txin: canonical_codec put_CTxIn get_CTxIn txin_ok
  by unfold_locales
    (auto simp: put_CTxIn_def get_CTxIn_def txin_ok_def fault_simps word32.get_put word32.get_iff
      outpoint.get_put outpoint.get_iff blob.get_put blob.get_iff)

interpretation txout: canonical_codec put_CTxOut get_CTxOut txout_ok
  by unfold_locales
    (auto simp: put_CTxOut_def get_CTxOut_def txout_ok_def fault_simps i64.get_put i64.get_iff
      blob.get_put blob.get_iff)

interpretation txins: canonical_codec "put_vector put_CTxIn" "get_vector get_CTxIn" "vector_ok txin_ok"
  by (rule txin.canonical_vector)
interpretation txouts: canonical_codec "put_vector put_CTxOut" "get_vector get_CTxOut" "vector_ok txout_ok"
  by (rule txout.canonical_vector)

interpretation tx: canonical_codec put_CTransaction get_CTransaction tx_ok
  by unfold_locales
    (auto simp: put_CTransaction_def get_CTransaction_def tx_ok_def fault_simps i32.get_put i32.get_iff
      txins.get_put txins.get_iff txouts.get_put txouts.get_iff word32.get_put word32.get_iff)

subsection \<open>Classification\<close>

text \<open>IsZerocoinSpend reads \<open>scriptSig[0]\<close> of the first input without a test: on an empty
scriptSig this is a read outside the vector, the fault \<open>Abort\<close>.\<close>

definition IsZerocoinSpend_tx :: "CTransaction \<Rightarrow> fault + bool" where
  "IsZerocoinSpend_tx tx =
     (case vin tx of
        [] \<Rightarrow> Inr False
      | i # _ \<Rightarrow>
          if outhash (prevout i) \<noteq> 0 then Inr False
          else (case scriptSig i of
                  [] \<Rightarrow> Inl Abort
                | b # _ \<Rightarrow> Inr (unat b = OP_ZEROCOINSPEND)))"

definition IsZerocoinMint_tx :: "CTransaction \<Rightarrow> bool" where
  "IsZerocoinMint_tx tx \<longleftrightarrow> (\<exists>out \<in> set (vout tx). IsZerocoinMint (scriptPubKey out))"

definition ContainsZerocoins :: "CTransaction \<Rightarrow> fault + bool" where
  "ContainsZerocoins tx =
     bindE (IsZerocoinSpend_tx tx) (\<lambda>b. Inr (b \<or> IsZerocoinMint_tx tx))"

definition IsCoinBase :: "CTransaction \<Rightarrow> fault + bool" where
  "IsCoinBase tx =
     (if length (vin tx) = 1 \<and> COutPoint_IsNull (prevout (hd (vin tx)))
      then bindE (ContainsZerocoins tx) (\<lambda>b. Inr (\<not> b)) else Inr False)"

definition IsCoinStake :: "CTransaction \<Rightarrow> bool" where
  "IsCoinStake tx =
     (case vin tx of
        [] \<Rightarrow> False
      | i # _ \<Rightarrow>
          let fAllowNull = IsZerocoinSpend (scriptSig i) in
          if COutPoint_IsNull (prevout i) \<and> \<not> fAllowNull then False
          else length (vout tx) \<ge> 2 \<and> CTxOut_IsEmpty (hd (vout tx)))"

definition tx_IsNull :: "CTransaction \<Rightarrow> bool" where
  "tx_IsNull tx \<longleftrightarrow> vin tx = [] \<and> vout tx = []"

text \<open>IsMasternodeReward and IsMaxnodeReward have the same body.\<close>

definition IsMasternodeReward :: "COutPoint \<Rightarrow> CTransaction \<Rightarrow> bool" where
  "IsMasternodeReward p tx \<longleftrightarrow>
     IsCoinStake tx \<and> unat (outn p) = length (vout tx) - 1 \<and>
     scriptPubKey (vout tx ! 1) \<noteq> scriptPubKey (vout tx ! unat (outn p))"

subsection \<open>Amounts of a transaction\<close>

fun value_out_loop :: "CAmount \<Rightarrow> CTxOut list \<Rightarrow> fault + CAmount" where
  "value_out_loop nValueOut [] = Inr nValueOut"
| "value_out_loop nValueOut (out # outs) =
     (if nValue out < 0 then Inl Throw
      else if wrap64 (nValueOut + nValue out) < nValueOut then Inl Throw
      else value_out_loop (wrap64 (nValueOut + nValue out)) outs)"

definition GetValueOut :: "CTransaction \<Rightarrow> fault + CAmount" where
  "GetValueOut tx = value_out_loop 0 (vout tx)"

definition GetZerocoinMinted :: "CTransaction \<Rightarrow> CAmount" where
  "GetZerocoinMinted tx =
     (case filter (\<lambda>out. IsZerocoinMint (scriptPubKey out)) (vout tx) of
        [] \<Rightarrow> 0 | out # _ \<Rightarrow> nValue out)"

definition GetZerocoinMintCount :: "CTransaction \<Rightarrow> nat" where
  "GetZerocoinMintCount tx = length (filter (\<lambda>out. IsZerocoinMint (scriptPubKey out)) (vout tx))"

text \<open>The sequence number of a spend carries its denomination; \<open>nSequence * COIN\<close> is a 64-bit
product and cannot leave the range.\<close>

definition GetZerocoinSpent :: "CTransaction \<Rightarrow> fault + CAmount" where
  "GetZerocoinSpent tx = bindE (IsZerocoinSpend_tx tx) (\<lambda>b.
     if \<not> b then Inr 0
     else Inr (foldl (\<lambda>acc i. if IsZerocoinSpend (scriptSig i)
                              then wrap64 (acc + int (unat (nSequence i)) * COIN) else acc) 0 (vin tx)))"

definition UsesUTXO :: "CTransaction \<Rightarrow> COutPoint \<Rightarrow> bool" where
  "UsesUTXO tx out \<longleftrightarrow> (\<exists>i \<in> set (vin tx). prevout i = out)"

definition GetOutPoints :: "CTransaction \<Rightarrow> COutPoint list" where
  "GetOutPoints tx =
     map (\<lambda>i. \<lparr>outhash = GetHash tx, outn = of_nat i\<rparr>) [0..<length (vout tx)]"

definition CalculateModifiedSize :: "CTransaction \<Rightarrow> nat \<Rightarrow> nat" where
  "CalculateModifiedSize tx nTxSize =
     foldl (\<lambda>sz i. let offset = 41 + min 110 (length (scriptSig i))
                   in if sz > offset then sz - offset else sz)
       (if nTxSize = 0 then length (put_CTransaction tx) else nTxSize) (vin tx)"

section \<open>Properties\<close>

lemma wrap64_id: "INT64_MIN \<le> v \<Longrightarrow> v \<le> INT64_MAX \<Longrightarrow> wrap64 v = v"
  by (simp add: wrap64_def INT64_MIN_def INT64_MAX_def)

lemma wrap64_range: "INT64_MIN \<le> wrap64 v" "wrap64 v \<le> INT64_MAX"
  using pos_mod_bound [of "2 ^ 64" "v + 2 ^ 63"]
  by (auto simp: wrap64_def INT64_MIN_def INT64_MAX_def)

text \<open>Two values in range: the sum wraps exactly when the result is smaller than the first.\<close>

lemma wrap64_add_less:
  assumes "0 \<le> a" "a \<le> INT64_MAX" "0 \<le> b" "b \<le> INT64_MAX"
  shows "wrap64 (a + b) < a \<longleftrightarrow> INT64_MAX < a + b"
proof (cases "a + b \<le> INT64_MAX")
  case True
  then show ?thesis using assms wrap64_id [of "a + b"] by (simp add: INT64_MIN_def)
next
  case False
  then have "wrap64 (a + b) = a + b - 2 ^ 64"
    using assms mod_diff_eq unfolding wrap64_def INT64_MAX_def
    by (subst minus_mod_self2 [symmetric], subst mod_pos_pos_trivial) auto
  then show ?thesis using False assms by (simp add: INT64_MAX_def)
qed

lemma value_out_loop_sum:
  assumes "0 \<le> acc" "acc \<le> INT64_MAX" "list_all (\<lambda>out. nValue out \<le> INT64_MAX) outs"
  shows "value_out_loop acc outs =
    (if list_all (\<lambda>out. 0 \<le> nValue out) outs \<and> acc + sum_list (map nValue outs) \<le> INT64_MAX
     then Inr (acc + sum_list (map nValue outs)) else Inl Throw)"
  using assms
proof (induction acc outs rule: value_out_loop.induct)
  case (2 acc out outs)
  have nn: "0 \<le> sum_list (map nValue outs)" if "list_all (\<lambda>out. 0 \<le> nValue out) outs"
    using that by (intro sum_list_nonneg) (auto simp: list_all_iff)
  show ?case
  proof (cases "0 \<le> nValue out \<and> acc + nValue out \<le> INT64_MAX")
    case True
    then have "wrap64 (acc + nValue out) = acc + nValue out"
      using 2(2) by (intro wrap64_id) (auto simp: INT64_MIN_def)
    then show ?thesis
      using 2 True by (simp add: add.assoc)
  next
    case False
    then show ?thesis
      using 2 nn wrap64_add_less [of acc "nValue out"] by (auto simp: not_le)
  qed
qed simp

end
