(* ===== verification/SigHash.thy ===== *)
theory SigHash
  imports Transaction
begin

text \<open>
  What a signature signs: CPubKey (pubkey.h), the transaction serializer for signature hashes,
  SignatureHash and TransactionSignatureChecker::CheckSig (script/interpreter.cpp).  The serializer
  writes the modified transaction without building it; \<open>SignatureHashOld\<close> is the original
  definition, which builds the modified copy, and the two agree on every script the code assembles.
\<close>

section \<open>Public keys\<close>

text \<open>A CPubKey is kept as its meaningful bytes: the key itself, or the one byte 0xFF of an
invalid key.\<close>

definition CPubKey_GetLen :: "byte \<Rightarrow> nat" where
  "CPubKey_GetLen chHeader =
     (if chHeader = 2 \<or> chHeader = 3 then 33
      else if chHeader = 4 \<or> chHeader = 6 \<or> chHeader = 7 then 65 else 0)"

definition CPubKey_Set :: "bytes \<Rightarrow> bytes" where
  "CPubKey_Set b =
     (let len = (if b = [] then 0 else CPubKey_GetLen (hd b)) in
      if len \<noteq> 0 \<and> len = length b then b else [0xFF])"

definition CPubKey_size :: "bytes \<Rightarrow> nat" where
  "CPubKey_size vch = CPubKey_GetLen (hd vch)"

definition CPubKey_IsValid :: "bytes \<Rightarrow> bool" where
  "CPubKey_IsValid vch \<longleftrightarrow> CPubKey_size vch > 0"

definition CPubKey_IsCompressed :: "bytes \<Rightarrow> bool" where
  "CPubKey_IsCompressed vch \<longleftrightarrow> CPubKey_size vch = 33"

definition CPubKey_GetID :: "bytes \<Rightarrow> bytes" where
  "CPubKey_GetID vch = Hash160 (take (CPubKey_size vch) vch)"

section \<open>The signature hash\<close>

text \<open>nHashType is an int; \<open>i AND m\<close> below is on its two's complement word.\<close>

type_synonym hashtype = "32 word"

definition fAnyoneCanPay :: "hashtype \<Rightarrow> bool" where
  "fAnyoneCanPay nHashType \<longleftrightarrow> nHashType AND 0x80 \<noteq> 0"

definition fHashSingle :: "hashtype \<Rightarrow> bool" where
  "fHashSingle nHashType \<longleftrightarrow> nHashType AND 0x1f = 3"

definition fHashNone :: "hashtype \<Rightarrow> bool" where
  "fHashNone nHashType \<longleftrightarrow> nHashType AND 0x1f = 2"

text \<open>The two passes of SerializeScriptCode: count the separators, then write the runs between
them.  The second pass keeps itBegin and it, both as the bytes from there to the end.\<close>

function count_separators :: "bytes \<Rightarrow> nat" where
  "count_separators it =
     (case GetOp it of (fRet, opcode, it') \<Rightarrow>
        if \<not> fRet then 0
        else (if opcode = OP_CODESEPARATOR then 1 else 0) + count_separators it')"
  by pat_completeness auto
termination
  by (relation "measure length") (auto intro: GetOp_length)

declare count_separators.simps [simp del]

function write_runs :: "bytes \<Rightarrow> bytes \<Rightarrow> bytes" where
  "write_runs itBegin it =
     (case GetOp it of (fRet, opcode, it') \<Rightarrow>
        if \<not> fRet then (if itBegin \<noteq> [] then take (length itBegin - length it') itBegin else [])
        else if opcode = OP_CODESEPARATOR
        then take (length itBegin - length it' - 1) itBegin @ write_runs it' it'
        else write_runs itBegin it')"
  by pat_completeness auto
termination
  by (relation "measure (\<lambda>(b, it). length it)") (auto intro: GetOp_length)

declare write_runs.simps [simp del]

definition SerializeScriptCode :: "CScript \<Rightarrow> bytes" where
  "SerializeScriptCode scriptCode =
     WriteCompactSize (length scriptCode - count_separators scriptCode) @
     write_runs scriptCode scriptCode"

definition SerializeInput :: "CScript \<Rightarrow> CTransaction \<Rightarrow> nat \<Rightarrow> hashtype \<Rightarrow> nat \<Rightarrow> bytes" where
  "SerializeInput scriptCode txTo nIn nHashType nInput0 =
     (let nInput = (if fAnyoneCanPay nHashType then nIn else nInput0) in
      put_COutPoint (prevout (vin txTo ! nInput)) @
      (if nInput \<noteq> nIn then put_blob [] else SerializeScriptCode scriptCode) @
      (if nInput \<noteq> nIn \<and> (fHashSingle nHashType \<or> fHashNone nHashType) then put_word32 0
       else put_word32 (nSequence (vin txTo ! nInput))))"

definition SerializeOutput :: "CTransaction \<Rightarrow> nat \<Rightarrow> hashtype \<Rightarrow> nat \<Rightarrow> bytes" where
  "SerializeOutput txTo nIn nHashType nOutput =
     (if fHashSingle nHashType \<and> nOutput \<noteq> nIn then put_CTxOut CTxOut_null
      else put_CTxOut (vout txTo ! nOutput))"

definition sighash_Serialize :: "CScript \<Rightarrow> CTransaction \<Rightarrow> nat \<Rightarrow> hashtype \<Rightarrow> bytes" where
  "sighash_Serialize scriptCode txTo nIn nHashType =
     (let nInputs = (if fAnyoneCanPay nHashType then 1 else length (vin txTo));
          nOutputs = (if fHashNone nHashType then 0
                      else if fHashSingle nHashType then nIn + 1 else length (vout txTo))
      in write_sint 4 (nVersion txTo) @
         WriteCompactSize nInputs @
         concat (map (SerializeInput scriptCode txTo nIn nHashType) [0..<nInputs]) @
         WriteCompactSize nOutputs @
         concat (map (SerializeOutput txTo nIn nHashType) [0..<nOutputs]) @
         put_word32 (nLockTime txTo))"

definition SignatureHash :: "CScript \<Rightarrow> CTransaction \<Rightarrow> nat \<Rightarrow> hashtype \<Rightarrow> uint256" where
  "SignatureHash scriptCode txTo nIn nHashType =
     (if nIn \<ge> length (vin txTo) then 1
      else if fHashSingle nHashType \<and> nIn \<ge> length (vout txTo) then 1
      else Hash (sighash_Serialize scriptCode txTo nIn nHashType @ put_word32 nHashType))"

text \<open>CheckSig of TransactionSignatureChecker; \<open>verify\<close> is CPubKey::Verify (libsecp256k1).\<close>

definition CheckSig ::
  "(bytes \<Rightarrow> uint256 \<Rightarrow> bytes \<Rightarrow> bool) \<Rightarrow> CTransaction \<Rightarrow> nat \<Rightarrow> valtype \<Rightarrow> valtype \<Rightarrow> CScript \<Rightarrow> bool"
where
  "CheckSig verify txTo nIn vchSigIn vchPubKey scriptCode =
     (let pubkey = CPubKey_Set vchPubKey in
      if \<not> CPubKey_IsValid pubkey then False
      else if vchSigIn = [] then False
      else let nHashType = ucast (last vchSigIn);
               vchSig = butlast vchSigIn;
               sighash = SignatureHash scriptCode txTo nIn nHashType
        in verify pubkey sighash vchSig)"

text \<open>The machine run with the node's hash functions and this checker.\<close>

definition tx_env :: "(bytes \<Rightarrow> uint256 \<Rightarrow> bytes \<Rightarrow> bool) \<Rightarrow> flags \<Rightarrow> CTransaction \<Rightarrow> nat \<Rightarrow> script_env" where
  "tx_env verify fl txTo nIn =
     \<lparr>env_flags = fl, env_CheckSig = CheckSig verify txTo nIn,
      env_RIPEMD160 = ripemd160, env_SHA1 = sha1, env_SHA256 = sha256\<rparr>"

section \<open>The reference definition\<close>

text \<open>The transaction copy of the original implementation, kept by the tests
(SignatureHashOld of test/sighash_tests.cpp), in the order of its statements.\<close>

definition old_blank_inputs :: "CScript \<Rightarrow> nat \<Rightarrow> CTransaction \<Rightarrow> CTransaction" where
  "old_blank_inputs code nIn tx =
     tx\<lparr>vin := (map (\<lambda>i. i\<lparr>scriptSig := []\<rparr>) (vin tx))
             [nIn := (vin tx ! nIn)\<lparr>scriptSig := code\<rparr>]\<rparr>"

definition old_zero_sequences :: "nat \<Rightarrow> CTransaction \<Rightarrow> CTransaction" where
  "old_zero_sequences nIn tx =
     tx\<lparr>vin := map (\<lambda>j. if j \<noteq> nIn then (vin tx ! j)\<lparr>nSequence := 0\<rparr> else vin tx ! j)
       [0..<length (vin tx)]\<rparr>"

definition old_outputs :: "hashtype \<Rightarrow> nat \<Rightarrow> CTransaction \<Rightarrow> CTransaction" where
  "old_outputs nHashType nIn tx =
     (if fHashNone nHashType then old_zero_sequences nIn (tx\<lparr>vout := []\<rparr>)
      else if fHashSingle nHashType
      then old_zero_sequences nIn
        (tx\<lparr>vout := replicate nIn CTxOut_null @ take 1 (drop nIn (vout tx))\<rparr>)
      else tx)"

definition old_anyone :: "hashtype \<Rightarrow> nat \<Rightarrow> CTransaction \<Rightarrow> CTransaction" where
  "old_anyone nHashType nIn tx =
     (if fAnyoneCanPay nHashType then tx\<lparr>vin := [vin tx ! nIn]\<rparr> else tx)"

definition old_tx :: "CScript \<Rightarrow> CTransaction \<Rightarrow> nat \<Rightarrow> hashtype \<Rightarrow> CTransaction" where
  "old_tx code tx nIn nHashType =
     old_anyone nHashType nIn (old_outputs nHashType nIn (old_blank_inputs code nIn tx))"

definition SignatureHashOld :: "CScript \<Rightarrow> CTransaction \<Rightarrow> nat \<Rightarrow> hashtype \<Rightarrow> uint256" where
  "SignatureHashOld scriptCode txTo nIn nHashType =
     (if nIn \<ge> length (vin txTo) then 1
      else if fHashSingle nHashType \<and> nIn \<ge> length (vout txTo) then 1
      else let code = fst (FindAndDelete scriptCode [of_nat OP_CODESEPARATOR]) in
        Hash (put_CTransaction (old_tx code txTo nIn nHashType) @ put_word32 nHashType))"

section \<open>Equivalence\<close>

definition strip_separators :: "instr list \<Rightarrow> instr list" where
  "strip_separators is = filter (\<lambda>i. i \<noteq> Op OP_CODESEPARATOR) is"

lemma GetOp_Nil: "GetOp [] = (False, OP_INVALIDOPCODE, [])"
  by (simp add: GetOp_def)

lemma instr_read_separator:
  "instr_ok i \<Longrightarrow> fst (instr_read i) = OP_CODESEPARATOR \<longleftrightarrow> i = Op OP_CODESEPARATOR"
  using push_op_le by (cases i) (auto simp: push_op_def)

lemma count_separators_assemble:
  "\<forall>i \<in> set is. instr_ok i \<Longrightarrow>
     count_separators (assemble is) + length (assemble (strip_separators is)) = length (assemble is)"
proof (induction "is")
  case Nil
  then show ?case by (simp add: count_separators.simps GetOp_Nil strip_separators_def)
next
  case (Cons i "is")
  then show ?case
    by (subst count_separators.simps)
      (auto simp: GetOp_instr instr_read_separator strip_separators_def)
qed

lemma write_runs_assemble:
  "\<forall>i \<in> set is. instr_ok i \<Longrightarrow>
     write_runs (pre @ assemble is) (assemble is) = pre @ assemble (strip_separators is)"
proof (induction "is" arbitrary: pre)
  case Nil
  then show ?case by (simp add: write_runs.simps GetOp_Nil strip_separators_def)
next
  case (Cons i "is")
  have i: "instr_ok i" "\<forall>i \<in> set is. instr_ok i" using Cons.prems by auto
  have g: "GetOp (assemble (i # is)) = (True, fst (instr_read i), assemble is)"
    using i(1) by (simp add: GetOp_instr)
  show ?case
  proof (cases "i = Op OP_CODESEPARATOR")
    case True
    have "write_runs (pre @ assemble (i # is)) (assemble (i # is)) = pre @ write_runs (assemble is) (assemble is)"
      using g by (subst write_runs.simps) (simp add: True)
    then show ?thesis
      using Cons.IH [OF i(2), of "[]"] True by (simp add: strip_separators_def)
  next
    case False
    have "write_runs (pre @ assemble (i # is)) (assemble (i # is)) =
        write_runs ((pre @ instr_bytes i) @ assemble is) (assemble is)"
      using g i False by (subst write_runs.simps) (simp add: instr_read_separator)
    then show ?thesis
      using Cons.IH [OF i(2), of "pre @ instr_bytes i"] False by (simp add: strip_separators_def)
  qed
qed

lemma SerializeScriptCode_assemble:
  assumes "\<forall>i \<in> set is. instr_ok i"
  shows "SerializeScriptCode (assemble is) = put_blob (assemble (strip_separators is))"
proof -
  have "length (assemble is) - count_separators (assemble is) = length (assemble (strip_separators is))"
    using count_separators_assemble [OF assms] by linarith
  then show ?thesis
    using write_runs_assemble [OF assms, of "[]"] by (simp add: SerializeScriptCode_def put_blob_def)
qed


text \<open>The inputs and outputs of the copy.\<close>

definition old_input :: "CScript \<Rightarrow> CTransaction \<Rightarrow> nat \<Rightarrow> hashtype \<Rightarrow> nat \<Rightarrow> CTxIn" where
  "old_input code tx nIn nHashType j =
     (vin tx ! j)\<lparr>scriptSig := (if j = nIn then code else []),
       nSequence := (if j \<noteq> nIn \<and> (fHashSingle nHashType \<or> fHashNone nHashType) then 0
                     else nSequence (vin tx ! j))\<rparr>"

lemma vin_old_outputs:
  assumes "nIn < length (vin tx)"
  shows "vin (old_outputs nHashType nIn (old_blank_inputs code nIn tx)) =
    map (old_input code tx nIn nHashType) [0..<length (vin tx)]"
  using assms
  by (intro nth_equalityI)
    (auto simp: old_outputs_def old_zero_sequences_def old_blank_inputs_def old_input_def nth_list_update)

lemma vin_old_tx:
  assumes "nIn < length (vin tx)"
  shows "vin (old_tx code tx nIn nHashType) =
    (if fAnyoneCanPay nHashType then [old_input code tx nIn nHashType nIn]
     else map (old_input code tx nIn nHashType) [0..<length (vin tx)])"
  using assms by (auto simp: old_tx_def old_anyone_def vin_old_outputs)

lemma vout_old_tx:
  assumes "fHashSingle nHashType \<Longrightarrow> nIn < length (vout tx)"
  shows "vout (old_tx code tx nIn nHashType) =
    (if fHashNone nHashType then []
     else if fHashSingle nHashType then replicate nIn CTxOut_null @ [vout tx ! nIn]
     else vout tx)"
  using assms
  by (auto simp: old_tx_def old_anyone_def old_outputs_def old_zero_sequences_def old_blank_inputs_def
      take_Suc_conv_app_nth hd_drop_conv_nth [symmetric] take_Suc)

lemma rest_old_tx:
  "nVersion (old_tx code tx nIn nHashType) = nVersion tx"
  "nLockTime (old_tx code tx nIn nHashType) = nLockTime tx"
  by (simp_all add: old_tx_def old_anyone_def old_outputs_def old_zero_sequences_def old_blank_inputs_def)

lemma SerializeInput_old:
  assumes "SerializeScriptCode scriptCode = put_blob code" "nIn < length (vin tx)"
  shows "SerializeInput scriptCode tx nIn nHashType j =
    put_CTxIn (old_input code tx nIn nHashType (if fAnyoneCanPay nHashType then nIn else j))"
  using assms by (simp add: SerializeInput_def put_CTxIn_def old_input_def Let_def)

lemma sighash_Serialize_old:
  assumes "SerializeScriptCode scriptCode = put_blob code" "nIn < length (vin tx)"
    "fHashSingle nHashType \<Longrightarrow> nIn < length (vout tx)"
  shows "sighash_Serialize scriptCode tx nIn nHashType = put_CTransaction (old_tx code tx nIn nHashType)"
proof -
  have ins: "put_vector put_CTxIn (vin (old_tx code tx nIn nHashType)) =
      (let k = (if fAnyoneCanPay nHashType then 1 else length (vin tx)) in
       WriteCompactSize k @ concat (map (SerializeInput scriptCode tx nIn nHashType) [0..<k]))"
    using assms(2) SerializeInput_old [OF assms(1,2)]
    by (simp add: vin_old_tx put_vector_def Let_def comp_def cong: map_cong)
  have single: "map (SerializeOutput tx nIn nHashType) [0..<nIn + 1] =
      map put_CTxOut (replicate nIn CTxOut_null @ [vout tx ! nIn])" if "fHashSingle nHashType"
    using that by (auto simp: SerializeOutput_def map_replicate_const intro!: nth_equalityI)
  have all: "map (SerializeOutput tx nIn nHashType) [0..<length (vout tx)] = map put_CTxOut (vout tx)"
    if "\<not> fHashSingle nHashType"
    using that by (auto simp: SerializeOutput_def intro!: nth_equalityI)
  have outs: "put_vector put_CTxOut (vout (old_tx code tx nIn nHashType)) =
      (let k = (if fHashNone nHashType then 0 else if fHashSingle nHashType then nIn + 1
                else length (vout tx)) in
       WriteCompactSize k @ concat (map (SerializeOutput tx nIn nHashType) [0..<k]))"
    using single all vout_old_tx [OF assms(3)]
    by (auto simp: put_vector_def Let_def simp del: upt_Suc)
  show ?thesis
    unfolding sighash_Serialize_def put_CTransaction_def rest_old_tx ins outs by (simp add: Let_def)
qed

lemma SignatureHash_old:
  assumes "\<forall>i \<in> set is. instr_ok i"
  shows "SignatureHash (assemble is) tx nIn nHashType = SignatureHashOld (assemble is) tx nIn nHashType"
proof -
  have "fst (FindAndDelete (assemble is) [of_nat OP_CODESEPARATOR]) = assemble (strip_separators is)"
    using FindAndDelete_instr [of "Op OP_CODESEPARATOR" "is"] assms by (simp add: strip_separators_def)
  moreover have "sighash_Serialize (assemble is) tx nIn nHashType =
      put_CTransaction (old_tx (assemble (strip_separators is)) tx nIn nHashType)"
    if "nIn < length (vin tx)" "\<not> (fHashSingle nHashType \<and> nIn \<ge> length (vout tx))"
    using that by (intro sighash_Serialize_old SerializeScriptCode_assemble assms) auto
  ultimately show ?thesis
    by (auto simp: SignatureHash_def SignatureHashOld_def Let_def)
qed

text \<open>What is signed: the preimage determines the version, lock time, the signed input, and,
by hash type, the other inputs and the outputs.\<close>

lemma old_tx_ok:
  assumes "tx_ok tx" "nIn < length (vin tx)" "length code \<le> MAX_SIZE"
    "fHashSingle nHashType \<Longrightarrow> nIn < length (vout tx)"
  shows "tx_ok (old_tx code tx nIn nHashType)"
proof -
  have i: "txin_ok (old_input code tx nIn nHashType j)" for j
    using assms(3) by (simp add: txin_ok_def old_input_def)
  have n: "txout_ok CTxOut_null" by (simp add: txout_ok_def CTxOut_null_def sint_ok_def)
  have o: "txout_ok (vout tx ! nIn)" if "nIn < length (vout tx)"
    using assms(1) that by (auto simp: tx_ok_def vector_ok_def list_all_length)
  show ?thesis
    using assms i n o
    by (auto simp: tx_ok_def rest_old_tx vin_old_tx vout_old_tx vector_ok_def list_all_iff)
qed

lemma sighash_ALL_commits:
  assumes "tx_ok tx" "tx_ok tx'" "nIn < length (vin tx)" "nIn < length (vin tx')"
    and "\<not> fAnyoneCanPay nHashType" "\<not> fHashNone nHashType" "\<not> fHashSingle nHashType"
    and codes: "SerializeScriptCode c = put_blob code" "SerializeScriptCode c' = put_blob code'"
      "length code \<le> MAX_SIZE" "length code' \<le> MAX_SIZE"
    and eq: "sighash_Serialize c tx nIn nHashType = sighash_Serialize c' tx' nIn nHashType"
  shows "code = code' \<and> nVersion tx = nVersion tx' \<and> nLockTime tx = nLockTime tx' \<and>
    vout tx = vout tx' \<and> map prevout (vin tx) = map prevout (vin tx') \<and>
    map nSequence (vin tx) = map nSequence (vin tx')"
proof -
  have o: "old_tx code tx nIn nHashType = old_tx code' tx' nIn nHashType"
  proof -
    have "put_CTransaction (old_tx code tx nIn nHashType) = put_CTransaction (old_tx code' tx' nIn nHashType)"
      using eq sighash_Serialize_old [OF codes(1) assms(3), of nHashType]
        sighash_Serialize_old [OF codes(2) assms(4), of nHashType] assms(7) by simp
    moreover have "tx_ok (old_tx code tx nIn nHashType)" "tx_ok (old_tx code' tx' nIn nHashType)"
      using old_tx_ok [OF assms(1,3) codes(3)] old_tx_ok [OF assms(2,4) codes(4)] assms(7) by auto
    ultimately show ?thesis using tx.put_inj by blast
  qed
  have v: "map (old_input code tx nIn nHashType) [0..<length (vin tx)] =
      map (old_input code' tx' nIn nHashType) [0..<length (vin tx')]"
    using arg_cong [OF o, of vin] assms by (simp add: vin_old_tx)
  then have len: "length (vin tx) = length (vin tx')"
    by (metis length_map length_upt minus_nat.diff_0)
  have j: "old_input code tx nIn nHashType j = old_input code' tx' nIn nHashType j"
    if "j < length (vin tx)" for j
    using arg_cong [OF v, of "\<lambda>xs. xs ! j"] that that [unfolded len] by simp
  have "prevout (vin tx ! k) = prevout (vin tx' ! k)" "nSequence (vin tx ! k) = nSequence (vin tx' ! k)"
    if "k < length (vin tx)" for k
    using arg_cong [OF j [OF that], of prevout] arg_cong [OF j [OF that], of nSequence] assms(5-7)
    by (simp_all add: old_input_def)
  then have "map prevout (vin tx) = map prevout (vin tx')" "map nSequence (vin tx) = map nSequence (vin tx')"
    using len by (simp_all add: list_eq_iff_nth_eq)
  moreover have "code = code'"
    using arg_cong [OF j [OF assms(3)], of scriptSig] by (simp add: old_input_def)
  moreover have "vout (old_tx cd t nIn nHashType) = vout t" for cd t
    by (subst vout_old_tx) (use assms(6,7) in auto)
  then have "vout tx = vout tx'" using arg_cong [OF o, of vout] by simp
  moreover have "nVersion tx = nVersion tx'" "nLockTime tx = nLockTime tx'"
    using arg_cong [OF o, of nVersion] arg_cong [OF o, of nLockTime] by (simp_all add: rest_old_tx)
  ultimately show ?thesis by blast
qed

end
