(* ===== verification/Standard.thy ===== *)
theory Standard
  imports SigHash
begin

text \<open>
  Standard scripts (script/standard.cpp): the recognition of the output templates by Solver, the
  destinations they pay to, and the scripts built for destinations and for multisignatures.  The
  lemmas show that recognition inverts construction.
\<close>

section \<open>Output types and destinations\<close>

datatype txnouttype = TX_NONSTANDARD | TX_PUBKEY | TX_PUBKEYHASH | TX_SCRIPTHASH | TX_MULTISIG
  | TX_NULL_DATA | TX_ZEROCOINMINT

datatype CTxDestination = CNoDestination | CKeyID bytes | CScriptID bytes

abbreviation (input) MANDATORY_SCRIPT_VERIFY_FLAGS :: flags where
  "MANDATORY_SCRIPT_VERIFY_FLAGS \<equiv> SCRIPT_VERIFY_P2SH"

definition STANDARD_SCRIPT_VERIFY_FLAGS :: flags where
  "STANDARD_SCRIPT_VERIFY_FLAGS =
     MANDATORY_SCRIPT_VERIFY_FLAGS OR SCRIPT_VERIFY_DERSIG OR SCRIPT_VERIFY_STRICTENC OR
     SCRIPT_VERIFY_MINIMALDATA OR SCRIPT_VERIFY_NULLDUMMY OR
     SCRIPT_VERIFY_DISCOURAGE_UPGRADABLE_NOPS"

definition STANDARD_NOT_MANDATORY_VERIFY_FLAGS :: flags where
  "STANDARD_NOT_MANDATORY_VERIFY_FLAGS =
     STANDARD_SCRIPT_VERIFY_FLAGS AND NOT MANDATORY_SCRIPT_VERIFY_FLAGS"

abbreviation (input) MAX_OP_RETURN_RELAY :: nat where "MAX_OP_RETURN_RELAY \<equiv> 83"

fun GetTxnOutputType :: "txnouttype \<Rightarrow> string" where
  "GetTxnOutputType TX_NONSTANDARD = ''nonstandard''"
| "GetTxnOutputType TX_PUBKEY = ''pubkey''"
| "GetTxnOutputType TX_PUBKEYHASH = ''pubkeyhash''"
| "GetTxnOutputType TX_SCRIPTHASH = ''scripthash''"
| "GetTxnOutputType TX_MULTISIG = ''multisig''"
| "GetTxnOutputType TX_NULL_DATA = ''nulldata''"
| "GetTxnOutputType TX_ZEROCOINMINT = ''zerocoinmint''"

section \<open>Solver\<close>

text \<open>The templates in the order of the multimap.\<close>

definition mTemplates :: "(txnouttype \<times> CScript) list" where
  "mTemplates =
     [(TX_PUBKEY, map of_nat [OP_PUBKEY, OP_CHECKSIG]),
      (TX_PUBKEYHASH, map of_nat [OP_DUP, OP_HASH160, OP_PUBKEYHASH, OP_EQUALVERIFY, OP_CHECKSIG]),
      (TX_MULTISIG, map of_nat [OP_SMALLINTEGER, OP_PUBKEYS, OP_SMALLINTEGER, OP_CHECKMULTISIG])]"

text \<open>The inner loop at OP_PUBKEYS: it returns vSolutionsRet, opcode1, vch1 and pc1.\<close>

lemma GetOp2_True_length: "(True, oc, v, p) = GetOp2 pc \<Longrightarrow> length p < length pc"
  using GetOp2_length [of pc True oc v p] by (cases pc) auto

function pubkeys_loop ::
  "valtype list \<Rightarrow> opcodetype \<Rightarrow> valtype \<Rightarrow> bytes \<Rightarrow> valtype list \<times> opcodetype \<times> valtype \<times> bytes" where
  "pubkeys_loop sols opcode1 vch1 pc1 =
     (if length vch1 \<ge> 33 \<and> length vch1 \<le> 65 then
        (case GetOp2 pc1 of (fRet, opcode, vch, pc) \<Rightarrow>
           if fRet then pubkeys_loop (sols @ [vch1]) opcode vch pc
           else (sols @ [vch1], opcode, vch, pc))
      else (sols, opcode1, vch1, pc1))"
  by pat_completeness auto
termination
  by (relation "measure (\<lambda>(s, o1, v, pc). length pc)")
    (auto dest!: GetOp2_True_length)

declare pubkeys_loop.simps [simp del]

text \<open>One turn of the comparison loop after the two reads; None is the break.\<close>

definition match_op ::
  "opcodetype \<Rightarrow> valtype \<Rightarrow> opcodetype \<Rightarrow> valtype \<Rightarrow> valtype list \<Rightarrow> valtype list option" where
  "match_op opcode1 vch1 opcode2 vch2 sols =
     (if opcode2 = OP_PUBKEY then
        (if length vch1 < 33 \<or> length vch1 > 65 then None else Some (sols @ [vch1]))
      else if opcode2 = OP_PUBKEYHASH then
        (if length vch1 \<noteq> 20 then None else Some (sols @ [vch1]))
      else if opcode2 = OP_SMALLINTEGER then
        (if opcode1 = OP_0 \<or> (opcode1 \<ge> OP_1 \<and> opcode1 \<le> OP_16)
         then (case DecodeOP_N opcode1 of
                 Inr k \<Rightarrow> Some (sols @ [[of_nat k]]) | Inl _ \<Rightarrow> None)
         else None)
      else if opcode1 \<noteq> opcode2 \<or> vch1 \<noteq> vch2 then None
      else Some sols)"

function match_template :: "bytes \<Rightarrow> bytes \<Rightarrow> valtype list \<Rightarrow> valtype list option" where
  "match_template pc1 pc2 sols =
     (if pc1 = [] \<and> pc2 = [] then Some sols
      else case GetOp2 pc1 of (fRet1, opcode1, vch1, pc1') \<Rightarrow>
        if \<not> fRet1 then None
        else case GetOp2 pc2 of (fRet2, opcode2, vch2, pc2') \<Rightarrow>
        if \<not> fRet2 then None
        else if opcode2 = OP_PUBKEYS then
          (case pubkeys_loop sols opcode1 vch1 pc1' of (sols', opcode1', vch1', pc1'') \<Rightarrow>
           case GetOp2 pc2' of (fRet3, opcode3, vch3, pc3) \<Rightarrow>
             if \<not> fRet3 then None
             else case match_op opcode1' vch1' opcode3 vch3 sols' of
                 None \<Rightarrow> None
               | Some sols'' \<Rightarrow> match_template pc1'' pc3 sols'')
        else case match_op opcode1 vch1 opcode2 vch2 sols of
            None \<Rightarrow> None
          | Some sols' \<Rightarrow> match_template pc1' pc2' sols')"
  by pat_completeness auto
termination
  by (relation "measure (\<lambda>(pc1, pc2, s). length pc2)")
    (auto dest!: GetOp2_True_length intro: less_trans)

declare match_template.simps [simp del]


definition multisig_ok :: "valtype list \<Rightarrow> bool" where
  "multisig_ok sols \<longleftrightarrow>
     (let m = unat (hd (hd sols)); k = unat (hd (last sols)) in
      \<not> (m < 1 \<or> k < 1 \<or> m > k \<or> length sols - 2 \<noteq> k))"

text \<open>Solver yields the returned bool, typeRet and vSolutionsRet, which the callers pass empty.\<close>

fun scan_templates ::
  "(txnouttype \<times> CScript) list \<Rightarrow> CScript \<Rightarrow> bool \<times> txnouttype \<times> valtype list" where
  "scan_templates [] script1 = (False, TX_NONSTANDARD, [])"
| "scan_templates ((t, script2) # rest) script1 =
     (case match_template script1 script2 [] of
        Some sols \<Rightarrow>
          if t = TX_MULTISIG \<and> \<not> multisig_ok sols then (False, t, sols) else (True, t, sols)
      | None \<Rightarrow> scan_templates rest script1)"

definition Solver :: "CScript \<Rightarrow> fault + bool \<times> txnouttype \<times> valtype list" where
  "Solver script =
     (if IsPayToScriptHash script then
        Inr (True, TX_SCRIPTHASH, [take 20 (drop 2 script)])
      else if IsZerocoinMint script then
        (if length script > 150 then Inr (False, TX_ZEROCOINMINT, [])
         else if length script < 2 then Inl Abort
         else Inr (True, TX_ZEROCOINMINT, [drop 2 script]))
      else if length script \<ge> 1 \<and> unat (script ! 0) = OP_RETURN \<and> IsPushOnly (tl script) then
        Inr (True, TX_NULL_DATA, [])
      else Inr (scan_templates mTemplates script))"

definition ScriptSigArgsExpected :: "txnouttype \<Rightarrow> valtype list \<Rightarrow> int" where
  "ScriptSigArgsExpected t vSolutions =
     (case t of
        TX_NONSTANDARD \<Rightarrow> -1
      | TX_NULL_DATA \<Rightarrow> -1
      | TX_ZEROCOINMINT \<Rightarrow> -1
      | TX_PUBKEY \<Rightarrow> 1
      | TX_PUBKEYHASH \<Rightarrow> 2
      | TX_MULTISIG \<Rightarrow>
          (if length vSolutions < 1 \<or> length (hd vSolutions) < 1 then -1
           else int (unat (hd (hd vSolutions))) + 1)
      | TX_SCRIPTHASH \<Rightarrow> 1)"

text \<open>The data-carrier switch and its size limit are configuration.\<close>

definition IsStandard :: "bool \<Rightarrow> nat \<Rightarrow> CScript \<Rightarrow> fault + bool \<times> txnouttype" where
  "IsStandard datacarrier nMaxDatacarrierBytes script =
     bindE (Solver script) (\<lambda>(ok, whichType, vSolutions). Inr
       ((if \<not> ok then False
         else if whichType = TX_MULTISIG then
           (let m = unat (hd (hd vSolutions)); k = unat (hd (last vSolutions)) in
            if k < 1 \<or> k > 3 then False
            else if m < 1 \<or> m > k then False else whichType \<noteq> TX_NONSTANDARD)
         else if whichType = TX_NULL_DATA \<and> (\<not> datacarrier \<or> length script > nMaxDatacarrierBytes)
         then False
         else whichType \<noteq> TX_NONSTANDARD), whichType))"

definition ExtractDestination :: "CScript \<Rightarrow> fault + CTxDestination option" where
  "ExtractDestination script =
     bindE (Solver script) (\<lambda>(ok, whichType, vSolutions).
       if \<not> ok then Inr None
       else if whichType = TX_PUBKEY then
         (let pubKey = CPubKey_Set (hd vSolutions) in
          if \<not> CPubKey_IsValid pubKey then Inr None else Inr (Some (CKeyID (CPubKey_GetID pubKey))))
       else if whichType = TX_PUBKEYHASH then Inr (Some (CKeyID (hd vSolutions)))
       else if whichType = TX_SCRIPTHASH then Inr (Some (CScriptID (hd vSolutions)))
       else Inr None)"

text \<open>ExtractDestinations returns typeRet, addressRet and nRequiredRet when it succeeds.\<close>

definition ExtractDestinations ::
  "CScript \<Rightarrow> fault + (txnouttype \<times> CTxDestination list \<times> nat) option" where
  "ExtractDestinations script =
     bindE (Solver script) (\<lambda>(ok, typeRet, vSolutions).
       if \<not> ok then Inr None
       else if typeRet = TX_NULL_DATA then Inr None
       else if typeRet = TX_MULTISIG then
         (let addressRet = map (\<lambda>k. CKeyID (CPubKey_GetID k))
                (filter CPubKey_IsValid (map CPubKey_Set (butlast (tl vSolutions)))) in
          if addressRet = [] then Inr None
          else Inr (Some (typeRet, addressRet, unat (hd (hd vSolutions)))))
       else
         bindE (ExtractDestination script) (\<lambda>dest. Inr
           (case dest of None \<Rightarrow> None | Some address \<Rightarrow> Some (typeRet, [address], 1))))"

section \<open>Building scripts\<close>

fun GetScriptForDestination :: "CTxDestination \<Rightarrow> CScript" where
  "GetScriptForDestination CNoDestination = []"
| "GetScriptForDestination (CKeyID keyID) =
     map of_nat [OP_DUP, OP_HASH160] @ push_data keyID @ map of_nat [OP_EQUALVERIFY, OP_CHECKSIG]"
| "GetScriptForDestination (CScriptID scriptID) =
     [of_nat OP_HASH160] @ push_data scriptID @ [of_nat OP_EQUAL]"

definition GetScriptForMultisig :: "int \<Rightarrow> bytes list \<Rightarrow> fault + CScript" where
  "GetScriptForMultisig nRequired keys =
     bindE (EncodeOP_N nRequired) (\<lambda>m.
     bindE (EncodeOP_N (int (length keys))) (\<lambda>k.
       Inr ([of_nat m] @ concat (map push_data keys) @ [of_nat k, of_nat OP_CHECKMULTISIG])))"

section \<open>Properties\<close>

lemma GetScriptForDestination_templates:
  "GetScriptForDestination (CKeyID h) = p2pkh h" "GetScriptForDestination (CScriptID h) = p2sh h"
  by (simp_all add: p2pkh_def p2sh_def)

lemma match_template_end [simp]: "match_template [] [] sols = Some sols"
  by (simp add: match_template.simps)

lemma GetOp2_of_op: "OP_PUSHDATA4 < opc \<Longrightarrow> opc < 256 \<Longrightarrow> GetOp2 (of_nat opc # rest) = (True, opc, [], rest)"
  by (rule GetOp2_op)

text \<open>One step of the comparison on a script that starts with a readable operation.\<close>

lemma match_template_op:
  assumes "GetOp2 s = (True, opc, v, s')" "OP_PUSHDATA4 < t" "t < 256" "t \<noteq> OP_PUBKEYS"
  shows "match_template s (of_nat t # ts) sols =
    (case match_op opc v t [] sols of None \<Rightarrow> None | Some sols' \<Rightarrow> match_template s' ts sols')"
  using assms GetOp2_of_op [of t ts]
  by (subst match_template.simps) (cases "s = []"; auto split: option.splits)

lemma GetOp2_Cons_op: "0x4e < unat b \<Longrightarrow> GetOp2 (b # r) = (True, unat b, [], r)"
  by (simp add: GetOp2.simps(2))

lemma IsPushOnly_op: "OP_16 < opc \<Longrightarrow> opc < 256 \<Longrightarrow> \<not> IsPushOnly (of_nat opc # r)"
  by (subst IsPushOnly.simps) (simp add: GetOp_def GetOp2_op)

lemma p2pkh_first: "length h = 20 \<Longrightarrow> p2pkh h = 0x76 # 0xa9 # push_data h @ [0x88, 0xac]"
  by (simp add: p2pkh_def)

lemma Solver_p2pkh:
  assumes "length h = 20"
  shows "Solver (p2pkh h) = Inr (True, TX_PUBKEYHASH, [h])"
proof -
  note step = match_template_op [of _ _ _ _ OP_PUBKEY, simplified] match_template_op [of _ _ _ _ OP_DUP, simplified]
    match_template_op [of _ _ _ _ OP_HASH160, simplified] match_template_op [of _ _ _ _ OP_PUBKEYHASH, simplified]
    match_template_op [of _ _ _ _ OP_EQUALVERIFY, simplified] match_template_op [of _ _ _ _ OP_CHECKSIG, simplified]
  have g: "GetOp2 (push_data h @ r) = (True, push_op h, h, r)" for r
    using assms by (intro GetOp2_push_data) simp
  have n: "\<not> IsPayToScriptHash (p2pkh h)" "\<not> IsZerocoinMint (p2pkh h)" "unat (p2pkh h ! 0) \<noteq> OP_RETURN"
    by (simp_all add: p2pkh_first [OF assms] IsPayToScriptHash_def IsZerocoinMint_def)
  have "match_template (p2pkh h) (map of_nat [OP_PUBKEY, OP_CHECKSIG]) [] = None"
    by (simp add: p2pkh_first [OF assms] step [OF GetOp2_Cons_op] match_op_def)
  moreover have "match_template (p2pkh h)
      (map of_nat [OP_DUP, OP_HASH160, OP_PUBKEYHASH, OP_EQUALVERIFY, OP_CHECKSIG]) [] = Some [h]"
    by (simp add: p2pkh_first [OF assms] step [OF GetOp2_Cons_op] step [OF g] match_op_def assms)
  ultimately show ?thesis
    using n by (simp add: Solver_def mTemplates_def)
qed

lemma Solver_p2sh: "length h = 20 \<Longrightarrow> Solver (p2sh h) = Inr (True, TX_SCRIPTHASH, [h])"
  using IsPayToScriptHash_iff [of "p2sh h"]
  by (auto simp: Solver_def p2sh_def length_push_data_20)

fun dest_ok :: "CTxDestination \<Rightarrow> bool" where
  "dest_ok CNoDestination = False"
| "dest_ok (CKeyID h) = (length h = 20)"
| "dest_ok (CScriptID h) = (length h = 20)"

lemma ExtractDestination_GetScript:
  "dest_ok d \<Longrightarrow> ExtractDestination (GetScriptForDestination d) = Inr (Some d)"
  by (cases d)
    (simp_all add: GetScriptForDestination_templates ExtractDestination_def Solver_p2pkh Solver_p2sh
      del: GetScriptForDestination.simps)


text \<open>The only script Solver fails on: the single byte OP_ZEROCOINMINT.\<close>

lemma Solver_fault_iff: "Solver s = Inl e \<longleftrightarrow> e = Abort \<and> s = [of_nat OP_ZEROCOINMINT]"
proof -
  have "IsZerocoinMint s \<and> length s < 2 \<longleftrightarrow> s = [0xc1]"
    by (cases s) (auto simp: IsZerocoinMint_def word_unat_eq_iff)
  moreover have "\<not> IsPayToScriptHash [0xc1]" by (simp add: IsPayToScriptHash_def)
  ultimately show ?thesis by (auto simp: Solver_def IsZerocoinMint_def)
qed

definition key_length_ok :: "bytes \<Rightarrow> bool" where
  "key_length_ok k \<longleftrightarrow> 33 \<le> length k \<and> length k \<le> 65"

lemma GetOp2_key: "key_length_ok k \<Longrightarrow> GetOp2 (push_data k @ r) = (True, push_op k, k, r)"
  by (intro GetOp2_push_data) (simp add: key_length_ok_def)

lemma pubkeys_loop_keys:
  assumes "key_length_ok k" "list_all key_length_ok ks" "GetOp2 rest = (True, opc, [], rest')"
  shows "pubkeys_loop sols oc k (concat (map push_data ks) @ rest) = (sols @ k # ks, opc, [], rest')"
  using assms
proof (induction ks arbitrary: sols oc k)
  case Nil
  then show ?case
    by (subst pubkeys_loop.simps) (simp add: key_length_ok_def pubkeys_loop.simps [of _ opc "[]"])
next
  case (Cons k' ks)
  then show ?case
    by (subst pubkeys_loop.simps) (simp add: key_length_ok_def GetOp2_key [unfolded key_length_ok_def])
qed

lemma Solver_multisig:
  assumes m: "1 \<le> m" "m \<le> length keys" "length keys \<le> 16" and keys: "list_all key_length_ok keys"
    and s: "GetScriptForMultisig (int m) keys = Inr s"
  shows "Solver s = Inr (True, TX_MULTISIG, [of_nat m] # keys @ [[of_nat (length keys)]])"
proof -
  define n where "n = length keys"
  obtain k ks where k: "keys = k # ks" using m by (cases keys) auto
  have nk: "1 \<le> n" "n \<le> 16" "int n \<noteq> 0" using m by (auto simp: n_def)
  have s_eq: "s = of_nat (OP_1 + m - 1) # concat (map push_data keys) @ [of_nat (OP_1 + n - 1), 0xae]"
    using s m nk by (auto simp: GetScriptForMultisig_def EncodeOP_N_def n_def [symmetric])
  have um: "unat (of_nat (OP_1 + m - 1) :: byte) = OP_1 + m - 1"
    "unat (of_nat (OP_1 + n - 1) :: byte) = OP_1 + n - 1"
    by (rule of_nat_byte_eq, use m nk in linarith)+
  have g1: "GetOp2 s = (True, OP_1 + m - 1, [], concat (map push_data keys) @ [of_nat (OP_1 + n - 1), 0xae])"
    using um m unfolding s_eq by (subst GetOp2_Cons_op) auto
  have g2: "GetOp2 [of_nat (OP_1 + n - 1), 0xae] = (True, OP_1 + n - 1, [], [0xae])"
    using um nk by (subst GetOp2_Cons_op) auto
  have n0: "\<not> IsPayToScriptHash s" "\<not> IsZerocoinMint s" "unat (s ! 0) \<noteq> OP_RETURN"
    using um m by (auto simp: s_eq IsPayToScriptHash_def IsZerocoinMint_def)
  have sn: "s \<noteq> []" by (simp add: s_eq)
  have t1: "match_template s (map of_nat [OP_PUBKEY, OP_CHECKSIG]) [] = None"
    using match_template_op [OF g1, of OP_PUBKEY] by (simp add: match_op_def)
  have t2: "match_template s (map of_nat [OP_DUP, OP_HASH160, OP_PUBKEYHASH, OP_EQUALVERIFY, OP_CHECKSIG]) [] = None"
    using match_template_op [OF g1, of OP_DUP] m by (simp add: match_op_def)
  have d: "DecodeOP_N (OP_1 + m - 1) = Inr m" "DecodeOP_N (OP_1 + n - 1) = Inr n"
    using m nk by (auto simp: DecodeOP_N_def)
  have "match_template (concat (map push_data keys) @ [of_nat (OP_1 + n - 1), 0xae])
      (of_nat OP_PUBKEYS # map of_nat [OP_SMALLINTEGER, OP_CHECKMULTISIG]) [[of_nat m]] =
      Some ([of_nat m] # keys @ [[of_nat n]])"
  proof -
    have "pubkeys_loop [[of_nat m]] (push_op k) k (concat (map push_data ks) @ [of_nat (OP_1 + n - 1), 0xae]) =
        ([of_nat m] # keys, OP_1 + n - 1, [], [0xae])"
      using pubkeys_loop_keys [OF _ _ g2, of k ks] keys k by simp
    moreover have "match_template [0xae] [0xae] sols = Some sols" for sols
    proof -
      have "GetOp2 [0xae] = (True, OP_CHECKMULTISIG, [], [])" by (simp add: GetOp2_Cons_op)
      from match_template_op [OF this, of OP_CHECKMULTISIG "[]" sols] show ?thesis
        by (simp add: match_op_def)
    qed
    ultimately show ?thesis
      using keys k d nk
      by (subst match_template.simps) (simp add: GetOp2_key GetOp2_Cons_op match_op_def)
  qed
  then have "match_template s (map of_nat [OP_SMALLINTEGER, OP_PUBKEYS, OP_SMALLINTEGER, OP_CHECKMULTISIG]) [] =
      Some ([of_nat m] # keys @ [[of_nat n]])"
    using match_template_op [OF g1, of OP_SMALLINTEGER] d m by (simp add: match_op_def)
  moreover have "multisig_ok ([of_nat m] # keys @ [[of_nat n]])"
    using m nk by (simp add: multisig_ok_def Let_def unat_of_nat n_def)
  ultimately show ?thesis
    using n0 sn t1 t2 by (simp add: Solver_def mTemplates_def n_def)
qed

end
