(* ===== verification/Compressor.thy ===== *)
theory Compressor
  imports Standard
begin

text \<open>
  The compact encodings of the coin database (compressor.h, compressor.cpp): amounts, the six
  special forms of scripts, and transaction outputs.  Whether a key is a point of the curve
  (CPubKey::IsFullyValid) and its recovery from the compressed form (CPubKey::Decompress) are
  libsecp256k1's, hence the parameters \<open>fully_valid\<close> and \<open>decompress\<close>.
\<close>

section \<open>Amounts\<close>

text \<open>The values are uint64_t: results are taken modulo \<open>2 ^ 64\<close>.  \<open>strip_tens\<close> is the loop
that divides by ten at most \<open>9\<close> times; it returns the quotient and the exponent.\<close>

fun strip_tens :: "nat \<Rightarrow> nat \<Rightarrow> nat \<Rightarrow> nat \<times> nat" where
  "strip_tens 0 v e = (v, e)"
| "strip_tens (Suc k) v e = (if v mod 10 = 0 then strip_tens k (v div 10) (Suc e) else (v, e))"

definition CompressAmount :: "nat \<Rightarrow> fault + nat" where
  "CompressAmount v =
     (if v = 0 then Inr 0
      else case strip_tens 9 v 0 of (v, e) \<Rightarrow>
        if e < 9 then
          (let d = v mod 10; v = v div 10 in
           if 1 \<le> d \<and> d \<le> 9 then Inr ((1 + (v * 9 + d - 1) * 10 + e) mod 2 ^ 64)
           else Inl Abort)
        else Inr ((1 + (v - 1) * 10 + 9) mod 2 ^ 64))"

definition DecompressAmount :: "nat \<Rightarrow> nat" where
  "DecompressAmount x =
     (if x = 0 then 0
      else let x = x - 1; e = x mod 10; x = x div 10;
               v = (if e < 9 then (x div 9 * 10 + (x mod 9 + 1)) mod 2 ^ 64 else (x + 1) mod 2 ^ 64)
           in (v * 10 ^ e) mod 2 ^ 64)"

lemma strip_tens_inv:
  "0 < v \<Longrightarrow> strip_tens k v e0 = (v', e) \<Longrightarrow>
     0 < v' \<and> e0 \<le> e \<and> e \<le> e0 + k \<and> v = v' * 10 ^ (e - e0) \<and> (e < e0 + k \<longrightarrow> v' mod 10 \<noteq> 0)"
proof (induction k v e0 rule: strip_tens.induct)
  case (2 k v e0)
  show ?case
  proof (cases "v mod 10 = 0")
    case True
    then have "0 < v div 10" "v = 10 * (v div 10)" using 2(2) by auto
    with 2 True have "0 < v' \<and> Suc e0 \<le> e \<and> e \<le> Suc e0 + k \<and> v div 10 = v' * 10 ^ (e - Suc e0) \<and>
        (e < Suc e0 + k \<longrightarrow> v' mod 10 \<noteq> 0)" by simp
    moreover have "10 * 10 ^ (e - Suc e0) = (10 :: nat) ^ (e - e0)" if "Suc e0 \<le> e"
      using that by (simp add: Suc_diff_Suc flip: power_Suc)
    ultimately show ?thesis using \<open>v = 10 * (v div 10)\<close>
      by (metis Suc_le_lessD add_Suc_right add_Suc_shift less_or_eq_imp_le mult.assoc mult.commute)
  next
    case False
    with 2 show ?thesis by auto
  qed
qed auto

lemma CompressAmount_cases:
  assumes "0 < v" "strip_tens 9 v 0 = (v', e)"
  obtains (digit) "e < 9" "v' mod 10 \<noteq> 0" "v = v' * 10 ^ e"
  | (full) "e = 9" "0 < v'" "v = v' * 10 ^ 9"
  using strip_tens_inv [OF assms] by (cases "e < 9") auto

lemma DecompressAmount_CompressAmount:
  assumes "v < 2 ^ 60"
  shows "\<exists>x. CompressAmount v = Inr x \<and> x < 2 ^ 64 \<and> DecompressAmount x = v"
proof (cases "v = 0")
  case True
  then show ?thesis by (simp add: CompressAmount_def DecompressAmount_def)
next
  case False
  obtain v' e where st: "strip_tens 9 v 0 = (v', e)" by fastforce
  from False have "0 < v" by simp
  then show ?thesis using st
  proof (cases rule: CompressAmount_cases)
    case digit
    define d where "d = v' mod 10"
    define q where "q = v' div 10"
    have v': "v' = q * 10 + d" "1 \<le> d" "d \<le> 9" using digit by (auto simp: d_def q_def)
    have "v' \<le> v" using digit(3) by simp
    then have "v' < 2 ^ 60" using assms by simp
    then have lt: "1 + (q * 9 + d - 1) * 10 + e < 2 ^ 64" using v' digit(1) by simp
    have x: "CompressAmount v = Inr (1 + (q * 9 + d - 1) * 10 + e)"
      using False v' lt digit(1)
      by (simp add: CompressAmount_def st Let_def flip: d_def q_def)
    have e: "(q * 9 + d - 1) * 10 + e = e + 10 * (q * 9 + d - 1)" by simp
    have m: "((q * 9 + d - 1) * 10 + e) mod 10 = e" "((q * 9 + d - 1) * 10 + e) div 10 = q * 9 + d - Suc 0"
      using digit(1) v' by (simp_all add: e)
    have n: "(q * 9 + d - Suc 0) div 9 = q" "(q * 9 + d - Suc 0) mod 9 = d - 1"
      using v' by (cases d; simp)+
    have "DecompressAmount (1 + (q * 9 + d - 1) * 10 + e) = (v' mod 2 ^ 64 * 10 ^ e) mod 2 ^ 64"
      using v' digit(1) by (simp add: DecompressAmount_def Let_def m n)
    also have "\<dots> = v" using \<open>v' < 2 ^ 60\<close> assms digit(3) by simp
    finally show ?thesis using x lt by blast
  next
    case full
    have "v' < 2 ^ 60" using assms full by simp
    then have lt: "1 + (v' - 1) * 10 + 9 < 2 ^ 64" by simp
    have x: "CompressAmount v = Inr (1 + (v' - 1) * 10 + 9)"
      using False lt full(1,2) by (simp add: CompressAmount_def st)
    have "DecompressAmount (1 + (v' - 1) * 10 + 9) = v"
      using full assms by (simp add: DecompressAmount_def Let_def)
    then show ?thesis using x lt by blast
  qed
qed


section \<open>Scripts\<close>

definition IsToKeyID :: "CScript \<Rightarrow> bytes option" where
  "IsToKeyID script =
     (if length script = 25 \<and> script ! 0 = of_nat OP_DUP \<and> script ! 1 = of_nat OP_HASH160 \<and>
         script ! 2 = 20 \<and> script ! 23 = of_nat OP_EQUALVERIFY \<and> script ! 24 = of_nat OP_CHECKSIG
      then Some (take 20 (drop 3 script)) else None)"

definition IsToScriptID :: "CScript \<Rightarrow> bytes option" where
  "IsToScriptID script =
     (if length script = 23 \<and> script ! 0 = of_nat OP_HASH160 \<and> script ! 1 = 20 \<and>
         script ! 22 = of_nat OP_EQUAL
      then Some (take 20 (drop 2 script)) else None)"

definition IsToPubKey :: "(bytes \<Rightarrow> bool) \<Rightarrow> CScript \<Rightarrow> bytes option" where
  "IsToPubKey fully_valid script =
     (if length script = 35 \<and> script ! 0 = 33 \<and> script ! 34 = of_nat OP_CHECKSIG \<and>
         (script ! 1 = 2 \<or> script ! 1 = 3)
      then Some (CPubKey_Set (take 33 (drop 1 script)))
      else if length script = 67 \<and> script ! 0 = 65 \<and> script ! 66 = of_nat OP_CHECKSIG \<and> script ! 1 = 4
      then (let pubkey = CPubKey_Set (take 65 (drop 1 script))
            in if fully_valid pubkey then Some pubkey else None)
      else None)"

definition Compress :: "(bytes \<Rightarrow> bool) \<Rightarrow> CScript \<Rightarrow> bytes option" where
  "Compress fully_valid script =
     (case IsToKeyID script of
        Some keyID \<Rightarrow> Some (0 # keyID)
      | None \<Rightarrow>
     (case IsToScriptID script of
        Some scriptID \<Rightarrow> Some (1 # scriptID)
      | None \<Rightarrow>
     (case IsToPubKey fully_valid script of
        None \<Rightarrow> None
      | Some pubkey \<Rightarrow>
          if pubkey ! 0 = 2 \<or> pubkey ! 0 = 3 then Some (pubkey ! 0 # take 32 (drop 1 pubkey))
          else if pubkey ! 0 = 4 then Some ((4 OR (pubkey ! 64 AND 1)) # take 32 (drop 1 pubkey))
          else None)))"

definition GetSpecialSize :: "nat \<Rightarrow> nat" where
  "GetSpecialSize nSize =
     (if nSize = 0 \<or> nSize = 1 then 20
      else if nSize = 2 \<or> nSize = 3 \<or> nSize = 4 \<or> nSize = 5 then 32 else 0)"

text \<open>Decompress returns the new script, and None when it returns false, which leaves the script
as it was.\<close>

definition Decompress :: "(bytes \<Rightarrow> bytes option) \<Rightarrow> nat \<Rightarrow> bytes \<Rightarrow> fault + CScript option" where
  "Decompress decompress nSize inp =
     (if nSize = 0 then
        Inr (Some ([of_nat OP_DUP, of_nat OP_HASH160, 20] @ inp @ [of_nat OP_EQUALVERIFY, of_nat OP_CHECKSIG]))
      else if nSize = 1 then Inr (Some ([of_nat OP_HASH160, 20] @ inp @ [of_nat OP_EQUAL]))
      else if nSize = 2 \<or> nSize = 3 then
        Inr (Some ([33, of_nat nSize] @ inp @ [of_nat OP_CHECKSIG]))
      else if nSize = 4 \<or> nSize = 5 then
        (case decompress (of_nat (nSize - 2) # inp) of
           None \<Rightarrow> Inr None
         | Some pubkey \<Rightarrow>
             if CPubKey_size pubkey = 65
             then Inr (Some (65 # pubkey @ [of_nat OP_CHECKSIG])) else Inl Abort)
      else Inr None)"

definition put_script :: "(bytes \<Rightarrow> bool) \<Rightarrow> CScript \<Rightarrow> bytes" where
  "put_script fully_valid script =
     (case Compress fully_valid script of
        Some compr \<Rightarrow> compr
      | None \<Rightarrow> WriteVarInt (of_nat (length script + 6) :: 32 word) @ script)"

definition script_size :: "(bytes \<Rightarrow> bool) \<Rightarrow> CScript \<Rightarrow> nat" where
  "script_size fully_valid script =
     (case Compress fully_valid script of
        Some compr \<Rightarrow> length compr
      | None \<Rightarrow> length script + GetSizeOfVarInt (of_nat (length script + 6) :: 32 word))"

definition get_script :: "(bytes \<Rightarrow> bytes option) \<Rightarrow> CScript \<Rightarrow> CScript reader" where
  "get_script decompress script s =
     bindE (ReadVarInt s) (\<lambda>(w :: 32 word, s).
       let nSize = unat w in
       if nSize < 6 then
         bindE (read_bytes (GetSpecialSize nSize) s) (\<lambda>(vch, s).
         bindE (Decompress decompress nSize vch) (\<lambda>r.
           Inr (case r of Some script' \<Rightarrow> script' | None \<Rightarrow> script, s)))
       else read_bytes (nSize - 6) s)"

section \<open>Outputs\<close>

definition put_txout :: "(bytes \<Rightarrow> bool) \<Rightarrow> CTxOut \<Rightarrow> fault + bytes" where
  "put_txout fully_valid out =
     bindE (CompressAmount (u64_of (nValue out))) (\<lambda>nVal.
       Inr (WriteVarInt (of_nat nVal :: 64 word) @ put_script fully_valid (scriptPubKey out)))"

definition get_txout :: "(bytes \<Rightarrow> bytes option) \<Rightarrow> CTxOut reader" where
  "get_txout decompress s =
     bindE (ReadVarInt s) (\<lambda>(nVal :: 64 word, s).
     bindE (get_script decompress (scriptPubKey CTxOut_null) s) (\<lambda>(script, s).
       Inr (\<lparr>nValue = wrap64 (int (DecompressAmount (unat nVal))), scriptPubKey = script\<rparr>, s)))"

section \<open>Properties\<close>

text \<open>What the coin database relies on: a fully valid uncompressed key is recovered from its
X coordinate and the parity of its Y coordinate.\<close>

definition recovers :: "(bytes \<Rightarrow> bool) \<Rightarrow> (bytes \<Rightarrow> bytes option) \<Rightarrow> bool" where
  "recovers fully_valid decompress \<longleftrightarrow>
     (\<forall>x y. length x = 32 \<longrightarrow> length y = 32 \<longrightarrow> fully_valid (4 # x @ y) \<longrightarrow>
        decompress ((2 OR (last y AND 1)) # x) = Some (4 # x @ y))"

lemma ReadVarInt_small: "w \<le> 0x7f \<Longrightarrow> ReadVarInt (ucast w # rest) = Inr (w :: 32 word, rest)"
  using ReadVarInt_WriteVarInt [of w rest]
  by (simp add: WriteVarInt_def varint_tmp.simps [of False w] and_7f_small)

lemma take_3: "3 \<le> length s \<Longrightarrow> take 3 s = [s ! 0, s ! 1, s ! 2]"
  by (rule nth_equalityI) (auto simp: less_Suc_eq numeral_eq_Suc)

lemma take_2: "2 \<le> length s \<Longrightarrow> take 2 s = [s ! 0, s ! 1]"
  by (rule nth_equalityI) (auto simp: less_Suc_eq numeral_eq_Suc)

lemma drop_last1: "length s = Suc k \<Longrightarrow> drop k s = [s ! k]"
  by (rule nth_equalityI) auto

lemma drop_last2: "length s = Suc (Suc k) \<Longrightarrow> drop k s = [s ! k, s ! Suc k]"
  by (simp add: Cons_nth_drop_Suc [symmetric])

lemma slices: "s = take a s @ take b (drop a s) @ drop (a + b) s"
  by (metis append.assoc append_take_drop_id take_add)

lemma IsToKeyID_Some:
  assumes "IsToKeyID script = Some h"
  shows "length h = 20"
    "script = [of_nat OP_DUP, of_nat OP_HASH160, 20] @ h @ [of_nat OP_EQUALVERIFY, of_nat OP_CHECKSIG]"
proof -
  from assms have s: "length script = 25" "script ! 0 = of_nat OP_DUP" "script ! 1 = of_nat OP_HASH160"
    "script ! 2 = 20" "script ! 23 = of_nat OP_EQUALVERIFY" "script ! Suc 23 = of_nat OP_CHECKSIG"
    and h: "h = take 20 (drop 3 script)"
    by (auto simp: IsToKeyID_def split: if_splits)
  then show "length h = 20" by simp
  show "script = [of_nat OP_DUP, of_nat OP_HASH160, 20] @ h @ [of_nat OP_EQUALVERIFY, of_nat OP_CHECKSIG]"
    using slices [of script 3 20] take_3 [of script] drop_last2 [of script 23] s h by simp
qed

lemma IsToScriptID_Some:
  assumes "IsToScriptID script = Some h"
  shows "length h = 20" "script = [of_nat OP_HASH160, 20] @ h @ [of_nat OP_EQUAL]"
proof -
  from assms have s: "length script = 23" "script ! 0 = of_nat OP_HASH160" "script ! 1 = 20"
    "script ! 22 = of_nat OP_EQUAL" and h: "h = take 20 (drop 2 script)"
    by (auto simp: IsToScriptID_def split: if_splits)
  then show "length h = 20" by simp
  show "script = [of_nat OP_HASH160, 20] @ h @ [of_nat OP_EQUAL]"
    using slices [of script 2 20] take_2 [of script] drop_last1 [of script 22] s h by simp
qed

lemma key_cases:
  assumes "length script = Suc (Suc k)" "script ! 0 = b" "script ! Suc k = of_nat OP_CHECKSIG"
  shows "script = b # take k (drop 1 script) @ [of_nat OP_CHECKSIG]"
proof -
  obtain r where r: "script = b # r" "length r = Suc k" using assms(1,2) by (cases script) auto
  then have "drop k r = [of_nat OP_CHECKSIG]" using drop_last1 [of r k] assms(3) by simp
  then have "r = take k r @ [of_nat OP_CHECKSIG]" by (metis append_take_drop_id)
  then show ?thesis by (simp add: r)
qed

lemma IsToPubKey_Some:
  assumes "IsToPubKey fully_valid script = Some pk"
  obtains (compressed) x b where "length x = 32" "b = 2 \<or> b = 3" "pk = b # x"
      "script = 33 # pk @ [of_nat OP_CHECKSIG]"
  | (full) x y where "length x = 32" "length y = 32" "pk = 4 # x @ y" "fully_valid pk"
      "script = 65 # pk @ [of_nat OP_CHECKSIG]"
proof (cases "length script = 35 \<and> script ! 0 = 33 \<and> script ! 34 = of_nat OP_CHECKSIG \<and>
         (script ! 1 = 2 \<or> script ! 1 = 3)")
  case True
  then obtain b c r where script: "script = c # b # r" "length r = 33"
    by (cases script; cases "tl script") auto
  define x where "x = take 32 r"
  have b: "b = 2 \<or> b = 3" and x: "length x = 32" and t: "take 33 (drop 1 script) = b # x"
    using True script by (auto simp: x_def)
  have "script = 33 # (b # x) @ [of_nat OP_CHECKSIG]"
    using key_cases [of script 33 33] True unfolding t by simp
  moreover have "pk = b # x"
    using assms True b x unfolding IsToPubKey_def t by (auto simp: CPubKey_Set_def CPubKey_GetLen_def)
  ultimately show ?thesis using b x by (intro compressed) auto
next
  case False
  then have s: "length script = 67" "script ! 0 = 65" "script ! 66 = of_nat OP_CHECKSIG" "script ! 1 = 4"
    and pk: "pk = CPubKey_Set (take 65 (drop 1 script))" "fully_valid pk"
    using assms by (auto simp: IsToPubKey_def Let_def split: if_splits)
  then obtain c r where script: "script = c # 4 # r" "length r = 65"
    by (cases script; cases "tl script") auto
  define x y where "x = take 32 r" and "y = take 32 (drop 32 r)"
  have t: "take 65 (drop 1 script) = 4 # x @ y"
    using take_add [of 32 32 r] by (simp add: script(1) x_def y_def)
  have "script = 65 # (4 # x @ y) @ [of_nat OP_CHECKSIG]"
    using key_cases [of script 65 65] s unfolding t by simp
  moreover have "length x = 32" "length y = 32" using script by (simp_all add: x_def y_def)
  moreover have "pk = 4 # x @ y"
    using pk(1) \<open>length x = 32\<close> \<open>length y = 32\<close> unfolding t
    by (simp add: CPubKey_Set_def CPubKey_GetLen_def)
  ultimately show ?thesis using pk(2) by (intro full) auto
qed

lemma ReadVarInt_special:
  "b \<in> {0, 1, 2, 3, 4, 5} \<Longrightarrow> ReadVarInt (b # rest) = Inr (ucast b :: 32 word, rest)"
  using ReadVarInt_small [of 0 rest] ReadVarInt_small [of 1 rest] ReadVarInt_small [of 2 rest]
    ReadVarInt_small [of 3 rest] ReadVarInt_small [of 4 rest] ReadVarInt_small [of 5 rest]
  by auto

lemma get_script_special:
  assumes "b \<in> {0, 1, 2, 3, 4, 5}" "length v = GetSpecialSize (unat b)"
    "Decompress decompress (unat b) v = Inr (Some script)"
  shows "get_script decompress s0 ((b # v) @ rest) = Inr (script, rest)"
  using assms(1,2,3) by (auto simp: get_script_def ReadVarInt_special read_bytes_append)

lemma get_script_plain:
  assumes "length script + 6 < 2 ^ 32"
  shows "get_script decompress s0 ((WriteVarInt (of_nat (length script + 6) :: 32 word) @ script) @ rest) =
    Inr (script, rest)"
proof -
  have "unat (of_nat (length script + 6) :: 32 word) = length script + 6"
    using assms by (simp only: unat_of_nat) simp
  then show ?thesis
    using ReadVarInt_WriteVarInt [of "of_nat (length script + 6) :: 32 word" "script @ rest"]
    by (simp only: get_script_def append_assoc) (simp add: read_bytes_append)
qed

lemma parity_byte: "(4 OR (b AND 1) :: byte) = (if odd b then 5 else 4)" "(2 OR (b AND 1) :: byte) = (if odd b then 3 else 2)"
  by (simp_all add: and_one_eq mod_2_eq_odd)

text \<open>The script codec loses nothing.\<close>

lemma get_script_put_script:
  assumes "recovers fully_valid decompress" "length script + 6 < 2 ^ 32"
  shows "get_script decompress s0 (put_script fully_valid script @ rest) = Inr (script, rest)"
proof (cases "Compress fully_valid script")
  case None
  then show ?thesis using get_script_plain [OF assms(2)] by (simp add: put_script_def)
next
  case (Some compr)
  then have put: "put_script fully_valid script = compr" by (simp add: put_script_def)
  consider (keyid) h where "IsToKeyID script = Some h" "compr = 0 # h"
    | (scriptid) h where "IsToScriptID script = Some h" "compr = 1 # h"
    | (pubkey) pk where "IsToPubKey fully_valid script = Some pk"
        "compr = (if pk ! 0 = 2 \<or> pk ! 0 = 3 then pk ! 0 # take 32 (drop 1 pk)
          else (4 OR (pk ! 64 AND 1)) # take 32 (drop 1 pk))"
    using Some by (auto simp: Compress_def split: option.splits if_splits)
  then show ?thesis
  proof cases
    case keyid
    note k = IsToKeyID_Some [OF keyid(1)]
    show ?thesis unfolding put keyid(2)
      by (rule get_script_special) (simp_all add: k GetSpecialSize_def Decompress_def)
  next
    case scriptid
    note k = IsToScriptID_Some [OF scriptid(1)]
    show ?thesis unfolding put scriptid(2)
      by (rule get_script_special) (simp_all add: k GetSpecialSize_def Decompress_def)
  next
    case pubkey
    from pubkey(1) show ?thesis
    proof (cases rule: IsToPubKey_Some)
      case (compressed x b)
      then have "compr = b # x" using pubkey(2) by auto
      then show ?thesis unfolding put \<open>compr = b # x\<close> using compressed
        by (intro get_script_special) (auto simp: GetSpecialSize_def Decompress_def)
    next
      case (full x y)
      have "y \<noteq> []" using full(2) by auto
      then have nth: "(4 # x @ y) ! 64 = last y"
        using full(1,2) by (simp add: nth_append last_conv_nth)
      have dec: "decompress ((2 OR (last y AND 1)) # x) = Some (4 # x @ y)"
        using assms(1) full unfolding recovers_def by blast
      have c: "compr = (4 OR (last y AND 1)) # x"
        using pubkey(2) full(1) nth unfolding full(3) by simp
      show ?thesis unfolding put c using full(1) dec
        by (intro get_script_special)
          (auto simp: parity_byte GetSpecialSize_def Decompress_def CPubKey_size_def
            CPubKey_GetLen_def full(3,5) split: if_splits)
    qed
  qed
qed

lemma script_size_put: "script_size fully_valid script = length (put_script fully_valid script)"
  by (simp add: script_size_def put_script_def GetSizeOfVarInt_length split: option.splits)

lemma get_txout_put_txout:
  assumes "recovers fully_valid decompress" "0 \<le> nValue out" "nValue out < 2 ^ 60"
    "length (scriptPubKey out) + 6 < 2 ^ 32"
  shows "\<exists>b. put_txout fully_valid out = Inr b \<and> get_txout decompress (b @ rest) = Inr (out, rest)"
proof -
  have u: "int (u64_of (nValue out)) = nValue out"
    using assms(2,3) by (simp add: u64_of_def)
  then have "u64_of (nValue out) < 2 ^ 60" using assms(3) by simp
  from DecompressAmount_CompressAmount [OF this] obtain x where
    x: "CompressAmount (u64_of (nValue out)) = Inr x" "x < 2 ^ 64" "DecompressAmount x = u64_of (nValue out)"
    by blast
  have "unat (of_nat x :: 64 word) = x" using x(2) by (simp add: unat_of_nat)
  moreover have "wrap64 (nValue out) = nValue out"
    using assms(2,3) by (intro wrap64_id) (simp_all add: INT64_MIN_def INT64_MAX_def)
  ultimately show ?thesis
    using x(1,3) u
    by (simp add: put_txout_def get_txout_def ReadVarInt_WriteVarInt
        get_script_put_script [OF assms(1,4)])
qed

end
