(* ===== verification/Coins.thy ===== *)
theory Coins
  imports Compressor
begin

text \<open>
  The unspent outputs of a transaction (CCoins of coins.h, coins.cpp), their serialization in the
  coin database, spending, and the undo information of a spend (undo.h).  Field names get a prefix
  \<open>c\<close> or \<open>u\<close> where they clash with those of the transaction records.
\<close>

section \<open>Coins\<close>

record CCoins =
  fCoinBase :: bool
  fCoinStake :: bool
  cvout :: "CTxOut list"
  cHeight :: int
  cVersion :: int

definition CCoins_empty :: CCoins where
  "CCoins_empty = \<lparr>fCoinBase = False, fCoinStake = False, cvout = [], cHeight = 0, cVersion = 0\<rparr>"

definition Cleanup :: "CCoins \<Rightarrow> CCoins" where
  "Cleanup coins = coins\<lparr>cvout := rev (dropWhile CTxOut_IsNull (rev (cvout coins)))\<rparr>"

definition ClearUnspendable :: "CCoins \<Rightarrow> CCoins" where
  "ClearUnspendable coins =
     Cleanup (coins\<lparr>cvout := map (\<lambda>out. if IsUnspendable (scriptPubKey out) then CTxOut_null else out) (cvout coins)\<rparr>)"

definition FromTx :: "CTransaction \<Rightarrow> int \<Rightarrow> fault + CCoins" where
  "FromTx tx nHeightIn =
     bindE (IsCoinBase tx) (\<lambda>cb.
       Inr (ClearUnspendable
         \<lparr>fCoinBase = cb, fCoinStake = IsCoinStake tx, cvout = vout tx, cHeight = nHeightIn, cVersion = nVersion tx\<rparr>))"

definition IsAvailable :: "CCoins \<Rightarrow> nat \<Rightarrow> bool" where
  "IsAvailable coins nPos \<longleftrightarrow>
     nPos < length (cvout coins) \<and> \<not> CTxOut_IsNull (cvout coins ! nPos) \<and>
     \<not> IsZerocoinMint (scriptPubKey (cvout coins ! nPos))"

definition IsPruned :: "CCoins \<Rightarrow> bool" where
  "IsPruned coins \<longleftrightarrow> list_all CTxOut_IsNull (cvout coins)"

definition CCoins_eq :: "CCoins \<Rightarrow> CCoins \<Rightarrow> bool" where
  "CCoins_eq a b \<longleftrightarrow> IsPruned a \<and> IsPruned b \<or> a = b"

subsection \<open>Spending\<close>

record CTxInUndo =
  utxout :: CTxOut
  uCoinBase :: bool
  uCoinStake :: bool
  uHeight :: "32 word"
  uVersion :: int

text \<open>None when Spend returns false, which leaves the coins as they were.\<close>

definition Spend :: "CCoins \<Rightarrow> COutPoint \<Rightarrow> (CCoins \<times> CTxInUndo) option" where
  "Spend coins out =
     (if unat (outn out) \<ge> length (cvout coins) then None
      else if CTxOut_IsNull (cvout coins ! unat (outn out)) then None
      else
        let undo = \<lparr>utxout = cvout coins ! unat (outn out), uCoinBase = False, uCoinStake = False,
                    uHeight = 0, uVersion = 0\<rparr>;
            coins' = Cleanup (coins\<lparr>cvout := (cvout coins)[unat (outn out) := CTxOut_null]\<rparr>)
        in Some (coins',
             if cvout coins' = []
             then undo\<lparr>uHeight := word_of_int (cHeight coins), uCoinBase := fCoinBase coins,
                       uCoinStake := fCoinStake coins, uVersion := cVersion coins\<rparr>
             else undo))"

subsection \<open>Serialization\<close>

text \<open>VARINT of a signed int: a negative value is at most 0x7f, so it is written as its low seven
bits.\<close>

definition put_varint_int :: "int \<Rightarrow> bytes" where
  "put_varint_int v =
     (if v < 0 then [ucast ((word_of_int v :: 32 word) AND 0x7f)] else WriteVarInt (word_of_int v :: 32 word))"

definition get_varint_int :: "int reader" where
  "get_varint_int s = bindE (ReadVarInt s) (\<lambda>(w :: 32 word, s). Inr (sint w, s))"

definition avail :: "CTxOut list \<Rightarrow> nat \<Rightarrow> bool" where
  "avail outs k \<longleftrightarrow> k < length outs \<and> \<not> CTxOut_IsNull (outs ! k)"

definition CalcMaskSize :: "CTxOut list \<Rightarrow> nat \<times> nat" where
  "CalcMaskSize outs =
     foldl (\<lambda>(nLastUsedByte, nNonzeroBytes) b.
         if list_ex (\<lambda>i. avail outs (2 + b * 8 + i)) [0..<8]
         then (b + 1, nNonzeroBytes + 1) else (nLastUsedByte, nNonzeroBytes))
       (0, 0) [0..<(length outs + 5) div 8]"

definition chAvail :: "CTxOut list \<Rightarrow> nat \<Rightarrow> byte" where
  "chAvail outs b =
     foldl (\<lambda>ch i. if avail outs (2 + b * 8 + i) then ch OR push_bit i 1 else ch) 0 [0..<8]"

fun put_outs :: "(bytes \<Rightarrow> bool) \<Rightarrow> CTxOut list \<Rightarrow> fault + bytes" where
  "put_outs fully_valid [] = Inr []"
| "put_outs fully_valid (out # outs) =
     (if CTxOut_IsNull out then put_outs fully_valid outs
      else bindE (put_txout fully_valid out) (\<lambda>b. bindE (put_outs fully_valid outs) (\<lambda>bs. Inr (b @ bs))))"

definition nCode_of :: "nat \<Rightarrow> CCoins \<Rightarrow> nat \<Rightarrow> nat" where
  "nCode_of scale coins nMaskCode =
     (let fFirst = avail (cvout coins) 0; fSecond = avail (cvout coins) 1 in
      scale * (nMaskCode - (if fFirst \<or> fSecond then 0 else 1)) +
      (if fCoinBase coins then 1 else 0) + (if fCoinStake coins then 2 else 0) +
      (if fFirst then 4 else 0) + (if fSecond then 8 else 0))"

definition put_CCoins :: "(bytes \<Rightarrow> bool) \<Rightarrow> CCoins \<Rightarrow> fault + bytes" where
  "put_CCoins fully_valid coins =
     (case CalcMaskSize (cvout coins) of (nMaskSize, nMaskCode) \<Rightarrow>
        if \<not> (avail (cvout coins) 0 \<or> avail (cvout coins) 1 \<or> nMaskCode \<noteq> 0) then Inl Abort
        else bindE (put_outs fully_valid (cvout coins)) (\<lambda>outs.
          Inr (put_varint_int (cVersion coins) @
            WriteVarInt (of_nat (nCode_of 16 coins nMaskCode) :: 32 word) @
            map (chAvail (cvout coins)) [0..<nMaskSize] @ outs @ put_varint_int (cHeight coins))))"

definition CCoins_size :: "(bytes \<Rightarrow> bool) \<Rightarrow> CCoins \<Rightarrow> fault + nat" where
  "CCoins_size fully_valid coins =
     (case CalcMaskSize (cvout coins) of (nMaskSize, nMaskCode) \<Rightarrow>
        if \<not> (avail (cvout coins) 0 \<or> avail (cvout coins) 1 \<or> nMaskCode \<noteq> 0) then Inl Abort
        else bindE (put_outs fully_valid (cvout coins)) (\<lambda>outs.
          Inr (length (put_varint_int (cVersion coins)) +
            GetSizeOfVarInt (of_nat (nCode_of 8 coins nMaskCode) :: 32 word) +
            nMaskSize + length outs + length (put_varint_int (cHeight coins)))))"

fun get_mask :: "nat \<Rightarrow> bool list reader" where
  "get_mask 0 s = Inr ([], s)"
| "get_mask (Suc nMaskCode) [] = Inl Throw"
| "get_mask (Suc nMaskCode) (ch # s) =
     bindE (get_mask (if ch \<noteq> 0 then nMaskCode else Suc nMaskCode) s) (\<lambda>(fs, s).
       Inr (map (\<lambda>p. ch AND push_bit p 1 \<noteq> 0) [0..<8] @ fs, s))"

fun get_outs :: "(bytes \<Rightarrow> bytes option) \<Rightarrow> bool list \<Rightarrow> CTxOut list reader" where
  "get_outs decompress [] s = Inr ([], s)"
| "get_outs decompress (f # fs) s =
     bindE (if f then get_txout decompress s else Inr (CTxOut_null, s)) (\<lambda>(out, s).
     bindE (get_outs decompress fs s) (\<lambda>(outs, s). Inr (out # outs, s)))"

definition get_CCoins :: "(bytes \<Rightarrow> bytes option) \<Rightarrow> CCoins reader" where
  "get_CCoins decompress s =
     bindE (get_varint_int s) (\<lambda>(version, s).
     bindE (ReadVarInt s) (\<lambda>(nCode :: 32 word, s).
     bindE (get_mask (unat nCode div 16 + (if nCode AND 12 \<noteq> 0 then 0 else 1)) s) (\<lambda>(fs, s).
     bindE (get_outs decompress ([nCode AND 4 \<noteq> 0, nCode AND 8 \<noteq> 0] @ fs) s) (\<lambda>(outs, s).
     bindE (get_varint_int s) (\<lambda>(height, s).
       Inr (Cleanup \<lparr>fCoinBase = (nCode AND 1 \<noteq> 0), fCoinStake = (nCode AND 2 \<noteq> 0), cvout = outs,
                     cHeight = height, cVersion = version\<rparr>, s))))))"

definition undo_code :: "CTxInUndo \<Rightarrow> 32 word" where
  "undo_code undo = uHeight undo * 4 + (if uCoinBase undo then 2 else 0) + (if uCoinStake undo then 1 else 0)"

definition put_CTxInUndo :: "(bytes \<Rightarrow> bool) \<Rightarrow> CTxInUndo \<Rightarrow> fault + bytes" where
  "put_CTxInUndo fully_valid undo =
     bindE (put_txout fully_valid (utxout undo)) (\<lambda>out.
       Inr (WriteVarInt (undo_code undo) @
         (if uHeight undo > 0 then put_varint_int (uVersion undo) else []) @ out))"

definition get_CTxInUndo :: "(bytes \<Rightarrow> bytes option) \<Rightarrow> CTxInUndo reader" where
  "get_CTxInUndo decompress s =
     bindE (ReadVarInt s) (\<lambda>(nCode :: 32 word, s).
     let nHeight = drop_bit 2 nCode in
     bindE (if nHeight > 0 then get_varint_int s else Inr (0, s)) (\<lambda>(version, s).
     bindE (get_txout decompress s) (\<lambda>(out, s).
       Inr (\<lparr>utxout = out, uCoinBase = (nCode AND 2 \<noteq> 0), uCoinStake = (nCode AND 1 \<noteq> 0),
             uHeight = nHeight, uVersion = version\<rparr>, s))))"

section \<open>The coin codec loses nothing\<close>

definition out_ok :: "CTxOut \<Rightarrow> bool" where
  "out_ok out \<longleftrightarrow> (if CTxOut_IsNull out then out = CTxOut_null
     else 0 \<le> nValue out \<and> nValue out < 2 ^ 60 \<and> length (scriptPubKey out) + 6 < 2 ^ 32)"

definition is_clean :: "CCoins \<Rightarrow> bool" where
  "is_clean coins \<longleftrightarrow> (cvout coins \<noteq> [] \<longrightarrow> \<not> CTxOut_IsNull (last (cvout coins)))"

definition coins_ok :: "CCoins \<Rightarrow> bool" where
  "coins_ok coins \<longleftrightarrow> is_clean coins \<and> list_all out_ok (cvout coins) \<and> length (cvout coins) < 2 ^ 30 \<and>
     0 \<le> cHeight coins \<and> cHeight coins < 2 ^ 31 \<and> 0 \<le> cVersion coins \<and> cVersion coins < 2 ^ 31"

lemma get_varint_int_put:
  assumes "0 \<le> v" "v < 2 ^ 31"
  shows "get_varint_int (put_varint_int v @ rest) = Inr (v, rest)"
proof -
  have "sint (word_of_int v :: 32 word) = v"
    using assms by (simp add: signed_of_int signed_take_bit_int_eq_self)
  then show ?thesis
    using assms by (simp add: get_varint_int_def put_varint_int_def ReadVarInt_WriteVarInt)
qed

lemma bit_chAvail: "bit (chAvail outs b) p \<longleftrightarrow> p < 8 \<and> avail outs (2 + b * 8 + p)"
  unfolding chAvail_def by (rule bit_or_loop) simp

lemma chAvail_zero: "chAvail outs b = 0 \<longleftrightarrow> (\<forall>i < 8. \<not> avail outs (2 + b * 8 + i))"
proof
  assume "\<forall>i < 8. \<not> avail outs (2 + b * 8 + i)"
  then show "chAvail outs b = 0" by (intro bit_eqI) (simp add: bit_chAvail)
next
  assume "chAvail outs b = 0"
  then have "\<not> bit (chAvail outs b) i" for i by simp
  then show "\<forall>i < 8. \<not> avail outs (2 + b * 8 + i)" by (auto simp: bit_chAvail)
qed

lemma CalcMaskSize_loop:
  "foldl (\<lambda>(l, c) b. if list_ex (\<lambda>i. avail outs (2 + b * 8 + i)) [0..<8] then (b + 1, c + 1) else (l, c))
     (0, 0) [0..<n] = (m, c) \<Longrightarrow>
   m \<le> n \<and> (\<forall>b. m \<le> b \<longrightarrow> b < n \<longrightarrow> chAvail outs b = 0) \<and>
   (0 < m \<longrightarrow> chAvail outs (m - 1) \<noteq> 0) \<and>
   c = length (filter (\<lambda>ch. ch \<noteq> 0) (map (chAvail outs) [0..<m]))"
proof (induction n arbitrary: m c)
  case (Suc n)
  obtain m' and c' :: nat where mc: "foldl (\<lambda>(l, c) b. if list_ex (\<lambda>i. avail outs (2 + b * 8 + i)) [0..<8] then (b + 1, c + 1)
      else (l, c)) (0, 0) [0..<n] = (m', c')" by fastforce
  note IH = Suc.IH [OF mc]
  have ex: "list_ex (\<lambda>i. avail outs (2 + n * 8 + i)) [0..<8] \<longleftrightarrow> chAvail outs n \<noteq> 0"
    by (auto simp: list_ex_iff chAvail_zero)
  show ?case
  proof (cases "chAvail outs n = 0")
    case True
    then have "m = m'" "c = c'" using Suc.prems mc ex by simp_all
    then show ?thesis using IH True by (auto simp: less_Suc_eq)
  next
    case False
    then have mc': "m = Suc n" "c = Suc c'" using Suc.prems mc ex by simp_all
    have "[0..<n] = [0..<m'] @ [m'..<n]" using IH by (metis le_add_diff_inverse upt_add_eq_append zero_le)
    moreover have "filter (\<lambda>ch. ch \<noteq> 0) (map (chAvail outs) [m'..<n]) = []" using IH by (auto simp: filter_empty_conv)
    ultimately have "length (filter (\<lambda>ch. ch \<noteq> 0) (map (chAvail outs) [0..<n])) = c'" using IH by simp
    then show ?thesis using mc' False by simp
  qed
qed simp

lemma get_mask_put:
  assumes "bs = [] \<or> last bs \<noteq> 0"
  shows "get_mask (length (filter (\<lambda>ch. ch \<noteq> 0) bs)) (bs @ rest) =
    Inr (concat (map (\<lambda>ch. map (bit ch) [0..<8]) bs), rest)"
  using assms
proof (induction bs)
  case (Cons ch bs)
  show ?case
  proof (cases "ch = 0 \<and> bs = []")
    case True
    then show ?thesis using Cons.prems by simp
  next
    case False
    have IH: "get_mask (length (filter (\<lambda>ch. ch \<noteq> 0) bs)) (bs @ rest) =
        Inr (concat (map (\<lambda>ch. map (bit ch) [0..<8]) bs), rest)"
      using Cons by (cases "bs = []") auto
    have bits: "map (\<lambda>p. ch AND push_bit p 1 \<noteq> 0) [0..<8] = map (bit ch) [0..<8]"
      by (simp add: bit_iff_and_push_bit_not_eq_0)
    have pos: "\<exists>k. length (filter (\<lambda>ch. ch \<noteq> 0) bs) = Suc k" if "ch = 0"
      using that False Cons.prems by (cases "length (filter (\<lambda>ch. ch \<noteq> 0) bs)") (auto simp: filter_empty_conv)
    show ?thesis
    proof (cases "ch = 0")
      case True
      with pos obtain k where "length (filter (\<lambda>ch. ch \<noteq> 0) bs) = Suc k" by blast
      then show ?thesis using True IH bits by simp
    next
      case False
      then show ?thesis using IH bits by simp
    qed
  qed
qed simp

lemma get_outs_put:
  assumes "recovers fully_valid decompress" "list_all out_ok outs"
  shows "\<exists>b. put_outs fully_valid outs = Inr b \<and>
    get_outs decompress (map (\<lambda>out. \<not> CTxOut_IsNull out) outs @ replicate k False) (b @ rest) =
      Inr (outs @ replicate k CTxOut_null, rest)"
  using assms(2)
proof (induction outs)
  case Nil
  have "get_outs decompress (replicate k False) rest = Inr (replicate k CTxOut_null, rest)"
    by (induction k) simp_all
  then show ?case by simp
next
  case (Cons out outs)
  then obtain b where b: "put_outs fully_valid outs = Inr b"
    "get_outs decompress (map (\<lambda>out. \<not> CTxOut_IsNull out) outs @ replicate k False) (b @ rest) =
      Inr (outs @ replicate k CTxOut_null, rest)" by auto
  show ?case
  proof (cases "CTxOut_IsNull out")
    case True
    then show ?thesis using b Cons.prems by (simp add: out_ok_def)
  next
    case False
    then obtain b' where "put_txout fully_valid out = Inr b'"
      "get_txout decompress (b' @ b @ rest) = Inr (out, b @ rest)"
      using get_txout_put_txout [OF assms(1), of out "b @ rest"] Cons.prems by (auto simp: out_ok_def)
    then show ?thesis using b False by simp
  qed
qed

lemma mask_flags:
  "concat (map (\<lambda>ch. map (bit ch) [0..<8]) (map (chAvail outs) [0..<m])) = map (avail outs) [2..<2 + 8 * m]"
proof (induction m)
  case (Suc m)
  have "map (bit (chAvail outs m)) [0..<8] = map (avail outs) [2 + 8 * m..<2 + 8 * Suc m]"
    by (rule nth_equalityI) (simp_all add: bit_chAvail algebra_simps)
  moreover have "[2..<2 + 8 * Suc m] = [2..<2 + 8 * m] @ [2 + 8 * m..<2 + 8 * Suc m]"
    using upt_add_eq_append [of 2 "2 + 8 * m" 8] by (simp add: add.commute del: upt.simps)
  moreover have "[0..<Suc m] = [0..<m] @ [m]" by simp
  ultimately show ?case using Suc by (simp del: upt.simps)
qed simp

lemma avail_flags:
  assumes "length outs \<le> 2 + k"
  shows "[avail outs 0, avail outs 1] @ map (avail outs) [2..<2 + k] =
    map (\<lambda>out. \<not> CTxOut_IsNull out) outs @ replicate (2 + k - length outs) False"
proof -
  have "[avail outs 0, avail outs 1] @ map (avail outs) [2..<2 + k] = map (avail outs) [0..<2 + k]"
    using upt_add_eq_append [of 0 2 k] by (simp add: upt_rec [of 0] upt_rec [of "Suc 0"] numeral_2_eq_2 del: upt.simps)
  also have "\<dots> = map (\<lambda>out. \<not> CTxOut_IsNull out) outs @ replicate (2 + k - length outs) False"
    using assms by (intro nth_equalityI) (auto simp: avail_def nth_append simp del: upt_Suc)
  finally show ?thesis .
qed

lemma CalcMaskSize_facts:
  assumes "CalcMaskSize outs = (m, c)" "outs \<noteq> [] \<longrightarrow> \<not> CTxOut_IsNull (last outs)"
  shows "c = length (filter (\<lambda>ch. ch \<noteq> 0) (map (chAvail outs) [0..<m]))"
    "map (chAvail outs) [0..<m] = [] \<or> last (map (chAvail outs) [0..<m]) \<noteq> 0"
    "length outs \<le> 2 + 8 * m" "8 * m \<le> length outs + 5" "c \<le> m"
proof -
  define n where "n = (length outs + 5) div 8"
  note facts = CalcMaskSize_loop [OF assms(1) [unfolded CalcMaskSize_def], folded n_def]
  show c: "c = length (filter (\<lambda>ch. ch \<noteq> 0) (map (chAvail outs) [0..<m]))" using facts by blast
  then show "c \<le> m" by (metis diff_zero length_filter_le length_map length_upt)
  show "map (chAvail outs) [0..<m] = [] \<or> last (map (chAvail outs) [0..<m]) \<noteq> 0"
    using facts by (cases m) auto
  have "8 * n \<le> length outs + 5" unfolding n_def by simp
  then show "8 * m \<le> length outs + 5" using facts by linarith
  show "length outs \<le> 2 + 8 * m"
  proof (rule ccontr)
    assume long: "\<not> length outs \<le> 2 + 8 * m"
    define j where "j = length outs - 3"
    have ne: "outs \<noteq> []" using long by auto
    have "avail outs (length outs - 1)"
      using assms(2) ne by (simp add: avail_def last_conv_nth)
    moreover have "length outs - 1 = 2 + j div 8 * 8 + j mod 8" using long by (simp add: j_def)
    ultimately have "chAvail outs (j div 8) \<noteq> 0"
      unfolding chAvail_zero by (metis mod_less_divisor zero_less_numeral)
    moreover have "m \<le> j div 8" using long by (simp add: j_def less_eq_div_iff_mult_less_eq)
    moreover have "j div 8 < n" using long by (simp add: j_def n_def div_less_iff_less_mult) 
    ultimately show False using facts by blast
  qed
qed

lemma code_bits:
  fixes x :: nat and f0 f1 f2 f3 :: bool
  defines "v \<equiv> 16 * x + (if f0 then 1 else 0) + (if f1 then 2 else 0) + (if f2 then 4 else 0) + (if f3 then 8 else 0)"
  assumes "v < 2 ^ 32"
  shows "unat (of_nat v :: 32 word) div 16 = x"
    "(of_nat v :: 32 word) AND 1 \<noteq> 0 \<longleftrightarrow> f0" "(of_nat v :: 32 word) AND 2 \<noteq> 0 \<longleftrightarrow> f1"
    "(of_nat v :: 32 word) AND 4 \<noteq> 0 \<longleftrightarrow> f2" "(of_nat v :: 32 word) AND 8 \<noteq> 0 \<longleftrightarrow> f3"
    "(of_nat v :: 32 word) AND 12 \<noteq> 0 \<longleftrightarrow> f2 \<or> f3"
proof -
  let ?w = "of_nat v :: 32 word"
  have u: "unat ?w = v" using assms(2) by (simp add: unat_of_nat)
  show "unat ?w div 16 = x" unfolding u by (auto simp: v_def)
  have b: "bit ?w i \<longleftrightarrow> i < 32 \<and> odd (v div 2 ^ i)" for i
    by (simp only: bit_of_nat_iff) (simp add: bit_iff_odd [of v])
  have b0: "bit ?w 0 \<longleftrightarrow> f0" unfolding b by (auto simp: v_def)
  have "v div 2 = 8 * x + (if f1 then 1 else 0) + (if f2 then 2 else 0) + (if f3 then 4 else 0)"
    by (auto simp: v_def)
  then have b1: "bit ?w 1 \<longleftrightarrow> f1" unfolding b by simp
  have "v div 4 = 4 * x + (if f2 then 1 else 0) + (if f3 then 2 else 0)" by (auto simp: v_def)
  then have b2: "bit ?w 2 \<longleftrightarrow> f2" unfolding b by simp
  have "v div 8 = 2 * x + (if f3 then 1 else 0)" by (auto simp: v_def)
  then have b3: "bit ?w 3 \<longleftrightarrow> f3" unfolding b by simp
  have m: "?w AND 2 ^ i \<noteq> 0 \<longleftrightarrow> bit ?w i" for i
    by (simp only: bit_iff_and_push_bit_not_eq_0 push_bit_of_1)
  show "?w AND 1 \<noteq> 0 \<longleftrightarrow> f0" using m [of 0] b0 by simp
  show "?w AND 2 \<noteq> 0 \<longleftrightarrow> f1" using m [of 1] b1 by simp
  show 4: "?w AND 4 \<noteq> 0 \<longleftrightarrow> f2" using m [of 2] b2 by simp
  show 8: "?w AND 8 \<noteq> 0 \<longleftrightarrow> f3" using m [of 3] b3 by simp
  have "?w AND 12 = (?w AND 4) OR (?w AND 8)"
    by (simp flip: bit.conj_disj_distrib)
  then show "?w AND 12 \<noteq> 0 \<longleftrightarrow> f2 \<or> f3" using 4 8 by (metis or_eq_0_iff)
qed


lemma eight_le: "8 \<le> LENGTH(32)" by simp

lemma rev_dropWhile_null:
  assumes "is_clean coins"
  shows "rev (dropWhile CTxOut_IsNull (rev (cvout coins @ replicate k CTxOut_null))) = cvout coins"
proof -
  have "dropWhile CTxOut_IsNull (replicate k CTxOut_null @ xs) = dropWhile CTxOut_IsNull xs" for xs
    by (induction k) (simp_all add: CTxOut_IsNull_def CTxOut_null_def)
  moreover have "dropWhile CTxOut_IsNull (rev (cvout coins)) = rev (cvout coins)"
    using assms by (cases "cvout coins" rule: rev_cases) (auto simp: is_clean_def)
  ultimately show ?thesis by simp
qed

lemma not_pruned_mask:
  assumes "\<not> IsPruned coins" "coins_ok coins" "CalcMaskSize (cvout coins) = (m, c)"
  shows "avail (cvout coins) 0 \<or> avail (cvout coins) 1 \<or> c \<noteq> 0"
proof (rule ccontr)
  assume no: "\<not> (avail (cvout coins) 0 \<or> avail (cvout coins) 1 \<or> c \<noteq> 0)"
  have clean: "cvout coins \<noteq> [] \<longrightarrow> \<not> CTxOut_IsNull (last (cvout coins))"
    using assms(2) by (simp add: coins_ok_def is_clean_def)
  note f = CalcMaskSize_facts [OF assms(3) clean]
  have "m = 0"
  proof (rule ccontr)
    assume "m \<noteq> 0"
    then have "last (map (chAvail (cvout coins)) [0..<m]) \<in> set (map (chAvail (cvout coins)) [0..<m])"
      by (intro last_in_set) simp
    then have "c \<noteq> 0" using f(1,2) \<open>m \<noteq> 0\<close> by (auto simp: filter_empty_conv)
    then show False using no by blast
  qed
  then have "length (cvout coins) \<le> 2" using f(3) by simp
  moreover have "\<not> IsPruned coins \<Longrightarrow> cvout coins \<noteq> []" by (auto simp: IsPruned_def)
  then have "avail (cvout coins) (length (cvout coins) - 1)"
    using assms(1) clean by (simp add: avail_def last_conv_nth)
  ultimately show False using no by (cases "length (cvout coins)") (auto simp: avail_def le_Suc_eq numeral_2_eq_2)
qed

theorem get_put_CCoins:
  assumes "recovers fully_valid decompress" "coins_ok coins" "\<not> IsPruned coins"
  shows "\<exists>b. put_CCoins fully_valid coins = Inr b \<and> get_CCoins decompress (b @ rest) = Inr (coins, rest)"
proof -
  obtain m c where mc: "CalcMaskSize (cvout coins) = (m, c)" by fastforce
  have clean: "cvout coins \<noteq> [] \<longrightarrow> \<not> CTxOut_IsNull (last (cvout coins))"
    using assms(2) by (simp add: coins_ok_def is_clean_def)
  note mask = CalcMaskSize_facts [OF mc clean]
  note some = not_pruned_mask [OF assms(3,2) mc]
  let ?outs = "cvout coins" and ?n = "nCode_of 16 coins c"
  define ff where "ff = (avail ?outs 0 \<or> avail ?outs 1)"
  define x where "x = c - (if ff then 0 else 1)"
  have n: "?n = 16 * x + (if fCoinBase coins then 1 else 0) + (if fCoinStake coins then 2 else 0) +
      (if avail ?outs 0 then 4 else 0) + (if avail ?outs 1 then 8 else 0)"
    by (simp add: nCode_of_def x_def ff_def Let_def)
  have "16 * x \<le> 2 * (length ?outs + 5)" using mask(4,5) by (simp add: x_def)
  then have "16 * x \<le> 2 ^ 31 + 10" using assms(2) by (simp add: coins_ok_def)
  then have "?n < 2 ^ 32" unfolding n by simp
  note cb = code_bits [OF this [unfolded n], folded n]
  have xc: "x + (if avail ?outs 0 \<or> avail ?outs 1 then 0 else 1) = c"
    using some by (auto simp: x_def ff_def)
  have fs: "[avail ?outs 0, avail ?outs 1] @ concat (map (\<lambda>ch. map (bit ch) [0..<8]) (map (chAvail ?outs) [0..<m])) =
      map (\<lambda>out. \<not> CTxOut_IsNull out) ?outs @ replicate (2 + 8 * m - length ?outs) False"
    unfolding mask_flags by (rule avail_flags [OF mask(3)])
  have ok: "list_all out_ok ?outs" using assms(2) by (simp add: coins_ok_def)
  have vv: "0 \<le> cVersion coins" "cVersion coins < 2 ^ 31" "0 \<le> cHeight coins" "cHeight coins < 2 ^ 31"
    using assms(2) by (simp_all add: coins_ok_def)
  let ?h = "put_varint_int (cHeight coins)"
  obtain b where b: "put_outs fully_valid ?outs = Inr b"
    "get_outs decompress ([avail ?outs 0, avail ?outs 1] @
        concat (map (\<lambda>ch. map (bit ch) [0..<8]) (map (chAvail ?outs) [0..<m]))) (b @ ?h @ rest) =
      Inr (?outs @ replicate (2 + 8 * m - length ?outs) CTxOut_null, ?h @ rest)"
    using get_outs_put [OF assms(1) ok, of "2 + 8 * m - length ?outs" "?h @ rest"] unfolding fs by blast
  have put: "put_CCoins fully_valid coins =
      Inr (put_varint_int (cVersion coins) @ WriteVarInt (of_nat ?n :: 32 word) @
            map (chAvail ?outs) [0..<m] @ b @ ?h)"
    using some by (simp add: put_CCoins_def mc b(1))
  have clean_up: "Cleanup \<lparr>fCoinBase = fCoinBase coins, fCoinStake = fCoinStake coins,
      cvout = ?outs @ replicate (2 + 8 * m - length ?outs) CTxOut_null,
      cHeight = cHeight coins, cVersion = cVersion coins\<rparr> = coins"
    using rev_dropWhile_null [of coins] assms(2) by (simp add: Cleanup_def coins_ok_def)
  have "get_CCoins decompress ((put_varint_int (cVersion coins) @ WriteVarInt (of_nat ?n :: 32 word) @
            map (chAvail ?outs) [0..<m] @ b @ ?h) @ rest) = Inr (coins, rest)"
    by (simp only: get_CCoins_def append_assoc get_varint_int_put [OF vv(1,2)] bindE_Inr prod.case
        ReadVarInt_WriteVarInt [OF eight_le] cb xc get_mask_put [OF mask(2), folded mask(1)] b(2)
        get_varint_int_put [OF vv(3,4)] clean_up)
  then show ?thesis using put by blast
qed

text \<open>GetSerializeSize computes the header code with a factor 8 where Serialize writes it with a
factor 16, so it is too small when only the latter needs one more byte.\<close>

lemma CCoins_size_put:
  assumes "put_CCoins fully_valid coins = Inr b" "CalcMaskSize (cvout coins) = (m, c)"
  shows "\<exists>k. CCoins_size fully_valid coins = Inr k \<and>
    k + GetSizeOfVarInt (of_nat (nCode_of 16 coins c) :: 32 word) =
    length b + GetSizeOfVarInt (of_nat (nCode_of 8 coins c) :: 32 word)"
  using assms by (auto simp: put_CCoins_def CCoins_size_def fault_simps GetSizeOfVarInt_length split: if_splits)

definition many_coins :: CCoins where
  "many_coins = \<lparr>fCoinBase = False, fCoinStake = False,
     cvout = replicate 66 \<lparr>nValue = 0, scriptPubKey = []\<rparr>, cHeight = 1, cVersion = 1\<rparr>"

lemma CCoins_size_short:
  assumes "put_CCoins fully_valid many_coins = Inr b"
  shows "CCoins_size fully_valid many_coins = Inr (length b - 1)"
proof -
  have m: "CalcMaskSize (cvout many_coins) = (8, 8)" by code_simp
  have "nCode_of 16 many_coins 8 = 140" "nCode_of 8 many_coins 8 = 76" by code_simp+
  moreover have "GetSizeOfVarInt (140 :: 32 word) = 2" "GetSizeOfVarInt (76 :: 32 word) = 1"
    by (simp_all add: GetSizeOfVarInt.simps)
  ultimately show ?thesis using CCoins_size_put [OF assms m] by auto
qed

definition undo_ok :: "CTxInUndo \<Rightarrow> bool" where
  "undo_ok undo \<longleftrightarrow> \<not> CTxOut_IsNull (utxout undo) \<and> out_ok (utxout undo) \<and> uHeight undo < 2 ^ 30 \<and>
     0 \<le> uVersion undo \<and> uVersion undo < 2 ^ 31 \<and> (uHeight undo = 0 \<longrightarrow> uVersion undo = 0)"

lemma undo_code_bits:
  assumes "uHeight undo < 2 ^ 30"
  shows "drop_bit 2 (undo_code undo) = uHeight undo"
    "undo_code undo AND 1 \<noteq> 0 \<longleftrightarrow> uCoinStake undo" "undo_code undo AND 2 \<noteq> 0 \<longleftrightarrow> uCoinBase undo"
proof -
  define h where "h = unat (uHeight undo)"
  define v where "v = 4 * h + (if uCoinBase undo then 2 else 0) + (if uCoinStake undo then 1 else 0)"
  have h: "h < 2 ^ 30" using assms by (simp add: h_def word_less_nat_alt)
  then have v: "v < 2 ^ 32" by (simp add: v_def)
  have c: "undo_code undo = of_nat v"
    by (auto simp: undo_code_def v_def h_def)
  have u: "unat (undo_code undo) = v" using v by (simp add: c unat_of_nat)
  have "v div 4 = h" by (auto simp: v_def)
  moreover have "unat (drop_bit 2 (undo_code undo)) = v div 4"
    using v by (simp only: unsigned_drop_bit_eq) (simp add: take_bit_nat_eq_self drop_bit_eq_div u)
  ultimately show "drop_bit 2 (undo_code undo) = uHeight undo"
    by (simp add: word_unat_eq_iff h_def)
  have b: "bit (undo_code undo) i \<longleftrightarrow> i < 32 \<and> odd (v div 2 ^ i)" for i
    unfolding c by (simp only: bit_of_nat_iff) (simp add: bit_iff_odd [of v])
  have m: "undo_code undo AND 2 ^ i \<noteq> 0 \<longleftrightarrow> bit (undo_code undo) i" for i
    by (simp only: bit_iff_and_push_bit_not_eq_0 push_bit_of_1)
  have "bit (undo_code undo) 0 \<longleftrightarrow> uCoinStake undo" unfolding b by (auto simp: v_def)
  then show "undo_code undo AND 1 \<noteq> 0 \<longleftrightarrow> uCoinStake undo" using m [of 0] by simp
  have "v div 2 = 2 * h + (if uCoinBase undo then 1 else 0)" by (auto simp: v_def)
  then have "bit (undo_code undo) 1 \<longleftrightarrow> uCoinBase undo" unfolding b by simp
  then show "undo_code undo AND 2 \<noteq> 0 \<longleftrightarrow> uCoinBase undo" using m [of 1] by simp
qed

theorem get_put_CTxInUndo:
  assumes "recovers fully_valid decompress" "undo_ok undo"
  shows "\<exists>b. put_CTxInUndo fully_valid undo = Inr b \<and> get_CTxInUndo decompress (b @ rest) = Inr (undo, rest)"
proof -
  have u: "\<not> CTxOut_IsNull (utxout undo)" "out_ok (utxout undo)" "uHeight undo < 2 ^ 30"
    "0 \<le> uVersion undo" "uVersion undo < 2 ^ 31" "uHeight undo = 0 \<longrightarrow> uVersion undo = 0"
    using assms(2) by (simp_all add: undo_ok_def)
  obtain b where b: "put_txout fully_valid (utxout undo) = Inr b"
    "get_txout decompress (b @ rest) = Inr (utxout undo, rest)"
    using get_txout_put_txout [OF assms(1), of "utxout undo" rest] u(1,2) by (auto simp: out_ok_def)
  note cb = undo_code_bits [OF u(3)]
  have "get_CTxInUndo decompress ((WriteVarInt (undo_code undo) @
         (if uHeight undo > 0 then put_varint_int (uVersion undo) else []) @ b) @ rest) = Inr (undo, rest)"
    using u(6)
    by (cases "uHeight undo = 0")
      (simp_all add: get_CTxInUndo_def ReadVarInt_WriteVarInt Let_def cb b(2) get_varint_int_put [OF u(4,5)]
        word_gt_0)
  then show ?thesis using b(1) by (simp add: put_CTxInUndo_def)
qed

section \<open>Spending and restoring an output\<close>

text \<open>The restoration of one input in DisconnectBlock; the flag is its contribution to fClean.\<close>

definition restore_input :: "CCoins \<Rightarrow> COutPoint \<Rightarrow> CTxInUndo \<Rightarrow> fault + bool \<times> CCoins" where
  "restore_input coins out undo =
     (let (clean1, coins) =
        (if uHeight undo \<noteq> 0 then
           (IsPruned coins,
            CCoins_empty\<lparr>fCoinBase := uCoinBase undo, cHeight := sint (uHeight undo), cVersion := uVersion undo\<rparr>)
         else (\<not> IsPruned coins, coins));
        clean2 = (\<not> IsAvailable coins (unat (outn out)));
        vs = cvout coins;
        need = unat (outn out + 1);
        vs = (if length vs < need then vs @ replicate (need - length vs) CTxOut_null else vs)
      in if unat (outn out) < length vs
         then Inr (clean1 \<and> clean2, coins\<lparr>cvout := vs[unat (outn out) := utxout undo]\<rparr>)
         else Inl Abort)"

lemma Cleanup_split:
  "\<exists>k. cvout coins = cvout (Cleanup coins) @ k \<and> list_all CTxOut_IsNull k"
proof -
  have "cvout coins = cvout (Cleanup coins) @ rev (takeWhile CTxOut_IsNull (rev (cvout coins)))"
    by (simp add: Cleanup_def) (metis rev_append rev_rev_ident takeWhile_dropWhile_id)
  moreover have "list_all CTxOut_IsNull (rev (takeWhile CTxOut_IsNull (rev (cvout coins))))"
    by (auto simp: list_all_iff dest: set_takeWhileD)
  ultimately show ?thesis by blast
qed

lemma Cleanup_clean: "is_clean (Cleanup coins)"
  using hd_dropWhile [of CTxOut_IsNull "rev (cvout coins)"]
  by (simp add: is_clean_def Cleanup_def last_rev del: dropWhile_eq_Nil_conv)

lemma is_clean_pruned: "is_clean coins \<Longrightarrow> IsPruned coins \<longleftrightarrow> cvout coins = []"
  by (cases "cvout coins = []") (auto simp: is_clean_def IsPruned_def list_all_iff)

lemma Cleanup_id: "is_clean coins \<Longrightarrow> Cleanup coins = coins"
  using rev_dropWhile_null [of coins 0] by (simp add: Cleanup_def)

lemma out_ok_null [simp]: "out_ok CTxOut_null" "CTxOut_IsNull CTxOut_null"
  by (simp_all add: out_ok_def CTxOut_IsNull_def CTxOut_null_def)

lemma all_null: "list_all out_ok k \<Longrightarrow> list_all CTxOut_IsNull k \<Longrightarrow> k = replicate (length k) CTxOut_null"
  by (induction k) (auto simp: out_ok_def)

lemma list_all_update: "list_all P xs \<Longrightarrow> P y \<Longrightarrow> list_all P (xs[i := y])"
  by (auto simp: list_all_iff dest!: set_update_subset_insert [THEN subsetD])

lemma Cleanup_coins_ok:
  assumes "list_all out_ok (cvout coins)" "length (cvout coins) < 2 ^ 30"
    "0 \<le> cHeight coins" "cHeight coins < 2 ^ 31" "0 \<le> cVersion coins" "cVersion coins < 2 ^ 31"
  shows "coins_ok (Cleanup coins)"
proof -
  obtain k where k: "cvout coins = cvout (Cleanup coins) @ k" using Cleanup_split by blast
  then have "list_all out_ok (cvout (Cleanup coins))" "length (cvout (Cleanup coins)) < 2 ^ 30"
    using assms(1,2) by (auto dest: arg_cong [where f = length])
  then show ?thesis using assms(3-) Cleanup_clean by (simp add: coins_ok_def) (simp add: Cleanup_def)
qed

lemma Spend_coins_ok:
  assumes "Spend coins out = Some (coins', undo)" "coins_ok coins"
  shows "coins_ok coins'"
proof -
  have "coins' = Cleanup (coins\<lparr>cvout := (cvout coins)[unat (outn out) := CTxOut_null]\<rparr>)"
    using assms(1) by (auto simp: Spend_def Let_def split: if_splits)
  moreover have "list_all out_ok ((cvout coins)[unat (outn out) := CTxOut_null])"
    using assms(2) by (simp add: coins_ok_def list_all_update)
  ultimately show ?thesis using assms(2) Cleanup_coins_ok [of "coins\<lparr>cvout := (cvout coins)[unat (outn out) := CTxOut_null]\<rparr>"]
    by (simp add: coins_ok_def)
qed

lemma Spend_undo_ok:
  assumes "coins_ok coins" "0 < cHeight coins" "cHeight coins < 2 ^ 30" "Spend coins out = Some (coins', undo)"
  shows "undo_ok undo"
proof -
  let ?n = "unat (outn out)"
  have n: "?n < length (cvout coins)" "\<not> CTxOut_IsNull (cvout coins ! ?n)"
    and undo: "utxout undo = cvout coins ! ?n"
      "uHeight undo = (if cvout coins' = [] then word_of_int (cHeight coins) else 0)"
      "uVersion undo = (if cvout coins' = [] then cVersion coins else 0)"
    using assms(4) by (auto simp: Spend_def Let_def split: if_splits)
  have h: "uint (word_of_int (cHeight coins) :: 32 word) = cHeight coins"
    using assms(2,3) by (simp add: uint_word_of_int)
  have "out_ok (cvout coins ! ?n)" "0 \<le> cVersion coins" "cVersion coins < 2 ^ 31"
    using assms(1) n(1) by (auto simp: coins_ok_def list_all_length)
  moreover have "(word_of_int (cHeight coins) :: 32 word) < 2 ^ 30" "(word_of_int (cHeight coins) :: 32 word) \<noteq> 0"
    using h assms(2,3) by (auto simp: word_less_def)
  ultimately show ?thesis using n undo by (simp add: undo_ok_def)
qed

text \<open>Restoring a spent output gives the coins back, all but the coin-stake flag when the output
was the last one.\<close>

theorem restore_Spend:
  assumes "coins_ok coins" "0 < cHeight coins" "Spend coins out = Some (coins', undo)"
  shows "restore_input coins' out undo =
    Inr (True, if cvout coins' = [] then coins\<lparr>fCoinStake := False\<rparr> else coins)"
proof -
  define n where "n = unat (outn out)"
  have n: "n < length (cvout coins)" and nn: "\<not> CTxOut_IsNull (cvout coins ! n)"
    and c': "coins' = Cleanup (coins\<lparr>cvout := (cvout coins)[n := CTxOut_null]\<rparr>)"
    and undo: "utxout undo = cvout coins ! n"
      "uHeight undo = (if cvout coins' = [] then word_of_int (cHeight coins) else 0)"
      "uCoinBase undo = (cvout coins' = [] \<and> fCoinBase coins)"
      "uVersion undo = (if cvout coins' = [] then cVersion coins else 0)"
    using assms(3) by (auto simp: Spend_def Let_def n_def split: if_splits)
  have ok: "list_all out_ok (cvout coins)" "length (cvout coins) < 2 ^ 30" "is_clean coins"
    "cHeight coins < 2 ^ 31"
    using assms(1) by (auto simp: coins_ok_def)
  obtain k where k: "(cvout coins)[n := CTxOut_null] = cvout coins' @ k" "list_all CTxOut_IsNull k"
    using Cleanup_split [of "coins\<lparr>cvout := (cvout coins)[n := CTxOut_null]\<rparr>"] unfolding c' by auto
  have "list_all out_ok ((cvout coins)[n := CTxOut_null])"
    using ok(1) by (simp add: list_all_update)
  then have kk: "k = replicate (length k) CTxOut_null" using k by (intro all_null) auto
  have len: "length (cvout coins) = length (cvout coins') + length k"
    using arg_cong [OF k(1), of length] by simp
  have out: "outn out + 1 = of_nat (n + 1)" by (simp add: n_def)
  have need: "unat (outn out + 1) = n + 1"
    unfolding out using n ok(2) by (simp only: unat_of_nat) simp
  have h: "sint (word_of_int (cHeight coins) :: 32 word) = cHeight coins"
    using assms(2) ok(4) by (simp add: signed_of_int signed_take_bit_int_eq_self)
  have h0: "(word_of_int (cHeight coins) :: 32 word) \<noteq> 0"
    using h assms(2) by (metis less_irrefl signed_0)
  have last: "n = length (cvout coins) - 1" if "k \<noteq> []"
  proof (rule ccontr)
    assume "n \<noteq> length (cvout coins) - 1"
    moreover have "last ((cvout coins)[n := CTxOut_null]) = last k" using k(1) that by simp
    moreover have "cvout coins \<noteq> []" using n by auto
    ultimately have "last (cvout coins) = last k" by (simp add: last_list_update)
    then show False using k(2) ok(3) that n by (auto simp: is_clean_def list_all_iff)
  qed
  have pad: "(if length (cvout coins') < n + 1
      then cvout coins' @ replicate (n + 1 - length (cvout coins')) CTxOut_null else cvout coins') =
      (cvout coins)[n := CTxOut_null]"
  proof (cases "k = []")
    case True
    then show ?thesis using k(1) len n by simp
  next
    case False
    then show ?thesis using last [OF False] len n kk k(1) by simp
  qed
  have unavail: "\<not> IsAvailable c n" if "cvout c = cvout coins'" for c
  proof -
    have "CTxOut_IsNull (cvout coins' ! n)" if "n < length (cvout coins')"
      using that k(1) n by (metis nth_append nth_list_update_eq out_ok_null(2))
    then show ?thesis by (auto simp: IsAvailable_def that)
  qed
  have set_back: "((cvout coins)[n := CTxOut_null])[n := cvout coins ! n] = cvout coins" by simp
  have clean': "is_clean coins'" unfolding c' by (rule Cleanup_clean)
  have meta: "coins'\<lparr>cvout := v\<rparr> = coins\<lparr>cvout := v\<rparr>" for v
    by (simp add: c' Cleanup_def)
  show ?thesis
  proof (cases "cvout coins' = []")
    case True
    have "replicate (n + 1) CTxOut_null = (cvout coins)[n := CTxOut_null]"
      using pad True by simp
    moreover have "\<not> IsAvailable (CCoins_empty\<lparr>fCoinBase := b, cHeight := h', cVersion := v\<rparr>) n" for b h' v
      by (rule unavail) (simp add: True CCoins_empty_def)
    ultimately show ?thesis
      using True n ok assms(2) h0 set_back undo is_clean_pruned [OF clean'] need
      by (simp add: restore_input_def n_def [symmetric] h Let_def CCoins_empty_def del: replicate_Suc replicate.simps)
  next
    case False
    then have "\<not> IsPruned coins'" using is_clean_pruned [OF clean'] by simp
    then show ?thesis
      using False n set_back undo need pad unavail [of coins'] meta
      by (cases "length (cvout coins') < Suc n") (simp_all add: restore_input_def n_def [symmetric] Let_def)
  qed
qed

end
