(* ===== verification/CoinsView.thy ===== *)
theory CoinsView
  imports Coins
begin

text \<open>
  The views on the set of unspent outputs (CCoinsView and its subclasses in coins.h, coins.cpp and
  txdb.cpp).  The virtual methods of CCoinsView are a record of functions, so that a cache is
  defined over any other view, as in the code: the node uses a cache over a cache over the
  database.  The interface locale \<open>coins_view\<close> states what a view promises; the database meets it,
  and a cache over a view that meets it meets it too.

  The database is a map from transaction hashes to the serialized coins (LevelDB's contract for the
  keys ('c', hash)) and the entry 'B'.
\<close>

section \<open>The interface\<close>

record centry =
  ecoins :: CCoins
  eDirty :: bool
  eFresh :: bool

definition centry_empty :: centry where
  "centry_empty = \<lparr>ecoins = CCoins_empty, eDirty = False, eFresh = False\<rparr>"

text \<open>A CCoinsMap that is handed over is the list of its entries in the order of iteration of the
unordered map.  Get-methods return the view too, as they fill the caches below.\<close>

record 's coins_ops =
  op_GetCoins :: "'s \<Rightarrow> uint256 \<Rightarrow> fault + CCoins option \<times> 's"
  op_HaveCoins :: "'s \<Rightarrow> uint256 \<Rightarrow> fault + bool \<times> 's"
  op_GetBestBlock :: "'s \<Rightarrow> fault + uint256 \<times> 's"
  op_BatchWrite :: "(uint256 \<times> centry) list \<Rightarrow> uint256 \<Rightarrow> 's \<Rightarrow> fault + bool \<times> 's"

text \<open>The base class, and CCoinsViewBacked, which forwards.\<close>

definition CCoinsView_ops :: "'s coins_ops" where
  "CCoinsView_ops = \<lparr>op_GetCoins = \<lambda>s txid. Inr (None, s), op_HaveCoins = \<lambda>s txid. Inr (False, s),
     op_GetBestBlock = \<lambda>s. Inr (0, s), op_BatchWrite = \<lambda>es h s. Inr (False, s)\<rparr>"

definition Backed_ops :: "'s coins_ops \<Rightarrow> 's coins_ops" where
  "Backed_ops base = \<lparr>op_GetCoins = \<lambda>s txid. op_GetCoins base s txid,
     op_HaveCoins = \<lambda>s txid. op_HaveCoins base s txid, op_GetBestBlock = \<lambda>s. op_GetBestBlock base s,
     op_BatchWrite = \<lambda>es h s. op_BatchWrite base es h s\<rparr>"

section \<open>The database\<close>

record coins_db =
  dbCoins :: "uint256 \<rightharpoonup> bytes"
  dbBest :: "uint256 option"

definition BatchWriteCoins :: "(bytes \<Rightarrow> bool) \<Rightarrow> (uint256 \<rightharpoonup> bytes) \<Rightarrow> uint256 \<Rightarrow> CCoins \<Rightarrow> fault + (uint256 \<rightharpoonup> bytes)" where
  "BatchWriteCoins fully_valid batch txid coins =
     (if IsPruned coins then Inr (batch(txid := None))
      else bindE (put_CCoins fully_valid coins) (\<lambda>b. Inr (batch(txid := Some b))))"

definition DB_GetCoins :: "(bytes \<Rightarrow> bytes option) \<Rightarrow> coins_db \<Rightarrow> uint256 \<Rightarrow> fault + CCoins option \<times> coins_db" where
  "DB_GetCoins decompress db txid =
     (case dbCoins db txid of
        None \<Rightarrow> Inr (None, db)
      | Some b \<Rightarrow>
          (case get_CCoins decompress b of
             Inl Abort \<Rightarrow> Inl Abort
           | Inl _ \<Rightarrow> Inr (None, db)
           | Inr (coins, _) \<Rightarrow> Inr (Some coins, db)))"

definition DB_HaveCoins :: "coins_db \<Rightarrow> uint256 \<Rightarrow> fault + bool \<times> coins_db" where
  "DB_HaveCoins db txid = Inr (dbCoins db txid \<noteq> None, db)"

definition DB_GetBestBlock :: "coins_db \<Rightarrow> fault + uint256 \<times> coins_db" where
  "DB_GetBestBlock db = Inr (case dbBest db of None \<Rightarrow> 0 | Some h \<Rightarrow> h, db)"

fun DB_batch :: "(bytes \<Rightarrow> bool) \<Rightarrow> (uint256 \<times> centry) list \<Rightarrow> (uint256 \<rightharpoonup> bytes) \<Rightarrow> fault + (uint256 \<rightharpoonup> bytes)" where
  "DB_batch fully_valid [] batch = Inr batch"
| "DB_batch fully_valid ((txid, e) # es) batch =
     bindE (if eDirty e then BatchWriteCoins fully_valid batch txid (ecoins e) else Inr batch)
       (DB_batch fully_valid es)"

definition DB_BatchWrite ::
  "(bytes \<Rightarrow> bool) \<Rightarrow> (uint256 \<times> centry) list \<Rightarrow> uint256 \<Rightarrow> coins_db \<Rightarrow> fault + bool \<times> coins_db" where
  "DB_BatchWrite fully_valid mapCoins h db =
     bindE (DB_batch fully_valid mapCoins (dbCoins db)) (\<lambda>batch.
       Inr (True, \<lparr>dbCoins = batch, dbBest = (if h \<noteq> 0 then Some h else dbBest db)\<rparr>))"

definition DB_ops :: "(bytes \<Rightarrow> bool) \<Rightarrow> (bytes \<Rightarrow> bytes option) \<Rightarrow> coins_db coins_ops" where
  "DB_ops fully_valid decompress = \<lparr>op_GetCoins = DB_GetCoins decompress, op_HaveCoins = DB_HaveCoins,
     op_GetBestBlock = DB_GetBestBlock, op_BatchWrite = DB_BatchWrite fully_valid\<rparr>"

section \<open>The cache\<close>

record 's cache =
  base :: 's
  cacheCoins :: "uint256 \<rightharpoonup> centry"
  hashBlock :: uint256
  hasModifier :: bool

definition new_cache :: "'s \<Rightarrow> 's cache" where
  "new_cache baseIn = \<lparr>base = baseIn, cacheCoins = Map.empty, hashBlock = 0, hasModifier = False\<rparr>"

definition FetchCoins :: "'s coins_ops \<Rightarrow> 's cache \<Rightarrow> uint256 \<Rightarrow> fault + centry option \<times> 's cache" where
  "FetchCoins ops c txid =
     (case cacheCoins c txid of
        Some e \<Rightarrow> Inr (Some e, c)
      | None \<Rightarrow>
          bindE (op_GetCoins ops (base c) txid) (\<lambda>(r, b).
            case r of
              None \<Rightarrow> Inr (None, c\<lparr>base := b\<rparr>)
            | Some tmp \<Rightarrow>
                let e = \<lparr>ecoins = tmp, eDirty = False, eFresh = IsPruned tmp\<rparr>
                in Inr (Some e, c\<lparr>base := b, cacheCoins := (cacheCoins c)(txid \<mapsto> e)\<rparr>)))"

definition GetCoins :: "'s coins_ops \<Rightarrow> 's cache \<Rightarrow> uint256 \<Rightarrow> fault + CCoins option \<times> 's cache" where
  "GetCoins ops c txid = bindE (FetchCoins ops c txid) (\<lambda>(r, c). Inr (map_option ecoins r, c))"

text \<open>AccessCoins returns a pointer into the cache instead of a copy.\<close>

definition AccessCoins :: "'s coins_ops \<Rightarrow> 's cache \<Rightarrow> uint256 \<Rightarrow> fault + CCoins option \<times> 's cache" where
  "AccessCoins ops c txid = bindE (FetchCoins ops c txid) (\<lambda>(r, c). Inr (map_option ecoins r, c))"

definition HaveCoins :: "'s coins_ops \<Rightarrow> 's cache \<Rightarrow> uint256 \<Rightarrow> fault + bool \<times> 's cache" where
  "HaveCoins ops c txid =
     bindE (FetchCoins ops c txid) (\<lambda>(r, c).
       Inr (case r of None \<Rightarrow> False | Some e \<Rightarrow> cvout (ecoins e) \<noteq> [], c))"

definition GetBestBlock :: "'s coins_ops \<Rightarrow> 's cache \<Rightarrow> fault + uint256 \<times> 's cache" where
  "GetBestBlock ops c =
     (if hashBlock c = 0
      then bindE (op_GetBestBlock ops (base c)) (\<lambda>(h, b). Inr (h, c\<lparr>base := b, hashBlock := h\<rparr>))
      else Inr (hashBlock c, c))"

definition SetBestBlock :: "uint256 \<Rightarrow> 's cache \<Rightarrow> 's cache" where
  "SetBestBlock h c = c\<lparr>hashBlock := h\<rparr>"

definition batch_entry :: "uint256 \<Rightarrow> centry \<Rightarrow> (uint256 \<rightharpoonup> centry) \<Rightarrow> fault + (uint256 \<rightharpoonup> centry)" where
  "batch_entry txid e m =
     (if \<not> eDirty e then Inr m
      else case m txid of
        None \<Rightarrow>
          if IsPruned (ecoins e) then Inr m
          else if \<not> eFresh e then Inl Abort
          else Inr (m(txid \<mapsto> \<lparr>ecoins = ecoins e, eDirty = True, eFresh = True\<rparr>))
      | Some us \<Rightarrow>
          if eFresh us \<and> IsPruned (ecoins e) then Inr (m(txid := None))
          else Inr (m(txid \<mapsto> us\<lparr>ecoins := ecoins e, eDirty := True\<rparr>)))"

fun batch_entries :: "(uint256 \<times> centry) list \<Rightarrow> (uint256 \<rightharpoonup> centry) \<Rightarrow> fault + (uint256 \<rightharpoonup> centry)" where
  "batch_entries [] m = Inr m"
| "batch_entries ((txid, e) # es) m = bindE (batch_entry txid e m) (batch_entries es)"

definition BatchWrite :: "(uint256 \<times> centry) list \<Rightarrow> uint256 \<Rightarrow> 's cache \<Rightarrow> fault + bool \<times> 's cache" where
  "BatchWrite mapCoins h c =
     (if hasModifier c then Inl Abort
      else bindE (batch_entries mapCoins (cacheCoins c)) (\<lambda>m. Inr (True, c\<lparr>cacheCoins := m, hashBlock := h\<rparr>)))"

definition cache_ops :: "'s coins_ops \<Rightarrow> 's cache coins_ops" where
  "cache_ops ops = \<lparr>op_GetCoins = GetCoins ops, op_HaveCoins = HaveCoins ops,
     op_GetBestBlock = GetBestBlock ops, op_BatchWrite = BatchWrite\<rparr>"

text \<open>\<open>mapCoins\<close> is the iteration order of the cache's own map.\<close>

definition Flush :: "'s coins_ops \<Rightarrow> (uint256 \<times> centry) list \<Rightarrow> 's cache \<Rightarrow> fault + bool \<times> 's cache" where
  "Flush ops mapCoins c =
     bindE (op_BatchWrite ops mapCoins (hashBlock c) (base c)) (\<lambda>(fOk, b).
       Inr (fOk, c\<lparr>base := b, cacheCoins := Map.empty\<rparr>))"

subsection \<open>Modification of an entry\<close>

text \<open>ModifyCoins with the constructor of CCoinsModifier, and its destructor.\<close>

definition modify_begin :: "'s coins_ops \<Rightarrow> 's cache \<Rightarrow> uint256 \<Rightarrow> fault + 's cache" where
  "modify_begin ops c txid =
     (if hasModifier c then Inl Abort
      else bindE
        (case cacheCoins c txid of
           Some e \<Rightarrow> Inr (e, c)
         | None \<Rightarrow>
             bindE (op_GetCoins ops (base c) txid) (\<lambda>(r, b).
               Inr (case r of
                      None \<Rightarrow> centry_empty\<lparr>eFresh := True\<rparr>
                    | Some coins \<Rightarrow> centry_empty\<lparr>ecoins := coins, eFresh := IsPruned coins\<rparr>,
                    c\<lparr>base := b\<rparr>)))
        (\<lambda>(e, c). Inr (c\<lparr>cacheCoins := (cacheCoins c)(txid \<mapsto> e\<lparr>eDirty := True\<rparr>), hasModifier := True\<rparr>)))"

definition modify_end :: "uint256 \<Rightarrow> 's cache \<Rightarrow> fault + 's cache" where
  "modify_end txid c =
     (if \<not> hasModifier c then Inl Abort
      else case cacheCoins c txid of
        None \<Rightarrow> Inl Abort
      | Some e \<Rightarrow>
          let e = e\<lparr>ecoins := Cleanup (ecoins e)\<rparr> in
          Inr (c\<lparr>hasModifier := False,
                 cacheCoins := (cacheCoins c)(txid := if eFresh e \<and> IsPruned (ecoins e) then None else Some e)\<rparr>))"

text \<open>The use of a modifier: \<open>f\<close> is what is done to the coins while it lives.\<close>

definition ModifyCoins ::
  "'s coins_ops \<Rightarrow> uint256 \<Rightarrow> (CCoins \<Rightarrow> fault + 'r \<times> CCoins) \<Rightarrow> 's cache \<Rightarrow> fault + 'r \<times> 's cache" where
  "ModifyCoins ops txid f c =
     bindE (modify_begin ops c txid) (\<lambda>c.
       case cacheCoins c txid of
         None \<Rightarrow> Inl Abort
       | Some e \<Rightarrow>
           bindE (f (ecoins e)) (\<lambda>(r, coins).
           bindE (modify_end txid (c\<lparr>cacheCoins := (cacheCoins c)(txid \<mapsto> e\<lparr>ecoins := coins\<rparr>)\<rparr>)) (\<lambda>c.
             Inr (r, c))))"

subsection \<open>Inputs of a transaction\<close>

definition GetOutputFor :: "'s coins_ops \<Rightarrow> 's cache \<Rightarrow> CTxIn \<Rightarrow> fault + CTxOut \<times> 's cache" where
  "GetOutputFor ops c input =
     bindE (AccessCoins ops c (outhash (prevout input))) (\<lambda>(r, c).
       case r of
         None \<Rightarrow> Inl Abort
       | Some coins \<Rightarrow>
           if IsAvailable coins (unat (outn (prevout input)))
           then Inr (cvout coins ! unat (outn (prevout input)), c) else Inl Abort)"

fun value_in_loop :: "'s coins_ops \<Rightarrow> CTxIn list \<Rightarrow> CAmount \<Rightarrow> 's cache \<Rightarrow> fault + CAmount \<times> 's cache" where
  "value_in_loop ops [] nResult c = Inr (nResult, c)"
| "value_in_loop ops (i # is) nResult c =
     bindE (GetOutputFor ops c i) (\<lambda>(out, c). value_in_loop ops is (wrap64 (nResult + nValue out)) c)"

definition GetValueIn :: "'s coins_ops \<Rightarrow> 's cache \<Rightarrow> CTransaction \<Rightarrow> fault + CAmount \<times> 's cache" where
  "GetValueIn ops c tx =
     bindE (IsCoinBase tx) (\<lambda>cb.
       if cb then Inr (0, c)
       else bindE (IsZerocoinSpend_tx tx) (\<lambda>zs.
         if zs then bindE (GetZerocoinSpent tx) (\<lambda>v. Inr (v, c))
         else value_in_loop ops (vin tx) 0 c))"

fun have_inputs_loop :: "'s coins_ops \<Rightarrow> CTxIn list \<Rightarrow> 's cache \<Rightarrow> fault + bool \<times> 's cache" where
  "have_inputs_loop ops [] c = Inr (True, c)"
| "have_inputs_loop ops (i # is) c =
     bindE (AccessCoins ops c (outhash (prevout i))) (\<lambda>(r, c).
       case r of
         None \<Rightarrow> Inr (False, c)
       | Some coins \<Rightarrow>
           if IsAvailable coins (unat (outn (prevout i))) then have_inputs_loop ops is c else Inr (False, c))"

definition HaveInputs :: "'s coins_ops \<Rightarrow> 's cache \<Rightarrow> CTransaction \<Rightarrow> fault + bool \<times> 's cache" where
  "HaveInputs ops c tx =
     bindE (IsCoinBase tx) (\<lambda>cb.
     bindE (if cb then Inr True else IsZerocoinSpend_tx tx) (\<lambda>skip.
       if skip then Inr (True, c) else have_inputs_loop ops (vin tx) c))"

section \<open>What a view promises\<close>

text \<open>The abstract state of a view: the coins of the transactions that still have an unspent
output.\<close>

type_synonym utxos = "uint256 \<Rightarrow> CCoins option"

definition live :: "CCoins option \<Rightarrow> CCoins option" where
  "live r = (case r of None \<Rightarrow> None | Some coins \<Rightarrow> if IsPruned coins then None else Some coins)"

definition batch_view :: "(uint256 \<times> centry) list \<Rightarrow> utxos \<Rightarrow> utxos" where
  "batch_view es V = (\<lambda>k. case map_of es k of
     None \<Rightarrow> V k | Some e \<Rightarrow> if eDirty e then live (Some (ecoins e)) else V k)"

text \<open>What the entries of a child must satisfy with respect to its parent: \<open>holds\<close> says that the
parent itself has an entry, so that a write need not be marked fresh.\<close>

definition entry_ok :: "utxos \<Rightarrow> (uint256 \<Rightarrow> bool) \<Rightarrow> uint256 \<Rightarrow> centry \<Rightarrow> bool" where
  "entry_ok V H k e \<longleftrightarrow> coins_ok (ecoins e) \<and> (eFresh e \<longrightarrow> V k = None) \<and> (\<not> eFresh e \<longrightarrow> H k) \<and>
     (\<not> eDirty e \<longrightarrow> live (Some (ecoins e)) = V k)"

definition batch_ok :: "utxos \<Rightarrow> (uint256 \<Rightarrow> bool) \<Rightarrow> (uint256 \<times> centry) list \<Rightarrow> bool" where
  "batch_ok V H es \<longleftrightarrow> distinct (map fst es) \<and> (\<forall>(k, e) \<in> set es. entry_ok V H k e)"

definition same_view ::
  "('s \<Rightarrow> bool) \<Rightarrow> ('s \<Rightarrow> utxos) \<Rightarrow> ('s \<Rightarrow> uint256) \<Rightarrow> ('s \<Rightarrow> uint256 \<Rightarrow> bool) \<Rightarrow> 's \<Rightarrow> 's \<Rightarrow> bool" where
  "same_view vinv view tip holds s s' \<longleftrightarrow>
     vinv s' \<and> view s' = view s \<and> tip s' = tip s \<and> (\<forall>k. holds s k \<longrightarrow> holds s' k)"

text \<open>What is needed to read through a view, and what a view promises that can be written to.\<close>

locale coins_reader =
  fixes ops :: "'s coins_ops" and vinv :: "'s \<Rightarrow> bool" and view :: "'s \<Rightarrow> utxos"
    and tip :: "'s \<Rightarrow> uint256" and holds :: "'s \<Rightarrow> uint256 \<Rightarrow> bool"
  assumes get_coins: "vinv s \<Longrightarrow> \<exists>r s'. op_GetCoins ops s k = Inr (r, s') \<and> same_view vinv view tip holds s s' \<and>
      live r = view s k \<and> (\<forall>coins. r = Some coins \<longrightarrow> coins_ok coins \<and> holds s' k)"
    and best_block: "vinv s \<Longrightarrow> \<exists>s'. op_GetBestBlock ops s = Inr (tip s, s') \<and> same_view vinv view tip holds s s'"

locale coins_view = coins_reader +
  assumes have_coins: "vinv s \<Longrightarrow> \<exists>s'. op_HaveCoins ops s k = Inr (view s k \<noteq> None, s') \<and>
      same_view vinv view tip holds s s'"
    and batch_write: "vinv s \<Longrightarrow> batch_ok (view s) (holds s) es \<Longrightarrow>
      \<exists>s'. op_BatchWrite ops es h s = Inr (True, s') \<and> vinv s' \<and> view s' = batch_view es (view s) \<and>
        (h \<noteq> 0 \<longrightarrow> tip s' = h)"

text \<open>The invariant and the abstract state of a cache over such a view.\<close>

definition entries_ok :: "utxos \<Rightarrow> (uint256 \<Rightarrow> bool) \<Rightarrow> (uint256 \<rightharpoonup> centry) \<Rightarrow> bool" where
  "entries_ok V H m \<longleftrightarrow> (\<forall>k e. m k = Some e \<longrightarrow> entry_ok V H k e)"

definition cache_inv ::
  "('s \<Rightarrow> bool) \<Rightarrow> ('s \<Rightarrow> utxos) \<Rightarrow> ('s \<Rightarrow> uint256 \<Rightarrow> bool) \<Rightarrow> 's cache \<Rightarrow> bool" where
  "cache_inv vinv view holds c \<longleftrightarrow>
     vinv (base c) \<and> \<not> hasModifier c \<and> entries_ok (view (base c)) (holds (base c)) (cacheCoins c)"

definition over :: "(uint256 \<rightharpoonup> centry) \<Rightarrow> utxos \<Rightarrow> utxos" where
  "over m V = (\<lambda>k. case m k of None \<Rightarrow> V k | Some e \<Rightarrow> live (Some (ecoins e)))"

definition cache_view :: "('s \<Rightarrow> utxos) \<Rightarrow> 's cache \<Rightarrow> utxos" where
  "cache_view view c = over (cacheCoins c) (view (base c))"

definition cache_tip :: "('s \<Rightarrow> uint256) \<Rightarrow> 's cache \<Rightarrow> uint256" where
  "cache_tip tip c = (if hashBlock c = 0 then tip (base c) else hashBlock c)"

definition cache_holds :: "'s cache \<Rightarrow> uint256 \<Rightarrow> bool" where
  "cache_holds c k \<longleftrightarrow> cacheCoins c k \<noteq> None"

section \<open>The batch write of a cache\<close>

lemma live_pruned: "live (Some coins) = None \<longleftrightarrow> IsPruned coins"
  by (simp add: live_def)

lemma coins_ok_live: "coins_ok coins \<Longrightarrow> live (Some coins) \<noteq> None \<longleftrightarrow> cvout coins \<noteq> []"
  by (simp add: live_def coins_ok_def is_clean_pruned)

lemma batch_entry_ok:
  assumes "entries_ok V H m" "entry_ok (over m V) (\<lambda>k. m k \<noteq> None) k e"
  shows "\<exists>m'. batch_entry k e m = Inr m' \<and> entries_ok V H m' \<and>
    over m' V = (if eDirty e then (over m V)(k := live (Some (ecoins e))) else over m V) \<and>
    (\<forall>k'. k' \<noteq> k \<longrightarrow> m' k' = m k')"
proof (cases "m k")
  case None
  then show ?thesis
    using assms by (auto simp: batch_entry_def entries_ok_def entry_ok_def over_def live_def)
next
  case (Some us)
  then have "entry_ok V H k us" using assms(1) by (auto simp: entries_ok_def)
  then show ?thesis
    using assms Some by (auto simp: batch_entry_def entries_ok_def entry_ok_def over_def live_def)
qed

lemma entry_ok_other:
  "entry_ok V H k e \<Longrightarrow> V' k = V k \<Longrightarrow> (H k \<longrightarrow> H' k) \<Longrightarrow> entry_ok V' H' k e"
  by (auto simp: entry_ok_def)

lemma batch_entries_ok:
  assumes "entries_ok V H m" "batch_ok (over m V) (\<lambda>k. m k \<noteq> None) es"
  shows "\<exists>m'. batch_entries es m = Inr m' \<and> entries_ok V H m' \<and> over m' V = batch_view es (over m V)"
  using assms
proof (induction es arbitrary: m)
  case (Cons x es)
  obtain k e where x: "x = (k, e)" by fastforce
  obtain m' where m': "batch_entry k e m = Inr m'" "entries_ok V H m'"
    "over m' V = (if eDirty e then (over m V)(k := live (Some (ecoins e))) else over m V)"
    "\<forall>k'. k' \<noteq> k \<longrightarrow> m' k' = m k'"
    using batch_entry_ok [OF Cons.prems(1), of k e] Cons.prems(2) unfolding x batch_ok_def by auto
  have "batch_ok (over m' V) (\<lambda>k. m' k \<noteq> None) es"
    using Cons.prems(2) m'(3,4) unfolding x batch_ok_def
    by (fastforce simp: image_iff elim!: entry_ok_other split: if_splits)
  then obtain m'' where m'': "batch_entries es m' = Inr m''" "entries_ok V H m''"
    "over m'' V = batch_view es (over m' V)" using Cons.IH m'(2) by blast
  have "k \<notin> fst ` set es" using Cons.prems(2) by (simp add: x batch_ok_def)
  then have "map_of es k = None" by (simp add: map_of_eq_None_iff)
  then have "batch_view es (over m' V) = batch_view (x # es) (over m V)"
    unfolding x m'(3) batch_view_def by (auto simp: fun_eq_iff split: option.splits)
  then show ?case using m'(1) m'' by (simp add: x)
qed (simp add: batch_view_def)

section \<open>A cache over a view is a view\<close>

context coins_reader
begin

abbreviation cinv where "cinv \<equiv> cache_inv vinv view holds"
abbreviation csame where "csame \<equiv> same_view cinv (cache_view view) (cache_tip tip) cache_holds"

lemma same_base:
  assumes "cinv c" "same_view vinv view tip holds (base c) b"
  shows "csame c (c\<lparr>base := b\<rparr>)"
  using assms
  by (auto simp: same_view_def cache_inv_def cache_view_def cache_tip_def cache_holds_def
      entries_ok_def entry_ok_def)

lemma FetchCoins:
  assumes "cinv c"
  shows "\<exists>r c'. FetchCoins ops c k = Inr (r, c') \<and> csame c c' \<and>
    live (map_option ecoins r) = cache_view view c k \<and> cacheCoins c' k = r \<and>
    (\<forall>e. r = Some e \<longrightarrow> coins_ok (ecoins e))"
proof (cases "cacheCoins c k")
  case (Some e)
  then show ?thesis
    using assms by (auto simp: FetchCoins_def same_view_def cache_inv_def cache_view_def over_def
        entries_ok_def entry_ok_def)
next
  case None
  obtain r b where b: "op_GetCoins ops (base c) k = Inr (r, b)" "same_view vinv view tip holds (base c) b"
    "live r = view (base c) k" "\<forall>coins. r = Some coins \<longrightarrow> coins_ok coins \<and> holds b k"
    using get_coins [of "base c" k] assms by (auto simp: cache_inv_def)
  note s = same_base [OF assms b(2)]
  show ?thesis
  proof (cases r)
    case None': None
    then show ?thesis using None b s
      by (auto simp: FetchCoins_def cache_view_def over_def)
  next
    case (Some coins)
    let ?e = "\<lparr>ecoins = coins, eDirty = False, eFresh = IsPruned coins\<rparr>"
    let ?c = "c\<lparr>base := b, cacheCoins := (cacheCoins c)(k \<mapsto> ?e)\<rparr>"
    have "entry_ok (view b) (holds b) k ?e"
      using b Some by (auto simp: entry_ok_def same_view_def live_def split: if_splits)
    then have "cinv ?c" using s by (auto simp: same_view_def cache_inv_def entries_ok_def)
    moreover have "cache_view view ?c = cache_view view c"
      using b Some None by (auto simp: cache_view_def over_def same_view_def fun_eq_iff split: option.splits)
    ultimately have "csame c ?c" using s by (auto simp: same_view_def cache_tip_def cache_holds_def)
    then show ?thesis using Some None b by (auto simp: FetchCoins_def Let_def cache_view_def over_def)
  qed
qed

lemma AccessCoins:
  assumes "cinv c"
  shows "\<exists>r c'. AccessCoins ops c k = Inr (r, c') \<and> csame c c' \<and> live r = cache_view view c k"
  using FetchCoins [OF assms, of k] by (auto simp: AccessCoins_def)

lemma HaveCoins:
  assumes "cinv c"
  shows "\<exists>c'. HaveCoins ops c k = Inr (cache_view view c k \<noteq> None, c') \<and> csame c c'"
proof -
  obtain r c' where f: "FetchCoins ops c k = Inr (r, c')" "csame c c'" "live (map_option ecoins r) = cache_view view c k"
    "\<forall>e. r = Some e \<longrightarrow> coins_ok (ecoins e)" using FetchCoins [OF assms] by blast
  have "(case r of None \<Rightarrow> False | Some e \<Rightarrow> cvout (ecoins e) \<noteq> []) \<longleftrightarrow> cache_view view c k \<noteq> None"
    using f(3,4) coins_ok_live by (cases r) (auto simp: live_def [of None] simp flip: f(3))
  then show ?thesis using f(1,2) by (simp add: HaveCoins_def)
qed

lemma GetBestBlock:
  assumes "cinv c"
  shows "\<exists>c'. GetBestBlock ops c = Inr (cache_tip tip c, c') \<and> csame c c'"
proof (cases "hashBlock c = 0")
  case True
  obtain b where b: "op_GetBestBlock ops (base c) = Inr (tip (base c), b)"
    "same_view vinv view tip holds (base c) b" using best_block [of "base c"] assms by (auto simp: cache_inv_def)
  have "csame c (c\<lparr>base := b, hashBlock := tip (base c)\<rparr>)"
    using same_base [OF assms b(2)] b(2) True
    by (auto simp: same_view_def cache_inv_def cache_view_def cache_tip_def cache_holds_def)
  then show ?thesis using b True by (auto simp: GetBestBlock_def cache_tip_def)
qed (use assms in \<open>auto simp: GetBestBlock_def cache_tip_def same_view_def\<close>)

end

context coins_view
begin

lemma Flush:
  assumes "cinv c" "distinct (map fst es)" "map_of es = cacheCoins c"
  shows "\<exists>c'. Flush ops es c = Inr (True, c') \<and> cinv c' \<and> cacheCoins c' = Map.empty \<and>
    cache_view view c' = cache_view view c \<and> view (base c') = cache_view view c \<and>
    (hashBlock c \<noteq> 0 \<longrightarrow> tip (base c') = hashBlock c)"
proof -
  have e: "entry_ok (view (base c)) (holds (base c)) k e" if "(k, e) \<in> set es" for k e
    using assms(1) map_of_is_SomeI [OF assms(2) that]
    by (simp add: assms(3) cache_inv_def entries_ok_def)
  then have "batch_ok (view (base c)) (holds (base c)) es"
    using assms(2) by (auto simp: batch_ok_def)
  then obtain b where b: "op_BatchWrite ops es (hashBlock c) (base c) = Inr (True, b)" "vinv b"
    "view b = batch_view es (view (base c))" "hashBlock c \<noteq> 0 \<longrightarrow> tip b = hashBlock c"
    using batch_write [of "base c" es "hashBlock c"] assms(1) by (auto simp: cache_inv_def)
  have "batch_view es (view (base c)) = cache_view view c"
    using assms(1) unfolding batch_view_def cache_view_def over_def assms(3)
    by (auto simp: fun_eq_iff cache_inv_def entries_ok_def entry_ok_def split: option.splits)
  then show ?thesis using b assms(1)
    by (auto simp: Flush_def cache_inv_def cache_view_def over_def entries_ok_def)
qed

lemma BatchWrite:
  assumes "cinv c" "batch_ok (cache_view view c) (cache_holds c) es"
  shows "\<exists>c'. BatchWrite es h c = Inr (True, c') \<and> cinv c' \<and>
    cache_view view c' = batch_view es (cache_view view c) \<and> (h \<noteq> 0 \<longrightarrow> cache_tip tip c' = h)"
proof -
  have "batch_ok (over (cacheCoins c) (view (base c))) (\<lambda>k. cacheCoins c k \<noteq> None) es"
    using assms(2) by (simp add: cache_view_def cache_holds_def [abs_def])
  then obtain m where "batch_entries es (cacheCoins c) = Inr m"
    "entries_ok (view (base c)) (holds (base c)) m"
    "over m (view (base c)) = batch_view es (over (cacheCoins c) (view (base c)))"
    using batch_entries_ok assms(1) unfolding cache_inv_def by blast
  then show ?thesis using assms(1)
    by (auto simp: BatchWrite_def cache_inv_def cache_view_def cache_tip_def)
qed

lemma cache_coins_view:
  "coins_view (cache_ops ops) cinv (cache_view view) (cache_tip tip) cache_holds"
proof
  fix c k assume c: "cinv c"
  obtain r c' where f: "FetchCoins ops c k = Inr (r, c')" "csame c c'"
    "live (map_option ecoins r) = cache_view view c k" "cacheCoins c' k = r"
    "\<forall>e. r = Some e \<longrightarrow> coins_ok (ecoins e)" using FetchCoins [OF c] by blast
  show "\<exists>r s'. op_GetCoins (cache_ops ops) c k = Inr (r, s') \<and> csame c s' \<and>
      live r = cache_view view c k \<and> (\<forall>coins. r = Some coins \<longrightarrow> coins_ok coins \<and> cache_holds s' k)"
    using f by (auto simp: cache_ops_def GetCoins_def cache_holds_def)
  show "\<exists>s'. op_HaveCoins (cache_ops ops) c k = Inr (cache_view view c k \<noteq> None, s') \<and> csame c s'"
    using HaveCoins [OF c] by (simp add: cache_ops_def)
next
  fix c assume "cinv c"
  then show "\<exists>s'. op_GetBestBlock (cache_ops ops) c = Inr (cache_tip tip c, s') \<and> csame c s'"
    using GetBestBlock by (simp add: cache_ops_def)
next
  fix c es h assume "cinv c" "batch_ok (cache_view view c) (cache_holds c) es"
  then show "\<exists>s'. op_BatchWrite (cache_ops ops) es h c = Inr (True, s') \<and> cinv s' \<and>
      cache_view view s' = batch_view es (cache_view view c) \<and> (h \<noteq> 0 \<longrightarrow> cache_tip tip s' = h)"
    using BatchWrite by (simp add: cache_ops_def)
qed

end

section \<open>The database is a view\<close>

definition stored :: "(bytes \<Rightarrow> bool) \<Rightarrow> bytes \<Rightarrow> bool" where
  "stored fully_valid b \<longleftrightarrow> (\<exists>coins. coins_ok coins \<and> \<not> IsPruned coins \<and> put_CCoins fully_valid coins = Inr b)"

definition all_stored :: "(bytes \<Rightarrow> bool) \<Rightarrow> (uint256 \<rightharpoonup> bytes) \<Rightarrow> bool" where
  "all_stored fully_valid m \<longleftrightarrow> (\<forall>k b. m k = Some b \<longrightarrow> stored fully_valid b)"

definition db_inv :: "(bytes \<Rightarrow> bool) \<Rightarrow> (bytes \<Rightarrow> bytes option) \<Rightarrow> coins_db \<Rightarrow> bool" where
  "db_inv fully_valid decompress db \<longleftrightarrow>
     recovers fully_valid decompress \<and> all_stored fully_valid (dbCoins db)"

definition decoded :: "(bytes \<Rightarrow> bytes option) \<Rightarrow> (uint256 \<rightharpoonup> bytes) \<Rightarrow> utxos" where
  "decoded decompress m k = (case m k of
     None \<Rightarrow> None
   | Some b \<Rightarrow> (case get_CCoins decompress b of Inl _ \<Rightarrow> None | Inr (coins, _) \<Rightarrow> Some coins))"

definition db_view :: "(bytes \<Rightarrow> bytes option) \<Rightarrow> coins_db \<Rightarrow> utxos" where
  "db_view decompress db = decoded decompress (dbCoins db)"

definition db_tip :: "coins_db \<Rightarrow> uint256" where
  "db_tip db = (case dbBest db of None \<Rightarrow> 0 | Some h \<Rightarrow> h)"

definition db_holds :: "coins_db \<Rightarrow> uint256 \<Rightarrow> bool" where
  "db_holds db k \<longleftrightarrow> True"

lemma get_stored:
  assumes "recovers fully_valid decompress" "stored fully_valid b"
  obtains coins where "get_CCoins decompress b = Inr (coins, [])" "coins_ok coins" "\<not> IsPruned coins"
proof -
  obtain coins where c: "coins_ok coins" "\<not> IsPruned coins" "put_CCoins fully_valid coins = Inr b"
    using assms(2) by (auto simp: stored_def)
  then have "get_CCoins decompress b = Inr (coins, [])"
    using get_put_CCoins [OF assms(1) c(1,2), of "[]"] by auto
  then show ?thesis using that c by blast
qed

lemma decoded_upd:
  "decoded decompress (m(k := v)) =
    (decoded decompress m)(k := (case v of None \<Rightarrow> None | Some b \<Rightarrow>
       (case get_CCoins decompress b of Inl _ \<Rightarrow> None | Inr (coins, _) \<Rightarrow> Some coins)))"
  by (simp add: decoded_def fun_eq_iff)

lemma BatchWriteCoins_ok:
  assumes "recovers fully_valid decompress" "all_stored fully_valid m" "coins_ok coins"
  shows "\<exists>m'. BatchWriteCoins fully_valid m k coins = Inr m' \<and> all_stored fully_valid m' \<and>
    decoded decompress m' = (decoded decompress m)(k := live (Some coins))"
proof (cases "IsPruned coins")
  case True
  then show ?thesis using assms by (auto simp: BatchWriteCoins_def all_stored_def decoded_upd live_def)
next
  case False
  obtain b where b: "put_CCoins fully_valid coins = Inr b" "get_CCoins decompress (b @ []) = Inr (coins, [])"
    using get_put_CCoins [OF assms(1,3) False] by blast
  then have "stored fully_valid b" using assms(3) False by (auto simp: stored_def)
  then show ?thesis using assms b False
    by (auto simp: BatchWriteCoins_def all_stored_def decoded_upd live_def)
qed

lemma DB_batch_ok:
  assumes "recovers fully_valid decompress" "all_stored fully_valid m" "distinct (map fst es)"
    "\<forall>(k, e) \<in> set es. coins_ok (ecoins e)"
  shows "\<exists>m'. DB_batch fully_valid es m = Inr m' \<and> all_stored fully_valid m' \<and>
    decoded decompress m' = batch_view es (decoded decompress m)"
  using assms(2-)
proof (induction es arbitrary: m)
  case (Cons x es)
  obtain k e where x: "x = (k, e)" by fastforce
  have "map_of es k = None" using Cons.prems(2) by (simp add: x map_of_eq_None_iff)
  moreover obtain m' where m': "(if eDirty e then BatchWriteCoins fully_valid m k (ecoins e) else Inr m) = Inr m'"
    "all_stored fully_valid m'"
    "decoded decompress m' = (if eDirty e then (decoded decompress m)(k := live (Some (ecoins e))) else decoded decompress m)"
    using BatchWriteCoins_ok [OF assms(1) Cons.prems(1), of "ecoins e" k] Cons.prems(1,3)
    by (cases "eDirty e") (auto simp: x)
  ultimately have "batch_view es (decoded decompress m') = batch_view (x # es) (decoded decompress m)"
    unfolding x m'(3) batch_view_def by (auto simp: fun_eq_iff split: option.splits)
  then show ?case using Cons.IH [OF m'(2)] Cons.prems(2,3) m'(1) by (auto simp: x)
qed (simp add: batch_view_def)

interpretation db: coins_view "DB_ops fully_valid decompress" "db_inv fully_valid decompress"
  "db_view decompress" db_tip db_holds for fully_valid decompress
proof
  fix db k assume i: "db_inv fully_valid decompress db"
  have same: "same_view (db_inv fully_valid decompress) (db_view decompress) db_tip db_holds db db"
    using i by (simp add: same_view_def)
  show "\<exists>r s'. op_GetCoins (DB_ops fully_valid decompress) db k = Inr (r, s') \<and>
      same_view (db_inv fully_valid decompress) (db_view decompress) db_tip db_holds db s' \<and>
      live r = db_view decompress db k \<and> (\<forall>coins. r = Some coins \<longrightarrow> coins_ok coins \<and> db_holds s' k)"
  proof (cases "dbCoins db k")
    case None
    then show ?thesis using same
      by (simp add: DB_ops_def DB_GetCoins_def db_view_def decoded_def live_def)
  next
    case (Some b)
    have "recovers fully_valid decompress" "stored fully_valid b"
      using i Some by (auto simp: db_inv_def all_stored_def)
    then obtain coins where "get_CCoins decompress b = Inr (coins, [])" "coins_ok coins" "\<not> IsPruned coins"
      by (rule get_stored)
    then show ?thesis using same Some
      by (simp add: DB_ops_def DB_GetCoins_def db_view_def decoded_def live_def db_holds_def)
  qed
  have "dbCoins db k \<noteq> None \<longleftrightarrow> db_view decompress db k \<noteq> None"
  proof (cases "dbCoins db k")
    case (Some b)
    have "recovers fully_valid decompress" "stored fully_valid b"
      using i Some by (auto simp: db_inv_def all_stored_def)
    then obtain coins where "get_CCoins decompress b = Inr (coins, [])" by (rule get_stored)
    then show ?thesis by (simp add: db_view_def decoded_def Some)
  qed (simp add: db_view_def decoded_def)
  then show "\<exists>s'. op_HaveCoins (DB_ops fully_valid decompress) db k = Inr (db_view decompress db k \<noteq> None, s') \<and>
      same_view (db_inv fully_valid decompress) (db_view decompress) db_tip db_holds db s'"
    using same by (auto simp: DB_ops_def DB_HaveCoins_def)
  show "\<exists>s'. op_GetBestBlock (DB_ops fully_valid decompress) db = Inr (db_tip db, s') \<and>
      same_view (db_inv fully_valid decompress) (db_view decompress) db_tip db_holds db s'"
    using same by (auto simp: DB_ops_def DB_GetBestBlock_def db_tip_def)
next
  fix db es h
  assume i: "db_inv fully_valid decompress db" and b: "batch_ok (db_view decompress db) (db_holds db) es"
  obtain m where "DB_batch fully_valid es (dbCoins db) = Inr m" "all_stored fully_valid m"
    "decoded decompress m = batch_view es (decoded decompress (dbCoins db))"
    using DB_batch_ok [of fully_valid decompress "dbCoins db" es] i b
    by (auto simp: db_inv_def batch_ok_def entry_ok_def)
  then show "\<exists>s'. op_BatchWrite (DB_ops fully_valid decompress) es h db = Inr (True, s') \<and>
      db_inv fully_valid decompress s' \<and> db_view decompress s' = batch_view es (db_view decompress db) \<and>
      (h \<noteq> 0 \<longrightarrow> db_tip s' = h)"
    using i by (auto simp: DB_ops_def DB_BatchWrite_def db_inv_def db_view_def db_tip_def)
qed

text \<open>pcoinsTip, the cache over the database, and the view a block is connected in, a cache over
that.\<close>

abbreviation tip_inv where
  "tip_inv fully_valid decompress \<equiv> cache_inv (db_inv fully_valid decompress) (db_view decompress) db_holds"
abbreviation tip_view where "tip_view decompress \<equiv> cache_view (db_view decompress)"

interpretation tip: coins_view "cache_ops (DB_ops fully_valid decompress)" "tip_inv fully_valid decompress"
  "tip_view decompress" "cache_tip db_tip" cache_holds for fully_valid decompress
  by (rule db.cache_coins_view)

abbreviation block_inv where
  "block_inv fully_valid decompress \<equiv> cache_inv (tip_inv fully_valid decompress) (tip_view decompress) cache_holds"
abbreviation block_view where "block_view decompress \<equiv> cache_view (tip_view decompress)"

interpretation block: coins_view "cache_ops (cache_ops (DB_ops fully_valid decompress))"
  "block_inv fully_valid decompress" "block_view decompress" "cache_tip (cache_tip db_tip)" cache_holds
  for fully_valid decompress
  by (rule tip.cache_coins_view)

section \<open>Modifying the coins of a transaction\<close>

context coins_view
begin

lemma modify_begin:
  assumes "cinv c"
  shows "\<exists>e b. modify_begin ops c k =
      Inr (c\<lparr>base := b, cacheCoins := (cacheCoins c)(k \<mapsto> e), hasModifier := True\<rparr>) \<and>
    csame c (c\<lparr>base := b\<rparr>) \<and> eDirty e \<and> coins_ok (ecoins e) \<and>
    live (Some (ecoins e)) = cache_view view c k \<and>
    entry_ok (view b) (holds b) k e"
proof (cases "cacheCoins c k")
  case (Some e)
  then have "entry_ok (view (base c)) (holds (base c)) k (e\<lparr>eDirty := True\<rparr>)"
    "csame c (c\<lparr>base := base c\<rparr>)" "live (Some (ecoins e)) = cache_view view c k"
    using assms by (auto simp: cache_inv_def entries_ok_def entry_ok_def same_view_def cache_view_def over_def)
  then show ?thesis using Some assms
    by (intro exI [of _ "e\<lparr>eDirty := True\<rparr>"] exI [of _ "base c"])
      (auto simp: modify_begin_def cache_inv_def entry_ok_def)
next
  case None
  obtain r b where b: "op_GetCoins ops (base c) k = Inr (r, b)" "same_view vinv view tip holds (base c) b"
    "live r = view (base c) k" "\<forall>coins. r = Some coins \<longrightarrow> coins_ok coins \<and> holds b k"
    using get_coins [of "base c" k] assms by (auto simp: cache_inv_def)
  note s = same_base [OF assms b(2)]
  define e where "e = (case r of None \<Rightarrow> centry_empty\<lparr>eFresh := True\<rparr>
      | Some coins \<Rightarrow> centry_empty\<lparr>ecoins := coins, eFresh := IsPruned coins\<rparr>)\<lparr>eDirty := True\<rparr>"
  have "coins_ok CCoins_empty" "IsPruned CCoins_empty"
    by (simp_all add: coins_ok_def is_clean_def CCoins_empty_def IsPruned_def)
  then have "entry_ok (view b) (holds b) k e" "live (Some (ecoins e)) = live r" "eDirty e"
    using b by (auto simp: e_def entry_ok_def same_view_def centry_empty_def live_def split: option.splits if_splits)
  moreover have "cache_view view c k = view (base c) k" using None by (simp add: cache_view_def over_def)
  moreover have "modify_begin ops c k =
      Inr (c\<lparr>base := b, cacheCoins := (cacheCoins c)(k \<mapsto> e), hasModifier := True\<rparr>)"
    using None b(1) assms by (auto simp: modify_begin_def e_def cache_inv_def split: option.splits)
  ultimately show ?thesis using s b(3) by (auto simp: entry_ok_def)
qed

lemma ModifyCoins:
  fixes f :: "CCoins \<Rightarrow> fault + 'r \<times> CCoins"
  assumes "cinv c"
  obtains coins where "coins_ok coins" "live (Some coins) = cache_view view c k"
    "\<And>e. f coins = Inl e \<Longrightarrow> ModifyCoins ops k f c = Inl e"
    "\<And>r coins'. f coins = Inr (r, coins') \<Longrightarrow> coins_ok (Cleanup coins') \<Longrightarrow>
      \<exists>c'. ModifyCoins ops k f c = Inr (r, c') \<and> cinv c' \<and>
        cache_view view c' = (cache_view view c)(k := live (Some (Cleanup coins'))) \<and>
        cache_tip tip c' = cache_tip tip c \<and> hashBlock c' = hashBlock c"
proof -
  obtain e b where b: "modify_begin ops c k =
      Inr (c\<lparr>base := b, cacheCoins := (cacheCoins c)(k \<mapsto> e), hasModifier := True\<rparr>)"
    "csame c (c\<lparr>base := b\<rparr>)" "eDirty e" "coins_ok (ecoins e)" "live (Some (ecoins e)) = cache_view view c k"
    "entry_ok (view b) (holds b) k e"
    using modify_begin [OF assms] by blast
  show ?thesis
  proof (rule that [of "ecoins e"])
    fix r coins' assume f: "f (ecoins e) = Inr (r, coins')" "coins_ok (Cleanup coins')"
    let ?e = "e\<lparr>ecoins := Cleanup coins'\<rparr>"
    let ?c = "c\<lparr>base := b, hasModifier := False,
      cacheCoins := (cacheCoins c)(k := if eFresh e \<and> IsPruned (Cleanup coins') then None else Some ?e)\<rparr>"
    have m: "ModifyCoins ops k f c = Inr (r, ?c)"
      by (simp add: ModifyCoins_def b(1) f modify_end_def Let_def)
    have "entry_ok (view b) (holds b) k ?e"
      using b(3,6) f(2) by (auto simp: entry_ok_def)
    then have "cinv ?c" using b(2) by (auto simp: same_view_def cache_inv_def entries_ok_def)
    moreover have "cache_view view ?c = (cache_view view c)(k := live (Some (Cleanup coins')))"
    proof -
      have v: "view b k' = view (base c) k'" if "cacheCoins c k' = None" for k'
        using b(2) that by (auto simp: same_view_def cache_view_def over_def fun_eq_iff dest: spec [of _ k'])
      have "eFresh e \<Longrightarrow> view b k = None" using b(6) by (simp add: entry_ok_def)
      then show ?thesis using v
        by (auto simp: cache_view_def over_def live_def fun_eq_iff split: option.splits)
    qed
    moreover have "cache_tip tip ?c = cache_tip tip c" using b(2) by (auto simp: same_view_def cache_tip_def split: if_splits)
    ultimately show "\<exists>c'. ModifyCoins ops k f c = Inr (r, c') \<and> cinv c' \<and>
        cache_view view c' = (cache_view view c)(k := live (Some (Cleanup coins'))) \<and>
        cache_tip tip c' = cache_tip tip c \<and> hashBlock c' = hashBlock c"
      using m by auto
  qed (use b in \<open>simp_all add: ModifyCoins_def\<close>)
qed

end

end
