(* ===== verification/ChainState.thy ===== *)
theory ChainState
  imports CoinsView
begin

text \<open>
  The effect of a transaction on the coins and its reversal: UpdateCoins, and DisconnectBlock with
  the undo data of undo.h (main.cpp).  The zerocoin database and the accumulator checkpoints
  (libzerocoin) are outside the model: whether their entries could be erased is a parameter.
\<close>

section \<open>Connecting\<close>

fun spend_inputs :: "'s coins_ops \<Rightarrow> CTxIn list \<Rightarrow> 's cache \<Rightarrow> fault + CTxInUndo list \<times> 's cache" where
  "spend_inputs ops [] c = Inr ([], c)"
| "spend_inputs ops (i # is) c =
     bindE (ModifyCoins ops (outhash (prevout i)) (\<lambda>coins.
         case Spend coins (prevout i) of None \<Rightarrow> Inl Abort | Some (coins', undo) \<Rightarrow> Inr (undo, coins')) c) (\<lambda>(undo, c).
     bindE (spend_inputs ops is c) (\<lambda>(undos, c). Inr (undo # undos, c)))"

definition has_inputs :: "CTransaction \<Rightarrow> fault + bool" where
  "has_inputs tx =
     bindE (IsCoinBase tx) (\<lambda>cb. if cb then Inr False else bindE (IsZerocoinSpend_tx tx) (\<lambda>zs. Inr (\<not> zs)))"

definition UpdateCoins :: "'s coins_ops \<Rightarrow> CTransaction \<Rightarrow> int \<Rightarrow> 's cache \<Rightarrow> fault + CTxInUndo list \<times> 's cache" where
  "UpdateCoins ops tx nHeight inputs =
     bindE (has_inputs tx) (\<lambda>b.
     bindE (if b then spend_inputs ops (vin tx) inputs else Inr ([], inputs)) (\<lambda>(vprevout, inputs).
     bindE (ModifyCoins ops (GetHash tx) (\<lambda>_. bindE (FromTx tx nHeight) (\<lambda>coins. Inr ((), coins))) inputs) (\<lambda>(_, inputs).
       Inr (vprevout, inputs))))"

section \<open>Disconnecting\<close>

definition disconnect_outputs :: "'s coins_ops \<Rightarrow> CTransaction \<Rightarrow> int \<Rightarrow> 's cache \<Rightarrow> fault + bool \<times> 's cache" where
  "disconnect_outputs ops tx nHeight view =
     ModifyCoins ops (GetHash tx) (\<lambda>outs.
       bindE (FromTx tx nHeight) (\<lambda>outsBlock.
         let outs = ClearUnspendable outs;
             outs = (if cVersion outsBlock < 0 then outs\<lparr>cVersion := cVersion outsBlock\<rparr> else outs)
         in Inr (CCoins_eq outs outsBlock, CCoins_empty))) view"

text \<open>The loop over the inputs, on the list of outpoints and undo records in the order it visits
them (the last input first).\<close>

fun restore_inputs :: "'s coins_ops \<Rightarrow> (COutPoint \<times> CTxInUndo) list \<Rightarrow> 's cache \<Rightarrow> fault + bool \<times> 's cache" where
  "restore_inputs ops [] view = Inr (True, view)"
| "restore_inputs ops ((out, undo) # rest) view =
     bindE (ModifyCoins ops (outhash out) (\<lambda>coins. restore_input coins out undo) view) (\<lambda>(fClean, view).
     bindE (restore_inputs ops rest view) (\<lambda>(fClean', view). Inr (fClean \<and> fClean', view)))"

text \<open>One transaction; the result None is the error return of inconsistent undo data.\<close>

definition disconnect_tx ::
  "'s coins_ops \<Rightarrow> CTransaction \<Rightarrow> int \<Rightarrow> CTxInUndo list option \<Rightarrow> 's cache \<Rightarrow> fault + bool option \<times> 's cache" where
  "disconnect_tx ops tx nHeight txundo view =
     bindE (disconnect_outputs ops tx nHeight view) (\<lambda>(fClean, view).
     bindE (has_inputs tx) (\<lambda>b.
       if \<not> b then Inr (Some fClean, view)
       else case txundo of
         None \<Rightarrow> Inl Abort
       | Some vprevout \<Rightarrow>
           if length vprevout \<noteq> length (vin tx) then Inr (None, view)
           else bindE (restore_inputs ops (rev (zip (map prevout (vin tx)) vprevout)) view) (\<lambda>(fClean', view).
             Inr (Some (fClean \<and> fClean'), view))))"

text \<open>The transactions from the last to the first, each with its undo data: the first one has
none.\<close>

fun disconnect_txs ::
  "'s coins_ops \<Rightarrow> (CTransaction \<Rightarrow> bool) \<Rightarrow> int \<Rightarrow> (CTransaction \<times> CTxInUndo list option) list \<Rightarrow> 's cache \<Rightarrow>
    fault + bool option \<times> 's cache" where
  "disconnect_txs ops erase_zerocoins nHeight [] view = Inr (Some True, view)"
| "disconnect_txs ops erase_zerocoins nHeight ((tx, txundo) # rest) view =
     bindE (ContainsZerocoins tx) (\<lambda>z.
       if z \<and> \<not> erase_zerocoins tx then Inr (None, view)
       else bindE (disconnect_tx ops tx nHeight txundo view) (\<lambda>(r, view).
         case r of
           None \<Rightarrow> Inr (None, view)
         | Some fClean \<Rightarrow>
             bindE (disconnect_txs ops erase_zerocoins nHeight rest view) (\<lambda>(r', view).
               Inr (case r' of None \<Rightarrow> None | Some fClean' \<Rightarrow> Some (fClean \<and> fClean'), view))))"

text \<open>None is \<open>return error(...)\<close>, Some the value of fClean.  \<open>vtxundo\<close> is None when the undo data
could not be read.\<close>

definition DisconnectBlock ::
  "'s coins_ops \<Rightarrow> (CTransaction \<Rightarrow> bool) \<Rightarrow> bool \<Rightarrow> CTransaction list \<Rightarrow> uint256 \<Rightarrow> uint256 \<Rightarrow> int \<Rightarrow>
    CTxInUndo list list option \<Rightarrow> 's cache \<Rightarrow> fault + bool option \<times> 's cache" where
  "DisconnectBlock ops erase_zerocoins erase_checkpoint vtx blockHash prevHash nHeight vtxundo view =
     bindE (GetBestBlock ops view) (\<lambda>(h, view).
       if blockHash \<noteq> h then Inl Abort
       else case vtxundo of
         None \<Rightarrow> Inr (None, view)
       | Some undos \<Rightarrow>
           if length undos + 1 \<noteq> length vtx then Inr (None, view)
           else bindE (disconnect_txs ops erase_zerocoins nHeight
               (rev (zip vtx (None # map Some undos))) view) (\<lambda>(r, view).
             case r of
               None \<Rightarrow> Inr (None, view)
             | Some fClean \<Rightarrow>
                 let view = SetBestBlock prevHash view in
                 if \<not> erase_checkpoint then Inr (None, view) else Inr (Some fClean, view)))"

section \<open>The specification on the abstract view\<close>

fun spend_coins :: "utxos \<Rightarrow> COutPoint list \<Rightarrow> (CTxInUndo list \<times> utxos) option" where
  "spend_coins V [] = Some ([], V)"
| "spend_coins V (p # ps) =
     (case V (outhash p) of
        None \<Rightarrow> None
      | Some coins \<Rightarrow>
          (case Spend coins p of
             None \<Rightarrow> None
           | Some (coins', undo) \<Rightarrow>
               (case spend_coins (V(outhash p := live (Some coins'))) ps of
                  None \<Rightarrow> None
                | Some (undos, V') \<Rightarrow> Some (undo # undos, V'))))"

definition have_coins_for :: "utxos \<Rightarrow> COutPoint \<Rightarrow> bool" where
  "have_coins_for V p \<longleftrightarrow>
     (case V (outhash p) of None \<Rightarrow> False | Some coins \<Rightarrow> IsAvailable coins (unat (outn p)))"

text \<open>The view without the coin-stake flags.\<close>

definition unstaked :: "CCoins option \<Rightarrow> CCoins option" where
  "unstaked = map_option (\<lambda>coins. coins\<lparr>fCoinStake := False\<rparr>)"

lemma pruned_Spend: "cvout coins = [] \<Longrightarrow> Spend coins p = None"
  by (simp add: Spend_def)

lemma live_eq_None: "coins_ok coins \<Longrightarrow> live (Some coins) = None \<Longrightarrow> cvout coins = []"
  using coins_ok_live by blast

lemma live_eq_Some: "live (Some coins) = Some coins' \<Longrightarrow> coins' = coins \<and> \<not> IsPruned coins"
  by (auto simp: live_def split: if_splits)

lemma Cleanup_ok: "coins_ok coins \<Longrightarrow> Cleanup coins = coins"
  by (simp add: coins_ok_def Cleanup_id)

lemma Spend_avail:
  assumes "Spend coins p = Some (coins', undo)" "m \<noteq> unat (outn p)" "IsAvailable coins m"
  shows "IsAvailable coins' m"
proof -
  define d where "d = coins\<lparr>cvout := (cvout coins)[unat (outn p) := CTxOut_null]\<rparr>"
  have c': "coins' = Cleanup d"
    using assms(1) by (auto simp: Spend_def Let_def d_def split: if_splits)
  obtain k where k: "cvout d = cvout coins' @ k" "list_all CTxOut_IsNull k"
    using Cleanup_split [of d] unfolding c' by blast
  have d: "m < length (cvout d)" "cvout d ! m = cvout coins ! m"
    using assms(2,3) by (simp_all add: d_def IsAvailable_def)
  have "m < length (cvout coins')"
  proof (rule ccontr)
    assume "\<not> m < length (cvout coins')"
    then have "cvout d ! m \<in> set k" using d(1) unfolding k(1) by (simp add: nth_append)
    then show False using k(2) assms(3) d(2) by (auto simp: list_all_iff IsAvailable_def)
  qed
  moreover from this have "cvout coins' ! m = cvout d ! m" by (simp add: k(1) nth_append)
  ultimately show ?thesis using assms(3) d(2) by (simp add: IsAvailable_def)
qed

lemma IsAvailable_Spend:
  "IsAvailable coins (unat (outn p)) \<Longrightarrow> \<exists>coins' undo. Spend coins p = Some (coins', undo)"
  by (auto simp: IsAvailable_def Spend_def Let_def)

lemma spend_coins_total:
  assumes "list_all (have_coins_for V) ps" "distinct ps"
  shows "spend_coins V ps \<noteq> None"
  using assms
proof (induction ps arbitrary: V)
  case (Cons p ps)
  obtain coins where coins: "V (outhash p) = Some coins" "IsAvailable coins (unat (outn p))"
    using Cons.prems(1) by (auto simp: have_coins_for_def split: option.splits)
  obtain coins' undo where s: "Spend coins p = Some (coins', undo)"
    using IsAvailable_Spend [OF coins(2)] by blast
  have "have_coins_for (V(outhash p := live (Some coins'))) q" if "q \<in> set ps" for q
  proof (cases "outhash q = outhash p")
    case True
    have "q \<noteq> p" using Cons.prems(2) that by auto
    then have "unat (outn q) \<noteq> unat (outn p)"
      using True by (auto intro!: COutPoint.equality simp: word_unat_eq_iff)
    moreover have "IsAvailable coins (unat (outn q))"
      using Cons.prems(1) that True coins(1) by (auto simp: have_coins_for_def list_all_iff)
    ultimately have "IsAvailable coins' (unat (outn q))" using Spend_avail [OF s] by blast
    moreover from this have "\<not> IsPruned coins'" by (auto simp: IsAvailable_def IsPruned_def list_all_length)
    ultimately show ?thesis using True by (simp add: have_coins_for_def live_def)
  next
    case False
    then show ?thesis using Cons.prems(1) that by (auto simp: have_coins_for_def list_all_iff)
  qed
  then have "list_all (have_coins_for (V(outhash p := live (Some coins')))) ps"
    unfolding list_all_iff by blast
  then have "spend_coins (V(outhash p := live (Some coins'))) ps \<noteq> None"
    using Cons.IH Cons.prems(2) by (meson distinct.simps(2))
  then show ?case using coins(1) s by auto
qed simp

section \<open>Connecting refines the specification\<close>

context coins_view
begin

lemma spend_inputs:
  assumes "cinv c"
  shows "case spend_coins (cache_view view c) (map prevout is) of
      None \<Rightarrow> spend_inputs ops is c = Inl Abort
    | Some (undos, V') \<Rightarrow> \<exists>c'. spend_inputs ops is c = Inr (undos, c') \<and> cinv c' \<and>
        cache_view view c' = V' \<and> cache_tip tip c' = cache_tip tip c"
  using assms
proof (induction "is" arbitrary: c)
  case (Cons i "is")
  let ?p = "prevout i"
  let ?f = "\<lambda>coins. case Spend coins ?p of None \<Rightarrow> Inl Abort | Some (coins', undo) \<Rightarrow> Inr (undo, coins')"
  obtain coins where coins: "coins_ok coins" "live (Some coins) = cache_view view c (outhash ?p)"
    "\<And>e. ?f coins = Inl e \<Longrightarrow> ModifyCoins ops (outhash ?p) ?f c = Inl e"
    "\<And>r coins'. ?f coins = Inr (r, coins') \<Longrightarrow> coins_ok (Cleanup coins') \<Longrightarrow>
      \<exists>c'. ModifyCoins ops (outhash ?p) ?f c = Inr (r, c') \<and> cinv c' \<and>
        cache_view view c' = (cache_view view c)(outhash ?p := live (Some (Cleanup coins'))) \<and>
        cache_tip tip c' = cache_tip tip c \<and> hashBlock c' = hashBlock c"
    using ModifyCoins [where f = ?f and k = "outhash ?p", OF Cons.prems] by blast
  show ?case
  proof (cases "Spend coins ?p")
    case None
    then have "ModifyCoins ops (outhash ?p) ?f c = Inl Abort" by (intro coins(3)) simp
    moreover have "spend_coins (cache_view view c) (map prevout (i # is)) = None"
    proof (cases "cache_view view c (outhash ?p)")
      case (Some x)
      then have "x = coins" using coins(2) by (simp add: live_eq_Some)
      then show ?thesis using Some None by simp
    qed simp
    ultimately show ?thesis by simp
  next
    case (Some cu)
    obtain coins' undo where cu: "Spend coins ?p = Some (coins', undo)" using Some by (cases cu) auto
    then have ok: "coins_ok coins'" using Spend_coins_ok coins(1) by blast
    have "\<not> IsPruned coins"
      using cu coins(1) pruned_Spend by (auto simp: coins_ok_def is_clean_pruned)
    then have V: "cache_view view c (outhash ?p) = Some coins" using coins(2) by (simp add: live_def)
    obtain c' where c': "ModifyCoins ops (outhash ?p) ?f c = Inr (undo, c')" "cinv c'"
      "cache_view view c' = (cache_view view c)(outhash ?p := live (Some coins'))"
      "cache_tip tip c' = cache_tip tip c"
      using coins(4) [of undo coins'] cu ok Cleanup_ok [OF ok] by auto
    have "spend_coins (cache_view view c) (map prevout (i # is)) =
        (case spend_coins (cache_view view c') (map prevout is) of
           None \<Rightarrow> None | Some (undos, V') \<Rightarrow> Some (undo # undos, V'))"
      unfolding c'(3) by (simp only: list.map spend_coins.simps V cu option.case prod.case)
    then show ?thesis using Cons.IH [OF c'(2)] c'(1,4)
      by (cases "spend_coins (cache_view view c') (map prevout is)") auto
  qed
qed simp

end

definition tx_coins :: "CTransaction \<Rightarrow> int \<Rightarrow> CCoins" where
  "tx_coins tx nHeight = (case FromTx tx nHeight of Inl _ \<Rightarrow> CCoins_empty | Inr coins \<Rightarrow> coins)"

definition tx_coins_ok :: "CTransaction \<Rightarrow> int \<Rightarrow> bool" where
  "tx_coins_ok tx nHeight \<longleftrightarrow>
     list_all (\<lambda>out. 0 \<le> nValue out \<and> nValue out < 2 ^ 60 \<and> length (scriptPubKey out) + 6 < 2 ^ 32) (vout tx) \<and>
     length (vout tx) < 2 ^ 30 \<and> 0 \<le> nHeight \<and> nHeight < 2 ^ 31 \<and> 0 \<le> nVersion tx \<and> nVersion tx < 2 ^ 31"

definition connect_view :: "CTransaction \<Rightarrow> bool \<Rightarrow> int \<Rightarrow> utxos \<Rightarrow> (CTxInUndo list \<times> utxos) option" where
  "connect_view tx b nHeight V =
     (case (if b then spend_coins V (map prevout (vin tx)) else Some ([], V)) of
        None \<Rightarrow> None
      | Some (undos, V') \<Rightarrow> Some (undos, V'(GetHash tx := live (Some (tx_coins tx nHeight)))))"

lemma has_inputs_coinbase: "has_inputs tx = Inr b \<Longrightarrow> \<exists>cb. IsCoinBase tx = Inr cb"
  by (auto simp: has_inputs_def fault_simps)

lemma FromTx_tx_coins:
  assumes "has_inputs tx = Inr b"
  shows "FromTx tx nHeight = Inr (tx_coins tx nHeight)"
  using has_inputs_coinbase [OF assms] by (auto simp: tx_coins_def FromTx_def)

lemma tx_coins_ok_coins:
  assumes "has_inputs tx = Inr b" "tx_coins_ok tx nHeight"
  shows "coins_ok (tx_coins tx nHeight)"
proof -
  obtain cb where cb: "IsCoinBase tx = Inr cb" using has_inputs_coinbase [OF assms(1)] by blast
  have "list_all out_ok (map (\<lambda>out. if IsUnspendable (scriptPubKey out) then CTxOut_null else out) (vout tx))"
    using assms(2) by (auto simp: tx_coins_ok_def list_all_iff out_ok_def CTxOut_IsNull_def CTxOut_null_def)
  then show ?thesis
    using assms(2) unfolding tx_coins_def FromTx_def cb ClearUnspendable_def bindE_Inr sum.case
    by (intro Cleanup_coins_ok) (simp_all add: tx_coins_ok_def)
qed

context coins_view
begin

lemma UpdateCoins:
  assumes "cinv c" "has_inputs tx = Inr b" "tx_coins_ok tx nHeight"
  shows "case connect_view tx b nHeight (cache_view view c) of
      None \<Rightarrow> UpdateCoins ops tx nHeight c = Inl Abort
    | Some (undos, V') \<Rightarrow> \<exists>c'. UpdateCoins ops tx nHeight c = Inr (undos, c') \<and> cinv c' \<and>
        cache_view view c' = V' \<and> cache_tip tip c' = cache_tip tip c"
proof -
  let ?spend = "if b then spend_inputs ops (vin tx) c else Inr ([], c)"
  let ?V = "if b then spend_coins (cache_view view c) (map prevout (vin tx)) else Some ([], cache_view view c)"
  let ?f = "\<lambda>_. bindE (FromTx tx nHeight) (\<lambda>coins. Inr ((), coins))"
  have s: "case ?V of None \<Rightarrow> ?spend = Inl Abort
    | Some (undos, V') \<Rightarrow> \<exists>c'. ?spend = Inr (undos, c') \<and> cinv c' \<and> cache_view view c' = V' \<and>
        cache_tip tip c' = cache_tip tip c"
    using spend_inputs [OF assms(1), of "vin tx"] assms(1) by simp
  show ?thesis
  proof (cases ?V)
    case None
    then show ?thesis using s assms(2) by (simp add: connect_view_def UpdateCoins_def)
  next
    case (Some uv)
    obtain undos V' where uv: "uv = (undos, V')" by (cases uv)
    obtain c1 where c1: "?spend = Inr (undos, c1)" "cinv c1" "cache_view view c1 = V'"
      "cache_tip tip c1 = cache_tip tip c" using s Some uv by auto
    note ok = tx_coins_ok_coins [OF assms(2,3)]
    have f: "?f coins = Inr ((), tx_coins tx nHeight)" for coins
      by (simp add: FromTx_tx_coins [OF assms(2)])
    obtain coins where "\<And>r coins'. ?f coins = Inr (r, coins') \<Longrightarrow> coins_ok (Cleanup coins') \<Longrightarrow>
      \<exists>c'. ModifyCoins ops (GetHash tx) ?f c1 = Inr (r, c') \<and> cinv c' \<and>
        cache_view view c' = (cache_view view c1)(GetHash tx := live (Some (Cleanup coins'))) \<and>
        cache_tip tip c' = cache_tip tip c1 \<and> hashBlock c' = hashBlock c1"
      using ModifyCoins [where f = ?f and k = "GetHash tx", OF c1(2)] by blast
    from this [OF f] obtain c2 where c2: "ModifyCoins ops (GetHash tx) ?f c1 = Inr ((), c2)" "cinv c2"
      "cache_view view c2 = V'(GetHash tx := live (Some (tx_coins tx nHeight)))"
      "cache_tip tip c2 = cache_tip tip c"
      using ok c1(3,4) by (auto simp: Cleanup_ok)
    have "connect_view tx b nHeight (cache_view view c) =
        Some (undos, V'(GetHash tx := live (Some (tx_coins tx nHeight))))"
      unfolding connect_view_def Some uv by simp
    moreover have "UpdateCoins ops tx nHeight c = Inr (undos, c2)"
      unfolding UpdateCoins_def assms(2) bindE_Inr c1(1) prod.case c2(1) ..
    ultimately show ?thesis using c2 by simp
  qed
qed

end

section \<open>Disconnecting is the inverse\<close>

lemma restore_input_stake:
  "restore_input (coins\<lparr>fCoinStake := s\<rparr>) p u =
    (case restore_input coins p u of
       Inl e \<Rightarrow> Inl e
     | Inr (f, coins') \<Rightarrow> Inr (f, if uHeight u \<noteq> 0 then coins' else coins'\<lparr>fCoinStake := s\<rparr>))"
  by (simp add: restore_input_def Let_def IsPruned_def IsAvailable_def)

lemma restore_input_pruned:
  assumes "cvout a = []" "cvout b = []" "uHeight u \<noteq> 0"
  shows "restore_input a p u = restore_input b p u"
  using assms by (simp add: restore_input_def IsPruned_def Let_def)

lemma unstaked_eqD:
  assumes "unstaked (Some a) = unstaked (Some b)"
  obtains s where "a = b\<lparr>fCoinStake := s\<rparr>"
proof -
  have "a\<lparr>fCoinStake := False\<rparr>\<lparr>fCoinStake := fCoinStake a\<rparr> = b\<lparr>fCoinStake := False\<rparr>\<lparr>fCoinStake := fCoinStake a\<rparr>"
    using assms by (simp add: unstaked_def)
  then have "a = b\<lparr>fCoinStake := fCoinStake a\<rparr>" by simp
  then show ?thesis by (rule that)
qed

lemma Spend_undo_height:
  assumes "Spend coins p = Some (coins', u)" "0 < cHeight coins" "cHeight coins < 2 ^ 31"
  shows "uHeight u \<noteq> 0 \<longleftrightarrow> cvout coins' = []"
proof -
  have "sint (word_of_int (cHeight coins) :: 32 word) = cHeight coins"
    using assms(2,3) by (simp add: signed_of_int signed_take_bit_int_eq_self)
  then have "(word_of_int (cHeight coins) :: 32 word) \<noteq> 0"
    using assms(2) by (metis less_irrefl signed_0)
  then show ?thesis using assms(1) by (auto simp: Spend_def Let_def split: if_splits)
qed

text \<open>What the restoration of an input does to coins that are the spent ones up to the coin-stake
flag.\<close>

lemma restore_spent_coins:
  assumes "Spend coins p = Some (coins', u)" "coins_ok coins" "0 < cHeight coins"
    "coins_ok a" "unstaked (live (Some a)) = unstaked (live (Some coins'))"
  obtains s where "restore_input a p u = Inr (True, coins\<lparr>fCoinStake := s\<rparr>)"
proof -
  note r = restore_Spend [OF assms(2,3,1)]
  have h: "uHeight u \<noteq> 0 \<longleftrightarrow> cvout coins' = []"
    using Spend_undo_height [OF assms(1,3)] assms(2) by (simp add: coins_ok_def)
  have ok': "coins_ok coins'" by (rule Spend_coins_ok [OF assms(1,2)])
  show ?thesis
  proof (cases "cvout coins' = []")
    case True
    then have "live (Some coins') = None" using ok' coins_ok_live by blast
    then have "live (Some a) = None" using assms(5) by (simp add: unstaked_def)
    then have "cvout a = []" using assms(4) by (rule live_eq_None [rotated])
    then have "restore_input a p u = Inr (True, coins\<lparr>fCoinStake := False\<rparr>)"
      using r True h restore_input_pruned by metis
    then show ?thesis by (rule that)
  next
    case False
    then have "live (Some coins') = Some coins'" using ok' by (simp add: live_def coins_ok_def is_clean_pruned)
    moreover from this have "live (Some a) = Some a"
      using assms(5) by (auto simp: unstaked_def live_def split: if_splits)
    ultimately obtain s where "a = coins'\<lparr>fCoinStake := s\<rparr>"
      using assms(5) by (metis unstaked_eqD)
    then have "restore_input a p u = Inr (True, coins\<lparr>fCoinStake := s\<rparr>)"
      using r False h by (simp add: restore_input_stake)
    then show ?thesis by (rule that)
  qed
qed

definition all_live :: "utxos \<Rightarrow> bool" where
  "all_live V \<longleftrightarrow> (\<forall>k coins. V k = Some coins \<longrightarrow> coins_ok coins \<and> 0 < cHeight coins \<and> \<not> IsPruned coins)"

lemma all_live_Spend:
  assumes "all_live V" "V (outhash p) = Some coins" "Spend coins p = Some (coins', u)"
  shows "all_live (V(outhash p := live (Some coins')))"
proof -
  have "cHeight coins' = cHeight coins"
    using assms(3) by (auto simp: Spend_def Let_def Cleanup_def split: if_splits)
  then show ?thesis
    using assms Spend_coins_ok [OF assms(3)] unfolding all_live_def live_def by auto
qed

context coins_view
begin

lemma restore_one:
  assumes "cinv c" "Spend coins p = Some (coins', u)" "coins_ok coins" "0 < cHeight coins"
    "unstaked (cache_view view c (outhash p)) = unstaked (live (Some coins'))"
  shows "\<exists>c' s. ModifyCoins ops (outhash p) (\<lambda>a. restore_input a p u) c = Inr (True, c') \<and> cinv c' \<and>
    cache_view view c' = (cache_view view c)(outhash p := Some (coins\<lparr>fCoinStake := s\<rparr>)) \<and>
    cache_tip tip c' = cache_tip tip c \<and> hashBlock c' = hashBlock c"
proof -
  let ?f = "\<lambda>a. restore_input a p u"
  obtain a where a: "coins_ok a" "live (Some a) = cache_view view c (outhash p)"
    "\<And>e. ?f a = Inl e \<Longrightarrow> ModifyCoins ops (outhash p) ?f c = Inl e"
    "\<And>r coins'. ?f a = Inr (r, coins') \<Longrightarrow> coins_ok (Cleanup coins') \<Longrightarrow>
      \<exists>c'. ModifyCoins ops (outhash p) ?f c = Inr (r, c') \<and> cinv c' \<and>
        cache_view view c' = (cache_view view c)(outhash p := live (Some (Cleanup coins'))) \<and>
        cache_tip tip c' = cache_tip tip c \<and> hashBlock c' = hashBlock c"
    by (rule ModifyCoins [where f = ?f and k = "outhash p", OF assms(1)]) (rule that)
  obtain s where s: "?f a = Inr (True, coins\<lparr>fCoinStake := s\<rparr>)"
    by (rule restore_spent_coins [OF assms(2,3,4) a(1)]) (use assms(5) a(2) in simp_all)
  have ok: "coins_ok (coins\<lparr>fCoinStake := s\<rparr>)" using assms(3) by (simp add: coins_ok_def is_clean_def)
  have "\<not> IsPruned coins"
    using assms(2,3) pruned_Spend by (auto simp: coins_ok_def is_clean_pruned)
  then have "live (Some (coins\<lparr>fCoinStake := s\<rparr>)) = Some (coins\<lparr>fCoinStake := s\<rparr>)"
    by (simp add: live_def IsPruned_def)
  then show ?thesis using a(4) [OF s] ok by (auto simp: Cleanup_ok)
qed

lemma restore_inputs_append:
  "restore_inputs ops (xs @ ys) c =
    bindE (restore_inputs ops xs c) (\<lambda>(b, c). bindE (restore_inputs ops ys c) (\<lambda>(b', c). Inr (b \<and> b', c)))"
  by (induction xs arbitrary: c) (auto simp: bindE_def split: sum.splits prod.splits)

lemma restore_inputs_spent:
  assumes "spend_coins V ps = Some (us, V')" "all_live V" "cinv c" "unstaked \<circ> cache_view view c = unstaked \<circ> V'"
  shows "\<exists>c'. restore_inputs ops (rev (zip ps us)) c = Inr (True, c') \<and> cinv c' \<and>
    unstaked \<circ> cache_view view c' = unstaked \<circ> V \<and>
    cache_tip tip c' = cache_tip tip c \<and> hashBlock c' = hashBlock c"
  using assms
proof (induction ps arbitrary: V us V')
  case (Cons p ps)
  obtain coins coins' u us' where s: "V (outhash p) = Some coins" "Spend coins p = Some (coins', u)"
    "spend_coins (V(outhash p := live (Some coins'))) ps = Some (us', V')" "us = u # us'"
    using Cons.prems(1) by (auto split: option.splits)
  have ok: "coins_ok coins" "0 < cHeight coins" using Cons.prems(2) s(1) by (auto simp: all_live_def)
  obtain c1 where c1: "restore_inputs ops (rev (zip ps us')) c = Inr (True, c1)" "cinv c1"
    "unstaked \<circ> cache_view view c1 = unstaked \<circ> V(outhash p := live (Some coins'))"
    "cache_tip tip c1 = cache_tip tip c" "hashBlock c1 = hashBlock c"
    using Cons.IH [OF s(3) all_live_Spend [OF Cons.prems(2) s(1,2)] Cons.prems(3,4)] by blast
  have "unstaked (cache_view view c1 (outhash p)) = unstaked (live (Some coins'))"
    using fun_cong [OF c1(3), of "outhash p"] by simp
  then obtain c2 st where c2: "ModifyCoins ops (outhash p) (\<lambda>a. restore_input a p u) c1 = Inr (True, c2)" "cinv c2"
    "cache_view view c2 = (cache_view view c1)(outhash p := Some (coins\<lparr>fCoinStake := st\<rparr>))"
    "cache_tip tip c2 = cache_tip tip c1" "hashBlock c2 = hashBlock c1"
    using restore_one [OF c1(2) s(2) ok] by blast
  have "unstaked (cache_view view c2 k) = unstaked (V k)" for k
    using fun_cong [OF c1(3), of k] s(1) unfolding c2(3) by (simp add: unstaked_def)
  then have "unstaked \<circ> cache_view view c2 = unstaked \<circ> V" by (simp add: fun_eq_iff)
  moreover have "restore_inputs ops (rev (zip (p # ps) us)) c = Inr (True, c2)"
    using c1(1) c2(1) by (simp add: s(4) restore_inputs_append)
  ultimately show ?case using c1(4,5) c2(2,4,5) by metis
qed auto

end

lemma spend_coins_facts:
  "spend_coins V ps = Some (us, V') \<Longrightarrow> length us = length ps \<and> (V k = None \<longrightarrow> V' k = None)"
proof (induction ps arbitrary: V us V')
  case (Cons p ps)
  then show ?case by (fastforce split: option.splits if_splits)
qed simp

lemma ClearUnspendable_idem: "ClearUnspendable (ClearUnspendable coins) = ClearUnspendable coins"
proof -
  let ?g = "\<lambda>out. if IsUnspendable (scriptPubKey out) then CTxOut_null else out"
  define d where "d = coins\<lparr>cvout := map ?g (cvout coins)\<rparr>"
  have "\<not> IsUnspendable (scriptPubKey CTxOut_null)" by (simp add: CTxOut_null_def IsUnspendable_def)
  then have g: "?g (?g out) = ?g out" for out by simp
  obtain k where "cvout d = cvout (Cleanup d) @ k" using Cleanup_split [of d] by blast
  then have "set (cvout (Cleanup d)) \<subseteq> set (cvout d)" by (metis Un_upper1 set_append)
  also have "set (cvout d) = ?g ` set (cvout coins)" unfolding d_def by simp
  finally have "set (cvout (Cleanup d)) \<subseteq> ?g ` set (cvout coins)" .
  then have "map ?g (cvout (Cleanup d)) = cvout (Cleanup d)"
    using g by (intro map_idI) blast
  then have "(Cleanup d)\<lparr>cvout := map ?g (cvout (Cleanup d))\<rparr> = Cleanup d" by simp
  then show ?thesis
    unfolding ClearUnspendable_def d_def [symmetric] by (simp add: Cleanup_id Cleanup_clean)
qed

lemma IsPruned_Clear: "IsPruned coins \<Longrightarrow> IsPruned (ClearUnspendable coins)"
proof -
  define d where "d = coins\<lparr>cvout := map (\<lambda>out. if IsUnspendable (scriptPubKey out) then CTxOut_null else out) (cvout coins)\<rparr>"
  assume "IsPruned coins"
  then have "list_all CTxOut_IsNull (cvout d)" by (auto simp: d_def IsPruned_def list_all_iff)
  moreover obtain k where "cvout d = cvout (Cleanup d) @ k" using Cleanup_split [of d] by blast
  ultimately show ?thesis unfolding ClearUnspendable_def d_def [symmetric] IsPruned_def by simp
qed

context coins_view
begin

lemma disconnect_outputs:
  assumes "cinv c" "has_inputs tx = Inr b" "tx_coins_ok tx nHeight"
    "cache_view view c (GetHash tx) = live (Some (tx_coins tx nHeight))"
  shows "\<exists>c'. disconnect_outputs ops tx nHeight c = Inr (True, c') \<and> cinv c' \<and>
    cache_view view c' = (cache_view view c)(GetHash tx := None) \<and>
    cache_tip tip c' = cache_tip tip c \<and> hashBlock c' = hashBlock c"
proof -
  let ?T = "tx_coins tx nHeight" and ?k = "GetHash tx"
  let ?f = "\<lambda>outs. bindE (FromTx tx nHeight) (\<lambda>outsBlock.
         let outs = ClearUnspendable outs;
             outs = (if cVersion outsBlock < 0 then outs\<lparr>cVersion := cVersion outsBlock\<rparr> else outs)
         in Inr (CCoins_eq outs outsBlock, CCoins_empty))"
  obtain a where a: "coins_ok a" "live (Some a) = cache_view view c ?k"
    "\<And>e. ?f a = Inl e \<Longrightarrow> ModifyCoins ops ?k ?f c = Inl e"
    "\<And>r coins'. ?f a = Inr (r, coins') \<Longrightarrow> coins_ok (Cleanup coins') \<Longrightarrow>
      \<exists>c'. ModifyCoins ops ?k ?f c = Inr (r, c') \<and> cinv c' \<and>
        cache_view view c' = (cache_view view c)(?k := live (Some (Cleanup coins'))) \<and>
        cache_tip tip c' = cache_tip tip c \<and> hashBlock c' = hashBlock c"
    by (rule ModifyCoins [where f = ?f and k = ?k, OF assms(1)]) (rule that)
  have T: "ClearUnspendable ?T = ?T" "cVersion ?T = nVersion tx"
    using has_inputs_coinbase [OF assms(2)]
    by (auto simp: tx_coins_def FromTx_def ClearUnspendable_idem) (simp add: ClearUnspendable_def Cleanup_def)
  have v: "\<not> cVersion ?T < 0" using assms(3) by (simp add: T(2) tx_coins_ok_def)
  have "CCoins_eq (ClearUnspendable a) ?T"
  proof (cases "IsPruned ?T")
    case True
    then have "IsPruned a" using a(2) assms(4) by (simp add: live_def split: if_splits)
    then show ?thesis using True by (simp add: CCoins_eq_def IsPruned_Clear)
  next
    case False
    then have "a = ?T" using a(2) assms(4) by (simp add: live_def split: if_splits)
    then show ?thesis by (simp add: CCoins_eq_def T(1))
  qed
  then have f: "?f a = Inr (True, CCoins_empty)"
    using v by (simp add: FromTx_tx_coins [OF assms(2)])
  have "coins_ok CCoins_empty" "live (Some CCoins_empty) = None"
    by (simp_all add: coins_ok_def is_clean_def CCoins_empty_def live_def IsPruned_def)
  then show ?thesis unfolding disconnect_outputs_def using a(4) [OF f] by (simp add: Cleanup_ok)
qed

lemma disconnect_UpdateCoins:
  assumes "cinv c" "has_inputs tx = Inr b" "tx_coins_ok tx nHeight" "all_live (cache_view view c)"
    "cache_view view c (GetHash tx) = None" "UpdateCoins ops tx nHeight c = Inr (undos, c1)"
  shows "\<exists>c2. disconnect_tx ops tx nHeight (Some undos) c1 = Inr (Some True, c2) \<and> cinv c2 \<and>
    unstaked \<circ> cache_view view c2 = unstaked \<circ> cache_view view c \<and> cache_tip tip c2 = cache_tip tip c"
proof -
  let ?V = "cache_view view c" and ?k = "GetHash tx"
  obtain V' where V': "(if b then spend_coins ?V (map prevout (vin tx)) else Some ([], ?V)) = Some (undos, V')"
    and c1: "cinv c1" "cache_view view c1 = V'(?k := live (Some (tx_coins tx nHeight)))"
      "cache_tip tip c1 = cache_tip tip c"
    using UpdateCoins [OF assms(1,2,3)] assms(6)
    by (auto simp: connect_view_def split: option.splits prod.splits)
  have k: "V' ?k = None"
  proof (cases b)
    case True
    then have "spend_coins ?V (map prevout (vin tx)) = Some (undos, V')" using V' by simp
    then show ?thesis using spend_coins_facts [of ?V _ undos V' ?k] assms(5) by blast
  qed (use V' assms(5) in simp)
  have "cache_view view c1 ?k = live (Some (tx_coins tx nHeight))" by (simp add: c1(2))
  from disconnect_outputs [OF c1(1) assms(2,3) this] obtain c2 where
    c2: "disconnect_outputs ops tx nHeight c1 = Inr (True, c2)" "cinv c2"
      "cache_view view c2 = (cache_view view c1)(?k := None)" "cache_tip tip c2 = cache_tip tip c"
    using c1(3) by auto
  have v2: "cache_view view c2 = V'" unfolding c2(3) c1(2) using k by auto
  show ?thesis
  proof (cases b)
    case False
    then have "?V = V'" using V' by simp
    then show ?thesis using c2(1,2,4) v2 False assms(2) by (simp add: disconnect_tx_def)
  next
    case True
    then have sp: "spend_coins ?V (map prevout (vin tx)) = Some (undos, V')" using V' by simp
    have "length undos = length (vin tx)" using spend_coins_facts [OF sp] by simp
    moreover obtain c3 where "restore_inputs ops (rev (zip (map prevout (vin tx)) undos)) c2 = Inr (True, c3)"
      "cinv c3" "unstaked \<circ> cache_view view c3 = unstaked \<circ> ?V" "cache_tip tip c3 = cache_tip tip c2"
      using restore_inputs_spent [OF sp assms(4) c2(2)] v2 by auto
    ultimately show ?thesis using c2(1,4) True assms(2) by (auto simp: disconnect_tx_def)
  qed
qed

end

text \<open>HaveInputs on the abstract view, and the assertion of UpdateCoins: a transaction whose inputs
are there and distinct is connected.\<close>

context coins_reader
begin

lemma have_inputs_loop:
  assumes "cinv c"
  shows "\<exists>c'. have_inputs_loop ops is c = Inr (list_all (have_coins_for (cache_view view c)) (map prevout is), c') \<and>
    csame c c'"
  using assms
proof (induction "is" arbitrary: c)
  case Nil
  then show ?case by (simp add: same_view_def)
next
  case (Cons i "is")
  obtain r c1 where r: "AccessCoins ops c (outhash (prevout i)) = Inr (r, c1)" "csame c c1"
    "live r = cache_view view c (outhash (prevout i))"
    using AccessCoins [OF Cons.prems] by blast
  have avail: "(case r of None \<Rightarrow> False | Some coins \<Rightarrow> IsAvailable coins (unat (outn (prevout i)))) \<longleftrightarrow>
      have_coins_for (cache_view view c) (prevout i)"
    unfolding have_coins_for_def r(3) [symmetric]
    by (cases r) (auto simp: live_def IsPruned_def IsAvailable_def list_all_length)
  have c1: "cinv c1" "cache_view view c1 = cache_view view c" using r(2) by (auto simp: same_view_def)
  obtain c2 where c2: "have_inputs_loop ops is c1 =
      Inr (list_all (have_coins_for (cache_view view c)) (map prevout is), c2)" "csame c1 c2"
    using Cons.IH [OF c1(1)] by (auto simp: c1(2))
  have "csame c c2" using r(2) c2(2) by (auto simp: same_view_def)
  then show ?case using r(1,2) c2(1) avail by (auto split: option.splits)
qed

end

text \<open>The undo data keeps the coin-stake flag of the last output, but the restoration does not set
it.  When a coin-stake transaction whose last output was spent and restored is disconnected in
turn, its coins no longer match the block, and fClean becomes false.\<close>

context coins_view
begin

lemma disconnect_lost_stake:
  assumes "cinv c" "has_inputs tx = Inr b" "tx_coins_ok tx nHeight" "fCoinStake (tx_coins tx nHeight)"
    "\<not> IsPruned (tx_coins tx nHeight)"
    "cache_view view c (GetHash tx) = Some ((tx_coins tx nHeight)\<lparr>fCoinStake := False\<rparr>)"
  shows "\<exists>c'. disconnect_outputs ops tx nHeight c = Inr (False, c')"
proof -
  let ?T = "tx_coins tx nHeight" and ?k = "GetHash tx"
  let ?f = "\<lambda>outs. bindE (FromTx tx nHeight) (\<lambda>outsBlock.
         let outs = ClearUnspendable outs;
             outs = (if cVersion outsBlock < 0 then outs\<lparr>cVersion := cVersion outsBlock\<rparr> else outs)
         in Inr (CCoins_eq outs outsBlock, CCoins_empty))"
  obtain a where a: "coins_ok a" "live (Some a) = cache_view view c ?k"
    "\<And>e. ?f a = Inl e \<Longrightarrow> ModifyCoins ops ?k ?f c = Inl e"
    "\<And>r coins'. ?f a = Inr (r, coins') \<Longrightarrow> coins_ok (Cleanup coins') \<Longrightarrow>
      \<exists>c'. ModifyCoins ops ?k ?f c = Inr (r, c') \<and> cinv c' \<and>
        cache_view view c' = (cache_view view c)(?k := live (Some (Cleanup coins'))) \<and>
        cache_tip tip c' = cache_tip tip c \<and> hashBlock c' = hashBlock c"
    by (rule ModifyCoins [where f = ?f and k = ?k, OF assms(1)]) (rule that)
  have "a = ?T\<lparr>fCoinStake := False\<rparr>" using a(2) assms(6) by (simp add: live_def split: if_splits)
  then have "\<not> fCoinStake (ClearUnspendable a)" by (simp add: ClearUnspendable_def Cleanup_def)
  moreover have "cVersion ?T = nVersion tx"
    using has_inputs_coinbase [OF assms(2)]
    by (auto simp: tx_coins_def FromTx_def) (simp add: ClearUnspendable_def Cleanup_def)
  ultimately have f: "?f a = Inr (False, CCoins_empty)"
    using assms(3,4,5) by (auto simp: FromTx_tx_coins [OF assms(2)] CCoins_eq_def tx_coins_ok_def)
  have "coins_ok CCoins_empty"
    by (simp add: coins_ok_def is_clean_def CCoins_empty_def)
  then show ?thesis unfolding disconnect_outputs_def using a(4) [OF f] by (auto simp: Cleanup_ok)
qed

lemma UpdateCoins_total:
  assumes "cinv c" "has_inputs tx = Inr b" "tx_coins_ok tx nHeight"
    "HaveInputs ops c tx = Inr (True, c')" "distinct (map prevout (vin tx))"
  shows "\<exists>undos c1. UpdateCoins ops tx nHeight c' = Inr (undos, c1) \<and> cinv c1"
proof -
  have c': "cinv c'" "b \<Longrightarrow> list_all (have_coins_for (cache_view view c')) (map prevout (vin tx))"
  proof -
    obtain cb where cb: "IsCoinBase tx = Inr cb" using has_inputs_coinbase [OF assms(2)] by blast
    obtain c2 where c2: "have_inputs_loop ops (vin tx) c =
        Inr (list_all (have_coins_for (cache_view view c)) (map prevout (vin tx)), c2)" "csame c c2"
      using have_inputs_loop [OF assms(1)] by blast
    have h: "HaveInputs ops c tx = (if b then have_inputs_loop ops (vin tx) c else Inr (True, c))"
    proof (cases cb)
      case True
      then show ?thesis using assms(2) cb by (simp add: HaveInputs_def has_inputs_def)
    next
      case False
      then obtain zs where "IsZerocoinSpend_tx tx = Inr zs" "b = (\<not> zs)"
        using assms(2) cb by (auto simp: has_inputs_def bindE_eq_Inr)
      then show ?thesis using False cb by (simp add: HaveInputs_def)
    qed
    show "cinv c'" using h assms(1,4) c2 by (cases b) (simp_all add: same_view_def)
    show "list_all (have_coins_for (cache_view view c')) (map prevout (vin tx))" if b
      using h assms(4) c2 that by (simp add: same_view_def)
  qed
  have "connect_view tx b nHeight (cache_view view c') \<noteq> None"
  proof (cases b)
    case True
    from spend_coins_total [OF c'(2) [OF True] assms(5)] show ?thesis
      using True by (auto simp: connect_view_def)
  qed (simp add: connect_view_def)
  then show ?thesis using UpdateCoins [OF c'(1) assms(2,3)] by (auto split: option.splits)
qed

end

end
