(* ===== verification/Merkle.thy ===== *)
theory Merkle
  imports ChainState
begin

text \<open>
  Merkle trees: CBlock::BuildMerkleTree, GetMerkleBranch and CheckMerkleBranch
  (primitives/block.cpp), and the partial trees of merkleblock.cpp, which send some leaves of a
  block together with the hashes that tie them to the root.  The reference definition
  \<open>merkle_root\<close> hashes level by level.
\<close>

section \<open>The tree of a block\<close>

definition node_hash :: "uint256 \<Rightarrow> uint256 \<Rightarrow> uint256" where
  "node_hash a b = Hash2 (uint256_bytes a) (uint256_bytes b)"

text \<open>One pass of the inner loop at index \<open>i\<close>; \<open>j\<close> is where the level starts in vMerkleTree.\<close>

definition merkle_step :: "nat \<Rightarrow> nat \<Rightarrow> uint256 list \<times> bool \<Rightarrow> nat \<Rightarrow> uint256 list \<times> bool" where
  "merkle_step j nSize s i =
     (case s of (vMerkleTree, mutated) \<Rightarrow>
        let i2 = min (i + 1) (nSize - 1) in
        (vMerkleTree @ [node_hash (vMerkleTree ! (j + i)) (vMerkleTree ! (j + i2))],
         mutated \<or> (i2 = i + 1 \<and> i2 + 1 = nSize \<and> vMerkleTree ! (j + i) = vMerkleTree ! (j + i2))))"

function merkle_loop :: "nat \<Rightarrow> nat \<Rightarrow> uint256 list \<times> bool \<Rightarrow> uint256 list \<times> bool" where
  "merkle_loop j nSize s =
     (if nSize > 1
      then merkle_loop (j + nSize) ((nSize + 1) div 2)
        (foldl (merkle_step j nSize) s (map (\<lambda>k. 2 * k) [0..<(nSize + 1) div 2]))
      else s)"
  by pat_completeness auto
termination
  by (relation "measure (\<lambda>(j, n, s). n)") auto

declare merkle_loop.simps [simp del]

definition BuildMerkleTree :: "uint256 list \<Rightarrow> uint256 list \<times> bool" where
  "BuildMerkleTree txids = merkle_loop 0 (length txids) (txids, False)"

definition merkle_tree_root :: "uint256 list \<Rightarrow> uint256" where
  "merkle_tree_root vMerkleTree = (if vMerkleTree = [] then 0 else last vMerkleTree)"

function branch_loop :: "uint256 list \<Rightarrow> nat \<Rightarrow> nat \<Rightarrow> nat \<Rightarrow> uint256 list" where
  "branch_loop vMerkleTree j nSize nIndex =
     (if nSize > 1
      then vMerkleTree ! (j + min (nIndex XOR 1) (nSize - 1)) #
        branch_loop vMerkleTree (j + nSize) ((nSize + 1) div 2) (nIndex div 2)
      else [])"
  by pat_completeness auto
termination
  by (relation "measure (\<lambda>(t, j, n, i). n)") auto

declare branch_loop.simps [simp del]

definition GetMerkleBranch :: "uint256 list \<Rightarrow> nat \<Rightarrow> uint256 list" where
  "GetMerkleBranch txids nIndex = branch_loop (fst (BuildMerkleTree txids)) 0 (length txids) nIndex"

fun check_branch_loop :: "uint256 \<Rightarrow> uint256 list \<Rightarrow> nat \<Rightarrow> uint256" where
  "check_branch_loop h [] nIndex = h"
| "check_branch_loop h (b # bs) nIndex =
     check_branch_loop (if odd nIndex then node_hash b h else node_hash h b) bs (nIndex div 2)"

text \<open>nIndex is -1 for a transaction that is in no block.\<close>

definition CheckMerkleBranch :: "uint256 \<Rightarrow> uint256 list \<Rightarrow> int \<Rightarrow> uint256" where
  "CheckMerkleBranch h vMerkleBranch nIndex =
     (if nIndex = -1 then 0 else check_branch_loop h vMerkleBranch (nat nIndex))"

section \<open>Level by level\<close>

fun pair_up :: "uint256 list \<Rightarrow> uint256 list" where
  "pair_up [] = []"
| "pair_up [x] = [node_hash x x]"
| "pair_up (x # y # xs) = node_hash x y # pair_up xs"

fun twin_end :: "uint256 list \<Rightarrow> bool" where
  "twin_end (x # y # z # xs) = twin_end (z # xs)"
| "twin_end [x, y] = (x = y)"
| "twin_end xs = False"

lemma length_pair_up [simp]: "length (pair_up xs) = (length xs + 1) div 2"
  by (induction xs rule: pair_up.induct) auto

function levels :: "uint256 list \<Rightarrow> uint256 list list" where
  "levels xs = (if length xs > 1 then xs # levels (pair_up xs) else [xs])"
  by pat_completeness auto
termination
  by (relation "measure length") auto

declare levels.simps [simp del]

lemma levels_short: "length xs \<le> 1 \<Longrightarrow> levels xs = [xs]"
  by (simp add: levels.simps [of xs])

lemma levels_long: "1 < length xs \<Longrightarrow> levels xs = xs # levels (pair_up xs)"
  by (simp add: levels.simps [of xs])

lemma levels_nonempty [simp]: "levels xs \<noteq> []"
  by (cases "1 < length xs") (simp_all add: levels_short levels_long)

lemma pair_up_empty [simp]: "pair_up xs = [] \<longleftrightarrow> xs = []" "[] = pair_up xs \<longleftrightarrow> xs = []"
  by (cases xs rule: pair_up.cases; simp)+

definition merkle_root :: "uint256 list \<Rightarrow> uint256" where
  "merkle_root xs = (case last (levels xs) of [] \<Rightarrow> 0 | x # _ \<Rightarrow> x)"

definition merkle_mutated :: "uint256 list \<Rightarrow> bool" where
  "merkle_mutated xs \<longleftrightarrow> list_ex twin_end (levels xs)"

lemma pair_up_nth:
  "2 * k < length xs \<Longrightarrow> pair_up xs ! k = node_hash (xs ! (2 * k)) (xs ! min (2 * k + 1) (length xs - 1))"
proof (induction xs arbitrary: k rule: pair_up.induct)
  case (3 x y xs)
  show ?case
  proof (cases k)
    case (Suc k')
    then have "2 * k' < length xs" using 3(2) by simp
    moreover from this have "min (2 * k + 1) (length (x # y # xs) - 1) = Suc (Suc (min (2 * k' + 1) (length xs - 1)))"
      using Suc by auto
    then have "(x # y # xs) ! min (2 * k + 1) (length (x # y # xs) - 1) =
        xs ! min (2 * k' + 1) (length xs - 1)" by (simp only: nth_Cons_Suc)
    ultimately show ?thesis using 3(1) Suc by simp
  qed simp
qed auto

lemma twin_end_iff:
  "twin_end xs \<longleftrightarrow> xs \<noteq> [] \<and> even (length xs) \<and> xs ! (length xs - 2) = xs ! (length xs - 1)"
proof (induction xs rule: twin_end.induct)
  case (1 x y z xs)
  then show ?case by (cases xs) (auto simp: nth_Cons')
qed auto

lemma merkle_steps:
  assumes "length level = n" "m \<le> (n + 1) div 2"
  shows "foldl (merkle_step (length pre) n) (pre @ level, mutated) (map (\<lambda>k. 2 * k) [0..<m]) =
    (pre @ level @ take m (pair_up level),
     mutated \<or> (\<exists>k < m. 2 * k + 2 = n \<and> level ! (2 * k) = level ! (2 * k + 1)))"
  using assms(2)
proof (induction m)
  case (Suc m)
  let ?ts = "pre @ level @ take m (pair_up level)"
  have m: "2 * m < length level" using Suc.prems assms(1) by auto
  then have i2: "min (2 * m + 1) (n - 1) < length level" using assms(1) by auto
  have n1: "?ts ! (length pre + 2 * m) = level ! (2 * m)"
    using m by (simp add: nth_append)
  have n2: "?ts ! (length pre + min (2 * m + 1) (n - 1)) = level ! min (2 * m + 1) (n - 1)"
    using i2 by (simp add: nth_append)
  have t: "take (Suc m) (pair_up level) = take m (pair_up level) @ [pair_up level ! m]"
    using m by (intro take_Suc_conv_app_nth) simp
  have p: "pair_up level ! m = node_hash (level ! (2 * m)) (level ! min (2 * m + 1) (n - 1))"
    using pair_up_nth [OF m] assms(1) by simp
  have mu: "min (2 * m + 1) (n - 1) = 2 * m + 1 \<and> min (2 * m + 1) (n - 1) + 1 = n \<longleftrightarrow> 2 * m + 2 = n"
    using m assms(1) by auto
  have step: "merkle_step (length pre) n (?ts, mu) (2 * m) =
      (?ts @ [pair_up level ! m], mu \<or> (2 * m + 2 = n \<and> level ! (2 * m) = level ! (2 * m + 1)))" for mu
    unfolding merkle_step_def prod.case Let_def n1 n2 p
    using mu by (cases "2 * m + 2 = n") auto
  have IH: "foldl (merkle_step (length pre) n) (pre @ level, mutated) (map (\<lambda>k. 2 * k) [0..<m]) =
    (?ts, mutated \<or> (\<exists>k < m. 2 * k + 2 = n \<and> level ! (2 * k) = level ! (2 * k + 1)))"
    using Suc by simp
  have "foldl (merkle_step (length pre) n) (pre @ level, mutated) (map (\<lambda>k. 2 * k) [0..<Suc m]) =
      merkle_step (length pre) n (foldl (merkle_step (length pre) n) (pre @ level, mutated) (map (\<lambda>k. 2 * k) [0..<m])) (2 * m)"
    by simp
  then show ?case unfolding IH step t less_Suc_eq by auto
qed simp

lemma merkle_loop_levels:
  assumes "length level = n"
  shows "merkle_loop (length pre) n (pre @ level, mutated) =
    (pre @ concat (levels level), mutated \<or> merkle_mutated level)"
  using assms
proof (induction level arbitrary: pre n mutated rule: levels.induct)
  case (1 level)
  show ?case
  proof (cases "n > 1")
    case False
    then have "\<not> twin_end level" using 1(2) by (cases level; cases "tl level") auto
    then show ?thesis using False 1(2)
      by (subst merkle_loop.simps) (simp add: levels_short merkle_mutated_def)
  next
    case True
    have "(\<exists>k < (n + 1) div 2. 2 * k + 2 = n \<and> level ! (2 * k) = level ! (2 * k + 1)) \<longleftrightarrow> twin_end level"
    proof
      assume "twin_end level"
      then have e: "even n" "level ! (n - 2) = level ! (n - 1)" using 1(2) by (auto simp: twin_end_iff)
      then show "\<exists>k < (n + 1) div 2. 2 * k + 2 = n \<and> level ! (2 * k) = level ! (2 * k + 1)"
      proof -
        obtain b where "n = 2 * b" using e(1) by blast
        with True obtain d where "n = 2 * d + 2" by (cases b) auto
        then show ?thesis using e(2) by (intro exI [of _ d]) simp
      qed
    next
      assume "\<exists>k < (n + 1) div 2. 2 * k + 2 = n \<and> level ! (2 * k) = level ! (2 * k + 1)"
      then obtain k where k: "2 * k + 2 = n" "level ! (2 * k) = level ! (2 * k + 1)" by blast
      have "length level = 2 * k + 2" using k(1) 1(2) by simp
      then show "twin_end level" using k(2) by (auto simp: twin_end_iff)
    qed
    then have s: "foldl (merkle_step (length pre) n) (pre @ level, mutated) (map (\<lambda>k. 2 * k) [0..<(n + 1) div 2]) =
        ((pre @ level) @ pair_up level, mutated \<or> twin_end level)"
      using merkle_steps [OF 1(2) order.refl] 1(2) by simp
    have lev: "levels level = level # levels (pair_up level)" using True 1(2) by (simp add: levels_long)
    have "merkle_loop (length pre) n (pre @ level, mutated) =
        merkle_loop (length (pre @ level)) ((n + 1) div 2) ((pre @ level) @ pair_up level, mutated \<or> twin_end level)"
      using True s 1(2) by (subst merkle_loop.simps) simp
    also have "\<dots> = ((pre @ level) @ concat (levels (pair_up level)), (mutated \<or> twin_end level) \<or> merkle_mutated (pair_up level))"
      using True 1(2) by (intro 1(1)) simp_all
    finally show ?thesis by (simp add: lev merkle_mutated_def disj_assoc)
  qed
qed

lemma last_levels: "length (last (levels xs)) = (if xs = [] then 0 else 1)"
proof (induction xs rule: levels.induct)
  case (1 xs)
  show ?case
  proof (cases "length xs > 1")
    case True
    then show ?thesis using 1 by (auto simp: levels_long)
  next
    case False
    then have "length xs \<le> 1" by simp
    then show ?thesis by (cases xs) (simp_all add: levels_short)
  qed
qed

lemma last_concat_levels: "xs \<noteq> [] \<Longrightarrow> last (concat (levels xs)) = hd (last (levels xs)) \<and> concat (levels xs) \<noteq> []"
proof (induction xs rule: levels.induct)
  case (1 xs)
  show ?case
  proof (cases "length xs > 1")
    case True
    then have IH: "last (concat (levels (pair_up xs))) = hd (last (levels (pair_up xs)))"
      "concat (levels (pair_up xs)) \<noteq> []" using 1 by simp_all
    show ?thesis using True IH by (simp only: levels_long concat.simps last_appendR last_ConsR levels_nonempty simp_thms) simp
  next
    case False
    then obtain x where "xs = [x]" using 1(2) by (cases xs) auto
    then show ?thesis by (simp add: levels_short)
  qed
qed

theorem BuildMerkleTree_root:
  "merkle_tree_root (fst (BuildMerkleTree xs)) = merkle_root xs \<and> snd (BuildMerkleTree xs) = merkle_mutated xs"
proof -
  have b: "BuildMerkleTree xs = (concat (levels xs), merkle_mutated xs)"
    using merkle_loop_levels [of xs "length xs" "[]" False] by (simp add: BuildMerkleTree_def)
  show ?thesis
  proof (cases "xs = []")
    case True
    then show ?thesis by (simp add: b [unfolded True] merkle_tree_root_def merkle_root_def levels_short)
  next
    case False
    then have "length (last (levels xs)) = 1" by (simp add: last_levels)
    then show ?thesis using last_concat_levels [OF False]
      by (auto simp: b merkle_tree_root_def merkle_root_def split: list.splits)
  qed
qed

section \<open>Branches\<close>

lemma xor_1: "(k :: nat) XOR Suc 0 = (if even k then Suc k else k - Suc 0)"
  using xor_Suc_0_eq [of k] by simp

lemma check_branch_levels:
  assumes "k < length level"
  shows "check_branch_loop (level ! k) (branch_loop (pre @ concat (levels level)) (length pre) (length level) k) k =
    merkle_root level"
  using assms
proof (induction level arbitrary: pre k rule: levels.induct)
  case (1 level)
  show ?case
  proof (cases "length level > 1")
    case False
    then obtain x where "level = [x]" using 1(2) by (cases level) auto
    then show ?thesis using 1(2)
      by (subst branch_loop.simps) (simp add: merkle_root_def levels_short)
  next
    case True
    let ?n = "length level" and ?s = "min (k XOR 1) (length level - 1)"
    have s: "?s < ?n" using True by simp
    have lev: "levels level = level # levels (pair_up level)" using True by (rule levels_long)
    have sib: "(pre @ concat (levels level)) ! (length pre + ?s) = level ! ?s"
      using s by (simp add: lev nth_append)
    have half: "(if odd k then node_hash (level ! ?s) (level ! k) else node_hash (level ! k) (level ! ?s)) =
        pair_up level ! (k div 2)"
    proof (cases "even k")
      case True
      then obtain m where m: "k = 2 * m" by blast
      then show ?thesis using pair_up_nth [of m level] 1(2) by (simp add: xor_1)
    next
      case False
      then obtain m where m: "k = 2 * m + 1" by (elim oddE)
      then have "2 * m < ?n" using 1(2) by simp
      moreover have "min (2 * m + 1) (?n - 1) = 2 * m + 1" "?s = 2 * m" using m 1(2) by (auto simp: xor_1)
      ultimately show ?thesis using pair_up_nth [of m level] m by simp
    qed
    have b: "branch_loop (pre @ concat (levels level)) (length pre) ?n k =
        level ! ?s # branch_loop ((pre @ level) @ concat (levels (pair_up level))) (length (pre @ level))
          (length (pair_up level)) (k div 2)"
      using True sib by (subst branch_loop.simps) (simp add: lev)
    have "check_branch_loop (level ! k) (branch_loop (pre @ concat (levels level)) (length pre) ?n k) k =
        check_branch_loop (pair_up level ! (k div 2))
          (branch_loop ((pre @ level) @ concat (levels (pair_up level))) (length (pre @ level))
            (length (pair_up level)) (k div 2)) (k div 2)"
      unfolding b check_branch_loop.simps half ..
    also have "\<dots> = merkle_root (pair_up level)"
      using True 1(2) by (intro 1(1)) auto
    finally show ?thesis using True by (simp add: merkle_root_def lev)
  qed
qed

theorem CheckMerkleBranch_GetMerkleBranch:
  assumes "k < length txids"
  shows "CheckMerkleBranch (txids ! k) (GetMerkleBranch txids k) (int k) =
    merkle_tree_root (fst (BuildMerkleTree txids))"
proof -
  have "fst (BuildMerkleTree txids) = concat (levels txids)"
    using merkle_loop_levels [of txids "length txids" "[]" False] by (simp add: BuildMerkleTree_def)
  then show ?thesis
    using check_branch_levels [OF assms, of "[]"]
    using BuildMerkleTree_root [of txids] by (simp add: CheckMerkleBranch_def GetMerkleBranch_def)
qed

section \<open>The root binds the leaves\<close>

text \<open>The pairs of hashes that are hashed together: on a level, in a tree and along a branch.\<close>

fun pairs :: "uint256 list \<Rightarrow> (uint256 \<times> uint256) list" where
  "pairs [] = []"
| "pairs [x] = [(x, x)]"
| "pairs (x # y # xs) = (x, y) # pairs xs"

definition tree_nodes :: "uint256 list \<Rightarrow> (uint256 \<times> uint256) list" where
  "tree_nodes xs = concat (map pairs (butlast (levels xs)))"

fun path_nodes :: "uint256 \<Rightarrow> uint256 list \<Rightarrow> nat \<Rightarrow> (uint256 \<times> uint256) list" where
  "path_nodes h [] k = []"
| "path_nodes h (b # bs) k =
     (if odd k then (b, h) # path_nodes (node_hash b h) bs (k div 2)
      else (h, b) # path_nodes (node_hash h b) bs (k div 2))"

text \<open>A second preimage of double SHA-256 for one of the listed pairs.  For the pairs of a given
tree this is what an attacker has to find; it does not follow from counting arguments.\<close>

definition second_preimage :: "(uint256 \<times> uint256) list \<Rightarrow> bool" where
  "second_preimage ns \<longleftrightarrow> (\<exists>(a, b) \<in> set ns. \<exists>x. length x = 64 \<and>
     x \<noteq> uint256_bytes a @ uint256_bytes b \<and> Hash x = Hash (uint256_bytes a @ uint256_bytes b))"

lemma uint256_bytes_inj: "uint256_bytes a = uint256_bytes b \<longleftrightarrow> a = b"
  by (metis uint256_bytes_inverse)

lemma node_hash_inj:
  assumes "node_hash a b = node_hash c d" "(a, b) \<in> set ns" "\<not> second_preimage ns"
  shows "c = a \<and> d = b"
proof (rule ccontr)
  let ?x = "uint256_bytes c @ uint256_bytes d"
  assume "\<not> (c = a \<and> d = b)"
  then have "?x \<noteq> uint256_bytes a @ uint256_bytes b" by (auto simp: uint256_bytes_inj)
  moreover have "Hash ?x = Hash (uint256_bytes a @ uint256_bytes b)" "length ?x = 64"
    using assms(1) by (simp_all add: node_hash_def Hash2_append)
  ultimately show False using assms(2,3) unfolding second_preimage_def by blast
qed

lemma second_preimage_mono: "set ns \<subseteq> set ms \<Longrightarrow> second_preimage ns \<Longrightarrow> second_preimage ms"
  unfolding second_preimage_def by blast

theorem CheckMerkleBranch_binds:
  assumes "length bs = length bs'" "0 \<le> i"
    "CheckMerkleBranch h bs i = CheckMerkleBranch h' bs' i"
  shows "h = h' \<and> bs = bs' \<or> second_preimage (path_nodes h bs (nat i))"
proof -
  have "check_branch_loop h bs k = check_branch_loop h' bs' k \<Longrightarrow>
      \<not> second_preimage ns \<Longrightarrow> set (path_nodes h bs k) \<subseteq> set ns \<Longrightarrow> h = h' \<and> bs = bs'" for k ns
    using assms(1)
  proof (induction bs bs' arbitrary: h h' k rule: list_induct2)
    case (Cons b bs b' bs')
    show ?case
    proof (cases "odd k")
      case True
      then have "node_hash b h = node_hash b' h' \<and> bs = bs'" using Cons.IH [of "node_hash b h" "k div 2" "node_hash b' h'"] Cons.prems by simp
      then show ?thesis using node_hash_inj [of b h b' h' ns] Cons.prems True by simp
    next
      case False
      then have "node_hash h b = node_hash h' b' \<and> bs = bs'" using Cons.IH [of "node_hash h b" "k div 2" "node_hash h' b'"] Cons.prems by simp
      then show ?thesis using node_hash_inj [of h b h' b' ns] Cons.prems False by simp
    qed
  qed simp
  from this [of "nat i" "path_nodes h bs (nat i)"] show ?thesis using assms(2,3) by (auto simp: CheckMerkleBranch_def)
qed

lemma tree_nodes_long: "1 < length xs \<Longrightarrow> tree_nodes xs = pairs xs @ tree_nodes (pair_up xs)"
  by (simp add: tree_nodes_def levels_long)

lemma pair_up_inj:
  assumes "pair_up xs = pair_up ys" "\<not> twin_end xs" "\<not> twin_end ys" "\<not> second_preimage ns"
    "set (pairs xs) \<subseteq> set ns"
  shows "xs = ys"
  using assms(1-3,5)
proof (induction xs arbitrary: ys rule: pair_up.induct)
  case (1 ys)
  then have "pair_up ys = []" by simp
  then show ?case by simp
next
  case (2 x ys)
  show ?case
  proof (cases ys rule: pair_up.cases)
    case (2 y)
    then show ?thesis using "2.prems"(1,4) node_hash_inj [OF _ _ assms(4), of x x y y] by simp
  next
    case (3 y z zs)
    then have "zs = []" "node_hash x x = node_hash y z" using "2.prems"(1) by simp_all
    then have "y = z" using node_hash_inj [OF _ _ assms(4), of x x y z] "2.prems"(4) by simp
    then show ?thesis using "2.prems"(3) 3 \<open>zs = []\<close> by simp
  qed (use "2.prems" in simp)
next
  case (3 x x' xs)
  note nodes = node_hash_inj [OF _ _ assms(4), of x x']
  show ?case
  proof (cases ys rule: pair_up.cases)
    case (2 y)
    then have "xs = []" "node_hash x x' = node_hash y y" using "3.prems"(1) by simp_all
    then have "x = x'" using nodes [of y y] "3.prems"(4) by auto
    then show ?thesis using "3.prems"(2) \<open>xs = []\<close> by simp
  next
    case (3 y y' zs)
    then have h: "node_hash x x' = node_hash y y'" "pair_up xs = pair_up zs" using "3.prems"(1) by simp_all
    have "\<not> twin_end xs" using "3.prems"(2) by (cases xs) auto
    moreover have "\<not> twin_end zs" using "3.prems"(3) 3 by (cases zs) auto
    ultimately have "xs = zs" using "3.IH" h(2) "3.prems"(4) by simp
    then show ?thesis using h(1) 3 nodes [of y y'] "3.prems"(4) by simp
  qed (use "3.prems" in simp)
qed

text \<open>Two transaction lists with trees of the same height and the same root are equal, unless one
is flagged as mutated or a second preimage of one of the nodes of the first tree is known.\<close>

lemma merkle_root_inj:
  assumes "merkle_root xs = merkle_root ys" "length (levels xs) = length (levels ys)" "xs \<noteq> []" "ys \<noteq> []"
    "\<not> merkle_mutated xs" "\<not> merkle_mutated ys" "\<not> second_preimage ns" "set (tree_nodes xs) \<subseteq> set ns"
  shows "xs = ys"
  using assms(1-6,8)
proof (induction xs arbitrary: ys rule: levels.induct)
  case (1 xs)
  show ?case
  proof (cases "length xs > 1")
    case True
    have "length (levels xs) = Suc (length (levels (pair_up xs)))" using True by (simp add: levels_long)
    moreover have "0 < length (levels (pair_up xs))" by simp
    ultimately have "length (levels ys) \<noteq> 1" using 1(3) by linarith
    then have ylong: "length ys > 1" by (cases "length ys > 1") (simp_all add: levels_short)
    note lx = levels_long [OF True] and ly = levels_long [OF ylong]
    have n: "set (pairs xs) \<subseteq> set ns" "set (tree_nodes (pair_up xs)) \<subseteq> set ns"
      using 1(8) by (simp_all add: tree_nodes_long [OF True])
    have "merkle_root (pair_up xs) = merkle_root (pair_up ys)" "length (levels (pair_up xs)) = length (levels (pair_up ys))"
      using 1(2,3) by (simp_all add: merkle_root_def lx ly)
    moreover have m: "\<not> twin_end xs" "\<not> merkle_mutated (pair_up xs)" "\<not> twin_end ys" "\<not> merkle_mutated (pair_up ys)"
      using 1(6,7) by (simp_all add: merkle_mutated_def lx ly)
    ultimately have "pair_up xs = pair_up ys"
      using 1(1) [OF True, of "pair_up ys"] 1(4,5) n(2) by simp
    then show ?thesis using m(1,3) assms(7) n(1) by (rule pair_up_inj)
  next
    case False
    then obtain x where x: "xs = [x]" using 1(4) by (cases xs) auto
    then have "length (levels ys) = 1" using 1(3) by (simp add: levels_short)
    then have "\<not> length ys > 1" by (auto simp: levels_long)
    then obtain y where "ys = [y]" using 1(5) by (cases ys) auto
    then show ?thesis using x 1(2) by (simp add: merkle_root_def levels_short)
  qed
qed

lemma pairs_nth:
  "2 * k < length xs \<Longrightarrow> (xs ! (2 * k), xs ! min (2 * k + 1) (length xs - 1)) \<in> set (pairs xs)"
proof (induction xs arbitrary: k rule: pairs.induct)
  case (3 x y xs)
  show ?case
  proof (cases k)
    case (Suc j)
    then have "(xs ! (2 * j), xs ! min (2 * j + 1) (length xs - 1)) \<in> set (pairs xs)" using 3 by simp
    moreover have "min (2 * k + 1) (length (x # y # xs) - 1) = Suc (Suc (min (2 * j + 1) (length xs - 1)))"
      using Suc 3(2) by auto
    ultimately show ?thesis using Suc by simp
  qed simp
qed simp_all

lemma pairs_levels:
  "(\<And>j. j \<le> h \<Longrightarrow> 1 < length ((pair_up ^^ j) xs)) \<Longrightarrow> set (pairs ((pair_up ^^ h) xs)) \<subseteq> set (tree_nodes xs)"
proof (induction h arbitrary: xs)
  case 0
  from 0 [of 0] show ?case by (simp add: tree_nodes_long)
next
  case (Suc h)
  have "1 < length xs" using Suc.prems [of 0] by simp
  moreover have "set (pairs ((pair_up ^^ h) (pair_up xs))) \<subseteq> set (tree_nodes (pair_up xs))"
    by (rule Suc.IH) (metis Suc.prems Suc_le_mono comp_apply funpow_Suc_right)
  ultimately show ?case by (auto simp: tree_nodes_long funpow_swap1)
qed

end
