(* ===== verification/Block.thy ===== *)
theory Block
  imports Merkle
begin

text \<open>
  Blocks (primitives/block.h): the header, whose accumulator checkpoint is serialized from version 4
  on, and the block with its proof-of-stake signature; and the partial Merkle trees of
  merkleblock.cpp.  The Quark hash of the old headers (sphlib) is a parameter.
\<close>

section \<open>Block headers and blocks\<close>

record CBlockHeader =
  hVersion :: int
  hashPrevBlock :: uint256
  hashMerkleRoot :: uint256
  hTime :: "32 word"
  hBits :: "32 word"
  hNonce :: "32 word"
  nAccumulatorCheckpoint :: uint256

definition CBlockHeader_null :: CBlockHeader where
  "CBlockHeader_null = \<lparr>hVersion = 4, hashPrevBlock = 0, hashMerkleRoot = 0, hTime = 0, hBits = 0,
     hNonce = 0, nAccumulatorCheckpoint = 0\<rparr>"

definition header_IsNull :: "CBlockHeader \<Rightarrow> bool" where
  "header_IsNull h \<longleftrightarrow> hBits h = 0"

definition put_header :: "CBlockHeader \<Rightarrow> bytes" where
  "put_header h =
     write_sint 4 (hVersion h) @ put_uint256 (hashPrevBlock h) @ put_uint256 (hashMerkleRoot h) @
     put_word32 (hTime h) @ put_word32 (hBits h) @ put_word32 (hNonce h) @
     (if hVersion h > 3 then put_uint256 (nAccumulatorCheckpoint h) else [])"

definition get_header :: "CBlockHeader reader" where
  "get_header s =
     bindE (read_sint 4 s) (\<lambda>(v, s). bindE (get_uint256 s) (\<lambda>(p, s). bindE (get_uint256 s) (\<lambda>(m, s).
     bindE (get_word32 s) (\<lambda>(t, s). bindE (get_word32 s) (\<lambda>(b, s). bindE (get_word32 s) (\<lambda>(k, s).
     bindE (if v > 3 then get_uint256 s else Inr (nAccumulatorCheckpoint CBlockHeader_null, s)) (\<lambda>(a, s).
       Inr (\<lparr>hVersion = v, hashPrevBlock = p, hashMerkleRoot = m, hTime = t, hBits = b, hNonce = k,
             nAccumulatorCheckpoint = a\<rparr>, s))))))))"

text \<open>The memory image of the header is its serialization with the checkpoint.\<close>

definition header_hash :: "(bytes \<Rightarrow> uint256) \<Rightarrow> CBlockHeader \<Rightarrow> uint256" where
  "header_hash HashQuark h =
     (let upto_nonce = write_sint 4 (hVersion h) @ put_uint256 (hashPrevBlock h) @ put_uint256 (hashMerkleRoot h) @
        put_word32 (hTime h) @ put_word32 (hBits h) @ put_word32 (hNonce h)
      in if hVersion h < 4 then HashQuark upto_nonce
         else Hash (upto_nonce @ put_uint256 (nAccumulatorCheckpoint h)))"

record CBlock =
  bheader :: CBlockHeader
  vtx :: "CTransaction list"
  vchBlockSig :: bytes

definition IsProofOfStake :: "CTransaction list \<Rightarrow> bool" where
  "IsProofOfStake txs \<longleftrightarrow> length txs > 1 \<and> IsCoinStake (txs ! 1)"

definition IsProofOfWork :: "CTransaction list \<Rightarrow> bool" where
  "IsProofOfWork txs \<longleftrightarrow> \<not> IsProofOfStake txs"

definition IsZerocoinStake :: "CTransaction list \<Rightarrow> fault + bool" where
  "IsZerocoinStake txs = (if IsProofOfStake txs then IsZerocoinSpend_tx (txs ! 1) else Inr False)"

definition GetProofOfStake :: "CBlock \<Rightarrow> COutPoint \<times> 32 word" where
  "GetProofOfStake b =
     (if IsProofOfStake (vtx b) then (prevout (vin (vtx b ! 1) ! 0), hTime (bheader b)) else (COutPoint_null, 0))"

definition put_block :: "CBlock \<Rightarrow> bytes" where
  "put_block b = put_header (bheader b) @ put_vector put_CTransaction (vtx b) @
     (if length (vtx b) > 1 \<and> IsCoinStake (vtx b ! 1) then put_blob (vchBlockSig b) else [])"

definition get_block :: "CBlock reader" where
  "get_block s =
     bindE (get_header s) (\<lambda>(h, s). bindE (get_vector get_CTransaction s) (\<lambda>(txs, s).
     bindE (if length txs > 1 \<and> IsCoinStake (txs ! 1) then get_blob s else Inr ([], s)) (\<lambda>(sig, s).
       Inr (\<lparr>bheader = h, vtx = txs, vchBlockSig = sig\<rparr>, s))))"

definition header_ok :: "CBlockHeader \<Rightarrow> bool" where
  "header_ok h \<longleftrightarrow> sint_ok 4 (hVersion h) \<and> (hVersion h \<le> 3 \<longrightarrow> nAccumulatorCheckpoint h = 0)"

definition block_ok :: "CBlock \<Rightarrow> bool" where
  "block_ok b \<longleftrightarrow> header_ok (bheader b) \<and> vector_ok tx_ok (vtx b) \<and> length (vchBlockSig b) \<le> MAX_SIZE \<and>
     (\<not> IsProofOfStake (vtx b) \<longrightarrow> vchBlockSig b = [])"

interpretation block_header: canonical_codec put_header get_header header_ok
proof
  fix h rest assume "header_ok h"
  then show "get_header (put_header h @ rest) = Inr (h, rest)"
    by (cases "hVersion h > 3")
      (simp_all add: put_header_def get_header_def header_ok_def i32.get_put hash256.get_put word32.get_put CBlockHeader_null_def)
next
  fix s h rest assume "get_header s = Inr (h, rest)"
  then show "header_ok h \<and> s = put_header h @ rest"
    by (auto simp: put_header_def get_header_def header_ok_def fault_simps i32.get_iff hash256.get_iff
        word32.get_iff CBlockHeader_null_def split: if_splits)
qed

interpretation txs: canonical_codec "put_vector put_CTransaction" "get_vector get_CTransaction" "vector_ok tx_ok"
  by (rule tx.canonical_vector)

interpretation full_block: canonical_codec put_block get_block block_ok
proof
  fix b rest assume "block_ok b"
  then show "get_block (put_block b @ rest) = Inr (b, rest)"
    by (cases "IsProofOfStake (vtx b)")
      (auto simp: put_block_def get_block_def block_ok_def block_header.get_put txs.get_put blob.get_put
        IsProofOfStake_def)
next
  fix s b rest assume "get_block s = Inr (b, rest)"
  then show "block_ok b \<and> s = put_block b @ rest"
    by (auto simp: put_block_def get_block_def block_ok_def fault_simps block_header.get_iff txs.get_iff
        blob.get_iff IsProofOfStake_def split: if_splits)
qed

section \<open>Partial Merkle trees\<close>

text \<open>Sizes and positions are unsigned 32-bit integers; the sum in CalcTreeWidth can wrap.\<close>

definition CalcTreeWidth :: "nat \<Rightarrow> nat \<Rightarrow> nat" where
  "CalcTreeWidth nTransactions height = (nTransactions + 2 ^ height - 1) mod 2 ^ 32 div 2 ^ height"

fun CalcHash :: "nat \<Rightarrow> nat \<Rightarrow> nat \<Rightarrow> uint256 list \<Rightarrow> uint256" where
  "CalcHash nTransactions 0 pos vTxid = vTxid ! pos"
| "CalcHash nTransactions (Suc height) pos vTxid =
     (let left = CalcHash nTransactions height (pos * 2) vTxid;
          right = (if pos * 2 + 1 < CalcTreeWidth nTransactions height
                   then CalcHash nTransactions height (pos * 2 + 1) vTxid else left)
      in node_hash left right)"

text \<open>The bits and hashes that TraverseAndBuild appends.\<close>

fun TraverseAndBuild :: "nat \<Rightarrow> nat \<Rightarrow> nat \<Rightarrow> uint256 list \<Rightarrow> bool list \<Rightarrow> bool list \<times> uint256 list" where
  "TraverseAndBuild nTransactions height pos vTxid vMatch =
     (let fParentOfMatch = list_ex (\<lambda>p. vMatch ! p) [pos * 2 ^ height..<min ((pos + 1) * 2 ^ height) nTransactions] in
      if height = 0 \<or> \<not> fParentOfMatch then ([fParentOfMatch], [CalcHash nTransactions height pos vTxid])
      else case TraverseAndBuild nTransactions (height - 1) (pos * 2) vTxid vMatch of
        (bits1, hashes1) \<Rightarrow>
          case (if pos * 2 + 1 < CalcTreeWidth nTransactions (height - 1)
                then TraverseAndBuild nTransactions (height - 1) (pos * 2 + 1) vTxid vMatch else ([], [])) of
            (bits2, hashes2) \<Rightarrow> (fParentOfMatch # bits1 @ bits2, hashes1 @ hashes2))"

declare TraverseAndBuild.simps [simp del]

record CPartialMerkleTree =
  pmTransactions :: nat
  vBits :: "bool list"
  vHash :: "uint256 list"
  fBad :: bool

text \<open>The running state of TraverseAndExtract: bits used, hashes used, matches, fBad.\<close>

type_synonym extraction = "nat \<times> nat \<times> uint256 list \<times> bool"

fun TraverseAndExtract ::
  "nat \<Rightarrow> bool list \<Rightarrow> uint256 list \<Rightarrow> nat \<Rightarrow> nat \<Rightarrow> extraction \<Rightarrow> uint256 \<times> extraction" where
  "TraverseAndExtract nTransactions bits hashes height pos (nBitsUsed, nHashUsed, m, bad) =
     (if nBitsUsed \<ge> length bits then (0, nBitsUsed, nHashUsed, m, True)
      else
        let fParentOfMatch = bits ! nBitsUsed; nBitsUsed = nBitsUsed + 1 in
        if height = 0 \<or> \<not> fParentOfMatch then
          (if nHashUsed \<ge> length hashes then (0, nBitsUsed, nHashUsed, m, True)
           else let h = hashes ! nHashUsed in
             (h, nBitsUsed, nHashUsed + 1, if height = 0 \<and> fParentOfMatch then m @ [h] else m, bad))
        else
          case TraverseAndExtract nTransactions bits hashes (height - 1) (pos * 2) (nBitsUsed, nHashUsed, m, bad) of
            (left, st) \<Rightarrow>
              if pos * 2 + 1 < CalcTreeWidth nTransactions (height - 1)
              then case TraverseAndExtract nTransactions bits hashes (height - 1) (pos * 2 + 1) st of
                (right, st) \<Rightarrow> (node_hash left right, st)
              else (node_hash left left, st))"

declare TraverseAndExtract.simps [simp del]

lemma CalcTreeWidth_top: "32 \<le> h \<Longrightarrow> CalcTreeWidth n h = 0"
proof -
  assume "32 \<le> h"
  then have "(2 :: nat) ^ 32 \<le> 2 ^ h" by (intro power_increasing) simp_all
  then have "(n + 2 ^ h - 1) mod 2 ^ 32 < (2 :: nat) ^ h"
    by (metis less_le_trans mod_less_divisor zero_less_numeral zero_less_power)
  then show ?thesis by (simp add: CalcTreeWidth_def)
qed

function tree_height :: "nat \<Rightarrow> nat \<Rightarrow> nat" where
  "tree_height nTransactions nHeight =
     (if CalcTreeWidth nTransactions nHeight > 1 then tree_height nTransactions (nHeight + 1) else nHeight)"
  by pat_completeness auto
termination
  by (relation "measure (\<lambda>(n, h). 32 - h)") (auto simp: CalcTreeWidth_top not_le intro: ccontr)

declare tree_height.simps [simp del]

definition new_pmt :: "uint256 list \<Rightarrow> bool list \<Rightarrow> CPartialMerkleTree" where
  "new_pmt vTxid vMatch =
     (case TraverseAndBuild (length vTxid) (tree_height (length vTxid) 0) 0 vTxid vMatch of
        (bits, hashes) \<Rightarrow> \<lparr>pmTransactions = length vTxid, vBits = bits, vHash = hashes, fBad = False\<rparr>)"

definition ExtractMatches :: "CPartialMerkleTree \<Rightarrow> uint256 \<times> uint256 list" where
  "ExtractMatches pmt =
     (if pmTransactions pmt = 0 then (0, [])
      else if pmTransactions pmt > 2000000 div 60 then (0, [])
      else if length (vHash pmt) > pmTransactions pmt then (0, [])
      else if length (vBits pmt) < length (vHash pmt) then (0, [])
      else case TraverseAndExtract (pmTransactions pmt) (vBits pmt) (vHash pmt)
             (tree_height (pmTransactions pmt) 0) 0 (0, 0, [], fBad pmt) of
        (root, nBitsUsed, nHashUsed, m, bad) \<Rightarrow>
          if bad then (0, m)
          else if (nBitsUsed + 7) div 8 \<noteq> (length (vBits pmt) + 7) div 8 then (0, m)
          else if nHashUsed \<noteq> length (vHash pmt) then (0, m)
          else (root, m))"

subsection \<open>Serialization\<close>

definition pack_bits :: "bool list \<Rightarrow> bytes" where
  "pack_bits bits =
     map (\<lambda>k. foldl (\<lambda>b i. if k * 8 + i < length bits \<and> bits ! (k * 8 + i) then b OR push_bit i 1 else b) 0 [0..<8])
       [0..<(length bits + 7) div 8]"

definition unpack_bits :: "bytes \<Rightarrow> bool list" where
  "unpack_bits vBytes = map (\<lambda>p. vBytes ! (p div 8) AND push_bit (p mod 8) 1 \<noteq> 0) [0..<length vBytes * 8]"

definition put_pmt :: "CPartialMerkleTree \<Rightarrow> bytes" where
  "put_pmt pmt = write_uint 4 (pmTransactions pmt) @ put_vector put_uint256 (vHash pmt) @ put_blob (pack_bits (vBits pmt))"

definition get_pmt :: "CPartialMerkleTree reader" where
  "get_pmt s =
     bindE (read_uint 4 s) (\<lambda>(n, s). bindE (get_vector get_uint256 s) (\<lambda>(hs, s). bindE (get_blob s) (\<lambda>(bs, s).
       Inr (\<lparr>pmTransactions = n, vBits = unpack_bits bs, vHash = hs, fBad = False\<rparr>, s))))"

subsection \<open>Nodes as positions in the levels\<close>

lemma CalcTreeWidth_eq:
  assumes "n \<le> 2 ^ 31" "h \<le> 31"
  shows "CalcTreeWidth n h = (n + 2 ^ h - 1) div 2 ^ h"
proof -
  have "(2 :: nat) ^ h \<le> 2 ^ 31" using assms(2) by (intro power_increasing) simp_all
  then have "n + 2 ^ h - 1 < 2 ^ 32" using assms(1) by simp
  then show ?thesis by (simp add: CalcTreeWidth_def)
qed

lemma width_iff:
  assumes "n \<le> 2 ^ 31" "h \<le> 31"
  shows "pos < CalcTreeWidth n h \<longleftrightarrow> pos * 2 ^ h < n"
proof -
  have "pos < CalcTreeWidth n h \<longleftrightarrow> (pos + 1) * 2 ^ h \<le> n + 2 ^ h - 1"
    unfolding CalcTreeWidth_eq [OF assms] using less_eq_div_iff_mult_less_eq [of "2 ^ h" "pos + 1" "n + 2 ^ h - 1"] by (simp add: Suc_le_eq)
  also have "\<dots> \<longleftrightarrow> pos * 2 ^ h < n"
    using one_le_power [of "2 :: nat" h] unfolding add_mult_distrib by linarith
  finally show ?thesis .
qed

lemma length_levels_at:
  assumes "length xs \<le> 2 ^ 31" "h \<le> 31"
  shows "length ((pair_up ^^ h) xs) = CalcTreeWidth (length xs) h"
  using assms(2)
proof (induction h)
  case 0
  then show ?case using assms(1) by (simp add: CalcTreeWidth_def)
next
  case (Suc h)
  let ?n = "length xs"
  have w: "pos < CalcTreeWidth ?n (Suc h) \<longleftrightarrow> 2 * pos < CalcTreeWidth ?n h" for pos
    using Suc.prems assms(1) by (simp add: width_iff mult.assoc mult.left_commute)
  have "pos < (CalcTreeWidth ?n h + 1) div 2 \<longleftrightarrow> 2 * pos < CalcTreeWidth ?n h" for pos :: nat
    by auto
  then have "CalcTreeWidth ?n (Suc h) = (CalcTreeWidth ?n h + 1) div 2"
    using w by (metis less_not_refl nat_neq_iff)
  then show ?case using Suc by simp
qed

lemma CalcHash_level:
  assumes "length xs \<le> 2 ^ 31" "h \<le> 31" "pos < CalcTreeWidth (length xs) h"
  shows "CalcHash (length xs) h pos xs = (pair_up ^^ h) xs ! pos"
  using assms(2,3)
proof (induction h arbitrary: pos)
  case (Suc h)
  let ?l = "(pair_up ^^ h) xs" and ?w = "CalcTreeWidth (length xs) h"
  have len: "length ?l = ?w" using Suc.prems(1) assms(1) by (simp add: length_levels_at)
  have p: "2 * pos < ?w"
    using Suc.prems assms(1) by (simp add: width_iff mult.assoc mult.left_commute)
  have "(pair_up ^^ Suc h) xs ! pos = node_hash (?l ! (2 * pos)) (?l ! min (2 * pos + 1) (?w - 1))"
    using pair_up_nth [of pos ?l] p len by simp
  moreover have "CalcHash (length xs) h (2 * pos) xs = ?l ! (2 * pos)" using Suc p by simp
  moreover have "2 * pos + 1 < ?w \<Longrightarrow> CalcHash (length xs) h (2 * pos + 1) xs = ?l ! (2 * pos + 1)"
    using Suc by simp
  moreover have "min (2 * pos + 1) (?w - 1) = (if 2 * pos + 1 < ?w then 2 * pos + 1 else 2 * pos)"
    using p by auto
  ultimately show ?case by (simp add: Let_def mult.commute)
qed simp

lemma merkle_root_pair_up: "1 < length xs \<Longrightarrow> merkle_root xs = merkle_root (pair_up xs)"
  by (simp add: merkle_root_def levels_long)

lemma tree_height_root:
  assumes "length xs \<le> 2 ^ 31" "xs \<noteq> []" "h \<le> 31"
  shows "tree_height (length xs) h \<le> 31 \<and> 0 < CalcTreeWidth (length xs) (tree_height (length xs) h) \<and>
    CalcHash (length xs) (tree_height (length xs) h) 0 xs = merkle_root ((pair_up ^^ h) xs)"
  using assms(3)
proof (induction "length xs" h rule: tree_height.induct)
  case (1 h)
  let ?n = "length xs"
  have len: "length ((pair_up ^^ h) xs) = CalcTreeWidth ?n h" using 1 assms(1) by (simp add: length_levels_at)
  show ?case
  proof (cases "CalcTreeWidth ?n h > 1")
    case True
    have "h \<noteq> 31"
    proof
      assume "h = 31"
      then have "1 * 2 ^ 31 < ?n" using True width_iff [of ?n 31 1] assms(1) by simp
      then show False using assms(1) by simp
    qed
    then have "h + 1 \<le> 31" using 1(2) by simp
    moreover have "merkle_root ((pair_up ^^ h) xs) = merkle_root ((pair_up ^^ (h + 1)) xs)"
      using True len by (simp add: merkle_root_pair_up)
    ultimately show ?thesis using 1(1) [OF True] True by (simp add: tree_height.simps [of ?n h])
  next
    case False
    have pos: "0 < CalcTreeWidth ?n h" using width_iff [of ?n h 0] assms(1,2) 1(2) by simp
    then have "length ((pair_up ^^ h) xs) = 1" using False len by simp
    then obtain x where "(pair_up ^^ h) xs = [x]" by (auto simp: length_Suc_conv)
    then show ?thesis using False pos 1(2) assms(1) CalcHash_level [of xs h 0]
      by (simp add: tree_height.simps [of ?n h] merkle_root_def levels_short)
  qed
qed

lemma tree_height_merkle_root:
  assumes "length xs \<le> 2 ^ 31" "xs \<noteq> []"
  shows "tree_height (length xs) 0 \<le> 31" "0 < CalcTreeWidth (length xs) (tree_height (length xs) 0)"
    "CalcHash (length xs) (tree_height (length xs) 0) 0 xs = merkle_root xs"
  using tree_height_root [OF assms, of 0] by simp_all

lemma tree_height_wide:
  "h < tree_height n h0 \<Longrightarrow> h0 \<le> h \<Longrightarrow> 1 < CalcTreeWidth n h"
proof (induction n h0 rule: tree_height.induct)
  case (1 n h0)
  then show ?case by (cases "h = h0") (auto simp: tree_height.simps [of n h0] split: if_splits)
qed

subsection \<open>Extraction undoes construction\<close>

definition matched :: "uint256 list \<Rightarrow> bool list \<Rightarrow> nat \<Rightarrow> nat \<Rightarrow> uint256 list" where
  "matched xs m lo hi = map (\<lambda>p. xs ! p) (filter (\<lambda>p. m ! p) [lo..<min hi (length xs)])"

lemma upt_split: "i \<le> j \<Longrightarrow> j \<le> k \<Longrightarrow> [i..<k] = [i..<j] @ [j..<k]"
  by (metis le_add_diff_inverse upt_add_eq_append)

lemma matched_split:
  "lo \<le> mid \<Longrightarrow> mid \<le> hi \<Longrightarrow> matched xs m lo hi = matched xs m lo mid @ matched xs m mid hi"
proof -
  assume "lo \<le> mid" "mid \<le> hi"
  then have "[lo..<min hi (length xs)] = [lo..<min mid (length xs)] @ [mid..<min hi (length xs)]"
    by (cases "mid \<le> length xs") (auto simp: min_def intro: upt_split)
  then show ?thesis by (simp add: matched_def)
qed

lemma matched_empty: "length xs \<le> lo \<Longrightarrow> matched xs m lo hi = []"
  by (simp add: matched_def)

lemma matched_none:
  "\<not> list_ex (\<lambda>p. m ! p) [lo..<min hi (length xs)] \<Longrightarrow> matched xs m lo hi = []"
  by (auto simp: matched_def list_ex_iff filter_empty_conv)

text \<open>One step of the extraction, at a node whose bit is \<open>f\<close>.\<close>

lemma extract_leaf:
  assumes "h = 0 \<or> \<not> f"
  shows "TraverseAndExtract n (pb @ f # qb) (pk @ k # qk) h pos (length pb, length pk, m, bad) =
    (k, length pb + 1, length pk + 1, if h = 0 \<and> f then m @ [k] else m, bad)"
  using assms by (subst TraverseAndExtract.simps) (simp add: nth_append Let_def)

lemma extract_inner:
  "TraverseAndExtract n (pb @ True # qb) hashes (Suc h) pos (length pb, j, m, bad) =
    (case TraverseAndExtract n (pb @ True # qb) hashes h (pos * 2) (length pb + 1, j, m, bad) of
       (left, st) \<Rightarrow>
         if pos * 2 + 1 < CalcTreeWidth n h
         then case TraverseAndExtract n (pb @ True # qb) hashes h (pos * 2 + 1) st of
           (right, st) \<Rightarrow> (node_hash left right, st)
         else (node_hash left left, st))"
proof -
  have "\<not> length pb \<ge> length (pb @ True # qb)" "(pb @ True # qb) ! length pb" by (simp_all add: nth_append)
  then show ?thesis
    by (subst TraverseAndExtract.simps) (simp only: Let_def diff_Suc_1 nat.distinct simp_thms if_True if_False)
qed

lemma build_inner:
  assumes "list_ex (\<lambda>p. m ! p) [pos * 2 ^ Suc h..<min ((pos + 1) * 2 ^ Suc h) n]"
  shows "TraverseAndBuild n (Suc h) pos xs m =
    (case TraverseAndBuild n h (pos * 2) xs m of
        (bits1, hashes1) \<Rightarrow>
          case (if pos * 2 + 1 < CalcTreeWidth n h
                then TraverseAndBuild n h (pos * 2 + 1) xs m else ([], [])) of
            (bits2, hashes2) \<Rightarrow> (True # bits1 @ bits2, hashes1 @ hashes2))"
  by (subst TraverseAndBuild.simps) (simp only: assms Let_def diff_Suc_1 nat.distinct simp_thms if_True if_False)

lemma build_stop:
  assumes "\<not> list_ex (\<lambda>p. m ! p) [pos * 2 ^ Suc h..<min ((pos + 1) * 2 ^ Suc h) n]"
  shows "TraverseAndBuild n (Suc h) pos xs m = ([False], [CalcHash n (Suc h) pos xs])"
  by (subst TraverseAndBuild.simps) (simp only: assms Let_def simp_thms if_True)

lemma extract_build:
  assumes "length xs \<le> 2 ^ 31"
  shows "h \<le> 31 \<Longrightarrow> pos < CalcTreeWidth (length xs) h \<Longrightarrow> TraverseAndBuild (length xs) h pos xs m = (bs, ks) \<Longrightarrow>
    TraverseAndExtract (length xs) (pb @ bs @ qb) (pk @ ks @ qk) h pos (length pb, length pk, acc, bad) =
      (CalcHash (length xs) h pos xs, length pb + length bs, length pk + length ks,
       acc @ matched xs m (pos * 2 ^ h) ((pos + 1) * 2 ^ h), bad)"
proof (induction h arbitrary: pos bs ks pb pk qb qk acc)
  case 0
  have p: "pos < length xs" using 0(2) assms width_iff [of "length xs" 0 pos] by simp
  then have mn: "min (pos + 1) (length xs) = pos + 1" by simp
  have b: "bs = [m ! pos]" "ks = [xs ! pos]"
    using 0(3) p by (auto simp: TraverseAndBuild.simps [of _ 0] mn)
  show ?case
    using extract_leaf [of 0 "m ! pos" "length xs" pb qb pk "xs ! pos" qk pos acc bad] p
    by (simp add: b matched_def mn)
next
  case (Suc h)
  let ?n = "length xs"
  let ?parent = "list_ex (\<lambda>p. m ! p) [pos * 2 ^ Suc h..<min ((pos + 1) * 2 ^ Suc h) ?n]"
  show ?case
  proof (cases ?parent)
    case False
    then have b: "bs = [False]" "ks = [CalcHash ?n (Suc h) pos xs]"
      using Suc.prems(3) build_stop [OF False, of xs] by auto
    show ?thesis
      using extract_leaf [of "Suc h" False ?n pb qb pk "CalcHash ?n (Suc h) pos xs" qk pos acc bad]
        matched_none [OF False]
      by (simp add: b)
  next
    case True
    have h: "h \<le> 31" using Suc.prems(1) by simp
    have p2: "pos * 2 < CalcTreeWidth ?n h"
      using Suc.prems(1,2) assms by (simp add: width_iff mult.assoc)
    obtain b1 k1 where b1: "TraverseAndBuild ?n h (pos * 2) xs m = (b1, k1)" by fastforce
    define r where "r = (pos * 2 + 1 < CalcTreeWidth ?n h)"
    obtain b2 k2 where b2: "(if r then TraverseAndBuild ?n h (pos * 2 + 1) xs m else ([], [])) = (b2, k2)"
      by fastforce
    have b: "bs = True # b1 @ b2" "ks = k1 @ k2"
      using Suc.prems(3) build_inner [OF True, of xs] b1 b2 by (simp_all add: r_def)
    let ?bits = "pb @ bs @ qb" and ?hashes = "pk @ ks @ qk"
    let ?m1 = "matched xs m (pos * 2 * 2 ^ h) ((pos * 2 + 1) * 2 ^ h)"
    let ?m2 = "matched xs m ((pos * 2 + 1) * 2 ^ h) ((pos * 2 + 1 + 1) * 2 ^ h)"
    have left: "TraverseAndExtract ?n ?bits ?hashes h (pos * 2) (length pb + 1, length pk, acc, bad) =
        (CalcHash ?n h (pos * 2) xs, length pb + 1 + length b1, length pk + length k1, acc @ ?m1, bad)"
      using Suc.IH [OF h p2 b1, of "pb @ [True]" "b2 @ qb" pk "k2 @ qk" acc] by (simp add: b)
    have all: "matched xs m (pos * 2 ^ Suc h) ((pos + 1) * 2 ^ Suc h) = ?m1 @ ?m2"
      using matched_split [of "pos * 2 * 2 ^ h" "(pos * 2 + 1) * 2 ^ h" "(pos * 2 + 1 + 1) * 2 ^ h" xs m]
      by (simp add: algebra_simps)
    have beq: "?bits = pb @ True # (b1 @ b2 @ qb)" by (simp add: b)
    have ext: "TraverseAndExtract ?n ?bits ?hashes (Suc h) pos (length pb, length pk, acc, bad) =
      (case TraverseAndExtract ?n ?bits ?hashes h (pos * 2) (length pb + 1, length pk, acc, bad) of
         (left, st) \<Rightarrow>
           if r then case TraverseAndExtract ?n ?bits ?hashes h (pos * 2 + 1) st of
             (right, st) \<Rightarrow> (node_hash left right, st)
           else (node_hash left left, st))"
      unfolding beq r_def by (rule extract_inner)
    show ?thesis
    proof (cases r)
      case False
      then have "?m2 = []"
        using width_iff [of ?n h "pos * 2 + 1"] assms h by (intro matched_empty) (simp add: r_def)
      moreover have "b2 = []" "k2 = []" using b2 False by simp_all
      ultimately show ?thesis unfolding ext left all using False by (simp add: b r_def Let_def)
    next
      case True
      have right: "TraverseAndExtract ?n ?bits ?hashes h (pos * 2 + 1)
          (length pb + 1 + length b1, length pk + length k1, acc @ ?m1, bad) =
        (CalcHash ?n h (pos * 2 + 1) xs, length pb + 1 + length b1 + length b2, length pk + length k1 + length k2,
         (acc @ ?m1) @ ?m2, bad)"
        using Suc.IH [OF h, of "pos * 2 + 1" b2 k2 "pb @ [True] @ b1" qb "pk @ k1" qk "acc @ ?m1"] True b2
        by (simp add: b r_def)
      show ?thesis unfolding ext left all using True right by (simp add: b r_def Let_def)
    qed
  qed
qed

text \<open>No more hashes than leaves below the node, and no more hashes than bits.\<close>

lemma build_sizes:
  assumes "length xs \<le> 2 ^ 31"
  shows "h \<le> 31 \<Longrightarrow> pos < CalcTreeWidth (length xs) h \<Longrightarrow> TraverseAndBuild (length xs) h pos xs m = (bs, ks) \<Longrightarrow>
    pos * 2 ^ h + length ks \<le> min ((pos + 1) * 2 ^ h) (length xs) \<and> length ks \<le> length bs"
proof (induction h arbitrary: pos bs ks)
  case 0
  then show ?case
    using assms width_iff [of "length xs" 0 pos] by (auto simp: TraverseAndBuild.simps [of _ 0] Let_def)
next
  case (Suc h)
  let ?n = "length xs"
  have h: "h \<le> 31" using Suc.prems(1) by simp
  have p: "pos * 2 ^ Suc h < ?n" using Suc.prems(1,2) assms by (simp add: width_iff)
  have p2: "pos * 2 < CalcTreeWidth ?n h" using p h assms by (simp add: width_iff mult.assoc)
  let ?parent = "list_ex (\<lambda>p. m ! p) [pos * 2 ^ Suc h..<min ((pos + 1) * 2 ^ Suc h) ?n]"
  show ?case
  proof (cases ?parent)
    case False
    then have "length bs = 1" "length ks = 1"
      using Suc.prems(3) build_stop [OF False, of xs] by auto
    moreover have "pos * 2 ^ Suc h < (pos + 1) * 2 ^ Suc h" by simp
    ultimately show ?thesis using p by linarith
  next
    case True
    obtain b1 k1 where b1: "TraverseAndBuild ?n h (pos * 2) xs m = (b1, k1)" by fastforce
    obtain b2 k2 where b2: "(if pos * 2 + 1 < CalcTreeWidth ?n h then TraverseAndBuild ?n h (pos * 2 + 1) xs m else ([], [])) = (b2, k2)"
      by fastforce
    have b: "bs = True # b1 @ b2" "ks = k1 @ k2"
      using Suc.prems(3) build_inner [OF True, of xs] b1 b2 by simp_all
    have s1: "pos * 2 * 2 ^ h + length k1 \<le> min ((pos * 2 + 1) * 2 ^ h) ?n" "length k1 \<le> length b1"
      using Suc.IH [OF h p2 b1] by simp_all
    have s2: "(pos * 2 + 1) * 2 ^ h + length k2 \<le> min ((pos * 2 + 2) * 2 ^ h) ?n \<and> length k2 \<le> length b2 \<or> k2 = []"
      using Suc.IH [OF h, of "pos * 2 + 1" b2 k2] b2 by (auto split: if_splits)
    have e: "pos * 2 ^ Suc h = pos * 2 * 2 ^ h" "(pos + 1) * 2 ^ Suc h = (pos * 2 + 2) * 2 ^ h"
      "(pos * 2 + 1) * 2 ^ h \<le> (pos * 2 + 2) * (2 :: nat) ^ h"
      by (simp_all add: algebra_simps)
    show ?thesis using s1 s2 unfolding b e(1,2) using e(3) by auto
  qed
qed

lemma length_pack_bits: "length (pack_bits bits) = (length bits + 7) div 8"
  by (simp add: pack_bits_def)

lemma bit_pack_bits:
  assumes "k < (length bits + 7) div 8"
  shows "bit (pack_bits bits ! k) i \<longleftrightarrow> i < 8 \<and> k * 8 + i < length bits \<and> bits ! (k * 8 + i)"
  using assms bit_or_loop [of 8 "\<lambda>i. k * 8 + i < length bits \<and> bits ! (k * 8 + i)" i]
  by (simp add: pack_bits_def)

lemma unpack_pack:
  "unpack_bits (pack_bits bits) = bits @ replicate ((length bits + 7) div 8 * 8 - length bits) False"
proof (rule nth_equalityI)
  have le: "length bits \<le> (length bits + 7) div 8 * 8" by simp
  then show len: "length (unpack_bits (pack_bits bits)) =
      length (bits @ replicate ((length bits + 7) div 8 * 8 - length bits) False)"
    by (simp add: unpack_bits_def length_pack_bits)
  fix p assume "p < length (unpack_bits (pack_bits bits))"
  then have p: "p < (length bits + 7) div 8 * 8" by (simp add: unpack_bits_def length_pack_bits)
  then have k: "p div 8 < (length bits + 7) div 8" by (simp add: less_mult_imp_div_less)
  have "unpack_bits (pack_bits bits) ! p \<longleftrightarrow> bit (pack_bits bits ! (p div 8)) (p mod 8)"
    using p by (simp add: unpack_bits_def length_pack_bits bit_iff_and_push_bit_not_eq_0)
  also have "\<dots> \<longleftrightarrow> p < length bits \<and> bits ! p"
    using bit_pack_bits [OF k, of "p mod 8"] by simp
  also have "\<dots> \<longleftrightarrow> (bits @ replicate ((length bits + 7) div 8 * 8 - length bits) False) ! p"
    using p by (auto simp: nth_append)
  finally show "unpack_bits (pack_bits bits) ! p =
      (bits @ replicate ((length bits + 7) div 8 * 8 - length bits) False) ! p" .
qed

lemma get_put_pmt:
  assumes "pmTransactions pmt < 2 ^ 32" "length (vHash pmt) \<le> MAX_SIZE" "length (vBits pmt) \<le> MAX_SIZE"
  shows "get_pmt (put_pmt pmt @ rest) =
    Inr (pmt\<lparr>vBits := vBits pmt @ replicate ((length (vBits pmt) + 7) div 8 * 8 - length (vBits pmt)) False,
      fBad := False\<rparr>, rest)"
proof -
  have "vector_ok (\<lambda>u. True) (vHash pmt)" using assms(2) by (simp add: vector_ok_def list_all_iff)
  then have v: "get_vector get_uint256 (put_vector put_uint256 (vHash pmt) @ r) = Inr (vHash pmt, r)" for r
    using codec.get_put [OF canonical_codec.axioms(1) [OF hash256.canonical_vector]] by blast
  have "get_blob (put_blob (pack_bits (vBits pmt)) @ r) = Inr (pack_bits (vBits pmt), r)" for r
    using assms(3) by (intro blob.get_put) (simp add: length_pack_bits)
  then show ?thesis
    using assms(1) v by (simp add: get_pmt_def put_pmt_def u32.get_put unpack_pack)
qed

text \<open>A receiver extracts from the transmitted tree the root of the block and the selected leaves.\<close>

theorem ExtractMatches_new_pmt:
  assumes "xs \<noteq> []" "length xs \<le> 33333"
  shows "ExtractMatches ((new_pmt xs m)\<lparr>vBits := vBits (new_pmt xs m) @
      replicate ((length (vBits (new_pmt xs m)) + 7) div 8 * 8 - length (vBits (new_pmt xs m))) False\<rparr>) =
    (merkle_root xs, map fst (filter snd (zip xs (map (\<lambda>p. m ! p) [0..<length xs]))))"
proof -
  let ?n = "length xs" and ?H = "tree_height (length xs) 0"
  have n: "?n \<le> 2 ^ 31" using assms(2) by simp
  note H = tree_height_merkle_root [OF n assms(1)]
  obtain bs ks where b: "TraverseAndBuild ?n ?H 0 xs m = (bs, ks)" by fastforce
  define pad where "pad = replicate ((length bs + 7) div 8 * 8 - length bs) False"
  have full: "?n \<le> 2 ^ ?H"
  proof -
    have "\<not> 1 < CalcTreeWidth ?n ?H"
    proof -
      have "\<not> 1 < CalcTreeWidth n (tree_height n h)" for n h
        by (induction n h rule: tree_height.induct) (subst tree_height.simps, simp add: tree_height.simps)
      then show ?thesis .
    qed
    then show ?thesis using width_iff [OF n H(1), of 1] by simp
  qed
  have "TraverseAndExtract ?n (bs @ pad) ks ?H 0 (0, 0, [], False) =
      (merkle_root xs, length bs, length ks, matched xs m 0 (2 ^ ?H), False)"
    using extract_build [OF n H(1,2) b, of "[]" pad "[]" "[]" "[]" False] H(3) by simp
  moreover have "matched xs m 0 (2 ^ ?H) = map fst (filter snd (zip xs (map (\<lambda>p. m ! p) [0..<?n])))"
  proof -
    have "matched xs m 0 (2 ^ ?H) = map (\<lambda>p. xs ! p) (filter (\<lambda>p. m ! p) [0..<?n])"
      using full by (simp add: matched_def)
    also have "\<dots> = map fst (filter snd (map (\<lambda>p. (xs ! p, m ! p)) [0..<?n]))"
      by (simp add: filter_map o_def)
    also have "map (\<lambda>p. (xs ! p, m ! p)) [0..<?n] = zip xs (map (\<lambda>p. m ! p) [0..<?n])"
      by (rule nth_equalityI) simp_all
    finally show ?thesis .
  qed
  moreover have "length ks \<le> ?n" "length ks \<le> length bs"
    using build_sizes [OF n H(1,2) b] by simp_all
  moreover have "(length (bs @ pad) + 7) div 8 = (length bs + 7) div 8" by (simp add: pad_def)
  ultimately show ?thesis
    using assms by (simp add: ExtractMatches_def new_pmt_def b pad_def [symmetric])
qed

text \<open>The same over the wire: what a peer that reads the tree extracts.\<close>

lemma build_bits: "TraverseAndBuild n h pos xs m = (bs, ks) \<Longrightarrow> length bs < 2 ^ Suc h"
proof (induction h arbitrary: pos bs ks)
  case (Suc h)
  show ?case
  proof (cases "list_ex (\<lambda>p. m ! p) [pos * 2 ^ Suc h..<min ((pos + 1) * 2 ^ Suc h) n]")
    case True
    obtain b1 k1 where l: "TraverseAndBuild n h (pos * 2) xs m = (b1, k1)" by fastforce
    obtain b2 k2 where r: "TraverseAndBuild n h (pos * 2 + 1) xs m = (b2, k2)" by fastforce
    have "length b1 < 2 ^ Suc h" "length b2 < 2 ^ Suc h" using Suc.IH l r by blast+
    then show ?thesis using Suc.prems unfolding build_inner [OF True] l r by (auto split: if_splits)
  next
    case False
    then have "length bs = 1" using Suc.prems unfolding build_stop [OF False] by auto
    moreover have "(1 :: nat) < 2 ^ Suc (Suc h)" by (rule one_less_power) simp_all
    ultimately show ?thesis by simp
  qed
qed (subst (asm) TraverseAndBuild.simps, auto simp: Let_def)

theorem ExtractMatches_wire:
  assumes "xs \<noteq> []" "length xs \<le> 33333"
  shows "\<exists>pmt. get_pmt (put_pmt (new_pmt xs m) @ rest) = Inr (pmt, rest) \<and>
    ExtractMatches pmt = (merkle_root xs, map fst (filter snd (zip xs (map (\<lambda>p. m ! p) [0..<length xs]))))"
proof -
  let ?n = "length xs" and ?h = "tree_height (length xs) 0"
  have h: "?h \<le> 16"
  proof (rule ccontr)
    assume "\<not> ?h \<le> 16"
    then have "1 < CalcTreeWidth ?n 16" using tree_height_wide [of 16 ?n 0] by simp
    then show False using width_iff [of ?n 16 1] assms(2) by simp
  qed
  obtain bs ks where b: "TraverseAndBuild ?n ?h 0 xs m = (bs, ks)" by fastforce
  have n: "?n \<le> 2 ^ 31" using assms(2) by simp
  note H = tree_height_merkle_root [OF n assms(1)]
  have "length bs < 2 ^ Suc ?h" using b by (rule build_bits)
  also have "(2 :: nat) ^ Suc ?h \<le> 2 ^ 17" using h by (intro power_increasing) simp_all
  finally have sizes: "length bs \<le> MAX_SIZE" "length ks \<le> MAX_SIZE"
    using build_sizes [OF n H(1,2) b] assms(2) by simp_all
  have "get_pmt (put_pmt (new_pmt xs m) @ rest) = Inr ((new_pmt xs m)\<lparr>vBits := vBits (new_pmt xs m) @
      replicate ((length (vBits (new_pmt xs m)) + 7) div 8 * 8 - length (vBits (new_pmt xs m))) False\<rparr>, rest)"
    using get_put_pmt [of "new_pmt xs m" rest] sizes n by (simp add: new_pmt_def b)
  then show ?thesis using ExtractMatches_new_pmt [OF assms, of m] by blast
qed

subsection \<open>What is extracted is in the block\<close>

lemma CalcHash_node:
  assumes "length xs \<le> 2 ^ 31" "Suc h \<le> tree_height (length xs) 0" "h \<le> 31" "pos * 2 < CalcTreeWidth (length xs) h"
  shows "(CalcHash (length xs) h (pos * 2) xs,
     if pos * 2 + 1 < CalcTreeWidth (length xs) h then CalcHash (length xs) h (pos * 2 + 1) xs
     else CalcHash (length xs) h (pos * 2) xs) \<in> set (tree_nodes xs)"
proof -
  let ?l = "(pair_up ^^ h) xs" and ?w = "CalcTreeWidth (length xs) h"
  have "1 < length ((pair_up ^^ j) xs)" if "j \<le> h" for j
    using that assms tree_height_wide [of j "length xs" 0] by (simp add: length_levels_at)
  then have "set (pairs ?l) \<subseteq> set (tree_nodes xs)" by (rule pairs_levels)
  moreover have len: "length ?l = ?w" using assms by (simp add: length_levels_at)
  ultimately have "(?l ! (pos * 2), ?l ! min (pos * 2 + 1) (?w - 1)) \<in> set (tree_nodes xs)"
    using pairs_nth [of pos ?l] assms(4) by (auto simp: mult.commute)
  moreover have "min (pos * 2 + 1) (?w - 1) = (if pos * 2 + 1 < ?w then pos * 2 + 1 else pos * 2)"
    using assms(4) by auto
  ultimately show ?thesis using assms CalcHash_level by (simp split: if_splits)
qed

lemma extract_sound:
  assumes "length xs \<le> 2 ^ 31" "\<not> second_preimage (tree_nodes xs)"
  shows "h \<le> 31 \<Longrightarrow> h \<le> tree_height (length xs) 0 \<Longrightarrow> pos < CalcTreeWidth (length xs) h \<Longrightarrow>
    TraverseAndExtract (length xs) bits hashes h pos (b, k, m, bad) = (CalcHash (length xs) h pos xs, b', k', m', bad') \<Longrightarrow>
    set m' \<subseteq> set m \<union> set xs"
proof (induction h arbitrary: pos b k m bad b' k' m' bad')
  case 0
  then have "pos < length xs" using assms(1) width_iff [of "length xs" 0 pos] by simp
  then show ?case using 0
    by (subst (asm) TraverseAndExtract.simps) (auto simp: Let_def split: if_splits)
next
  case (Suc h)
  let ?n = "length xs"
  have h: "h \<le> 31" "h \<le> tree_height (length xs) 0" using Suc.prems(1,2) by simp_all
  have p2: "pos * 2 < CalcTreeWidth ?n h"
    using Suc.prems(1,3) assms(1) by (simp add: width_iff mult.assoc)
  note node = CalcHash_node [OF assms(1) Suc.prems(2) h(1) p2]
  let ?ex = "TraverseAndExtract ?n bits hashes"
  show ?case
  proof (cases "b \<ge> length bits \<or> \<not> bits ! b")
    case True
    then show ?thesis using Suc.prems(4)
      by (subst (asm) TraverseAndExtract.simps) (auto simp: Let_def split: if_splits)
  next
    case False
    obtain left b1 k1 m1 bad1 where e1: "?ex h (pos * 2) (b + 1, k, m, bad) = (left, b1, k1, m1, bad1)"
      by (metis prod_cases5)
    have nd: "?ex (Suc h) pos (b, k, m, bad) =
      (if pos * 2 + 1 < CalcTreeWidth ?n h
       then case ?ex h (pos * 2 + 1) (b1, k1, m1, bad1) of (right, st) \<Rightarrow> (node_hash left right, st)
       else (node_hash left left, b1, k1, m1, bad1))"
      using False e1
      by (subst TraverseAndExtract.simps) (simp only: Let_def diff_Suc_1 nat.distinct simp_thms if_False de_Morgan_disj prod.case)
    show ?thesis
    proof (cases "pos * 2 + 1 < CalcTreeWidth ?n h")
      case True
      obtain right b2 k2 m2 bad2 where e2: "?ex h (pos * 2 + 1) (b1, k1, m1, bad1) = (right, b2, k2, m2, bad2)"
        by (metis prod_cases5)
      have "node_hash (CalcHash ?n h (pos * 2) xs) (CalcHash ?n h (pos * 2 + 1) xs) = node_hash left right" "m' = m2"
        using Suc.prems(4) nd True e2 by (simp_all add: Let_def)
      then have lr: "left = CalcHash ?n h (pos * 2) xs" "right = CalcHash ?n h (pos * 2 + 1) xs"
        using node_hash_inj [OF _ node assms(2), of left right] True by simp_all
      have "set m1 \<subseteq> set m \<union> set xs" using Suc.IH [OF h p2 e1 [unfolded lr(1)]] .
      moreover have "set m2 \<subseteq> set m1 \<union> set xs" using Suc.IH [OF h True e2 [unfolded lr(2)]] .
      ultimately show ?thesis using \<open>m' = m2\<close> by blast
    next
      case False
      have "node_hash (CalcHash ?n h (pos * 2) xs) (CalcHash ?n h (pos * 2) xs) = node_hash left left" "m' = m1"
        using Suc.prems(4) nd False by (simp_all add: Let_def)
      then have "left = CalcHash ?n h (pos * 2) xs"
        using node_hash_inj [OF _ node assms(2), of left left] False by simp
      then show ?thesis using Suc.IH [OF h p2] e1 \<open>m' = m1\<close> by blast
    qed
  qed
qed

theorem ExtractMatches_sound:
  assumes "pmTransactions pmt = length xs" "ExtractMatches pmt = (merkle_root xs, ms)" "merkle_root xs \<noteq> 0"
  shows "set ms \<subseteq> set xs \<or> second_preimage (tree_nodes xs)"
proof -
  have n: "xs \<noteq> []" "length xs \<le> 2 ^ 31"
    using assms by (auto simp: ExtractMatches_def split: if_splits)
  note H = tree_height_merkle_root [OF n(2,1)]
  obtain r b k m bad where e: "TraverseAndExtract (length xs) (vBits pmt) (vHash pmt) (tree_height (length xs) 0) 0
      (0, 0, [], fBad pmt) = (r, b, k, m, bad)" by (metis prod_cases5)
  then have "r = merkle_root xs" "m = ms"
    using assms by (auto simp: ExtractMatches_def split: if_splits)
  then show ?thesis using extract_sound [OF n(2) _ H(1) _ H(2)] e H(3) by fastforce
qed

end
