(* ===== verification/ArithUint.thy ===== *)
theory ArithUint
  imports Block
begin

text \<open>
  The unsigned big integers of uint256.h and uint256.cpp: base_uint as the list of its 32-bit limbs,
  least significant first, with the limb algorithms of the code.  Each operation is proved to compute
  the operation on the value of the limbs modulo \<open>2 ^ (32 * WIDTH)\<close>, which is why the other
  theories use \<open>256 word\<close> for a uint256.
\<close>

type_synonym limbs = "32 word list"

fun limbs_val :: "limbs \<Rightarrow> nat" where
  "limbs_val [] = 0"
| "limbs_val (x # xs) = unat x + 2 ^ 32 * limbs_val xs"

section \<open>The operations\<close>

definition limbs_null :: "nat \<Rightarrow> limbs" where
  "limbs_null width = replicate width 0"

definition limbs_of_u64 :: "nat \<Rightarrow> 64 word \<Rightarrow> limbs" where
  "limbs_of_u64 width b = [ucast b, ucast (drop_bit 32 b)] @ replicate (width - 2) 0"

definition limbs_IsNull :: "limbs \<Rightarrow> bool" where
  "limbs_IsNull pn \<longleftrightarrow> list_all (\<lambda>x. x = 0) pn"

fun add_loop :: "64 word \<Rightarrow> limbs \<Rightarrow> limbs \<Rightarrow> limbs" where
  "add_loop carry (x # xs) (y # ys) =
     (let n = carry + ucast x + ucast y in ucast n # add_loop (drop_bit 32 n) xs ys)"
| "add_loop carry _ _ = []"

definition limbs_add :: "limbs \<Rightarrow> limbs \<Rightarrow> limbs" where
  "limbs_add a b = add_loop 0 a b"

fun limbs_inc :: "limbs \<Rightarrow> limbs" where
  "limbs_inc [] = []"
| "limbs_inc [x] = [x + 1]"
| "limbs_inc (x # y # xs) = (if x + 1 = 0 then (x + 1) # limbs_inc (y # xs) else (x + 1) # y # xs)"

fun limbs_dec :: "limbs \<Rightarrow> limbs" where
  "limbs_dec [] = []"
| "limbs_dec [x] = [x - 1]"
| "limbs_dec (x # y # xs) = (if x - 1 = -1 then (x - 1) # limbs_dec (y # xs) else (x - 1) # y # xs)"

definition limbs_not :: "limbs \<Rightarrow> limbs" where
  "limbs_not a = map NOT a"

definition limbs_neg :: "limbs \<Rightarrow> limbs" where
  "limbs_neg a = limbs_inc (map NOT a)"

definition limbs_sub :: "limbs \<Rightarrow> limbs \<Rightarrow> limbs" where
  "limbs_sub a b = limbs_add a (limbs_neg b)"

text \<open>operator<<= and operator>>=: \<open>a\<close> is the old value, the result starts at zero.\<close>

definition shl_step :: "limbs \<Rightarrow> nat \<Rightarrow> nat \<Rightarrow> limbs \<Rightarrow> nat \<Rightarrow> limbs" where
  "shl_step a k s pn i =
     (let pn = (if i + k + 1 < length a \<and> s \<noteq> 0
                then pn[i + k + 1 := pn ! (i + k + 1) OR drop_bit (32 - s) (a ! i)] else pn)
      in if i + k < length a then pn[i + k := pn ! (i + k) OR push_bit s (a ! i)] else pn)"

definition limbs_shl :: "limbs \<Rightarrow> nat \<Rightarrow> limbs" where
  "limbs_shl a shift =
     foldl (shl_step a (shift div 32) (shift mod 32)) (replicate (length a) 0) [0..<length a]"

definition shr_step :: "limbs \<Rightarrow> nat \<Rightarrow> nat \<Rightarrow> limbs \<Rightarrow> nat \<Rightarrow> limbs" where
  "shr_step a k s pn i =
     (let pn = (if i \<ge> k + 1 \<and> s \<noteq> 0
                then pn[i - k - 1 := pn ! (i - k - 1) OR push_bit (32 - s) (a ! i)] else pn)
      in if i \<ge> k then pn[i - k := pn ! (i - k) OR drop_bit s (a ! i)] else pn)"

definition limbs_shr :: "limbs \<Rightarrow> nat \<Rightarrow> limbs" where
  "limbs_shr a shift =
     foldl (shr_step a (shift div 32) (shift mod 32)) (replicate (length a) 0) [0..<length a]"

fun mul32_loop :: "64 word \<Rightarrow> 32 word \<Rightarrow> limbs \<Rightarrow> limbs" where
  "mul32_loop carry b32 [] = []"
| "mul32_loop carry b32 (x # xs) =
     (let n = carry + ucast b32 * ucast x in ucast n # mul32_loop (drop_bit 32 n) b32 xs)"

definition limbs_mul32 :: "limbs \<Rightarrow> 32 word \<Rightarrow> limbs" where
  "limbs_mul32 a b32 = mul32_loop 0 b32 a"

text \<open>The inner loop of operator*= runs over the limbs \<open>pn[j..]\<close> of the result and the limbs of
\<open>b\<close>; after it, \<open>pn[j]\<close> is final.\<close>

fun row_loop :: "64 word \<Rightarrow> 32 word \<Rightarrow> limbs \<Rightarrow> limbs \<Rightarrow> limbs" where
  "row_loop carry aj (p # ps) (b # bs) =
     (let n = carry + ucast p + ucast aj * ucast b in ucast n # row_loop (drop_bit 32 n) aj ps bs)"
| "row_loop carry aj ps bs = ps"

fun mul_loop :: "limbs \<Rightarrow> limbs \<Rightarrow> limbs \<Rightarrow> limbs" where
  "mul_loop pn [] b = pn"
| "mul_loop pn (aj # a) b =
     (case row_loop 0 aj pn b of [] \<Rightarrow> [] | p # pn' \<Rightarrow> p # mul_loop pn' a b)"

definition limbs_mul :: "limbs \<Rightarrow> limbs \<Rightarrow> limbs" where
  "limbs_mul a b = mul_loop (replicate (length a) 0) a b"

definition limb_bits :: "32 word \<Rightarrow> nat" where
  "limb_bits x = (case filter (\<lambda>b. x AND push_bit b 1 \<noteq> 0) (rev [1..<32]) of [] \<Rightarrow> 1 | b # _ \<Rightarrow> b + 1)"

fun bits_loop :: "limbs \<Rightarrow> nat" where
  "bits_loop [] = 0"
| "bits_loop (x # xs) = (if x \<noteq> 0 then 32 * length xs + limb_bits x else bits_loop xs)"

definition limbs_bits :: "limbs \<Rightarrow> nat" where
  "limbs_bits pn = bits_loop (rev pn)"

fun cmp_loop :: "limbs \<Rightarrow> limbs \<Rightarrow> int" where
  "cmp_loop (x # xs) (y # ys) = (if x < y then -1 else if x > y then 1 else cmp_loop xs ys)"
| "cmp_loop _ _ = 0"

definition CompareTo :: "limbs \<Rightarrow> limbs \<Rightarrow> int" where
  "CompareTo a b = cmp_loop (rev a) (rev b)"

definition EqualTo :: "limbs \<Rightarrow> 64 word \<Rightarrow> bool" where
  "EqualTo pn b \<longleftrightarrow> list_all (\<lambda>x. x = 0) (drop 2 pn) \<and> ucast (pn ! 1) = drop_bit 32 b \<and>
     ucast (pn ! 0) = b AND 0xffffffff"

text \<open>The division loop, at \<open>shift + 1\<close>; it stops when shift is -1.\<close>

fun div_loop :: "nat \<Rightarrow> limbs \<Rightarrow> limbs \<Rightarrow> limbs \<Rightarrow> limbs \<times> limbs" where
  "div_loop 0 num dv pn = (pn, num)"
| "div_loop (Suc shift) num dv pn =
     (let ge = CompareTo num dv \<ge> 0;
          num' = (if ge then limbs_sub num dv else num);
          pn' = (if ge then pn[shift div 32 := pn ! (shift div 32) OR push_bit (shift mod 32) 1] else pn)
      in div_loop shift num' (limbs_shr dv 1) pn')"

definition limbs_div :: "limbs \<Rightarrow> limbs \<Rightarrow> fault + limbs" where
  "limbs_div a b =
     (let num_bits = limbs_bits a; div_bits = limbs_bits b in
      if div_bits = 0 then Inl Throw
      else if div_bits > num_bits then Inr (replicate (length a) 0)
      else let shift = num_bits - div_bits in
        Inr (fst (div_loop (shift + 1) a (limbs_shl b shift) (replicate (length a) 0))))"

definition Get64 :: "limbs \<Rightarrow> nat \<Rightarrow> 64 word" where
  "Get64 pn n = ucast (pn ! (2 * n)) OR push_bit 32 (ucast (pn ! (2 * n + 1)))"

section \<open>Values\<close>

lemma limbs_val_less: "limbs_val xs < 2 ^ (32 * length xs)"
proof (induction xs)
  case (Cons x xs)
  have "unat x < 2 ^ 32" using unsigned_less [of x, where ?'a = nat] by simp
  then have "limbs_val (x # xs) < 2 ^ 32 * (limbs_val xs + 1)" by simp
  also have "\<dots> \<le> 2 ^ 32 * 2 ^ (32 * length xs)" using Cons by (intro mult_le_mono2) simp
  also have "\<dots> = 2 ^ (32 * length (x # xs))" by (simp add: power_add)
  finally show ?case .
qed simp

lemma limbs_val_replicate [simp]: "limbs_val (replicate n 0) = 0"
  by (induction n) simp_all

lemma bit_limbs_val:
  "bit (limbs_val xs) p \<longleftrightarrow> p div 32 < length xs \<and> bit (xs ! (p div 32)) (p mod 32)"
proof (induction xs arbitrary: p)
  case (Cons x xs)
  have x: "unat x < 2 ^ 32" using unsigned_less [of x, where ?'a = nat] by simp
  show ?case
  proof (cases "p < 32")
    case True
    have "bit (unat x + 2 ^ 32 * limbs_val xs) p \<longleftrightarrow> bit (take_bit 32 (unat x + 2 ^ 32 * limbs_val xs)) p"
      using True by (simp add: bit_take_bit_iff)
    also have "take_bit 32 (unat x + 2 ^ 32 * limbs_val xs) = unat x"
      using x by (simp add: take_bit_eq_mod)
    finally show ?thesis using True by (simp add: bit_unsigned_iff)
  next
    case False
    then obtain q where q: "p = 32 + q" using le_Suc_ex by (metis not_less)
    have "bit (unat x + 2 ^ 32 * limbs_val xs) p \<longleftrightarrow> bit (drop_bit 32 (unat x + 2 ^ 32 * limbs_val xs)) q"
      by (simp only: q bit_drop_bit_eq o_def)
    also have "drop_bit 32 (unat x + 2 ^ 32 * limbs_val xs) = limbs_val xs"
      using x by (simp add: drop_bit_eq_div)
    moreover have "(32 + q) div 32 = Suc (q div 32)" "(32 + q) mod 32 = q mod 32" by simp_all
    ultimately show ?thesis using Cons q by simp
  qed
qed simp

lemma limb_step: "(n :: nat) mod B + B * ((n div B + r) mod M) = (n + B * r) mod (B * M)"
proof (cases "B = 0")
  case False
  have "(n + B * r) mod (B * M) = B * ((n + B * r) div B mod M) + (n + B * r) mod B"
    by (rule mod_mult2_eq)
  then show ?thesis using False by (simp add: add.commute)
qed simp

text \<open>The multiply-and-accumulate step never leaves 64 bits.\<close>

lemma mac_step:
  fixes p a b :: "32 word" and c :: "64 word"
  assumes "unat c < 2 ^ 32"
  defines "n \<equiv> c + ucast p + ucast a * ucast b"
  shows "unat n = unat c + unat p + unat a * unat b" "unat (ucast n :: 32 word) = unat n mod 2 ^ 32"
    "unat (drop_bit 32 n) = unat n div 2 ^ 32" "unat (drop_bit 32 n) < 2 ^ 32"
proof -
  have w: "unat p \<le> 2 ^ 32 - 1" "unat a \<le> 2 ^ 32 - 1" "unat b \<le> 2 ^ 32 - 1"
    using unsigned_less [of p, where ?'a = nat] unsigned_less [of a, where ?'a = nat]
      unsigned_less [of b, where ?'a = nat] by simp_all
  have "unat a * unat b \<le> (2 ^ 32 - 1) * (2 ^ 32 - 1)" by (intro mult_le_mono w)
  then have s: "unat c + unat p + unat a * unat b < 2 ^ 64" using assms(1) w(1) by simp
  have n: "n = of_nat (unat c + unat p + unat a * unat b)"
    by (simp add: n_def of_nat_unat)
  then show u: "unat n = unat c + unat p + unat a * unat b"
    unfolding n using s by (simp only: unat_of_nat) simp
  show "unat (ucast n :: 32 word) = unat n mod 2 ^ 32"
    by (simp add: unsigned_ucast_eq take_bit_eq_mod)
  have "unat n < 2 ^ 64" using s u by simp
  then show d: "unat (drop_bit 32 n) = unat n div 2 ^ 32"
    by (simp only: unsigned_drop_bit_eq) (simp add: take_bit_nat_eq_self drop_bit_eq_div)
  then show "unat (drop_bit 32 n) < 2 ^ 32" using \<open>unat n < 2 ^ 64\<close> by (simp add: div_less_iff_less_mult)
qed

section \<open>Addition, negation, subtraction\<close>

lemma length_add_loop: "length a = length b \<Longrightarrow> length (add_loop c a b) = length a"
  by (induction c a b rule: add_loop.induct) (simp_all add: Let_def)

lemma pow32_Suc: "(2 :: nat) ^ (32 * length (x # xs)) = 2 ^ 32 * 2 ^ (32 * length xs)"
  by (simp add: power_add)

lemma add_step:
  fixes x y :: "32 word" and c :: "64 word"
  assumes "unat c < 2 ^ 32"
  defines "n \<equiv> c + ucast x + ucast y"
  shows "unat n = unat c + unat x + unat y" "unat (ucast n :: 32 word) = unat n mod 2 ^ 32"
    "unat (drop_bit 32 n) = unat n div 2 ^ 32" "unat (drop_bit 32 n) < 2 ^ 32"
proof -
  have n: "n = c + ucast x + ucast (1 :: 32 word) * ucast y" by (simp add: n_def)
  note m = mac_step [OF assms(1), of x 1 y, folded n]
  show "unat n = unat c + unat x + unat y" "unat (ucast n :: 32 word) = unat n mod 2 ^ 32"
    "unat (drop_bit 32 n) = unat n div 2 ^ 32" "unat (drop_bit 32 n) < 2 ^ 32"
    using m by simp_all
qed

lemma add_loop_val:
  "length a = length b \<Longrightarrow> unat c < 2 ^ 32 \<Longrightarrow>
    limbs_val (add_loop c a b) = (unat c + limbs_val a + limbs_val b) mod 2 ^ (32 * length a)"
proof (induction c a b rule: add_loop.induct)
  case (1 c x xs y ys)
  define n where "n = c + ucast x + ucast y"
  note m = add_step [OF 1(3), of x y, folded n_def]
  have ih: "limbs_val (add_loop (drop_bit 32 n) xs ys) =
      (unat (drop_bit 32 n) + limbs_val xs + limbs_val ys) mod 2 ^ (32 * length xs)"
    using 1(1) [OF n_def] 1(2) m(4) by simp
  have "limbs_val (add_loop c (x # xs) (y # ys)) = unat (ucast n :: 32 word) + 2 ^ 32 * limbs_val (add_loop (drop_bit 32 n) xs ys)"
    by (simp add: n_def Let_def)
  also have "\<dots> =
      unat n mod 2 ^ 32 + 2 ^ 32 * ((unat n div 2 ^ 32 + (limbs_val xs + limbs_val ys)) mod 2 ^ (32 * length xs))"
    by (simp only: ih m(2,3) add.assoc)
  also have "\<dots> = (unat n + 2 ^ 32 * (limbs_val xs + limbs_val ys)) mod (2 ^ 32 * 2 ^ (32 * length xs))"
    by (rule limb_step)
  also have "\<dots> = (unat c + limbs_val (x # xs) + limbs_val (y # ys)) mod 2 ^ (32 * length (x # xs))"
    unfolding pow32_Suc m(1) by (simp add: algebra_simps)
  finally show ?case .
qed simp_all

theorem limbs_add_val:
  "length a = length b \<Longrightarrow> limbs_val (limbs_add a b) = (limbs_val a + limbs_val b) mod 2 ^ (32 * length a)"
  using add_loop_val [of a b 0] by (simp add: limbs_add_def)

lemma unat_inc: "x + 1 \<noteq> 0 \<Longrightarrow> unat (x + 1 :: 32 word) = unat x + 1"
  using unatSuc [of x] by (simp add: add.commute)

lemma unat_minus_one_32: "unat (-1 :: 32 word) = 2 ^ 32 - 1"
proof -
  have "(-1 :: 32 word) = 0xffffffff" by simp
  then show ?thesis by (simp only:) simp
qed

lemma unat_wrap:
  assumes "x + 1 = (0 :: 32 word)"
  shows "unat x = 2 ^ 32 - 1"
proof -
  have "x = -1" using assms by (simp add: eq_neg_iff_add_eq_0)
  then show ?thesis by (simp only: unat_minus_one_32)
qed

lemma limbs_inc_val: "a \<noteq> [] \<Longrightarrow> limbs_val (limbs_inc a) = (limbs_val a + 1) mod 2 ^ (32 * length a)"
proof (induction a rule: limbs_inc.induct)
  case (2 x)
  have "unat (x + 1) = (unat x + 1) mod 2 ^ 32" by (simp add: unat_word_ariths)
  then show ?case by simp
next
  case (3 x y xs)
  have lt: "limbs_val (y # xs) < 2 ^ (32 * length (y # xs))" by (rule limbs_val_less)
  show ?case
  proof (cases "x + 1 = 0")
    case True
    then have x: "unat x = 2 ^ 32 - 1" by (rule unat_wrap)
    have "limbs_val (limbs_inc (x # y # xs)) = 2 ^ 32 * ((limbs_val (y # xs) + 1) mod 2 ^ (32 * length (y # xs)))"
      using True 3 by simp
    also have "\<dots> = (2 ^ 32 * (limbs_val (y # xs) + 1)) mod (2 ^ 32 * 2 ^ (32 * length (y # xs)))"
      by (simp only: mult_mod_right)
    also have "2 ^ 32 * (limbs_val (y # xs) + 1) = limbs_val (x # y # xs) + 1" using x by simp
    finally show ?thesis unfolding pow32_Suc [of x "y # xs"] .
  next
    case False
    then have u: "unat (x + 1) = unat x + 1" by (simp add: unat_inc)
    have "unat (x + 1) < 2 ^ 32" using unsigned_less [of "x + 1", where ?'a = nat] by simp
    then have "limbs_val ((x + 1) # y # xs) < 2 ^ (32 * length (x # y # xs))"
      using limbs_val_less [of "(x + 1) # y # xs"] by simp
    then show ?thesis using False u by simp
  qed
qed simp

lemma length_limbs_inc [simp]: "length (limbs_inc a) = length a"
  by (induction a rule: limbs_inc.induct) simp_all

lemma limbs_not_add: "limbs_val (map NOT a) + limbs_val a + 1 = 2 ^ (32 * length a)"
proof (induction a)
  case (Cons x a)
  have "NOT x = -1 - x" by (simp add: not_eq_complement)
  moreover have "unat (-1 - x) = unat (-1 :: 32 word) - unat x" by (rule unat_sub) simp
  ultimately have "unat (NOT x) = 2 ^ 32 - 1 - unat x" by (simp only: unat_minus_one_32)
  moreover have "unat x \<le> 2 ^ 32 - 1" using unsigned_less [of x, where ?'a = nat] by simp
  ultimately have u: "unat (NOT x) + unat x + 1 = 2 ^ 32" by simp
  have "limbs_val (map NOT (x # a)) + limbs_val (x # a) + 1 =
      (unat (NOT x) + unat x + 1) + 2 ^ 32 * (limbs_val (map NOT a) + limbs_val a)"
    by (simp add: algebra_simps)
  also have "\<dots> = 2 ^ 32 * (limbs_val (map NOT a) + limbs_val a + 1)" unfolding u by simp
  also have "\<dots> = 2 ^ (32 * length (x # a))" unfolding Cons pow32_Suc ..
  finally show ?case .
qed simp

lemma limbs_not_val: "limbs_val (map NOT a) = 2 ^ (32 * length a) - 1 - limbs_val a"
  using limbs_not_add [of a] by simp

theorem limbs_neg_val:
  "a \<noteq> [] \<Longrightarrow> limbs_val (limbs_neg a) = (2 ^ (32 * length a) - limbs_val a) mod 2 ^ (32 * length a)"
  using limbs_inc_val [of "map NOT a"] limbs_val_less [of a]
  by (simp add: limbs_neg_def limbs_not_val Suc_diff_Suc)

lemma length_limbs_neg [simp]: "length (limbs_neg a) = length a"
  by (simp add: limbs_neg_def)

lemma length_limbs_sub [simp]: "length a = length b \<Longrightarrow> length (limbs_sub a b) = length a"
  by (simp add: limbs_sub_def limbs_add_def limbs_neg_def length_add_loop)

theorem limbs_sub_val:
  assumes "length a = length b" "a \<noteq> []"
  shows "limbs_val (limbs_sub a b) = (limbs_val a + (2 ^ (32 * length a) - limbs_val b)) mod 2 ^ (32 * length a)"
proof -
  have b: "b \<noteq> []" using assms by auto
  have "limbs_val (limbs_sub a b) = (limbs_val a + limbs_val (limbs_neg b)) mod 2 ^ (32 * length a)"
    using assms(1) by (simp add: limbs_sub_def limbs_add_val length_limbs_neg)
  then show ?thesis unfolding limbs_neg_val [OF b] assms(1) by (simp only: mod_add_right_eq)
qed

lemma limbs_sub_le:
  assumes "length a = length b" "a \<noteq> []" "limbs_val b \<le> limbs_val a"
  shows "limbs_val (limbs_sub a b) = limbs_val a - limbs_val b"
proof -
  have "limbs_val a + (2 ^ (32 * length a) - limbs_val b) = (limbs_val a - limbs_val b) + 2 ^ (32 * length a)"
    using limbs_val_less [of b] assms by simp
  moreover have "limbs_val a - limbs_val b < 2 ^ (32 * length a)"
    using limbs_val_less [of a] by (simp add: less_imp_diff_less)
  ultimately show ?thesis using limbs_sub_val [OF assms(1,2)] by simp
qed

section \<open>Multiplication\<close>

theorem limbs_mul32_val:
  "limbs_val (limbs_mul32 a b) = (limbs_val a * unat b) mod 2 ^ (32 * length a)"
proof -
  have "unat c < 2 ^ 32 \<Longrightarrow>
      limbs_val (mul32_loop c b a) = (unat c + unat b * limbs_val a) mod 2 ^ (32 * length a)" for c
  proof (induction a arbitrary: c)
    case (Cons x a)
    define n where "n = c + ucast b * ucast x"
    have "n = c + ucast (0 :: 32 word) + ucast b * ucast x" by (simp add: n_def)
    note m = mac_step [OF Cons.prems, of 0 b x, folded this]
    have "limbs_val (mul32_loop c b (x # a)) = unat (ucast n :: 32 word) + 2 ^ 32 * limbs_val (mul32_loop (drop_bit 32 n) b a)"
      by (simp add: n_def Let_def)
    also have "\<dots> =
        unat n mod 2 ^ 32 + 2 ^ 32 * ((unat n div 2 ^ 32 + unat b * limbs_val a) mod 2 ^ (32 * length a))"
      by (simp only: Cons.IH [OF m(4)] m(2,3))
    also have "\<dots> = (unat n + 2 ^ 32 * (unat b * limbs_val a)) mod (2 ^ 32 * 2 ^ (32 * length a))"
      by (rule limb_step)
    also have "\<dots> = (unat c + unat b * limbs_val (x # a)) mod 2 ^ (32 * length (x # a))"
      unfolding pow32_Suc m(1) by (simp add: algebra_simps)
    finally show ?case .
  qed simp
  from this [of 0] show ?thesis by (simp add: limbs_mul32_def mult.commute)
qed

lemma length_row_loop [simp]: "length (row_loop c aj ps bs) = length ps"
  by (induction c aj ps bs rule: row_loop.induct) (simp_all add: Let_def)

lemma row_loop_val:
  "unat c < 2 ^ 32 \<Longrightarrow> length ps \<le> length bs \<Longrightarrow>
    limbs_val (row_loop c aj ps bs) = (unat c + limbs_val ps + unat aj * limbs_val bs) mod 2 ^ (32 * length ps)"
proof (induction c aj ps bs rule: row_loop.induct)
  case (1 c aj p ps b bs)
  define n where "n = c + ucast p + ucast aj * ucast b"
  note m = mac_step [OF 1(2), of p aj b, folded n_def]
  have ih: "limbs_val (row_loop (drop_bit 32 n) aj ps bs) =
      (unat (drop_bit 32 n) + limbs_val ps + unat aj * limbs_val bs) mod 2 ^ (32 * length ps)"
    using 1(1) [OF n_def] 1(3) m(4) by simp
  have "limbs_val (row_loop c aj (p # ps) (b # bs)) =
      unat (ucast n :: 32 word) + 2 ^ 32 * limbs_val (row_loop (drop_bit 32 n) aj ps bs)"
    by (simp add: n_def Let_def)
  also have "\<dots> =
      unat n mod 2 ^ 32 + 2 ^ 32 * ((unat n div 2 ^ 32 + (limbs_val ps + unat aj * limbs_val bs)) mod 2 ^ (32 * length ps))"
    by (simp only: ih m(2,3) add.assoc)
  also have "\<dots> = (unat n + 2 ^ 32 * (limbs_val ps + unat aj * limbs_val bs)) mod (2 ^ 32 * 2 ^ (32 * length ps))"
    by (rule limb_step)
  also have "\<dots> = (unat c + limbs_val (p # ps) + unat aj * limbs_val (b # bs)) mod 2 ^ (32 * length (p # ps))"
    unfolding pow32_Suc m(1) by (simp add: algebra_simps)
  finally show ?case .
qed simp_all

lemma mul_loop_val:
  "length pn = length a \<Longrightarrow> length a \<le> length b \<Longrightarrow>
    limbs_val (mul_loop pn a b) = (limbs_val pn + limbs_val a * limbs_val b) mod 2 ^ (32 * length pn)"
proof (induction a arbitrary: pn)
  case (Cons aj a)
  obtain p ps where r: "row_loop 0 aj pn b = p # ps" "length ps = length a"
    using Cons.prems(1) length_row_loop [of 0 aj pn b] by (cases "row_loop 0 aj pn b") auto
  have "limbs_val (p # ps) = (limbs_val pn + unat aj * limbs_val b) mod 2 ^ (32 * length pn)"
    using row_loop_val [of 0 pn b aj] Cons.prems r(1) by simp
  moreover have "limbs_val (mul_loop pn (aj # a) b) =
      unat p + 2 ^ 32 * ((limbs_val ps + limbs_val a * limbs_val b) mod 2 ^ (32 * length a))"
    using Cons.IH [of ps] Cons.prems r by simp
  moreover have "unat p + 2 ^ 32 * ((limbs_val ps + limbs_val a * limbs_val b) mod 2 ^ (32 * length a)) =
      (limbs_val (p # ps) + 2 ^ 32 * (limbs_val a * limbs_val b)) mod (2 ^ 32 * 2 ^ (32 * length a))"
  proof -
    have u: "unat p < 2 ^ 32" using unsigned_less [of p, where ?'a = nat] by simp
    show ?thesis
      using limb_step [of "unat p" "2 ^ 32" "limbs_val ps + limbs_val a * limbs_val b" "2 ^ (32 * length a)"] u
      by (simp add: algebra_simps)
  qed
  moreover have "2 ^ (32 * length pn) = (2 :: nat) ^ 32 * 2 ^ (32 * length a)"
    using Cons.prems(1) by (simp add: power_add)
  ultimately show ?case by (simp add: mod_simps algebra_simps)
qed simp

theorem limbs_mul_val:
  "length a = length b \<Longrightarrow> limbs_val (limbs_mul a b) = (limbs_val a * limbs_val b) mod 2 ^ (32 * length a)"
  using mul_loop_val [of "replicate (length a) 0" a b] by (simp add: limbs_mul_def)

section \<open>Shifts\<close>

lemma shl_step_nth:
  assumes "length pn = length a" "j < length a"
  shows "shl_step a k s pn i ! j =
    pn ! j OR (if j = i + k then push_bit s (a ! i) else 0) OR
      (if j = i + k + 1 \<and> s \<noteq> 0 then drop_bit (32 - s) (a ! i) else 0)"
  using assms by (auto simp: shl_step_def Let_def nth_list_update)

lemma limbs_shl_loop:
  "m \<le> length a \<Longrightarrow>
    length (foldl (shl_step a k s) (replicate (length a) 0) [0..<m]) = length a \<and>
    (\<forall>j < length a. foldl (shl_step a k s) (replicate (length a) 0) [0..<m] ! j =
      (if k \<le> j \<and> j - k < m then push_bit s (a ! (j - k)) else 0) OR
      (if k + 1 \<le> j \<and> j - k - 1 < m \<and> s \<noteq> 0 then drop_bit (32 - s) (a ! (j - k - 1)) else 0))"
proof (induction m)
  case (Suc m)
  let ?pn = "foldl (shl_step a k s) (replicate (length a) 0) [0..<m]"
  have ih: "length ?pn = length a" "\<And>j. j < length a \<Longrightarrow> ?pn ! j =
      (if k \<le> j \<and> j - k < m then push_bit s (a ! (j - k)) else 0) OR
      (if k + 1 \<le> j \<and> j - k - 1 < m \<and> s \<noteq> 0 then drop_bit (32 - s) (a ! (j - k - 1)) else 0)"
    using Suc by simp_all
  have f: "foldl (shl_step a k s) (replicate (length a) 0) [0..<Suc m] = shl_step a k s ?pn m" by simp
  have l: "length (shl_step a k s ?pn m) = length a" using ih(1) by (simp add: shl_step_def Let_def)
  have "shl_step a k s ?pn m ! j =
      (if k \<le> j \<and> j - k < Suc m then push_bit s (a ! (j - k)) else 0) OR
      (if k + 1 \<le> j \<and> j - k - 1 < Suc m \<and> s \<noteq> 0 then drop_bit (32 - s) (a ! (j - k - 1)) else 0)"
    if "j < length a" for j
  proof -
    have "k \<le> j \<and> j - k < Suc m \<longleftrightarrow> (k \<le> j \<and> j - k < m) \<or> j = m + k" by auto
    moreover have "k + 1 \<le> j \<and> j - k - 1 < Suc m \<longleftrightarrow> (k + 1 \<le> j \<and> j - k - 1 < m) \<or> j = m + k + 1" by auto
    ultimately show ?thesis
      unfolding shl_step_nth [OF ih(1) that] ih(2) [OF that] by (auto simp: or.commute)
  qed
  then show ?case unfolding f using l by blast
qed simp

lemma quot_rem:
  fixes p q :: nat
  assumes "q * 32 + r = p" "r < 32"
  shows "p div 32 = q" "p mod 32 = r"
  using assms by (auto simp: mult.commute)

theorem limbs_shl_val:
  "limbs_val (limbs_shl a sh) = take_bit (32 * length a) (push_bit sh (limbs_val a))"
proof (rule bit_eqI)
  fix p :: nat
  define k s j r where d: "k = sh div 32" "s = sh mod 32" "j = p div 32" "r = p mod 32"
  have r: "r < 32" "s < 32" and p: "p = j * 32 + r" and sh: "sh = k * 32 + s" by (simp_all add: d)
  have shl: "limbs_shl a sh = foldl (shl_step a k s) (replicate (length a) 0) [0..<length a]"
    by (simp add: limbs_shl_def d)
  have len: "length (limbs_shl a sh) = length a" using limbs_shl_loop [of "length a" a k s] shl by simp
  show "bit (limbs_val (limbs_shl a sh)) p \<longleftrightarrow> bit (take_bit (32 * length a) (push_bit sh (limbs_val a))) p"
  proof (cases "j < length a")
    case False
    then have "\<not> p < 32 * length a" using p by simp
    then show ?thesis using False by (simp add: bit_limbs_val len bit_take_bit_iff d)
  next
    case True
    then have lt: "p < 32 * length a" using p r by simp
    have "bit (limbs_val (limbs_shl a sh)) p \<longleftrightarrow> bit (limbs_shl a sh ! j) r"
      using True by (simp add: bit_limbs_val len d)
    also have "\<dots> \<longleftrightarrow> (k \<le> j \<and> s \<le> r \<and> bit (a ! (j - k)) (r - s)) \<or>
        (k + 1 \<le> j \<and> s \<noteq> 0 \<and> bit (a ! (j - k - 1)) (32 - s + r))"
      using limbs_shl_loop [of "length a" a k s] True r
      by (auto simp: shl bit_or_iff bit_push_bit_iff bit_drop_bit_eq)
    also have "\<dots> \<longleftrightarrow> sh \<le> p \<and> bit (limbs_val a) (p - sh)"
    proof (cases "s \<le> r")
      case le: True
      then have no: "\<not> bit (a ! (j - k - 1)) (32 - s + r)" by (auto dest: bit_imp_le_length)
      have sp: "sh \<le> p \<longleftrightarrow> k \<le> j" using p sh le r by auto
      have "(p - sh) div 32 = j - k" "(p - sh) mod 32 = r - s" if "k \<le> j"
      proof -
        have "(j - k) * 32 + (r - s) = p - sh" using that le p sh by (simp add: diff_mult_distrib)
        then show "(p - sh) div 32 = j - k" "(p - sh) mod 32 = r - s" using r quot_rem [of "j - k" "r - s" "p - sh"] by simp_all
      qed
      then show ?thesis using no sp le True by (cases "k \<le> j") (simp_all add: bit_limbs_val less_imp_diff_less)
    next
      case False
      then have sp: "sh \<le> p \<longleftrightarrow> k + 1 \<le> j" using p sh r by auto
      have "(p - sh) div 32 = j - k - 1" "(p - sh) mod 32 = 32 - s + r" if "k + 1 \<le> j"
      proof -
        define i where "i = j - k - 1"
        then have i: "j = k + 1 + i" using that by simp
        have "32 - s + r + s = 32 + r" using r(2) by simp
        then have "i * 32 + (32 - s + r) + (k * 32 + s) = (k + 1 + i) * 32 + r"
          unfolding add_mult_distrib mult_1 by linarith
        then have "i * 32 + (32 - s + r) = p - sh" unfolding p sh i by (rule add_implies_diff)
        then have "(j - k - 1) * 32 + (32 - s + r) = p - sh" by (simp add: i)
        then show "(p - sh) div 32 = j - k - 1" "(p - sh) mod 32 = 32 - s + r"
          using r False quot_rem [of "j - k - 1" "32 - s + r" "p - sh"] by simp_all
      qed
      then show ?thesis using sp False True by (cases "k + 1 \<le> j") (simp_all add: bit_limbs_val less_imp_diff_less)
    qed
    also have "\<dots> \<longleftrightarrow> bit (take_bit (32 * length a) (push_bit sh (limbs_val a))) p"
      using lt by (simp add: bit_take_bit_iff bit_push_bit_iff)
    finally show ?thesis .
  qed
qed

lemma shr_step_nth:
  assumes "length pn = length a" "j < length a" "i < length a"
  shows "shr_step a k s pn i ! j =
    pn ! j OR (if i = j + k then drop_bit s (a ! i) else 0) OR
      (if i = j + k + 1 \<and> s \<noteq> 0 then push_bit (32 - s) (a ! i) else 0)"
  using assms by (auto simp: shr_step_def Let_def nth_list_update)

lemma limbs_shr_loop:
  "m \<le> length a \<Longrightarrow>
    length (foldl (shr_step a k s) (replicate (length a) 0) [0..<m]) = length a \<and>
    (\<forall>j < length a. foldl (shr_step a k s) (replicate (length a) 0) [0..<m] ! j =
      (if j + k < m then drop_bit s (a ! (j + k)) else 0) OR
      (if j + k + 1 < m \<and> s \<noteq> 0 then push_bit (32 - s) (a ! (j + k + 1)) else 0))"
proof (induction m)
  case (Suc m)
  let ?pn = "foldl (shr_step a k s) (replicate (length a) 0) [0..<m]"
  have ih: "length ?pn = length a" "\<And>j. j < length a \<Longrightarrow> ?pn ! j =
      (if j + k < m then drop_bit s (a ! (j + k)) else 0) OR
      (if j + k + 1 < m \<and> s \<noteq> 0 then push_bit (32 - s) (a ! (j + k + 1)) else 0)"
    using Suc by simp_all
  have f: "foldl (shr_step a k s) (replicate (length a) 0) [0..<Suc m] = shr_step a k s ?pn m" by simp
  have l: "length (shr_step a k s ?pn m) = length a" using ih(1) by (simp add: shr_step_def Let_def)
  have m: "m < length a" using Suc.prems by simp
  have "shr_step a k s ?pn m ! j =
      (if j + k < Suc m then drop_bit s (a ! (j + k)) else 0) OR
      (if j + k + 1 < Suc m \<and> s \<noteq> 0 then push_bit (32 - s) (a ! (j + k + 1)) else 0)"
    if "j < length a" for j
    unfolding shr_step_nth [OF ih(1) that m] ih(2) [OF that] by (auto simp: less_Suc_eq)
  then show ?case unfolding f using l by blast
qed simp

theorem limbs_shr_val: "limbs_val (limbs_shr a sh) = drop_bit sh (limbs_val a)"
proof (rule bit_eqI)
  fix p :: nat
  define k s j r where d: "k = sh div 32" "s = sh mod 32" "j = p div 32" "r = p mod 32"
  have r: "r < 32" "s < 32" and p: "p = j * 32 + r" and sh: "sh = k * 32 + s" by (simp_all add: d)
  have shr: "limbs_shr a sh = foldl (shr_step a k s) (replicate (length a) 0) [0..<length a]"
    by (simp add: limbs_shr_def d)
  have len: "length (limbs_shr a sh) = length a" using limbs_shr_loop [of "length a" a k s] shr by simp
  have x: "(sh + p) div 32 = j + k" "(sh + p) mod 32 = s + r" if "s + r < 32"
  proof -
    have "(j + k) * 32 + (s + r) = sh + p" by (simp add: p sh)
    then show "(sh + p) div 32 = j + k" "(sh + p) mod 32 = s + r" using that quot_rem [of "j + k" "s + r" "sh + p"] by simp_all
  qed
  have y: "(sh + p) div 32 = j + k + 1" "(sh + p) mod 32 = s + r - 32" if "\<not> s + r < 32"
  proof -
    have "(j + k + 1) * 32 + (s + r - 32) = sh + p" using that by (simp add: p sh)
    then show "(sh + p) div 32 = j + k + 1" "(sh + p) mod 32 = s + r - 32"
      using r quot_rem [of "j + k + 1" "s + r - 32" "sh + p"] by simp_all
  qed
  show "bit (limbs_val (limbs_shr a sh)) p \<longleftrightarrow> bit (drop_bit sh (limbs_val a)) p"
  proof (cases "j < length a")
    case False
    then have "\<not> (sh + p) div 32 < length a" using x y by (cases "s + r < 32") auto
    then show ?thesis using False by (simp add: bit_limbs_val len bit_drop_bit_eq d)
  next
    case True
    then have "bit (limbs_val (limbs_shr a sh)) p \<longleftrightarrow> bit (limbs_shr a sh ! j) r"
      by (simp add: bit_limbs_val len d)
    also have "\<dots> \<longleftrightarrow> (j + k < length a \<and> bit (a ! (j + k)) (s + r)) \<or>
        (j + k + 1 < length a \<and> s \<noteq> 0 \<and> 32 - s \<le> r \<and> bit (a ! (j + k + 1)) (r - (32 - s)))"
      using limbs_shr_loop [of "length a" a k s] True r
      by (auto simp: shr bit_or_iff bit_push_bit_iff bit_drop_bit_eq)
    also have "\<dots> \<longleftrightarrow> bit (limbs_val a) (sh + p)"
    proof (cases "s + r < 32")
      case True
      then show ?thesis using x by (auto simp: bit_limbs_val)
    next
      case False
      then have "\<not> bit (a ! (j + k)) (s + r)" "r - (32 - s) = s + r - 32" "s \<noteq> 0" "32 - s \<le> r"
        using r by (auto dest: bit_imp_le_length)
      then show ?thesis using y False by (auto simp: bit_limbs_val)
    qed
    finally show ?thesis by (simp add: bit_drop_bit_eq)
  qed
qed

section \<open>Comparison\<close>

lemma limbs_val_snoc: "limbs_val (xs @ [x]) = limbs_val xs + 2 ^ (32 * length xs) * unat x"
proof (induction xs)
  case (Cons y ys)
  have "2 ^ (32 + 32 * length ys) = (2 :: nat) ^ 32 * 2 ^ (32 * length ys)" by (simp only: power_add)
  then show ?case using Cons by (simp add: algebra_simps)
qed simp

lemma sgn_lead:
  fixes x y B u v :: nat
  assumes "u < B" "v < B" "x \<noteq> y"
  shows "sgn (int (u + B * x) - int (v + B * y)) = (if x < y then -1 else 1)"
proof (cases "x < y")
  case True
  then have "B * (x + 1) \<le> B * y" by (intro mult_le_mono2) simp
  then have "u + B * x < v + B * y" using assms(1) by simp
  then have "int (u + B * x) < int (v + B * y)" by (simp only: of_nat_less_iff)
  then show ?thesis using True by (simp add: sgn_if del: of_nat_add of_nat_mult)
next
  case False
  then have "B * (y + 1) \<le> B * x" using assms(3) by (intro mult_le_mono2) simp
  then have "v + B * y < u + B * x" using assms(2) by simp
  then have "int (v + B * y) < int (u + B * x)" by (simp only: of_nat_less_iff)
  then show ?thesis using False by (simp add: sgn_if del: of_nat_add of_nat_mult)
qed

theorem CompareTo_val:
  assumes "length a = length b"
  shows "CompareTo a b = sgn (int (limbs_val a) - int (limbs_val b))"
proof -
  have "length xs = length ys \<Longrightarrow> cmp_loop xs ys = sgn (int (limbs_val (rev xs)) - int (limbs_val (rev ys)))" for xs ys
  proof (induction xs ys rule: list_induct2)
    case (Cons x xs y ys)
    let ?B = "2 ^ (32 * length xs) :: nat"
    have b: "limbs_val (rev xs) < ?B" "limbs_val (rev ys) < ?B"
      using limbs_val_less [of "rev xs"] limbs_val_less [of "rev ys"] Cons by simp_all
    show ?case
    proof (cases "x = y")
      case True
      then show ?thesis using Cons by (simp add: limbs_val_snoc)
    next
      case False
      then have "unat x \<noteq> unat y" using unsigned_word_eqI by blast
      then show ?thesis using sgn_lead [OF b, of "unat x" "unat y"] Cons(1) False
        by (auto simp: limbs_val_snoc word_less_nat_alt)
    qed
  qed simp
  from this [of "rev a" "rev b"] show ?thesis using assms by (simp add: CompareTo_def)
qed

lemma CompareTo_ge: "length a = length b \<Longrightarrow> CompareTo a b \<ge> 0 \<longleftrightarrow> limbs_val b \<le> limbs_val a"
  by (simp add: CompareTo_val sgn_if)

section \<open>The number of bits\<close>

lemma top_bit:
  fixes w :: "32 word"
  shows "n \<le> 32 \<Longrightarrow> case filter (\<lambda>b. bit w b) (rev [1..<n]) of
    [] \<Rightarrow> (\<forall>b. 1 \<le> b \<longrightarrow> b < n \<longrightarrow> \<not> bit w b)
  | b # _ \<Rightarrow> b < n \<and> bit w b \<and> (\<forall>i. b < i \<longrightarrow> i < n \<longrightarrow> \<not> bit w i)"
proof (induction n)
  case (Suc n)
  show ?case
  proof (cases "1 \<le> n")
    case True
    then have r: "rev [1..<Suc n] = n # rev [1..<n]" by simp
    show ?thesis
    proof (cases "bit w n")
      case True
      then show ?thesis unfolding r by (simp add: less_Suc_eq)
    next
      case False
      then show ?thesis using Suc unfolding r
        by (auto simp: less_Suc_eq split: list.splits)
    qed
  qed simp
qed simp

lemma unat_bit_bounds:
  fixes w :: "32 word"
  assumes "bit w b" "\<And>i. b < i \<Longrightarrow> \<not> bit w i"
  shows "2 ^ b \<le> unat w" "unat w < 2 ^ Suc b"
proof -
  have "bit (unat w) b" using assms(1) by (simp add: bit_unsigned_iff bit_imp_le_length)
  then show "2 ^ b \<le> unat w" by (metis bit_iff_odd div_less even_zero leI)
  have "take_bit (Suc b) (unat w) = unat w"
  proof (rule bit_eqI)
    fix i
    show "bit (take_bit (Suc b) (unat w)) i \<longleftrightarrow> bit (unat w) i"
      using assms(2) [of i] by (cases "b < i") (auto simp: bit_take_bit_iff bit_unsigned_iff not_less)
  qed
  then show "unat w < 2 ^ Suc b" by (metis take_bit_nat_less_exp)
qed

lemma limb_bits_val:
  assumes "x \<noteq> 0"
  shows "2 ^ (limb_bits x - 1) \<le> unat x" "unat x < 2 ^ limb_bits x" "1 \<le> limb_bits x" "limb_bits x \<le> 32"
proof -
  have f: "limb_bits x = (case filter (\<lambda>b. bit x b) (rev [1..<32]) of [] \<Rightarrow> 1 | b # _ \<Rightarrow> b + 1)"
    unfolding limb_bits_def by (simp only: bit_iff_and_push_bit_not_eq_0 push_bit_of_1)
  have hi: "\<not> bit x i" if "32 \<le> i" for i using that by (auto dest: bit_imp_le_length)
  have "(\<exists>b. limb_bits x = Suc b \<and> b < 32 \<and> bit x b \<and> (\<forall>i > b. \<not> bit x i))"
  proof (cases "filter (\<lambda>b. bit x b) (rev [1..<32])")
    case Nil
    then have no: "\<forall>b. 1 \<le> b \<longrightarrow> b < 32 \<longrightarrow> \<not> bit x b" using top_bit [of 32 x] by simp
    then have "\<not> bit x i" if "0 < i" for i using that hi by (cases "i < 32") auto
    moreover from this have "bit x 0"
      using assms by (metis bit_eqI bit_0_eq bot_apply bot_bool_def neq0_conv)
    ultimately show ?thesis using Nil f by auto
  next
    case (Cons b bs)
    then have "b < 32 \<and> bit x b \<and> (\<forall>i. b < i \<longrightarrow> i < 32 \<longrightarrow> \<not> bit x i)" using top_bit [of 32 x] by simp
    then show ?thesis using Cons f hi by (auto simp: not_less)
  qed
  then obtain b where b: "limb_bits x = Suc b" "b < 32" "bit x b" "\<And>i. b < i \<Longrightarrow> \<not> bit x i" by blast
  then show "2 ^ (limb_bits x - 1) \<le> unat x" "unat x < 2 ^ limb_bits x" "1 \<le> limb_bits x" "limb_bits x \<le> 32"
    using unat_bit_bounds [OF b(3,4)] by simp_all
qed

theorem limbs_bits_val:
  "limbs_bits a = 0 \<longleftrightarrow> limbs_val a = 0"
  "0 < limbs_val a \<Longrightarrow> 2 ^ (limbs_bits a - 1) \<le> limbs_val a" "limbs_val a < 2 ^ limbs_bits a"
  "limbs_bits a \<le> 32 * length a"
proof -
  have "(bits_loop xs = 0 \<longleftrightarrow> limbs_val (rev xs) = 0) \<and>
      (0 < limbs_val (rev xs) \<longrightarrow> 2 ^ (bits_loop xs - 1) \<le> limbs_val (rev xs)) \<and>
      limbs_val (rev xs) < 2 ^ bits_loop xs \<and> bits_loop xs \<le> 32 * length xs" for xs
  proof (induction xs)
    case (Cons x xs)
    show ?case
    proof (cases "x = 0")
      case True
      then show ?thesis using Cons by (simp add: limbs_val_snoc)
    next
      case False
      let ?m = "32 * length xs" and ?l = "limb_bits x" and ?v = "limbs_val (rev xs)"
      note l = limb_bits_val [OF False]
      have v: "limbs_val (rev (x # xs)) = ?v + 2 ^ ?m * unat x" by (simp add: limbs_val_snoc)
      have b: "bits_loop (x # xs) = ?m + ?l" using False by simp
      have "(2 :: nat) ^ (?m + ?l - 1) = 2 ^ ?m * 2 ^ (?l - 1)"
        using l(3) by (metis Nat.add_diff_assoc power_add)
      also have "\<dots> \<le> 2 ^ ?m * unat x" using l(1) by (rule mult_le_mono2)
      finally have lo: "2 ^ (?m + ?l - 1) \<le> ?v + 2 ^ ?m * unat x" by simp
      have "?v < 2 ^ ?m" using limbs_val_less [of "rev xs"] by simp
      then have "?v + 2 ^ ?m * unat x < 2 ^ ?m * (unat x + 1)" by simp
      also have "\<dots> \<le> 2 ^ ?m * 2 ^ ?l" using l(2) by (intro mult_le_mono2) simp
      also have "\<dots> = 2 ^ (?m + ?l)" by (simp only: power_add)
      finally have hi: "?v + 2 ^ ?m * unat x < 2 ^ (?m + ?l)" .
      have "0 < unat x" using False by (simp add: unat_gt_0)
      then have "0 < ?v + 2 ^ ?m * unat x" by simp
      then show ?thesis unfolding b v using lo hi l(3,4) by simp
    qed
  qed simp
  from this [of "rev a"] show "limbs_bits a = 0 \<longleftrightarrow> limbs_val a = 0"
    "0 < limbs_val a \<Longrightarrow> 2 ^ (limbs_bits a - 1) \<le> limbs_val a" "limbs_val a < 2 ^ limbs_bits a"
    "limbs_bits a \<le> 32 * length a" by (simp_all add: limbs_bits_def)
qed

section \<open>Division\<close>

lemma length_limbs_shl [simp]: "length (limbs_shl a s) = length a"
  by (simp add: limbs_shl_def limbs_shl_loop)

lemma length_limbs_shr [simp]: "length (limbs_shr a s) = length a"
  by (simp add: limbs_shr_def limbs_shr_loop)

text \<open>Setting a bit of the quotient that is not set adds its weight.\<close>

lemma limbs_set_bit:
  assumes "s < 32 * length pn" "\<not> bit (limbs_val pn) s"
  shows "limbs_val (pn[s div 32 := pn ! (s div 32) OR push_bit (s mod 32) 1]) = limbs_val pn + 2 ^ s"
proof -
  have s: "s div 32 < length pn" using assms(1) by (simp add: div_less_iff_less_mult)
  have split: "p = s \<longleftrightarrow> p div 32 = s div 32 \<and> p mod 32 = s mod 32" for p by (metis div_mult_mod_eq)
  have "limbs_val (pn[s div 32 := pn ! (s div 32) OR push_bit (s mod 32) 1]) = limbs_val pn OR 2 ^ s"
  proof (rule bit_eqI)
    fix p :: nat
    have "bit (push_bit (s mod 32) 1 :: 32 word) (p mod 32) \<longleftrightarrow> p mod 32 = s mod 32"
      by (auto simp: bit_exp_iff)
    then show "bit (limbs_val (pn[s div 32 := pn ! (s div 32) OR push_bit (s mod 32) 1])) p \<longleftrightarrow> bit (limbs_val pn OR 2 ^ s) p"
      using s split [of p] by (auto simp: bit_limbs_val bit_or_iff bit_exp_iff nth_list_update)
  qed
  moreover have "limbs_val pn AND 2 ^ s = 0"
  proof (rule bit_eqI)
    fix p :: nat
    show "bit (limbs_val pn AND 2 ^ s) p \<longleftrightarrow> bit 0 p"
      using assms(2) by (auto simp: bit_and_iff bit_exp_iff)
  qed
  ultimately show ?thesis by (simp add: disjunctive_add_eq_or)
qed

lemma not_bit_multiple:
  assumes "(2 :: nat) ^ Suc s dvd n"
  shows "\<not> bit n s"
proof -
  obtain k where "n = 2 ^ s * (2 * k)" using assms by (auto simp: dvd_def algebra_simps)
  then have "n div 2 ^ s = 2 * k" by simp
  then show ?thesis by (simp add: bit_iff_odd)
qed

text \<open>The loop keeps quotient times divisor plus remainder; the divisor is shifted by \<open>n - 1\<close>
and the bits of the quotient below \<open>n\<close> are clear.\<close>

lemma div_loop_val:
  assumes "a \<noteq> []"
  shows "length num = length a \<Longrightarrow> length dv = length a \<Longrightarrow> length pn = length a \<Longrightarrow> n \<le> 32 * length a \<Longrightarrow>
    limbs_val num < d * 2 ^ n \<Longrightarrow> (0 < n \<Longrightarrow> limbs_val dv = d * 2 ^ (n - 1)) \<Longrightarrow> 2 ^ n dvd limbs_val pn \<Longrightarrow>
    div_loop n num dv pn = (q, r) \<Longrightarrow>
    length q = length a \<and> limbs_val q * d + limbs_val r = limbs_val pn * d + limbs_val num \<and> limbs_val r < d"
proof (induction n arbitrary: num dv pn)
  case (Suc s)
  define num' where "num' = (if CompareTo num dv \<ge> 0 then limbs_sub num dv else num)"
  define pn' where "pn' = (if CompareTo num dv \<ge> 0 then pn[s div 32 := pn ! (s div 32) OR push_bit (s mod 32) 1] else pn)"
  have dv: "limbs_val dv = d * 2 ^ s" using Suc.prems(6) by simp
  have ge: "CompareTo num dv \<ge> 0 \<longleftrightarrow> d * 2 ^ s \<le> limbs_val num"
    using CompareTo_ge [of num dv] Suc.prems dv by simp
  have n0: "num \<noteq> []" using Suc.prems(1) assms by auto
  have num: "limbs_val num' = (if d * 2 ^ s \<le> limbs_val num then limbs_val num - d * 2 ^ s else limbs_val num)"
    using limbs_sub_le [of num dv] Suc.prems n0 dv by (simp add: num'_def ge)
  have "\<not> bit (limbs_val pn) s" using Suc.prems(7) by (rule not_bit_multiple)
  then have pn: "limbs_val pn' = limbs_val pn + (if d * 2 ^ s \<le> limbs_val num then 2 ^ s else 0)"
    using limbs_set_bit [of s pn] Suc.prems by (simp add: pn'_def ge)
  have "2 ^ s dvd limbs_val pn" using Suc.prems(7) by (metis dvd_trans le_imp_power_dvd lessI less_imp_le)
  then have p7: "2 ^ s dvd limbs_val pn'" by (simp add: pn)
  have p5: "limbs_val num' < d * 2 ^ s" using Suc.prems(5) by (auto simp: num)
  have p6: "limbs_val (limbs_shr dv 1) = d * 2 ^ (s - 1)" if "0 < s"
  proof -
    obtain t where "s = Suc t" using \<open>0 < s\<close> gr0_implies_Suc by blast
    then show ?thesis by (simp add: limbs_shr_val dv drop_bit_eq_div mult.assoc)
  qed
  have l: "length num' = length a" "length (limbs_shr dv 1) = length a" "length pn' = length a" "s \<le> 32 * length a"
    using Suc.prems by (simp_all add: num'_def pn'_def)
  have "div_loop s num' (limbs_shr dv 1) pn' = (q, r)"
    using Suc.prems(8) by (simp add: Let_def num'_def pn'_def)
  then have "length q = length a" "limbs_val q * d + limbs_val r = limbs_val pn' * d + limbs_val num'" "limbs_val r < d"
    using Suc.IH [OF l p5 p6 p7] by simp_all
  moreover have "limbs_val pn' * d + limbs_val num' = limbs_val pn * d + limbs_val num"
    by (simp add: pn num algebra_simps)
  ultimately show ?case by simp
qed simp

theorem limbs_div_val:
  assumes "length a = length b" "a \<noteq> []"
  shows "limbs_val b = 0 \<Longrightarrow> limbs_div a b = Inl Throw"
    "limbs_val b \<noteq> 0 \<Longrightarrow> \<exists>q. limbs_div a b = Inr q \<and> length q = length a \<and> limbs_val q = limbs_val a div limbs_val b"
proof -
  show "limbs_val b = 0 \<Longrightarrow> limbs_div a b = Inl Throw"
    by (simp add: limbs_div_def limbs_bits_val(1))
  assume b: "limbs_val b \<noteq> 0"
  note A = limbs_bits_val [of a] and B = limbs_bits_val [of b]
  have b1: "limbs_bits b \<noteq> 0" using b B(1) by simp
  have blo: "2 ^ (limbs_bits b - 1) \<le> limbs_val b" using b B(2) by simp
  show "\<exists>q. limbs_div a b = Inr q \<and> length q = length a \<and> limbs_val q = limbs_val a div limbs_val b"
  proof (cases "limbs_bits b > limbs_bits a")
    case True
    have "limbs_val a < 2 ^ limbs_bits a" by (rule A(3))
    also have "(2 :: nat) ^ limbs_bits a \<le> 2 ^ (limbs_bits b - 1)" using True by (intro power_increasing) simp_all
    finally have "limbs_val a < limbs_val b" using blo by simp
    then show ?thesis using True b1 by (simp add: limbs_div_def)
  next
    case False
    define s where "s = limbs_bits a - limbs_bits b"
    have sum: "s + limbs_bits b = limbs_bits a" using False by (simp add: s_def)
    obtain q r where qr: "div_loop (s + 1) a (limbs_shl b s) (replicate (length a) 0) = (q, r)" by fastforce
    have "limbs_val b * 2 ^ s < 2 ^ limbs_bits b * 2 ^ s" using B(3) by simp
    also have "\<dots> = 2 ^ limbs_bits a" by (simp only: sum [symmetric] power_add mult.commute)
    also have "\<dots> \<le> 2 ^ (32 * length a)" using A(4) by (intro power_increasing) simp_all
    finally have sh: "limbs_val (limbs_shl b s) = limbs_val b * 2 ^ s"
      using assms(1) by (simp add: limbs_shl_val push_bit_eq_mult take_bit_nat_eq_self)
    have "limbs_val a < 2 ^ limbs_bits a" by (rule A(3))
    also have "limbs_bits a = (limbs_bits b - 1) + (s + 1)" using sum b1 by simp
    also have "(2 :: nat) ^ (limbs_bits b - 1 + (s + 1)) = 2 ^ (limbs_bits b - 1) * 2 ^ (s + 1)" by (rule power_add)
    also have "\<dots> \<le> limbs_val b * 2 ^ (s + 1)" using blo by (rule mult_le_mono1)
    finally have lt: "limbs_val a < limbs_val b * 2 ^ (s + 1)" .
    have "s + 1 \<le> 32 * length a" using sum b1 A(4) by simp
    then have "length q = length a \<and> limbs_val q * limbs_val b + limbs_val r = limbs_val a \<and> limbs_val r < limbs_val b"
      using div_loop_val [OF assms(2), of a "limbs_shl b s" "replicate (length a) 0" "s + 1" "limbs_val b" q r]
        assms lt sh qr by simp
    then have "length q = length a" "limbs_val q = limbs_val a div limbs_val b"
      by (auto intro: sym [OF div_nat_eqI] simp: algebra_simps)
    then show ?thesis using False b1 qr by (simp add: limbs_div_def Let_def s_def)
  qed
qed

end
