(* ===== verification/Uint256.thy ===== *)
theory Uint256
  imports ArithUint
begin

text \<open>
  uint256 as an instance of base_uint: the limb operations are the operations of \<open>256 word\<close>, which
  the rest of the development uses.  Then the compact format of difficulty targets, the salted hash
  of uint256::GetHash and the hexadecimal strings of uint256.cpp.
\<close>

section \<open>Limbs as 256-bit words\<close>

definition word_of_limbs :: "limbs \<Rightarrow> uint256" where
  "word_of_limbs pn = of_nat (limbs_val pn)"

lemma unat_word_of_limbs: "length a = 8 \<Longrightarrow> unat (word_of_limbs a) = limbs_val a"
  using limbs_val_less [of a] by (simp only: word_of_limbs_def unat_of_nat) simp

lemma of_nat_mod_256: "of_nat (v mod 2 ^ 256) = (of_nat v :: uint256)"
  by (simp add: word_of_nat_eq_iff take_bit_eq_mod)

lemma word_of_limbs_add:
  "length a = 8 \<Longrightarrow> length b = 8 \<Longrightarrow> word_of_limbs (limbs_add a b) = word_of_limbs a + word_of_limbs b"
  using of_nat_mod_256 [of "limbs_val a + limbs_val b"] by (simp add: word_of_limbs_def limbs_add_val)

lemma word_of_limbs_mul:
  "length a = 8 \<Longrightarrow> length b = 8 \<Longrightarrow> word_of_limbs (limbs_mul a b) = word_of_limbs a * word_of_limbs b"
  using of_nat_mod_256 [of "limbs_val a * limbs_val b"] by (simp add: word_of_limbs_def limbs_mul_val)

lemma word_of_limbs_neg:
  assumes "length a = 8"
  shows "word_of_limbs (limbs_neg a) = - word_of_limbs a"
proof -
  have a: "a \<noteq> []" using assms by auto
  have "of_nat (2 ^ 256 - limbs_val a) + of_nat (limbs_val a) = (of_nat (2 ^ 256) :: uint256)"
    using limbs_val_less [of a] assms by (simp only: of_nat_add [symmetric]) simp
  also have "\<dots> = 0" using of_nat_mod_256 [of "2 ^ 256"] by simp
  finally have "of_nat (2 ^ 256 - limbs_val a) = - (of_nat (limbs_val a) :: uint256)"
    by (simp only: eq_neg_iff_add_eq_0)
  then show ?thesis using of_nat_mod_256 [of "2 ^ 256 - limbs_val a"] assms
    by (simp only: word_of_limbs_def limbs_neg_val [OF a]) simp
qed

lemma word_of_limbs_sub:
  "length a = 8 \<Longrightarrow> length b = 8 \<Longrightarrow> word_of_limbs (limbs_sub a b) = word_of_limbs a - word_of_limbs b"
  by (simp add: limbs_sub_def word_of_limbs_add word_of_limbs_neg)

lemma word_of_limbs_inc: "length a = 8 \<Longrightarrow> word_of_limbs (limbs_inc a) = word_of_limbs a + 1"
  using of_nat_mod_256 [of "limbs_val a + 1"] limbs_inc_val [of a] by (cases a) (auto simp: word_of_limbs_def)

lemma word_of_limbs_shl:
  assumes "length a = 8"
  shows "word_of_limbs (limbs_shl a s) = push_bit s (word_of_limbs a)"
proof (rule bit_word_eqI)
  fix n :: nat assume "n < LENGTH(256)"
  then show "bit (word_of_limbs (limbs_shl a s)) n \<longleftrightarrow> bit (push_bit s (word_of_limbs a)) n"
    using assms
    by (auto simp: word_of_limbs_def limbs_shl_val bit_push_bit_iff bit_take_bit_iff
      bit_of_nat_iff)
qed

lemma word_of_limbs_shr:
  assumes "length a = 8"
  shows "word_of_limbs (limbs_shr a s) = drop_bit s (word_of_limbs a)"
proof (rule bit_word_eqI)
  fix n :: nat assume n: "n < LENGTH(256)"
  have "\<not> bit (limbs_val a) (s + n)" if "256 \<le> s + n"
    using that assms by (auto simp: bit_limbs_val)
  then show "bit (word_of_limbs (limbs_shr a s)) n \<longleftrightarrow> bit (drop_bit s (word_of_limbs a)) n"
    using n by (cases "256 \<le> s + n") (auto simp: word_of_limbs_def limbs_shr_val bit_drop_bit_eq bit_of_nat_iff)
qed

lemma word_of_limbs_div:
  assumes "length a = 8" "length b = 8" "word_of_limbs b \<noteq> 0"
  shows "\<exists>q. limbs_div a b = Inr q \<and> length q = 8 \<and> word_of_limbs q = word_of_limbs a div word_of_limbs b"
proof -
  have "limbs_val b \<noteq> 0" using assms(3) by (intro notI) (simp add: word_of_limbs_def)
  then obtain q where q: "limbs_div a b = Inr q" "length q = 8" "limbs_val q = limbs_val a div limbs_val b"
    using limbs_div_val(2) [of a b] assms(1,2) by (cases "a = []") auto
  have "unat (word_of_limbs q) = unat (word_of_limbs a div word_of_limbs b)"
    using q assms by (simp add: unat_word_of_limbs unat_div)
  then show ?thesis using q unsigned_word_eqI by blast
qed

lemma CompareTo_word:
  "length a = 8 \<Longrightarrow> length b = 8 \<Longrightarrow>
    CompareTo a b = (if word_of_limbs a < word_of_limbs b then -1 else if word_of_limbs a = word_of_limbs b then 0 else 1)"
  by (auto simp: CompareTo_val word_less_nat_alt unat_word_of_limbs word_unat_eq_iff sgn_if)

section \<open>The compact format\<close>

text \<open>SetCompact returns the value, the negative flag and the overflow flag.\<close>

definition SetCompact :: "32 word \<Rightarrow> limbs \<times> bool \<times> bool" where
  "SetCompact nCompact =
     (let nSize = unat (drop_bit 24 nCompact);
          m = nCompact AND 0x007fffff;
          nWord = (if nSize \<le> 3 then drop_bit (8 * (3 - nSize)) m else m);
          pn = (if nSize \<le> 3 then limbs_of_u64 8 (ucast nWord)
                else limbs_shl (limbs_of_u64 8 (ucast nWord)) (8 * (nSize - 3)))
      in (pn, nWord \<noteq> 0 \<and> nCompact AND 0x00800000 \<noteq> 0,
          nWord \<noteq> 0 \<and> (nSize > 34 \<or> nWord > 0xff \<and> nSize > 33 \<or> nWord > 0xffff \<and> nSize > 32)))"

definition GetCompact :: "bool \<Rightarrow> limbs \<Rightarrow> fault + 32 word" where
  "GetCompact fNegative pn =
     (let nSize = (limbs_bits pn + 7) div 8;
          nCompact = (if nSize \<le> 3 then ucast (push_bit (8 * (3 - nSize)) (Get64 pn 0))
                      else ucast (Get64 (limbs_shr pn (8 * (nSize - 3))) 0)) :: 32 word;
          (nCompact, nSize) = (if nCompact AND 0x00800000 \<noteq> 0 then (drop_bit 8 nCompact, nSize + 1)
                               else (nCompact, nSize))
      in if nCompact AND NOT 0x007fffff \<noteq> 0 then Inl Abort
         else if \<not> nSize < 256 then Inl Abort
         else let nCompact = nCompact OR push_bit 24 (of_nat nSize) in
           Inr (nCompact OR (if fNegative \<and> nCompact AND 0x007fffff \<noteq> 0 then 0x00800000 else 0)))"

text \<open>Exponent and mantissa of an encoding, and the value they stand for.\<close>

definition compact_exp :: "32 word \<Rightarrow> nat" where "compact_exp c = unat c div 2 ^ 24"
definition compact_man :: "32 word \<Rightarrow> nat" where "compact_man c = unat c mod 2 ^ 23"

definition compact_value :: "nat \<Rightarrow> nat \<Rightarrow> nat" where
  "compact_value e m = (if e \<le> 3 then m div 256 ^ (3 - e) else m * 256 ^ (e - 3))"

lemma limbs_of_u64_val: "2 \<le> w \<Longrightarrow> limbs_val (limbs_of_u64 w b) = unat b"
proof -
  have "unat (ucast b :: 32 word) = unat b mod 2 ^ 32" by (simp add: unsigned_ucast_eq take_bit_eq_mod)
  moreover have "unat (ucast (drop_bit 32 b) :: 32 word) = unat b div 2 ^ 32"
  proof -
    have "unat b < 2 ^ 64" by (rule order.strict_trans2 [OF unsigned_less]) simp
    then have d: "unat (drop_bit 32 b) = unat b div 2 ^ 32" "unat b div 2 ^ 32 < 2 ^ 32"
      by (simp_all only: unsigned_drop_bit_eq) (simp_all add: take_bit_nat_eq_self drop_bit_eq_div div_less_iff_less_mult)
    then show ?thesis by (simp add: unsigned_ucast_eq take_bit_nat_eq_self)
  qed
  ultimately show ?thesis by (simp add: limbs_of_u64_def)
qed

lemma length_limbs_of_u64: "2 \<le> w \<Longrightarrow> length (limbs_of_u64 w b) = w"
  by (simp add: limbs_of_u64_def)

lemma unat_mantissa: "unat (c AND 0x007fffff :: 32 word) = compact_man c"
proof -
  have "(0x007fffff :: 32 word) = mask 23" by (simp add: mask_eq_exp_minus_1)
  then have "c AND 0x007fffff = take_bit 23 c" by (simp only: take_bit_eq_mask)
  then have "unat (c AND 0x007fffff) = take_bit 23 (unat c)" by (simp only: unsigned_take_bit_eq)
  then show ?thesis by (simp only: compact_man_def take_bit_eq_mod)
qed

lemma unat_exponent: "unat (drop_bit 24 c :: 32 word) = compact_exp c"
proof -
  have "unat c < 2 ^ 32" using unsigned_less [of c, where ?'a = nat] by simp
  then show ?thesis
    by (simp only: compact_exp_def unsigned_drop_bit_eq) (simp add: take_bit_nat_eq_self drop_bit_eq_div)
qed

lemma pow_8: "(2 :: nat) ^ (8 * k) = 256 ^ k"
  by (simp add: power_mult)

lemma bit_sign: "(c :: 32 word) AND 0x00800000 \<noteq> 0 \<longleftrightarrow> odd (unat c div 2 ^ 23)"
proof -
  have "(0x00800000 :: 32 word) = push_bit 23 1" by simp
  then have "c AND 0x00800000 \<noteq> 0 \<longleftrightarrow> bit c 23" by (simp only: bit_iff_and_push_bit_not_eq_0)
  also have "\<dots> \<longleftrightarrow> bit (unat c) 23" by (simp only: bit_unsigned_iff) simp
  finally show ?thesis by (simp only: bit_iff_odd)
qed

lemma overflow_iff:
  fixes m e :: nat
  assumes "m < 2 ^ 23" "3 < e"
  shows "m \<noteq> 0 \<and> (e > 34 \<or> m > 0xff \<and> e > 33 \<or> m > 0xffff \<and> e > 32) \<longleftrightarrow> 2 ^ 256 \<le> m * 256 ^ (e - 3)"
proof -
  consider "34 < e" | "e = 34" | "e = 33" | "e \<le> 32" by linarith
  then show ?thesis
  proof cases
    case 1
    then have "(256 :: nat) ^ 32 \<le> 256 ^ (e - 3)" by (intro power_increasing) simp_all
    then have "m \<noteq> 0 \<Longrightarrow> 1 * (256 :: nat) ^ 32 \<le> m * 256 ^ (e - 3)" by (intro mult_le_mono) simp_all
    then show ?thesis using 1 by (cases "m = 0") auto
  next
    case 4
    then have "(256 :: nat) ^ (e - 3) \<le> 256 ^ 29" by (intro power_increasing) simp_all
    then have "m * (256 :: nat) ^ (e - 3) \<le> 2 ^ 23 * 256 ^ 29" using assms(1) by (intro mult_le_mono) simp_all
    also have "\<dots> < (2 :: nat) ^ 256" by simp
    finally show ?thesis using 4 by simp
  qed auto
qed

theorem SetCompact_value:
  fixes c :: "32 word"
  defines "v \<equiv> compact_value (compact_exp c) (compact_man c)"
  shows "limbs_val (fst (SetCompact c)) = v mod 2 ^ 256" "length (fst (SetCompact c)) = 8"
    "fst (snd (SetCompact c)) \<longleftrightarrow> v \<noteq> 0 \<and> odd (unat c div 2 ^ 23)"
    "snd (snd (SetCompact c)) \<longleftrightarrow> 2 ^ 256 \<le> v"
proof -
  define e m where "e = compact_exp c" and "m = compact_man c"
  define w where "w = (if e \<le> 3 then drop_bit (8 * (3 - e)) (c AND 0x007fffff) else c AND 0x007fffff)"
  have m: "m < 2 ^ 23" by (simp add: m_def compact_man_def)
  have "unat (drop_bit k (c AND 0x007fffff)) = m div 2 ^ k" for k
  proof -
    have "unat (c AND 0x007fffff) < 2 ^ 32" using m by (simp only: unat_mantissa m_def [symmetric]) simp
    then show ?thesis
      by (simp only: unsigned_drop_bit_eq unat_mantissa m_def [symmetric]) (simp add: take_bit_nat_eq_self drop_bit_eq_div)
  qed
  then have w: "unat w = (if e \<le> 3 then m div 256 ^ (3 - e) else m)"
    by (simp only: w_def unat_mantissa m_def pow_8 split: if_split) simp
  have wm: "unat w \<le> m" by (simp add: w)
  have "unat w < 2 ^ 64" by (rule order.strict_trans1 [OF wm]) (use m in simp)
  then have w64: "unat (ucast w :: 64 word) = unat w"
    by (simp add: unsigned_ucast_eq take_bit_nat_eq_self)
  note S = SetCompact_def [of c, unfolded Let_def unat_exponent, folded e_def, folded w_def]
  have f: "fst (SetCompact c) = (if e \<le> 3 then limbs_of_u64 8 (ucast w) else limbs_shl (limbs_of_u64 8 (ucast w)) (8 * (e - 3)))"
    unfolding S by simp
  show "length (fst (SetCompact c)) = 8" by (simp add: f length_limbs_of_u64)
  have val: "limbs_val (limbs_of_u64 8 (ucast w)) = unat w" by (simp add: limbs_of_u64_val w64)
  have v: "v = (if e \<le> 3 then unat w else m * 256 ^ (e - 3))"
    by (simp add: v_def compact_value_def w e_def m_def)
  show "limbs_val (fst (SetCompact c)) = v mod 2 ^ 256"
  proof (cases "e \<le> 3")
    case True
    then show ?thesis using m wm by (simp add: f val v)
  next
    case False
    then show ?thesis
      by (simp add: f limbs_shl_val length_limbs_of_u64 val w v take_bit_eq_mod push_bit_eq_mult pow_8)
  qed
  have w0: "w \<noteq> 0 \<longleftrightarrow> unat w \<noteq> 0" by (simp add: unat_eq_0)
  show "fst (snd (SetCompact c)) \<longleftrightarrow> v \<noteq> 0 \<and> odd (unat c div 2 ^ 23)"
    unfolding S bit_sign by (auto simp: v w0 w)
  have gt: "w > 0xff \<longleftrightarrow> unat w > 0xff" "w > 0xffff \<longleftrightarrow> unat w > 0xffff" by (simp_all add: word_less_nat_alt)
  show "snd (snd (SetCompact c)) \<longleftrightarrow> 2 ^ 256 \<le> v"
  proof (cases "e \<le> 3")
    case True
    then show ?thesis unfolding S using m wm by (simp add: v)
  next
    case False
    then show ?thesis unfolding S using overflow_iff [OF m, of e] by (simp add: v w0 gt w)
  qed
qed


text \<open>GetCompact: \<open>m\<close> is the leading three bytes of the value, or two when the first has its top bit
set.\<close>

lemma Get64_val:
  assumes "2 \<le> length pn"
  shows "Get64 pn 0 = of_nat (limbs_val pn)"
proof (rule bit_word_eqI)
  fix p :: nat assume p: "p < LENGTH(64)"
  show "bit (Get64 pn 0) p \<longleftrightarrow> bit (of_nat (limbs_val pn) :: 64 word) p"
  proof (cases "p < 32")
    case True
    then show ?thesis using assms p
      by (auto simp: Get64_def bit_or_iff bit_push_bit_iff bit_ucast_iff bit_of_nat_iff bit_limbs_val)
  next
    case False
    then have "p div 32 = 1" "p mod 32 = p - 32" using p quot_rem [of 1 "p - 32" p] by simp_all
    moreover have "\<not> bit (pn ! 0) p" using False by (auto dest: bit_imp_le_length)
    ultimately show ?thesis using assms p False
      by (auto simp: Get64_def bit_or_iff bit_push_bit_iff bit_ucast_iff bit_of_nat_iff bit_limbs_val)
  qed
qed

lemma byte_count:
  assumes "length a = 8"
  defines "n \<equiv> (limbs_bits a + 7) div 8"
  shows "limbs_val a < 256 ^ n" "0 < n \<Longrightarrow> 256 ^ (n - 1) \<le> limbs_val a" "n \<le> 32" "n = 0 \<longleftrightarrow> limbs_val a = 0"
proof -
  note B = limbs_bits_val [of a]
  have "limbs_val a < 2 ^ limbs_bits a" by (rule B(3))
  also have "(2 :: nat) ^ limbs_bits a \<le> 2 ^ (8 * n)" by (rule power_increasing) (simp_all add: n_def)
  finally show "limbs_val a < 256 ^ n" by (simp only: pow_8)
  show z: "n = 0 \<longleftrightarrow> limbs_val a = 0" using B(1) by (auto simp: n_def)
  show "n \<le> 32" using B(4) assms(1) by (simp add: n_def)
  show "256 ^ (n - 1) \<le> limbs_val a" if "0 < n"
  proof -
    have "0 < limbs_val a" using z that by simp
    have "(256 :: nat) ^ (n - 1) = 2 ^ (8 * (n - 1))" by (simp only: pow_8)
    also have "\<dots> \<le> 2 ^ (limbs_bits a - 1)"
      using that by (intro power_increasing) (auto simp: n_def)
    also have "\<dots> \<le> limbs_val a" using B(2) \<open>0 < limbs_val a\<close> by simp
    finally show ?thesis .
  qed
qed

definition lead :: "nat \<Rightarrow> nat \<Rightarrow> nat" where
  "lead n v = (if n \<le> 3 then v * 256 ^ (3 - n) else v div 256 ^ (n - 3))"

lemma lead_bounds:
  assumes "v < 256 ^ n" "0 < n \<Longrightarrow> 256 ^ (n - 1) \<le> v"
  shows "lead n v < 2 ^ 24" "0 < n \<Longrightarrow> 2 ^ 16 \<le> lead n v"
proof -
  have p: "(256 :: nat) ^ n * 256 ^ (3 - n) = 256 ^ 3" if "n \<le> 3" using that by (simp flip: power_add)
  have q: "(256 :: nat) ^ n = 256 ^ 3 * 256 ^ (n - 3)" if "\<not> n \<le> 3"
    using that by (simp only: power_add [symmetric]) simp
  show "lead n v < 2 ^ 24"
  proof (cases "n \<le> 3")
    case True
    have "v * 256 ^ (3 - n) < 256 ^ n * 256 ^ (3 - n)" using assms(1) by simp
    also have "\<dots> = 256 ^ 3" by (rule p [OF True])
    finally show ?thesis using True by (simp add: lead_def)
  next
    case False
    then have "v div 256 ^ (n - 3) < 256 ^ 3" using assms(1) q by (simp add: div_less_iff_less_mult)
    then show ?thesis using False by (simp add: lead_def)
  qed
  assume "0 < n"
  note lo = assms(2) [OF this]
  show "2 ^ 16 \<le> lead n v"
  proof (cases "n \<le> 3")
    case True
    have "(2 :: nat) ^ 16 = 256 ^ (n - 1) * 256 ^ (3 - n)" using True \<open>0 < n\<close> by (simp flip: power_add)
    also have "\<dots> \<le> v * 256 ^ (3 - n)" using lo by (rule mult_le_mono1)
    finally show ?thesis using True by (simp add: lead_def)
  next
    case False
    have "(2 :: nat) ^ 16 * 256 ^ (n - 3) = 256 ^ 2 * 256 ^ (n - 3)" by simp
    also have "\<dots> = 256 ^ (2 + (n - 3))" by (simp only: power_add)
    also have "2 + (n - 3) = n - 1" using False by simp
    finally show ?thesis using False lo by (simp add: lead_def less_eq_div_iff_mult_less_eq)
  qed
qed

lemma compact_value_lead:
  assumes "v < 256 ^ n" "e = (if 2 ^ 23 \<le> lead n v then n + 1 else n)"
    "m = (if 2 ^ 23 \<le> lead n v then lead n v div 256 else lead n v)"
  shows "compact_value e m = v div 256 ^ (e - 3) * 256 ^ (e - 3)"
proof (cases "n \<le> 3")
  case True
  then consider "n = 0" | "n = 1" | "n = 2" | "n = 3" by linarith
  then show ?thesis using assms by cases (auto simp: compact_value_def lead_def)
next
  case False
  then have "n + 1 - 3 = Suc (n - 3)" by simp
  then have "(256 :: nat) ^ (n + 1 - 3) = 256 ^ (n - 3) * 256" by (simp only: power_Suc2)
  then show ?thesis using False assms by (auto simp: compact_value_def lead_def div_mult2_eq)
qed


lemma unat_push_24:
  assumes "e < 256"
  shows "unat (push_bit 24 (of_nat e) :: 32 word) = e * 2 ^ 24"
proof -
  have "push_bit 24 (of_nat e) = (of_nat (e * 2 ^ 24) :: 32 word)" by (simp add: push_bit_eq_mult mult.commute)
  then show ?thesis using assms by (simp only: unat_of_nat) simp
qed

lemma unat_encode:
  fixes c :: "32 word"
  assumes "unat c < 2 ^ 23" "e < 256"
  shows "unat (c OR push_bit 24 (of_nat e)) = unat c + e * 2 ^ 24"
proof -
  have "c AND push_bit 24 (of_nat e) = 0"
  proof (rule bit_word_eqI)
    fix i :: nat
    have "\<not> bit c i" if "23 \<le> i"
    proof -
      have "take_bit 23 (unat c) = unat c" using assms(1) by (simp add: take_bit_nat_eq_self)
      then have "\<not> bit (unat c) i" using that by (metis bit_take_bit_iff not_le)
      then show ?thesis by (simp add: bit_unsigned_iff)
    qed
    then show "bit (c AND push_bit 24 (of_nat e)) i \<longleftrightarrow> bit (0 :: 32 word) i"
      by (auto simp: bit_and_iff bit_push_bit_iff)
  qed
  then have "c OR push_bit 24 (of_nat e) = c + push_bit 24 (of_nat e)" by (simp add: disjunctive_add_eq_or)
  also have "\<dots> = of_nat (unat c + unat (push_bit 24 (of_nat e) :: 32 word))" by simp
  also have "\<dots> = of_nat (unat c + e * 2 ^ 24)" by (simp only: unat_push_24 [OF assms(2)])
  finally show ?thesis using assms by (simp only: unat_of_nat) simp
qed

lemma unat_ucast_32: "unat (w :: 64 word) < 2 ^ 32 \<Longrightarrow> unat (ucast w :: 32 word) = unat w"
  by (simp add: unsigned_ucast_eq take_bit_nat_eq_self)

lemma shifted_lead:
  assumes "length a = 8"
  defines "n \<equiv> (limbs_bits a + 7) div 8"
  shows "unat ((if n \<le> 3 then ucast (push_bit (8 * (3 - n)) (Get64 a 0))
    else ucast (Get64 (limbs_shr a (8 * (n - 3))) 0)) :: 32 word) = lead n (limbs_val a)"
proof (cases "n \<le> 3")
  case True
  note b = byte_count [OF assms(1), folded n_def]
  have lt: "limbs_val a * 256 ^ (3 - n) < 2 ^ 24"
    using lead_bounds(1) [OF b(1,2)] True by (simp add: lead_def)
  have "push_bit (8 * (3 - n)) (Get64 a 0) = (of_nat (limbs_val a * 256 ^ (3 - n)) :: 64 word)"
  proof -
    have p: "(2 :: 64 word) ^ (8 * k) = 256 ^ k" for k by (simp only: power_mult) simp
    have "Get64 a 0 = of_nat (limbs_val a)" using assms(1) by (simp add: Get64_val)
    then show ?thesis by (simp only: push_bit_eq_mult p of_nat_mult of_nat_power of_nat_numeral)
  qed
  then have "unat (push_bit (8 * (3 - n)) (Get64 a 0)) = limbs_val a * 256 ^ (3 - n)"
    using lt by (simp only: unat_of_nat) simp
  then show ?thesis using True lt by (simp add: unat_ucast_32 lead_def)
next
  case False
  note b = byte_count [OF assms(1), folded n_def]
  have lt: "limbs_val a div 256 ^ (n - 3) < 2 ^ 24"
    using lead_bounds(1) [OF b(1,2)] False by (simp add: lead_def)
  have "Get64 (limbs_shr a (8 * (n - 3))) 0 = of_nat (limbs_val a div 256 ^ (n - 3))"
    using assms(1) by (simp add: Get64_val limbs_shr_val drop_bit_eq_div pow_8)
  then have "unat (Get64 (limbs_shr a (8 * (n - 3))) 0) = limbs_val a div 256 ^ (n - 3)"
    using lt by (simp only: unat_of_nat) simp
  then show ?thesis using False lt by (simp add: unat_ucast_32 lead_def)
qed


text \<open>The assertions of GetCompact hold, and the encoding it returns is decoded without overflow to
the value cut after its two or three leading bytes.\<close>

theorem GetCompact_value:
  assumes "length a = 8"
  shows "\<exists>c. GetCompact False a = Inr c \<and>
    compact_value (compact_exp c) (compact_man c) = limbs_val a div 256 ^ (compact_exp c - 3) * 256 ^ (compact_exp c - 3) \<and>
    \<not> odd (unat c div 2 ^ 23) \<and> (limbs_val a \<noteq> 0 \<longrightarrow> 2 ^ 15 \<le> compact_man c)"
proof -
  define n v where "n = (limbs_bits a + 7) div 8" and "v = limbs_val a"
  define w :: "32 word" where "w = (if n \<le> 3 then ucast (push_bit (8 * (3 - n)) (Get64 a 0))
    else ucast (Get64 (limbs_shr a (8 * (n - 3))) 0))"
  define e where "e = (if 2 ^ 23 \<le> lead n v then n + 1 else n)"
  define x where "x = (if 2 ^ 23 \<le> lead n v then drop_bit 8 w else w)"
  note b = byte_count [OF assms, folded n_def v_def]
  note l = lead_bounds [OF b(1,2)]
  have w: "unat w = lead n v" unfolding w_def n_def v_def by (rule shifted_lead [OF assms])
  have sign: "w AND 0x00800000 \<noteq> 0 \<longleftrightarrow> 2 ^ 23 \<le> lead n v"
  proof -
    have "lead n v div 2 ^ 23 < 2" using l(1) by (simp add: div_less_iff_less_mult)
    then have "lead n v div 2 ^ 23 = 0 \<or> lead n v div 2 ^ 23 = 1" by linarith
    moreover have "lead n v div 2 ^ 23 = 0 \<longleftrightarrow> lead n v < 2 ^ 23" by (simp add: div_eq_0_iff)
    ultimately show ?thesis unfolding bit_sign w by auto
  qed
  have x: "unat x = (if 2 ^ 23 \<le> lead n v then lead n v div 256 else lead n v)"
  proof -
    have "unat w < 2 ^ 32" using l(1) w by simp
    then have "unat (drop_bit 8 w) = unat w div 2 ^ 8"
      by (simp only: unsigned_drop_bit_eq) (simp add: take_bit_nat_eq_self drop_bit_eq_div)
    then show ?thesis by (simp add: x_def w)
  qed
  have x23: "unat x < 2 ^ 23" using l(1) by (simp add: x div_less_iff_less_mult)
  have e256: "e < 256" using b(3) by (simp add: e_def)
  have a1: "x AND NOT 0x007fffff = 0"
  proof -
    have "(0x007fffff :: 32 word) = mask 23" by (simp add: mask_eq_exp_minus_1)
    moreover have "take_bit 23 x = x"
      using x23 by (metis unsigned_take_bit_eq take_bit_nat_eq_self unsigned_word_eqI)
    ultimately show ?thesis by (metis and.assoc and.commute bit.conj_cancel_right bit.conj_zero_left take_bit_eq_mask)
  qed
  define c where "c = x OR push_bit 24 (of_nat e)"
  have g: "GetCompact False a = Inr c"
    using a1 e256 sign unfolding GetCompact_def Let_def n_def [symmetric] w_def [symmetric]
    by (auto simp: c_def x_def e_def)
  have c: "unat c = unat x + e * 2 ^ 24" unfolding c_def using x23 e256 by (rule unat_encode)
  have c2: "unat c = unat x + 2 ^ 23 * (2 * e)" using c by simp
  have "unat c mod 2 ^ 23 = unat x" unfolding c2 mod_mult_self2 using x23 by (rule mod_less)
  then have ce: "compact_exp c = e" "compact_man c = unat x"
    using x23 c by (simp_all add: compact_exp_def compact_man_def)
  have s: "\<not> odd (unat c div 2 ^ 23)"
  proof -
    from c2 have "unat c div 2 ^ 23 = 2 * e" using x23 by simp
    then show ?thesis by simp
  qed
  have v: "compact_value e (unat x) = v div 256 ^ (e - 3) * 256 ^ (e - 3)"
    using b(1) e_def x by (rule compact_value_lead)
  have "2 ^ 15 \<le> unat x" if "v \<noteq> 0"
  proof (cases "2 ^ 23 \<le> lead n v")
    case True
    then have "(2 :: nat) ^ 23 div 256 \<le> lead n v div 256" by (rule div_le_mono)
    then show ?thesis using True by (simp add: x)
  next
    case False
    have "0 < n" using b(4) that by simp
    then show ?thesis using l(2) False by (simp add: x)
  qed
  then show ?thesis using g ce s v by (auto simp: v_def)
qed


section \<open>The salted hash of uint256::GetHash\<close>

definition rot32 :: "nat \<Rightarrow> 32 word \<Rightarrow> 32 word" where
  "rot32 k x = push_bit k x OR drop_bit (32 - k) x"

definition HashMix :: "32 word \<times> 32 word \<times> 32 word \<Rightarrow> 32 word \<times> 32 word \<times> 32 word" where
  "HashMix s = (case s of (a, b, c) \<Rightarrow>
     let a = (a - c) XOR rot32 4 c; c = c + b;
         b = (b - a) XOR rot32 6 a; a = a + c;
         c = (c - b) XOR rot32 8 b; b = b + a;
         a = (a - c) XOR rot32 16 c; c = c + b;
         b = (b - a) XOR rot32 19 a; a = a + c;
         c = (c - b) XOR rot32 4 b; b = b + a
     in (a, b, c))"

definition HashFinal :: "32 word \<times> 32 word \<times> 32 word \<Rightarrow> 32 word \<times> 32 word \<times> 32 word" where
  "HashFinal s = (case s of (a, b, c) \<Rightarrow>
     let c = (c XOR b) - rot32 14 b;
         a = (a XOR c) - rot32 11 c;
         b = (b XOR a) - rot32 25 a;
         c = (c XOR b) - rot32 16 b;
         a = (a XOR c) - rot32 4 c;
         b = (b XOR a) - rot32 14 a;
         c = (c XOR b) - rot32 24 b
     in (a, b, c))"

definition salted_GetHash :: "limbs \<Rightarrow> limbs \<Rightarrow> 64 word" where
  "salted_GetHash pn salt =
     (let d = 0xdeadbeef + 32 :: 32 word;
          x = (\<lambda>i. pn ! i XOR salt ! i);
          (a, b, c) = HashMix (d + x 0, d + x 1, d + x 2);
          (a, b, c) = HashMix (a + x 3, b + x 4, c + x 5);
          (a, b, c) = HashFinal (a + x 6, b + x 7, c)
      in push_bit 32 (ucast b) OR ucast c)"

section \<open>Hexadecimal strings\<close>

text \<open>The bytes are those of the number in memory, least significant first.\<close>

definition hex_char :: "nat \<Rightarrow> char" where
  "hex_char n = ''0123456789abcdef'' ! n"

definition GetHex :: "bytes \<Rightarrow> string" where
  "GetHex pn = concat (map (\<lambda>b. [hex_char (unat b div 16), hex_char (unat b mod 16)]) (rev pn))"

definition HexDigit :: "char \<Rightarrow> int" where
  "HexDigit ch = (let c = of_char ch :: nat in
     if 48 \<le> c \<and> c \<le> 57 then int c - 48
     else if 97 \<le> c \<and> c \<le> 102 then int c - 87
     else if 65 \<le> c \<and> c \<le> 70 then int c - 55
     else -1)"

definition isspace :: "char \<Rightarrow> bool" where
  "isspace ch \<longleftrightarrow> (let c = of_char ch :: nat in c = 32 \<or> 9 \<le> c \<and> c \<le> 13)"

fun set_hex_loop :: "nat \<Rightarrow> char list \<Rightarrow> bytes" where
  "set_hex_loop 0 ds = []"
| "set_hex_loop (Suc n) [] = 0 # set_hex_loop n []"
| "set_hex_loop (Suc n) [d] = of_int (HexDigit d) # set_hex_loop n []"
| "set_hex_loop (Suc n) (d # d' # ds) =
     (of_int (HexDigit d) OR push_bit 4 (of_int (HexDigit d'))) # set_hex_loop n ds"

definition skip_0x :: "string \<Rightarrow> string" where
  "skip_0x s = (case s of c # d # r \<Rightarrow> if c = CHR ''0'' \<and> (d = CHR ''x'' \<or> d = CHR ''X'') then r else s | _ \<Rightarrow> s)"

definition SetHex :: "nat \<Rightarrow> string \<Rightarrow> bytes" where
  "SetHex w psz =
     set_hex_loop w (rev (takeWhile (\<lambda>c. HexDigit c \<noteq> -1) (skip_0x (dropWhile isspace psz))))"

lemma hex_char_facts:
  assumes "n < 16"
  shows "HexDigit (hex_char n) = int n" "\<not> isspace (hex_char n)" "hex_char n \<noteq> CHR ''x''" "hex_char n \<noteq> CHR ''X''"
proof -
  have "list_all (\<lambda>n. HexDigit (hex_char n) = int n \<and> \<not> isspace (hex_char n) \<and> hex_char n \<noteq> CHR ''x'' \<and>
      hex_char n \<noteq> CHR ''X'') [0..<16]" by code_simp
  then show "HexDigit (hex_char n) = int n" "\<not> isspace (hex_char n)" "hex_char n \<noteq> CHR ''x''" "hex_char n \<noteq> CHR ''X''"
    using assms by (simp_all add: list_all_iff)
qed

lemma nibbles: "(of_nat (unat b mod 16) :: byte) OR push_bit 4 (of_nat (unat b div 16)) = b"
proof (rule bit_word_eqI)
  fix i :: nat assume "i < LENGTH(8)"
  moreover have "unat b mod 16 = take_bit 4 (unat b)" "unat b div 16 = drop_bit 4 (unat b)"
    by (simp_all add: take_bit_eq_mod drop_bit_eq_div)
  ultimately show "bit ((of_nat (unat b mod 16) :: byte) OR push_bit 4 (of_nat (unat b div 16))) i \<longleftrightarrow> bit b i"
    by (auto simp: bit_or_iff bit_push_bit_iff bit_of_nat_iff bit_take_bit_iff bit_drop_bit_eq bit_unsigned_iff)
qed

lemma set_hex_loop_pairs:
  "set_hex_loop (length bs) (concat (map (\<lambda>b. [hex_char (unat b mod 16), hex_char (unat b div 16)]) bs)) = bs"
proof (induction bs)
  case (Cons b bs)
  have "unat b div 16 < 16" by (simp add: div_less_iff_less_mult)
  then show ?case using Cons nibbles [of b] by (simp add: hex_char_facts)
qed simp

theorem SetHex_GetHex: "SetHex (length bs) (GetHex bs) = bs"
proof -
  have "unat b div 16 < 16" "unat b mod 16 < 16" for b :: byte by (simp_all add: div_less_iff_less_mult)
  note h = hex_char_facts [OF this(1)] hex_char_facts [OF this(2)]
  have "dropWhile isspace (GetHex bs) = GetHex bs"
    by (cases "rev bs") (simp_all add: GetHex_def h)
  moreover have "skip_0x (GetHex bs) = GetHex bs"
    by (cases "rev bs") (simp_all add: GetHex_def skip_0x_def h)
  moreover have "takeWhile (\<lambda>c. HexDigit c \<noteq> -1) (GetHex bs) = GetHex bs"
    by (auto simp: takeWhile_eq_all_conv GetHex_def h)
  moreover have "rev (GetHex bs) = concat (map (\<lambda>b. [hex_char (unat b mod 16), hex_char (unat b div 16)]) bs)"
    by (simp add: GetHex_def rev_concat rev_map [symmetric] o_def)
  ultimately show ?thesis by (simp only: SetHex_def set_hex_loop_pairs)
qed

end
