(* ===== verification/Chain.thy ===== *)
theory Chain
  imports Uint256
begin

text \<open>
  The tree of block index entries and the active chain (chain.h, chain.cpp and the index methods of
  main.cpp).  A CBlockIndex is a value whose pprev and pskip are the entries they point to: entries
  are only linked to older ones, so the pointers form a tree, and as an entry carries the hash of
  its block, equal values stand for equal pointers.  Fields that change after the entry was added
  (file positions, validation status) are not part of it.
\<close>

section \<open>Block index entries\<close>

datatype CBlockIndex = CBlockIndex
  (blockHash: uint256)
  (iVersion: int) (iMerkleRoot: uint256) (iTime: "32 word") (iBits: "32 word") (iNonce: "32 word")
  (iCheckpoint: uint256)
  (iHeight: nat)
  (iFlags: "32 word")
  (iStakeModifier: "64 word") (iModifierChecksum: "32 word")
  (iPrevoutStake: COutPoint) (iStakeTime: "32 word") (iHashProofOfStake: uint256)
  (iChainTrust: uint256) (iChainWork: uint256)
  (pprev: "CBlockIndex option") (pskip: "CBlockIndex option")

lemma size_pprev [termination_simp]: "pprev p = Some q \<Longrightarrow> size q < size p"
  by (cases p) auto

definition IsProofOfStake_index :: "CBlockIndex \<Rightarrow> bool" where
  "IsProofOfStake_index p \<longleftrightarrow> iFlags p AND 1 \<noteq> 0"

definition InvertLowestOne :: "nat \<Rightarrow> nat" where
  "InvertLowestOne n = n AND (n - 1)"

definition GetSkipHeight :: "nat \<Rightarrow> nat" where
  "GetSkipHeight height =
     (if height < 2 then 0
      else if odd height then InvertLowestOne (InvertLowestOne (height - 1)) + 1
      else InvertLowestOne height)"

lemma and_nat_le: "(m :: nat) AND n \<le> n"
proof -
  have "int m AND int n \<le> int n" by (rule AND_upper2) simp
  then show ?thesis by (metis of_nat_and_eq of_nat_le_iff)
qed

lemma InvertLowestOne_le: "InvertLowestOne n \<le> n - 1"
  by (simp add: InvertLowestOne_def and_nat_le)

lemma GetSkipHeight_less: "0 < h \<Longrightarrow> GetSkipHeight h < h"
  using InvertLowestOne_le [of h] InvertLowestOne_le [of "h - 1"] InvertLowestOne_le [of "InvertLowestOne (h - 1)"]
  by (auto simp: GetSkipHeight_def elim!: oddE)

function ancestor_loop :: "CBlockIndex option \<Rightarrow> nat \<Rightarrow> nat \<Rightarrow> fault + CBlockIndex option" where
  "ancestor_loop walk heightWalk height =
     (if heightWalk > height then
        (case walk of
           None \<Rightarrow> Inl Abort
         | Some p \<Rightarrow>
             let heightSkip = GetSkipHeight heightWalk; heightSkipPrev = GetSkipHeight (heightWalk - 1) in
             if heightSkip = height \<or>
                (heightSkip > height \<and> \<not> (int heightSkipPrev < int heightSkip - 2 \<and> heightSkipPrev \<ge> height))
             then ancestor_loop (pskip p) heightSkip height
             else ancestor_loop (pprev p) (heightWalk - 1) height)
      else Inr walk)"
  by pat_completeness auto
termination
  by (relation "measure (\<lambda>(w, hw, h). hw)") (auto simp: GetSkipHeight_less)

declare ancestor_loop.simps [simp del]

definition GetAncestor :: "CBlockIndex \<Rightarrow> int \<Rightarrow> fault + CBlockIndex option" where
  "GetAncestor p height =
     (if height > int (iHeight p) \<or> height < 0 then Inr None
      else ancestor_loop (Some p) (iHeight p) (nat height))"

text \<open>BuildSkip, the pskip of an entry whose pprev and nHeight are set.\<close>

definition BuildSkip :: "CBlockIndex option \<Rightarrow> nat \<Rightarrow> fault + CBlockIndex option" where
  "BuildSkip prev height =
     (case prev of None \<Rightarrow> Inr None | Some q \<Rightarrow> GetAncestor q (int (GetSkipHeight height)))"

definition nMedianTimeSpan :: nat where "nMedianTimeSpan = 11"

fun past_times :: "nat \<Rightarrow> CBlockIndex \<Rightarrow> nat list" where
  "past_times 0 p = []"
| "past_times (Suc n) p = unat (iTime p) # (case pprev p of None \<Rightarrow> [] | Some q \<Rightarrow> past_times n q)"

definition GetMedianTimePast :: "CBlockIndex \<Rightarrow> nat" where
  "GetMedianTimePast p =
     (let times = sort (rev (past_times nMedianTimeSpan p)) in times ! (length times div 2))"

fun majority_loop :: "nat \<Rightarrow> int \<Rightarrow> nat \<Rightarrow> nat \<Rightarrow> CBlockIndex option \<Rightarrow> nat" where
  "majority_loop 0 minVersion nRequired nFound pstart = nFound"
| "majority_loop (Suc n) minVersion nRequired nFound pstart =
     (case pstart of
        None \<Rightarrow> nFound
      | Some p \<Rightarrow>
          if nFound < nRequired
          then majority_loop n minVersion nRequired (if iVersion p \<ge> minVersion then nFound + 1 else nFound) (pprev p)
          else nFound)"

definition IsSuperMajority :: "nat \<Rightarrow> int \<Rightarrow> CBlockIndex option \<Rightarrow> nat \<Rightarrow> bool" where
  "IsSuperMajority nToCheck minVersion pstart nRequired \<longleftrightarrow>
     majority_loop nToCheck minVersion nRequired 0 pstart \<ge> nRequired"

section \<open>The active chain\<close>

type_synonym CChain = "CBlockIndex option list"

definition chain_at :: "CChain \<Rightarrow> int \<Rightarrow> CBlockIndex option" where
  "chain_at vChain nHeight =
     (if nHeight < 0 \<or> nHeight \<ge> int (length vChain) then None else vChain ! nat nHeight)"

definition Genesis :: "CChain \<Rightarrow> CBlockIndex option" where
  "Genesis vChain = (case vChain of [] \<Rightarrow> None | p # _ \<Rightarrow> p)"

function stake_tip :: "CBlockIndex \<Rightarrow> CBlockIndex" where
  "stake_tip p = (case pprev p of
       None \<Rightarrow> p
     | Some q \<Rightarrow> if IsProofOfStake_index p then p else stake_tip q)"
  by pat_completeness auto
termination
  by (relation "measure size") (auto simp: size_pprev)

definition Tip :: "bool \<Rightarrow> CChain \<Rightarrow> CBlockIndex option" where
  "Tip fProofOfStake vChain =
     (if vChain = [] then None
      else if fProofOfStake then map_option stake_tip (last vChain) else last vChain)"

definition Contains :: "CChain \<Rightarrow> CBlockIndex \<Rightarrow> bool" where
  "Contains vChain p \<longleftrightarrow> chain_at vChain (int (iHeight p)) = Some p"

definition Next :: "CChain \<Rightarrow> CBlockIndex \<Rightarrow> CBlockIndex option" where
  "Next vChain p = (if Contains vChain p then chain_at vChain (int (iHeight p) + 1) else None)"

definition Height :: "CChain \<Rightarrow> int" where
  "Height vChain = int (length vChain) - 1"

function set_tip_loop :: "CBlockIndex \<Rightarrow> CChain \<Rightarrow> fault + CChain" where
  "set_tip_loop p vChain =
     (if iHeight p \<ge> length vChain then Inl Abort
      else if vChain ! iHeight p = Some p then Inr vChain
      else let vChain = vChain[iHeight p := Some p] in
        case pprev p of None \<Rightarrow> Inr vChain | Some q \<Rightarrow> set_tip_loop q vChain)"
  by pat_completeness auto
termination
  by (relation "measure (\<lambda>(p, c). size p)") (auto simp: size_pprev)

declare set_tip_loop.simps [simp del] stake_tip.simps [simp del]

definition resize :: "CChain \<Rightarrow> nat \<Rightarrow> CChain" where
  "resize vChain n = take n vChain @ replicate (n - length vChain) None"

definition SetTip :: "CBlockIndex option \<Rightarrow> CChain \<Rightarrow> fault + CChain" where
  "SetTip pindex vChain =
     (case pindex of None \<Rightarrow> Inr [] | Some p \<Rightarrow> set_tip_loop p (resize vChain (iHeight p + 1)))"

function find_fork_loop :: "CChain \<Rightarrow> CBlockIndex \<Rightarrow> CBlockIndex option" where
  "find_fork_loop vChain p =
     (if Contains vChain p then Some p
      else case pprev p of None \<Rightarrow> None | Some q \<Rightarrow> find_fork_loop vChain q)"
  by pat_completeness auto
termination
  by (relation "measure (\<lambda>(c, p). size p)") (auto simp: size_pprev)

declare find_fork_loop.simps [simp del]

definition FindFork :: "CChain \<Rightarrow> CBlockIndex \<Rightarrow> fault + CBlockIndex option" where
  "FindFork vChain p =
     bindE (if int (iHeight p) > Height vChain then GetAncestor p (Height vChain) else Inr (Some p)) (\<lambda>pindex.
       Inr (case pindex of None \<Rightarrow> None | Some q \<Rightarrow> find_fork_loop vChain q))"

text \<open>The entry a step of GetLocator goes to, and its loop; None when it does not end.\<close>

definition locator_next :: "CChain \<Rightarrow> nat \<Rightarrow> CBlockIndex \<Rightarrow> fault + CBlockIndex option" where
  "locator_next vChain nStep p =
     (let nHeight = int (iHeight p - nStep) in
      if Contains vChain p then Inr (chain_at vChain nHeight) else GetAncestor p nHeight)"

partial_function (option) locator_loop ::
  "CChain \<Rightarrow> nat \<Rightarrow> uint256 list \<Rightarrow> CBlockIndex option \<Rightarrow> (fault + uint256 list) option" where
  "locator_loop vChain nStep vHave pindex =
     (if pindex = None then Some (Inr vHave)
      else
        let p = the pindex; vHave = vHave @ [blockHash p]; next = locator_next vChain nStep p in
        if iHeight p = 0 then Some (Inr vHave)
        else if isl next then Some (Inl (projl next))
        else locator_loop vChain (if length vHave > 10 then 2 * nStep else nStep) vHave (projr next))"

definition GetLocator :: "CChain \<Rightarrow> CBlockIndex option \<Rightarrow> (fault + uint256 list) option" where
  "GetLocator vChain pindex =
     locator_loop vChain 1 [] (case pindex of None \<Rightarrow> Tip False vChain | Some p \<Rightarrow> Some p)"

fun fork_in_index :: "(uint256 \<rightharpoonup> CBlockIndex) \<Rightarrow> CChain \<Rightarrow> uint256 list \<Rightarrow> CBlockIndex option" where
  "fork_in_index mapBlockIndex vChain [] = Genesis vChain"
| "fork_in_index mapBlockIndex vChain (h # vHave) =
     (case mapBlockIndex h of
        None \<Rightarrow> fork_in_index mapBlockIndex vChain vHave
      | Some p \<Rightarrow> if Contains vChain p then Some p else fork_in_index mapBlockIndex vChain vHave)"

function common_loop :: "CBlockIndex option \<Rightarrow> CBlockIndex option \<Rightarrow> CBlockIndex option \<times> CBlockIndex option" where
  "common_loop pa pb =
     (case pa of
        None \<Rightarrow> (pa, pb)
      | Some a \<Rightarrow> (case pb of
          None \<Rightarrow> (pa, pb)
        | Some b \<Rightarrow> if a = b then (pa, pb) else common_loop (pprev a) (pprev b)))"
  by pat_completeness auto
termination
  by (relation "measure (\<lambda>(a, b). case a of None \<Rightarrow> 0 | Some p \<Rightarrow> Suc (size p))")
    (auto simp: size_pprev split: option.splits)

declare common_loop.simps [simp del]

definition LastCommonAncestor :: "CBlockIndex \<Rightarrow> CBlockIndex \<Rightarrow> fault + CBlockIndex option" where
  "LastCommonAncestor pa pb =
     bindE (if iHeight pa > iHeight pb then GetAncestor pa (int (iHeight pb)) else Inr (Some pa)) (\<lambda>a.
     bindE (if iHeight pb > iHeight pa then GetAncestor pb (int (iHeight pa)) else Inr (Some pb)) (\<lambda>b.
       case common_loop a b of (a, b) \<Rightarrow> if a \<noteq> b then Inl Abort else Inr a))"

section \<open>Well-formed entries\<close>

text \<open>What AddToBlockIndex establishes: heights count the ancestors, and BuildSkip filled pskip.\<close>

inductive index_ok :: "CBlockIndex \<Rightarrow> bool" where
  genesis: "pprev p = None \<Longrightarrow> pskip p = None \<Longrightarrow> iHeight p = 0 \<Longrightarrow> index_ok p"
| child: "pprev p = Some q \<Longrightarrow> index_ok q \<Longrightarrow> iHeight p = Suc (iHeight q) \<Longrightarrow>
    BuildSkip (pprev p) (iHeight p) = Inr (pskip p) \<Longrightarrow> index_ok p"

fun parent :: "nat \<Rightarrow> CBlockIndex \<Rightarrow> CBlockIndex option" where
  "parent 0 p = Some p"
| "parent (Suc n) p = (case pprev p of None \<Rightarrow> None | Some q \<Rightarrow> parent n q)"

lemma parent_add: "parent (m + n) p = (case parent m p of None \<Rightarrow> None | Some q \<Rightarrow> parent n q)"
  by (induction m arbitrary: p) (auto split: option.splits)

lemma index_ok_parent:
  "index_ok p \<Longrightarrow> n \<le> iHeight p \<Longrightarrow> \<exists>q. parent n p = Some q \<and> index_ok q \<and> iHeight q + n = iHeight p"
proof (induction n arbitrary: p)
  case (Suc n)
  from Suc.prems obtain q where q: "pprev p = Some q" "index_ok q" "iHeight p = Suc (iHeight q)"
    by (cases rule: index_ok.cases) auto
  then show ?case using Suc.IH [of q] Suc.prems(2) by auto
qed simp

lemma ancestor_loop_parent:
  "index_ok p \<Longrightarrow> h \<le> iHeight p \<Longrightarrow> ancestor_loop (Some p) (iHeight p) h = Inr (parent (iHeight p - h) p)"
proof (induction "iHeight p" arbitrary: p h rule: less_induct)
  case less
  show ?case
  proof (cases "iHeight p = h")
    case True
    then show ?thesis by (simp add: ancestor_loop.simps)
  next
    case False
    then have lt: "h < iHeight p" using less.prems by simp
    from less.prems(1) lt obtain q where q: "pprev p = Some q" "index_ok q" "iHeight p = Suc (iHeight q)"
      "BuildSkip (Some q) (iHeight p) = Inr (pskip p)"
      by (cases rule: index_ok.cases) auto
    define s where "s = GetSkipHeight (iHeight p)"
    have s: "s \<le> iHeight q" using GetSkipHeight_less [of "iHeight p"] lt q(3) by (simp add: s_def)
    have "GetAncestor q (int s) = Inr (parent (iHeight q - s) q)"
      using less.hyps [of q s] q s by (simp add: GetAncestor_def)
    then have skip: "pskip p = parent (iHeight q - s) q" using q(4) by (simp add: BuildSkip_def s_def)
    obtain r where r: "parent (iHeight q - s) q = Some r" "index_ok r" "iHeight r + (iHeight q - s) = iHeight q"
      using index_ok_parent [OF q(2), of "iHeight q - s"] by auto
    then have hr: "iHeight r = s" using s by simp
    show ?thesis
    proof (cases "s = h \<or> (s > h \<and> \<not> (int (GetSkipHeight (iHeight p - 1)) < int s - 2 \<and> GetSkipHeight (iHeight p - 1) \<ge> h))")
      case True
      then have hs: "h \<le> s" by auto
      have "ancestor_loop (Some p) (iHeight p) h = ancestor_loop (Some r) s h"
        using True lt skip r(1) by (subst ancestor_loop.simps) (simp add: Let_def s_def)
      also have "\<dots> = Inr (parent (s - h) r)" using less.hyps [of r h] r hr hs s q(3) by simp
      also have "parent (s - h) r = parent (iHeight p - h) p"
      proof -
        have e: "iHeight p - h = Suc ((iHeight q - s) + (s - h))" using q(3) s hs by simp
        have "parent (iHeight p - h) p = parent ((iHeight q - s) + (s - h)) q" unfolding e by (simp add: q(1))
        then show ?thesis by (simp add: parent_add r(1))
      qed
      finally show ?thesis .
    next
      case False
      have "ancestor_loop (Some p) (iHeight p) h = ancestor_loop (Some q) (iHeight q) h"
        using False lt q by (subst ancestor_loop.simps) (auto simp: Let_def s_def)
      also have "\<dots> = Inr (parent (iHeight q - h) q)" using less.hyps [of q h] q lt by simp
      also have "parent (iHeight q - h) q = parent (iHeight p - h) p"
      proof -
        have e: "iHeight p - h = Suc (iHeight q - h)" using q(3) lt by simp
        show ?thesis unfolding e by (simp add: q(1))
      qed
      finally show ?thesis .
    qed
  qed
qed

theorem GetAncestor_parent:
  assumes "index_ok p"
  shows "GetAncestor p h = Inr (if 0 \<le> h \<and> h \<le> int (iHeight p) then parent (iHeight p - nat h) p else None)"
  using ancestor_loop_parent [OF assms, of "nat h"] by (auto simp: GetAncestor_def)

text \<open>The path from the first block to an entry, as the vector of the active chain holds it.\<close>

function path :: "CBlockIndex \<Rightarrow> CBlockIndex list" where
  "path p = (case pprev p of None \<Rightarrow> [p] | Some q \<Rightarrow> path q @ [p])"
  by pat_completeness auto
termination
  by (relation "measure size") (auto simp: size_pprev)

declare path.simps [simp del]

lemma length_path: "index_ok p \<Longrightarrow> length (path p) = Suc (iHeight p)"
  by (induction rule: index_ok.induct) (simp_all add: path.simps)

lemma path_nth: "index_ok p \<Longrightarrow> i \<le> iHeight p \<Longrightarrow> Some (path p ! i) = parent (iHeight p - i) p"
proof (induction arbitrary: i rule: index_ok.induct)
  case (child p q)
  show ?case
  proof (cases "i = iHeight p")
    case True
    then show ?thesis using child length_path [of q] by (simp add: path.simps [of p] nth_append)
  next
    case False
    then have "i \<le> iHeight q" "iHeight p - i = Suc (iHeight q - i)" using child by simp_all
    then show ?thesis using child length_path [of q] by (simp add: path.simps [of p] nth_append)
  qed
qed (simp add: path.simps)

lemma path_index_ok: "index_ok p \<Longrightarrow> q \<in> set (path p) \<Longrightarrow> index_ok q \<and> path p = path q @ drop (Suc (iHeight q)) (path p)"
proof (induction rule: index_ok.induct)
  case (genesis p)
  then show ?case by (auto simp: path.simps [of p] intro: index_ok.genesis)
next
  case (child p r)
  have p: "path p = path r @ [p]" using child by (simp add: path.simps [of p])
  have ok: "index_ok p" using child(1,2,3,4) by (rule index_ok.child)
  show ?case
  proof (cases "q = p")
    case True
    then show ?thesis using ok length_path [OF ok] by simp
  next
    case False
    then have q: "q \<in> set (path r)" using child(6) p by simp
    then have "index_ok q" "path r = path q @ drop (Suc (iHeight q)) (path r)" using child.IH by blast+
    moreover have "Suc (iHeight q) \<le> length (path r)"
      using calculation length_path [of q] by (metis length_append le_add1)
    ultimately show ?thesis unfolding p by simp
  qed
qed

lemma path_height: "index_ok p \<Longrightarrow> q \<in> set (path p) \<Longrightarrow> path p ! iHeight q = q \<and> iHeight q \<le> iHeight p"
proof -
  assume a: "index_ok p" "q \<in> set (path p)"
  note q = path_index_ok [OF a]
  have l: "last (path q) = q" by (simp add: path.simps [of q] split: option.splits)
  have lq: "length (path q) = Suc (iHeight q)" using q length_path by blast
  have "path p ! iHeight q = path q ! iHeight q" using q lq by (metis lessI nth_append)
  also have "\<dots> = q" using l lq by (metis diff_Suc_1 last_conv_nth length_0_conv nat.distinct(1))
  finally have "path p ! iHeight q = q" .
  moreover have "length (path q) \<le> length (path p)" using q by (metis length_append le_add1)
  ultimately show ?thesis using lq length_path [OF a(1)] by simp
qed

section \<open>The vector of the active chain\<close>

lemma path_prefix: "index_ok p \<Longrightarrow> i \<le> iHeight p \<Longrightarrow>
  path (path p ! i) = take (Suc i) (path p) \<and> index_ok (path p ! i) \<and> iHeight (path p ! i) = i"
proof -
  assume a: "index_ok p" "i \<le> iHeight p"
  have i: "path p ! i \<in> set (path p)" using a length_path [of p] by simp
  obtain q where q: "parent (iHeight p - i) p = Some q" "index_ok q" "iHeight q + (iHeight p - i) = iHeight p"
    using index_ok_parent [OF a(1), of "iHeight p - i"] by auto
  have e: "path p ! i = q" using path_nth [OF a] q(1) by simp
  have h: "iHeight q = i" using q(3) a(2) by simp
  have "path p = path q @ drop (Suc i) (path p)" using path_index_ok [OF a(1) i] unfolding e h by blast
  then have "take (Suc i) (path p) = take (Suc i) (path q @ drop (Suc i) (path p))" by simp
  then show ?thesis using e h q(2) length_path [OF q(2)] by simp
qed

lemma last_path [simp]: "last (path p) = p"
  by (simp add: path.simps [of p] split: option.splits)

lemma path_not_Nil [simp]: "path p \<noteq> []"
  by (simp add: path.simps [of p] split: option.splits)

definition active :: "CBlockIndex list \<Rightarrow> bool" where
  "active es \<longleftrightarrow> es = [] \<or> (\<exists>t. index_ok t \<and> es = path t)"

lemma active_nth: "active es \<Longrightarrow> i < length es \<Longrightarrow>
  index_ok (es ! i) \<and> iHeight (es ! i) = i \<and> path (es ! i) = take (Suc i) es"
  using path_prefix length_path by (auto simp: active_def less_Suc_eq_le)

lemma set_tip_loop_path:
  "index_ok q \<Longrightarrow> iHeight q < length v \<Longrightarrow>
   (\<And>i r. i \<le> iHeight q \<Longrightarrow> v ! i = Some r \<Longrightarrow> take (Suc i) v = map Some (path r)) \<Longrightarrow>
   set_tip_loop q v = Inr (map Some (path q) @ drop (Suc (iHeight q)) v)"
proof (induction arbitrary: v rule: index_ok.induct)
  case (genesis p)
  show ?case
  proof (cases "v ! 0 = Some p")
    case True
    then have "take 1 v = map Some (path p)" using genesis(5) [of 0 p] genesis(3) by simp
    then show ?thesis using True genesis append_take_drop_id [of 1 v] by (simp add: set_tip_loop.simps)
  next
    case False
    then show ?thesis using genesis
      by (cases v) (simp_all add: set_tip_loop.simps [of p] path.simps [of p])
  qed
next
  case (child p r)
  let ?h = "iHeight p"
  show ?case
  proof (cases "v ! ?h = Some p")
    case True
    then have "take (Suc ?h) v = map Some (path p)" using child.prems(2) [of ?h p] by simp
    then show ?thesis using True child.prems(1) append_take_drop_id [of "Suc ?h" v]
      by (simp add: set_tip_loop.simps [of p])
  next
    case False
    have "set_tip_loop p v = set_tip_loop r (v[?h := Some p])"
      using False child(1) child.prems(1) by (simp add: set_tip_loop.simps [of p] Let_def)
    also have "\<dots> = Inr (map Some (path r) @ drop (Suc (iHeight r)) (v[?h := Some p]))"
      using child.IH [of "v[?h := Some p]"] child.prems child(3) by simp
    also have "drop (Suc (iHeight r)) (v[?h := Some p]) = Some p # drop (Suc ?h) v"
      using child(3) child.prems(1) by (simp add: drop_update_swap Cons_nth_drop_Suc [symmetric])
    finally show ?thesis using child(1) by (simp add: path.simps [of p])
  qed
qed

theorem SetTip_path:
  assumes es: "active es" and p: "index_ok p"
  shows "SetTip (Some p) (map Some es) = Inr (map Some (path p))"
proof -
  define v where "v = resize (map Some es) (iHeight p + 1)"
  have l: "length v = Suc (iHeight p)" by (simp add: v_def resize_def)
  have pre: "take (Suc i) v = map Some (path r)" if "i \<le> iHeight p" "v ! i = Some r" for i r
  proof -
    have i: "i < length es"
    proof (rule ccontr)
      assume "\<not> i < length es"
      then have "v ! i = None" using that(1) by (simp add: v_def resize_def nth_append)
      then show False using that(2) by simp
    qed
    have "v ! i = Some (es ! i)" using i that(1) by (simp add: v_def resize_def nth_append)
    then have "r = es ! i" using that(2) by simp
    moreover have "take (Suc i) v = map Some (take (Suc i) es)"
      using i that(1) by (simp add: v_def resize_def take_map min_def)
    ultimately show ?thesis using active_nth [OF es i] by simp
  qed
  have "set_tip_loop p v = Inr (map Some (path p) @ drop (Suc (iHeight p)) v)"
    by (rule set_tip_loop_path [OF p]) (use l pre in auto)
  then show ?thesis using l by (simp add: SetTip_def v_def)
qed

section \<open>Forks\<close>

abbreviation last_common :: "CBlockIndex list \<Rightarrow> CBlockIndex list \<Rightarrow> CBlockIndex option" where
  "last_common xs ys \<equiv>
     (let zs = longest_common_prefix xs ys in if zs = [] then None else Some (last zs))"

lemma lcp_snoc: "x \<notin> set ys \<Longrightarrow> longest_common_prefix (xs @ [x]) ys = longest_common_prefix xs ys"
proof (induction xs arbitrary: ys)
  case Nil
  then show ?case by (cases ys) auto
next
  case (Cons a xs)
  then show ?case by (cases ys) auto
qed

lemma lcp_append: "length ys \<le> length xs \<Longrightarrow> longest_common_prefix (xs @ zs) ys = longest_common_prefix xs ys"
proof (induction xs arbitrary: ys)
  case Nil
  then show ?case by (cases zs) auto
next
  case (Cons a xs)
  then show ?case by (cases ys) auto
qed

lemma lcp_sym: "longest_common_prefix xs ys = longest_common_prefix ys xs"
proof (induction xs arbitrary: ys)
  case Nil
  show ?case by (cases ys) auto
next
  case (Cons a xs)
  then show ?case by (cases ys) auto
qed

lemma lcp_prefix: "longest_common_prefix xs (xs @ zs) = xs"
  by (induction xs) auto

lemma lcp_snoc2:
  "length xs = length ys \<Longrightarrow> x \<noteq> y \<Longrightarrow>
     longest_common_prefix (xs @ [x]) (ys @ [y]) = longest_common_prefix xs ys"
  by (induction xs ys rule: list_induct2) auto

lemma Contains_active:
  assumes "active es" "index_ok p"
  shows "Contains (map Some es) p \<longleftrightarrow> p \<in> set es"
proof
  assume "Contains (map Some es) p"
  then show "p \<in> set es"
    by (auto simp: Contains_def chain_at_def not_le split: if_splits dest: nth_mem [of "iHeight p" es])
next
  assume "p \<in> set es"
  then obtain i where i: "i < length es" "p = es ! i" by (auto simp: in_set_conv_nth)
  then show "Contains (map Some es) p" using active_nth [OF assms(1) i(1)] by (simp add: Contains_def chain_at_def)
qed

lemma active_mem:
  assumes "active es" "p \<in> set es"
  shows "index_ok p \<and> path p = take (Suc (iHeight p)) es"
proof -
  from assms(2) obtain i where "i < length es" "p = es ! i" by (auto simp: in_set_conv_nth)
  then show ?thesis using active_nth [OF assms(1)] by simp
qed

lemma find_fork_loop_last_common:
  "index_ok p \<Longrightarrow> active es \<Longrightarrow> find_fork_loop (map Some es) p = last_common (path p) es"
proof (induction rule: index_ok.induct)
  case (genesis p)
  have ok: "index_ok p" using genesis(1-3) by (rule index_ok.genesis)
  show ?case
  proof (cases "p \<in> set es")
    case True
    then have "es = path p @ drop (Suc (iHeight p)) es" using active_mem [OF genesis(4)] by (metis append_take_drop_id)
    then have "longest_common_prefix (path p) es = path p" by (metis lcp_prefix)
    then show ?thesis using True Contains_active [OF genesis(4) ok] by (simp add: find_fork_loop.simps [of _ p])
  next
    case False
    then have "longest_common_prefix ([] @ [p]) es = []" by (subst lcp_snoc) simp_all
    then show ?thesis using False genesis(1) Contains_active [OF genesis(4) ok]
      by (simp add: find_fork_loop.simps [of _ p] path.simps [of p])
  qed
next
  case (child p q)
  have ok: "index_ok p" using child(1-4) by (rule index_ok.child)
  show ?case
  proof (cases "p \<in> set es")
    case True
    then have "es = path p @ drop (Suc (iHeight p)) es" using active_mem [OF child(6)] by (metis append_take_drop_id)
    then have "longest_common_prefix (path p) es = path p" by (metis lcp_prefix)
    then show ?thesis using True Contains_active [OF child(6) ok] by (simp add: find_fork_loop.simps [of _ p])
  next
    case False
    have "longest_common_prefix (path p) es = longest_common_prefix (path q) es"
      using False child(1) lcp_snoc [of p es "path q"] by (simp add: path.simps [of p])
    then show ?thesis using False child Contains_active [OF child(6) ok]
      by (simp add: find_fork_loop.simps [of _ p])
  qed
qed

lemma GetAncestor_path:
  assumes "index_ok p" "i \<le> iHeight p"
  shows "GetAncestor p (int i) = Inr (Some (path p ! i)) \<and> index_ok (path p ! i) \<and> iHeight (path p ! i) = i"
  using GetAncestor_parent [OF assms(1), of "int i"] path_nth [OF assms] path_prefix [OF assms] assms(2) by simp

theorem FindFork_last_common:
  assumes p: "index_ok p" and es: "active es"
  shows "FindFork (map Some es) p = Inr (last_common (path p) es)"
proof (cases "int (iHeight p) > Height (map Some es)")
  case False
  then show ?thesis using find_fork_loop_last_common [OF p es] by (simp add: FindFork_def)
next
  case True
  then have le: "length es \<le> iHeight p" by (simp add: Height_def)
  show ?thesis
  proof (cases "es = []")
    case True
    then show ?thesis using GetAncestor_parent [OF p] by (simp add: FindFork_def Height_def)
  next
    case False
    let ?i = "length es - 1"
    have i: "?i \<le> iHeight p" "Height (map Some es) = int ?i" using False le
      by (simp_all add: Height_def Suc_le_eq)
    note g = GetAncestor_path [OF p i(1)]
    have "longest_common_prefix (path (path p ! ?i)) es = longest_common_prefix (path p) es"
    proof -
      have "path (path p ! ?i) = take (length es) (path p)" using path_prefix [OF p i(1)] False by simp
      moreover have "longest_common_prefix (take (length es) (path p)) es = longest_common_prefix (path p) es"
        using lcp_append [of es "take (length es) (path p)" "drop (length es) (path p)"] le length_path [OF p] by simp
      ultimately show ?thesis by simp
    qed
    then show ?thesis using True g i(2) find_fork_loop_last_common [OF _ es] by (simp add: FindFork_def)
  qed
qed

lemma common_loop_last_common:
  "index_ok a \<Longrightarrow> index_ok b \<Longrightarrow> iHeight a = iHeight b \<Longrightarrow>
   common_loop (Some a) (Some b) = (last_common (path a) (path b), last_common (path a) (path b))"
proof (induction arbitrary: b rule: index_ok.induct)
  case (genesis p)
  then have b: "pprev b = None" by (auto elim: index_ok.cases)
  show ?case using genesis(1) b lcp_prefix [of "[p]" "[]"]
    by (simp add: common_loop.simps [of "Some p"] common_loop.simps [of None] path.simps [of p] path.simps [of b])
next
  case (child p q)
  then obtain r where r: "pprev b = Some r" "index_ok r" "iHeight b = Suc (iHeight r)"
    by (auto elim: index_ok.cases)
  show ?case
  proof (cases "p = b")
    case True
    then show ?thesis using lcp_prefix [of "path b" "[]"] by (simp add: common_loop.simps [of "Some b"])
  next
    case False
    have "longest_common_prefix (path p) (path b) = longest_common_prefix (path q) (path r)"
      using lcp_snoc2 [of "path q" "path r" p b] False child r length_path [of q] length_path [of r]
      by (simp add: path.simps [of p] path.simps [of b])
    then show ?thesis using False child r by (simp add: common_loop.simps [of "Some p"])
  qed
qed

theorem LastCommonAncestor_last_common:
  assumes a: "index_ok a" and b: "index_ok b"
  shows "LastCommonAncestor a b = Inr (last_common (path a) (path b))"
proof -
  consider "iHeight a = iHeight b" | "iHeight b < iHeight a" | "iHeight a < iHeight b" by linarith
  then show ?thesis
  proof cases
    case 1
    then show ?thesis using common_loop_last_common [OF a b] by (simp add: LastCommonAncestor_def)
  next
    case 2
    then have i: "iHeight b \<le> iHeight a" by simp
    note g = GetAncestor_path [OF a i]
    have "path (path a ! iHeight b) = take (Suc (iHeight b)) (path a)" using path_prefix [OF a i] by simp
    then have "longest_common_prefix (path (path a ! iHeight b)) (path b) = longest_common_prefix (path a) (path b)"
      using lcp_append [of "path b" "take (Suc (iHeight b)) (path a)" "drop (Suc (iHeight b)) (path a)"]
        2 length_path [OF a] length_path [OF b] by simp
    then show ?thesis using 2 g common_loop_last_common [of "path a ! iHeight b" b] b
      by (simp add: LastCommonAncestor_def)
  next
    case 3
    then have i: "iHeight a \<le> iHeight b" by simp
    note g = GetAncestor_path [OF b i]
    have "path (path b ! iHeight a) = take (Suc (iHeight a)) (path b)" using path_prefix [OF b i] by simp
    then have "longest_common_prefix (path (path b ! iHeight a)) (path a) = longest_common_prefix (path b) (path a)"
      using lcp_append [of "path a" "take (Suc (iHeight a)) (path b)" "drop (Suc (iHeight a)) (path b)"]
        3 length_path [OF a] length_path [OF b] by simp
    then show ?thesis using 3 g common_loop_last_common [of a "path b ! iHeight a"] a
      by (simp add: LastCommonAncestor_def lcp_sym)
  qed
qed

section \<open>Locators\<close>

text \<open>The heights of a locator: eleven entries at the first step size, which then doubles.\<close>

function locator_heights :: "nat \<Rightarrow> nat \<Rightarrow> nat \<Rightarrow> nat list" where
  "locator_heights n nStep h =
     (if h = 0 \<or> nStep = 0 then [h]
      else h # locator_heights (Suc n) (if Suc n > 10 then 2 * nStep else nStep) (h - nStep))"
  by pat_completeness auto
termination
  by (relation "measure (\<lambda>(n, s, h). h)") auto

declare locator_heights.simps [simp del]

lemma locator_heights_le: "h' \<in> set (locator_heights n s h) \<Longrightarrow> h' \<le> h"
proof (induction n s h rule: locator_heights.induct)
  case (1 n s h)
  show ?case
  proof (cases "h = 0 \<or> s = 0")
    case True
    then show ?thesis using 1(2) by (auto simp: locator_heights.simps [of n s h])
  next
    case False
    then have "h' = h \<or> h' \<in> set (locator_heights (Suc n) (if Suc n > 10 then 2 * s else s) (h - s))"
      using 1(2) by (auto simp: locator_heights.simps [of n s h])
    then show ?thesis using 1(1) [OF False] by auto
  qed
qed

lemma locator_heights_zero: "0 < s \<Longrightarrow> 0 \<in> set (locator_heights n s h)"
proof (induction n s h rule: locator_heights.induct)
  case (1 n s h)
  show ?case
  proof (cases "h = 0")
    case True
    then show ?thesis by (simp add: locator_heights.simps [of n s 0])
  next
    case False
    then have "0 \<in> set (locator_heights (Suc n) (if Suc n > 10 then 2 * s else s) (h - s))"
      using 1(1) 1(2) by simp
    then show ?thesis using False 1(2) by (subst locator_heights.simps) simp
  qed
qed

lemma length_locator_doubling:
  "10 \<le> n \<Longrightarrow> h \<le> s * (2 ^ k - 1) \<Longrightarrow> length (locator_heights n s h) \<le> Suc k"
proof (induction k arbitrary: n s h)
  case 0
  then show ?case by (simp add: locator_heights.simps)
next
  case (Suc k)
  have "h - s \<le> 2 * s * (2 ^ k - 1)"
    using Suc.prems(2) by (simp add: algebra_simps diff_mult_distrib2)
  then have "length (locator_heights (Suc n) (2 * s) (h - s)) \<le> Suc k" using Suc by simp
  then show ?case using Suc.prems(1) by (simp add: locator_heights.simps [of n s h])
qed

lemma length_locator_first:
  "h < 2 ^ k \<Longrightarrow> n \<le> 10 \<Longrightarrow> length (locator_heights n 1 h) \<le> Suc k + (10 - n)"
proof (induction "10 - n" arbitrary: n h)
  case 0
  then show ?case using length_locator_doubling [of 10 h 1 k] by simp
next
  case (Suc m)
  have n: "\<not> 9 < n" using Suc.hyps(2) by simp
  have "h - 1 < 2 ^ k" using Suc.prems(1) by simp
  then have "length (locator_heights (Suc n) 1 (h - 1)) \<le> Suc k + (10 - Suc n)"
    using Suc.hyps(1) [of "Suc n" "h - 1"] Suc.hyps(2) Suc.prems(2) by simp
  moreover have "length (locator_heights n 1 h) \<le> Suc (length (locator_heights (Suc n) 1 (h - 1)))"
    using n by (simp add: locator_heights.simps [of n _ h])
  ultimately show ?case using Suc.hyps(2) by linarith
qed

lemma locator_next_active:
  assumes es: "active es" and p: "index_ok p"
  shows "locator_next (map Some es) s p = Inr (Some (path p ! (iHeight p - s)))"
proof (cases "p \<in> set es")
  case False
  then show ?thesis using Contains_active [OF es p] GetAncestor_path [OF p, of "iHeight p - s"]
    by (simp add: locator_next_def Let_def)
next
  case True
  note m = active_mem [OF es True]
  have "iHeight p < length es" using length_path [OF p] m by simp
  then have "iHeight p - s < length es" "path p ! (iHeight p - s) = es ! (iHeight p - s)" using m by simp_all
  then show ?thesis using True Contains_active [OF es p] by (simp add: locator_next_def Let_def chain_at_def)
qed

lemma locator_loop_heights:
  "index_ok p \<Longrightarrow> active es \<Longrightarrow> 0 < s \<Longrightarrow>
   locator_loop (map Some es) s vHave (Some p) =
     Some (Inr (vHave @ map (\<lambda>h. blockHash (path p ! h)) (locator_heights (length vHave) s (iHeight p))))"
proof (induction "iHeight p" arbitrary: p s vHave rule: less_induct)
  case less
  have top: "path p ! iHeight p = p" using path_height [OF less.prems(1)] last_path [of p]
    by (metis last_in_set path_not_Nil)
  show ?case
  proof (cases "iHeight p = 0")
    case True
    then show ?thesis using top by (simp add: locator_loop.simps [of _ _ _ "Some p"] locator_heights.simps)
  next
    case False
    let ?h = "iHeight p - s" and ?v = "vHave @ [blockHash p]"
    let ?s = "if length ?v > 10 then 2 * s else s"
    define q where "q = path p ! ?h"
    have q: "index_ok q" "iHeight q = ?h" "path q = take (Suc ?h) (path p)"
      using path_prefix [OF less.prems(1), of ?h] by (simp_all add: q_def)
    have "locator_loop (map Some es) s vHave (Some p) = locator_loop (map Some es) ?s ?v (Some q)"
      using False locator_next_active [OF less.prems(2,1)]
      by (subst locator_loop.simps) (simp add: Let_def q_def)
    also have "\<dots> = Some (Inr (?v @ map (\<lambda>h. blockHash (path q ! h)) (locator_heights (length ?v) ?s (iHeight q))))"
      by (rule less.hyps) (use q False less.prems in auto)
    also have "map (\<lambda>h. blockHash (path q ! h)) (locator_heights (length ?v) ?s (iHeight q)) =
        map (\<lambda>h. blockHash (path p ! h)) (locator_heights (length ?v) ?s ?h)"
      unfolding q(2) by (rule list.map_cong0) (use q(3) locator_heights_le in fastforce)
    finally show ?thesis using False less.prems(3) top
      by (simp add: locator_heights.simps [of "length vHave" s "iHeight p"])
  qed
qed

theorem GetLocator_heights:
  assumes "index_ok p" "active es"
  shows "GetLocator (map Some es) (Some p) =
    Some (Inr (map (\<lambda>h. blockHash (path p ! h)) (locator_heights 0 1 (iHeight p))))"
  using locator_loop_heights [OF assms, of 1 "[]"] by (simp add: GetLocator_def)

lemma locator_heights_sorted: "0 < s \<Longrightarrow> sorted_wrt (>) (locator_heights n s h)"
proof (induction n s h rule: locator_heights.induct)
  case (1 n s h)
  show ?case
  proof (cases "h = 0")
    case True
    then show ?thesis by (simp add: locator_heights.simps [of n s 0])
  next
    case False
    let ?t = "locator_heights (Suc n) (if Suc n > 10 then 2 * s else s) (h - s)"
    have "sorted_wrt (>) ?t" using 1(1) 1(2) False by simp
    moreover have "\<forall>x\<in>set ?t. x < h" using locator_heights_le False 1(2) by fastforce
    ultimately show ?thesis using False 1(2) by (subst locator_heights.simps) simp
  qed
qed

lemma prefix_nth: "prefix xs ys \<Longrightarrow> i < length xs \<Longrightarrow> xs ! i = ys ! i"
  by (auto simp: prefix_def nth_append)

lemma common_height:
  assumes p: "index_ok p" and es: "active es" and h: "h \<le> iHeight p"
  shows "path p ! h \<in> set es \<longleftrightarrow> h < length (longest_common_prefix (path p) es)"
proof
  assume m: "path p ! h \<in> set es"
  have q: "path (path p ! h) = take (Suc h) (path p)" "iHeight (path p ! h) = h" using path_prefix [OF p h] by auto
  then have "take (Suc h) (path p) = take (Suc h) es" using active_mem [OF es m] by simp
  then have "prefix (take (Suc h) (path p)) es" by (metis take_is_prefix)
  then have "prefix (take (Suc h) (path p)) (longest_common_prefix (path p) es)"
    by (rule longest_common_prefix_max_prefix [OF take_is_prefix])
  then have "length (take (Suc h) (path p)) \<le> length (longest_common_prefix (path p) es)" by (rule prefix_length_le)
  then show "h < length (longest_common_prefix (path p) es)" using length_path [OF p] h by simp
next
  assume l: "h < length (longest_common_prefix (path p) es)"
  have "longest_common_prefix (path p) es ! h = path p ! h"
    using longest_common_prefix_prefix1 [of "path p" es] l by (metis nth_append prefix_def)
  moreover have "set (longest_common_prefix (path p) es) \<subseteq> set es"
    using longest_common_prefix_prefix2 [of "path p" es] by (rule set_mono_prefix)
  ultimately show "path p ! h \<in> set es" using l by (metis nth_mem subsetD)
qed

text \<open>
  A node that receives the locator of a peer finds the highest entry of the locator that is on its
  own active chain.  Its index maps a hash to the entry with that hash, if it knows it.
\<close>

lemma fork_in_index_find:
  assumes es: "active es" and p: "index_ok p"
    and idx: "\<forall>q\<in>set es. mapBlockIndex (blockHash q) = Some q"
    and known: "\<forall>q\<in>set (path p). mapBlockIndex (blockHash q) \<in> {None, Some q}"
  shows "\<forall>h\<in>set hs. h \<le> iHeight p \<Longrightarrow>
    fork_in_index mapBlockIndex (map Some es) (map (\<lambda>h. blockHash (path p ! h)) hs) =
      (case find (\<lambda>h. h < length (longest_common_prefix (path p) es)) hs of
         None \<Rightarrow> Genesis (map Some es) | Some h \<Rightarrow> Some (path p ! h))"
proof (induction hs)
  case (Cons h hs)
  let ?q = "path p ! h"
  have h: "h \<le> iHeight p" using Cons.prems by simp
  have q: "index_ok ?q" "?q \<in> set (path p)" using path_prefix [OF p h] length_path [OF p] h by auto
  note c = Contains_active [OF es q(1)] common_height [OF p es h]
  show ?case
  proof (cases "?q \<in> set es")
    case True
    then show ?thesis using idx c by simp
  next
    case False
    then show ?thesis using known q(2) c Cons by auto
  qed
qed simp

theorem fork_found_by_locator:
  assumes es: "active es" and p: "index_ok p" and es': "active es'"
    and idx: "\<forall>q\<in>set es. mapBlockIndex (blockHash q) = Some q"
    and known: "\<forall>q\<in>set (path p). mapBlockIndex (blockHash q) \<in> {None, Some q}"
    and fork: "last_common (path p) es = Some f"
  shows "\<exists>hs h. GetLocator (map Some es') (Some p) = Some (Inr hs) \<and>
    find (\<lambda>h. h \<le> iHeight f) (locator_heights 0 1 (iHeight p)) = Some h \<and> h < length es \<and>
    fork_in_index mapBlockIndex (map Some es) hs = Some (es ! h)"
proof -
  let ?c = "longest_common_prefix (path p) es" and ?l = "locator_heights 0 1 (iHeight p)"
  have c: "?c \<noteq> []" and f: "f = last ?c" using fork by (auto simp: Let_def split: if_splits)
  have pc: "prefix ?c (path p)" "prefix ?c es" by (rule longest_common_prefix_prefix1 longest_common_prefix_prefix2)+
  have fe: "f = es ! (length ?c - 1)" "length ?c \<le> length es"
    using prefix_nth [OF pc(2), of "length ?c - 1"] c f prefix_length_le [OF pc(2)]
    by (simp_all add: last_conv_nth)
  have "length ?c - 1 < length es" using c fe(2) by (cases ?c) auto
  then have hf: "iHeight f = length ?c - 1" using active_nth [OF es, of "length ?c - 1"] fe(1) by simp
  have eq: "(\<lambda>h. h < length ?c) = (\<lambda>h. h \<le> iHeight f)" using c hf by (cases ?c) (auto simp: fun_eq_iff)
  have "find (\<lambda>h. h \<le> iHeight f) ?l \<noteq> None"
    using locator_heights_zero [of 1 0 "iHeight p"] by (auto simp: find_None_iff)
  then obtain h where h0: "find (\<lambda>h. h \<le> iHeight f) ?l = Some h" by blast
  then have h: "find (\<lambda>h. h \<le> iHeight f) ?l = Some h" "h \<le> iHeight f" "h \<in> set ?l"
    by (auto simp: find_Some_iff)
  have hl: "h < length ?c" using h(2) hf c by (cases ?c) auto
  have e: "path p ! h = es ! h" using prefix_nth [OF pc(1) hl] prefix_nth [OF pc(2) hl] by simp
  have "fork_in_index mapBlockIndex (map Some es) (map (\<lambda>h. blockHash (path p ! h)) ?l) = Some (es ! h)"
    using fork_in_index_find [OF es p idx known, of ?l] locator_heights_le h(1) e unfolding eq by simp
  moreover have "h < length es" using hl fe(2) by simp
  ultimately show ?thesis using GetLocator_heights [OF p es'] h(1) by blast
qed

section \<open>Votes and times of the last blocks\<close>

abbreviation recent :: "nat \<Rightarrow> CBlockIndex \<Rightarrow> CBlockIndex list" where
  "recent n p \<equiv> take n (rev (path p))"

lemma majority_loop_count:
  "nFound \<le> nRequired \<Longrightarrow> majority_loop n v nRequired nFound (Some p) \<ge> nRequired \<longleftrightarrow>
     nRequired \<le> nFound + length (filter (\<lambda>q. v \<le> iVersion q) (recent n p))"
proof (induction n arbitrary: p nFound)
  case (Suc n)
  show ?case
  proof (cases "nFound < nRequired")
    case False
    then show ?thesis using Suc.prems by simp
  next
    case True
    then show ?thesis
    proof (cases "pprev p")
      case None
      then show ?thesis using True Suc.prems by (cases n) (auto simp: path.simps [of p])
    next
      case (Some q)
      then show ?thesis using True Suc.IH [of nFound q] Suc.IH [of "nFound + 1" q]
        by (auto simp: path.simps [of p])
    qed
  qed
qed simp

theorem IsSuperMajority_count:
  "IsSuperMajority n v (Some p) nRequired \<longleftrightarrow>
     nRequired \<le> length (filter (\<lambda>q. v \<le> iVersion q) (recent n p))"
  using majority_loop_count [of 0 nRequired n v p] by (simp add: IsSuperMajority_def)

lemma past_times_recent: "past_times n p = map (\<lambda>q. unat (iTime q)) (recent n p)"
proof (induction n arbitrary: p)
  case (Suc n)
  then show ?case by (cases "pprev p") (simp_all add: path.simps [of p])
qed simp

lemma median_of_sorted:
  assumes "sorted ts" "ts \<noteq> []"
  shows "ts ! (length ts div 2) \<in> set ts" (is ?in)
    and "length ts < 2 * length (filter (\<lambda>t. t \<le> ts ! (length ts div 2)) ts)" (is ?low)
    and "length ts \<le> 2 * length (filter (\<lambda>t. ts ! (length ts div 2) \<le> t) ts)" (is ?high)
proof -
  let ?k = "length ts div 2" let ?m = "ts ! ?k"
  have k: "?k < length ts" using assms(2) by simp
  show ?in using k by simp
  have "filter (\<lambda>t. t \<le> ?m) (take (Suc ?k) ts) = take (Suc ?k) ts"
    using k by (auto simp: filter_id_conv in_set_conv_nth intro!: sorted_nth_mono [OF assms(1)])
  then have "Suc ?k \<le> length (filter (\<lambda>t. t \<le> ?m) (take (Suc ?k) ts @ drop (Suc ?k) ts))"
    using k unfolding filter_append by simp
  then show ?low by simp
  have "filter (\<lambda>t. ?m \<le> t) (drop ?k ts) = drop ?k ts"
    using k by (auto simp: filter_id_conv in_set_conv_nth intro!: sorted_nth_mono [OF assms(1)])
  then have "length ts - ?k \<le> length (filter (\<lambda>t. ?m \<le> t) (take ?k ts @ drop ?k ts))"
    using k unfolding filter_append by simp
  then show ?high by simp
qed

theorem GetMedianTimePast_median:
  defines "ts \<equiv> \<lambda>p. map (\<lambda>q. unat (iTime q)) (recent nMedianTimeSpan p)"
  shows "GetMedianTimePast p \<in> set (ts p)"
    and "length (ts p) < 2 * length (filter (\<lambda>t. t \<le> GetMedianTimePast p) (ts p))"
    and "length (ts p) \<le> 2 * length (filter (\<lambda>t. GetMedianTimePast p \<le> t) (ts p))"
proof -
  let ?s = "sort (rev (past_times nMedianTimeSpan p))"
  have t: "past_times nMedianTimeSpan p = ts p" by (simp add: ts_def past_times_recent)
  have ne: "?s \<noteq> []"
  proof -
    have "ts p \<noteq> []" by (simp add: ts_def nMedianTimeSpan_def)
    then have "set ?s \<noteq> {}" by (simp add: t)
    then show ?thesis by (metis list.set(1))
  qed
  have g: "GetMedianTimePast p = ?s ! (length ?s div 2)" by (simp add: GetMedianTimePast_def Let_def)
  show "GetMedianTimePast p \<in> set (ts p)"
    using median_of_sorted(1) [of ?s] ne unfolding g by (simp add: t)
  have f: "length (filter P ?s) = length (filter P (ts p))" for P
    by (simp add: t filter_sort rev_filter [symmetric])
  show "length (ts p) < 2 * length (filter (\<lambda>t. t \<le> GetMedianTimePast p) (ts p))"
    using median_of_sorted(2) [of ?s] ne unfolding g f [symmetric] by (simp add: t)
  show "length (ts p) \<le> 2 * length (filter (\<lambda>t. GetMedianTimePast p \<le> t) (ts p))"
    using median_of_sorted(3) [of ?s] ne unfolding g f [symmetric] by (simp add: t)
qed


lemma last_locator_heights: "0 < s \<Longrightarrow> last (locator_heights n s h) = 0"
proof (induction n s h rule: locator_heights.induct)
  case (1 n s h)
  have ne: "locator_heights n' s' h' \<noteq> []" for n' s' h' by (subst locator_heights.simps) simp
  show ?case
  proof (cases "h = 0")
    case True
    then show ?thesis by (simp add: locator_heights.simps [of n s 0])
  next
    case False
    then have "last (locator_heights (Suc n) (if Suc n > 10 then 2 * s else s) (h - s)) = 0" using 1 by simp
    then show ?thesis using False 1(2) ne by (subst locator_heights.simps) simp
  qed
qed

theorem GetLocator_short:
  assumes "index_ok p" "active es" "iHeight p < 2 ^ k"
  shows "\<exists>hs. GetLocator (map Some es) (Some p) = Some (Inr hs) \<and> hd hs = blockHash p \<and>
    last hs = blockHash (hd (path p)) \<and> length hs \<le> k + 11"
proof -
  let ?l = "locator_heights 0 1 (iHeight p)" and ?f = "\<lambda>h. blockHash (path p ! h)"
  have ne: "?l \<noteq> []" "hd ?l = iHeight p" by (subst locator_heights.simps; simp)+
  have "last ?l = 0" by (rule last_locator_heights) simp
  moreover have "path p ! iHeight p = p" using path_nth [OF assms(1), of "iHeight p"] by simp
  moreover have "length ?l \<le> k + 11" using length_locator_first [OF assms(3), of 0] by simp
  ultimately show ?thesis using GetLocator_heights [OF assms(1,2)] ne
    by (simp add: hd_map last_map hd_conv_nth)
qed

end
