(* ===== verification/Pow.thy ===== *)
theory Pow
  imports Chain
begin

text \<open>
  Proof of work (pow.cpp, GetBlockTrust in chain.cpp) with the consensus parameters of chainparams.cpp
  that the block checks use.  The 256-bit values are words; ArithUint and Uint256 show that the limb
  operators compute the word operations, so +, *, shifts and comparison of uint256 are those of the
  word, division throws for a zero divisor, and only the compact format is taken from the limbs.
\<close>

section \<open>Consensus parameters\<close>

record CChainParams =
  bnProofOfWorkLimit :: uint256
  nLastPOWBlock :: nat
  nTargetSpacing :: nat
  fSkipProofOfWorkCheck :: bool
  nMaxReorganizationDepth :: int
  nEnforceBlockUpgradeMajority :: nat
  nRejectBlockOutdatedMajority :: nat
  nToCheckBlockUpgradeMajority :: nat

definition mainParams :: CChainParams where
  "mainParams = \<lparr>bnProofOfWorkLimit = drop_bit 20 (NOT 0), nLastPOWBlock = 100000, nTargetSpacing = 60,
     fSkipProofOfWorkCheck = False, nMaxReorganizationDepth = 1000, nEnforceBlockUpgradeMajority = 750,
     nRejectBlockOutdatedMajority = 950, nToCheckBlockUpgradeMajority = 1000\<rparr>"

definition testNetParams :: CChainParams where
  "testNetParams = mainParams\<lparr>bnProofOfWorkLimit := drop_bit 1 (NOT 0), nLastPOWBlock := 250,
     fSkipProofOfWorkCheck := True, nEnforceBlockUpgradeMajority := 51, nRejectBlockOutdatedMajority := 75,
     nToCheckBlockUpgradeMajority := 100\<rparr>"

section \<open>256-bit values\<close>

definition limbs_of_word :: "uint256 \<Rightarrow> limbs" where
  "limbs_of_word w = map (\<lambda>i. ucast (drop_bit (32 * i) w)) [0..<8]"

definition uint_div :: "uint256 \<Rightarrow> uint256 \<Rightarrow> fault + uint256" where
  "uint_div a b = (if b = 0 then Inl Throw else Inr (a div b))"

definition compact_target :: "32 word \<Rightarrow> uint256 \<times> bool \<times> bool" where
  "compact_target nBits = (case SetCompact nBits of (pn, fNegative, fOverflow) \<Rightarrow> (word_of_limbs pn, fNegative, fOverflow))"

definition target_compact :: "uint256 \<Rightarrow> fault + 32 word" where
  "target_compact w = GetCompact False (limbs_of_word w)"

section \<open>Proof of work\<close>

definition CheckProofOfWork :: "CChainParams \<Rightarrow> uint256 \<Rightarrow> 32 word \<Rightarrow> bool" where
  "CheckProofOfWork params hash nBits =
     (if fSkipProofOfWorkCheck params then True
      else case compact_target nBits of (bnTarget, fNegative, fOverflow) \<Rightarrow>
        if fNegative \<or> bnTarget = 0 \<or> fOverflow \<or> bnTarget > bnProofOfWorkLimit params then False
        else if hash > bnTarget then False
        else True)"

definition GetBlockProof :: "32 word \<Rightarrow> fault + uint256" where
  "GetBlockProof nBits =
     (case compact_target nBits of (bnTarget, fNegative, fOverflow) \<Rightarrow>
        if fNegative \<or> fOverflow \<or> bnTarget = 0 then Inr 0
        else bindE (uint_div (NOT bnTarget) (bnTarget + 1)) (\<lambda>q. Inr (q + 1)))"

definition GetBlockTrust :: "32 word \<Rightarrow> bool \<Rightarrow> fault + uint256" where
  "GetBlockTrust nBits proofOfStake =
     (let bnTarget = fst (compact_target nBits) in
      if bnTarget \<le> 0 then Inr 0
      else if proofOfStake then uint_div (push_bit 256 1) (bnTarget + 1)
      else bindE (uint_div (drop_bit 20 (NOT 0)) (bnTarget + 1)) (\<lambda>bnPoWTrust.
        Inr (if bnPoWTrust > 1 then bnPoWTrust else 1)))"

section \<open>The required target\<close>

text \<open>
  A product with a signed 64-bit factor takes the operator for 32-bit factors; a quotient by one takes
  the conversion to uint256.
\<close>

definition mul_int :: "uint256 \<Rightarrow> int \<Rightarrow> uint256" where
  "mul_int a n = a * ucast (of_int n :: 32 word)"

definition PastBlocksMin :: nat where "PastBlocksMin = 24"
definition PastBlocksMax :: nat where "PastBlocksMax = 24"

record DarkGravity =
  CountBlocks :: nat
  PastDifficultyAverage :: uint256
  PastDifficultyAveragePrev :: uint256
  nActualTimespan :: int
  LastBlockTime :: int

definition gravity_read :: "CBlockIndex \<Rightarrow> DarkGravity \<Rightarrow> fault + DarkGravity" where
  "gravity_read b d =
     (let n = CountBlocks d + 1 in
      bindE (if n \<le> PastBlocksMin then
               bindE (if n = 1 then Inr (fst (compact_target (iBits b)))
                      else uint_div (mul_int (PastDifficultyAveragePrev d) (int n) + fst (compact_target (iBits b)))
                             (of_nat (n + 1)))
                 (\<lambda>a. Inr (d\<lparr>CountBlocks := n, PastDifficultyAverage := a, PastDifficultyAveragePrev := a\<rparr>))
             else Inr (d\<lparr>CountBlocks := n\<rparr>)) (\<lambda>d.
      let t = uint (iTime b) in
      Inr (d\<lparr>nActualTimespan := nActualTimespan d + (if LastBlockTime d > 0 then LastBlockTime d - t else 0),
             LastBlockTime := t\<rparr>)))"

text \<open>The first argument counts the rounds left until i exceeds PastBlocksMax.\<close>

fun gravity_loop :: "nat \<Rightarrow> CBlockIndex \<Rightarrow> DarkGravity \<Rightarrow> fault + DarkGravity" where
  "gravity_loop 0 b d = Inr d"
| "gravity_loop (Suc n) b d =
     (if iHeight b > 0 then
        bindE (gravity_read b d) (\<lambda>d. case pprev b of None \<Rightarrow> Inr d | Some q \<Rightarrow> gravity_loop n q d)
      else Inr d)"

definition stake_target :: "CBlockIndex \<Rightarrow> fault + uint256" where
  "stake_target pindexLast =
     (let bnTargetLimit = drop_bit 24 (NOT 0); nTargetSpacing = 60; nTargetTimespan = 60 * 40 in
      bindE (if iHeight pindexLast \<noteq> 0 then
               (case pprev pindexLast of
                  None \<Rightarrow> Inl Abort
                | Some q \<Rightarrow> Inr (uint (iTime pindexLast) - uint (iTime q)))
             else Inr 0) (\<lambda>nActualSpacing.
      let nActualSpacing = (if nActualSpacing < 0 then 1 else nActualSpacing);
          nInterval = nTargetTimespan div nTargetSpacing;
          bnNew = mul_int (fst (compact_target (iBits pindexLast)))
            ((nInterval - 1) * nTargetSpacing + nActualSpacing + nActualSpacing) in
      bindE (uint_div bnNew (of_int ((nInterval + 1) * nTargetSpacing))) (\<lambda>bnNew.
        Inr (if bnNew \<le> 0 \<or> bnNew > bnTargetLimit then bnTargetLimit else bnNew))))"

definition hold_timespan :: "int \<Rightarrow> int \<Rightarrow> int" where
  "hold_timespan t nTargetTimespan =
     (let t = (if t < nTargetTimespan div 3 then nTargetTimespan div 3 else t)
      in if t > nTargetTimespan * 3 then nTargetTimespan * 3 else t)"

definition work_target :: "CChainParams \<Rightarrow> CBlockIndex \<Rightarrow> fault + uint256" where
  "work_target params pindexLast =
     bindE (gravity_loop PastBlocksMax pindexLast
       \<lparr>CountBlocks = 0, PastDifficultyAverage = 0, PastDifficultyAveragePrev = 0, nActualTimespan = 0, LastBlockTime = 0\<rparr>)
     (\<lambda>d. let nTargetTimespan = int (CountBlocks d * nTargetSpacing params);
              t = hold_timespan (nActualTimespan d) nTargetTimespan in
      bindE (uint_div (mul_int (PastDifficultyAverage d) t) (of_int nTargetTimespan)) (\<lambda>bnNew.
        Inr (if bnNew > bnProofOfWorkLimit params then bnProofOfWorkLimit params else bnNew)))"

definition GetNextWorkRequired :: "CChainParams \<Rightarrow> CBlockIndex option \<Rightarrow> fault + 32 word" where
  "GetNextWorkRequired params pindexLast =
     (case pindexLast of
        None \<Rightarrow> target_compact (bnProofOfWorkLimit params)
      | Some p \<Rightarrow>
          if iHeight p = 0 \<or> iHeight p < PastBlocksMin then target_compact (bnProofOfWorkLimit params)
          else if iHeight p > nLastPOWBlock params then bindE (stake_target p) target_compact
          else bindE (work_target params p) target_compact)"

section \<open>Targets\<close>

lemma length_limbs_of_word [simp]: "length (limbs_of_word w) = 8"
  by (simp add: limbs_of_word_def)

lemma limbs_val_of_word [simp]: "limbs_val (limbs_of_word w) = unat w"
proof (rule bit_eqI)
  fix n :: nat
  show "bit (limbs_val (limbs_of_word w)) n \<longleftrightarrow> bit (unat w) n"
  proof (cases "n < 256")
    case True
    then have "n div 32 < 8" by (simp add: div_less_iff_less_mult)
    then show ?thesis using True
      by (simp add: bit_limbs_val limbs_of_word_def bit_unsigned_iff bit_ucast_iff bit_drop_bit_eq)
  next
    case False
    then show ?thesis by (auto simp: bit_limbs_val bit_unsigned_iff dest: bit_imp_le_length)
  qed
qed

text \<open>The number an encoding stands for.\<close>

abbreviation compact_nat :: "32 word \<Rightarrow> nat" where
  "compact_nat c \<equiv> compact_value (compact_exp c) (compact_man c)"

lemma compact_target_value:
  "unat (fst (compact_target c)) = compact_nat c mod 2 ^ 256"
  "fst (snd (compact_target c)) \<longleftrightarrow> compact_nat c \<noteq> 0 \<and> odd (unat c div 2 ^ 23)"
  "snd (snd (compact_target c)) \<longleftrightarrow> 2 ^ 256 \<le> compact_nat c"
  using SetCompact_value [of c] by (cases "SetCompact c"; simp add: compact_target_def unat_word_of_limbs)+

lemma compact_not_all_ones: "compact_nat c mod 2 ^ 256 + 1 < 2 ^ 256"
proof (cases "compact_exp c \<le> 3")
  case True
  have "compact_nat c \<le> compact_man c" using True by (simp add: compact_value_def)
  also have "\<dots> < 2 ^ 23" by (simp add: compact_man_def)
  finally show ?thesis by simp
next
  case False
  then obtain k where k: "compact_exp c - 3 = Suc k" by (metis Suc_diff_Suc not_le)
  have "even (compact_nat c mod 2 ^ 256)"
    by (rule dvd_mod) (use False in \<open>simp_all add: compact_value_def k\<close>)
  moreover have "compact_nat c mod 2 ^ 256 < 2 ^ 256" by simp
  moreover have "odd ((2 :: nat) ^ 256 - 1)" by simp
  ultimately have ne: "compact_nat c mod 2 ^ 256 \<noteq> 2 ^ 256 - 1" by metis
  have next_less: "x < N \<Longrightarrow> x \<noteq> N - 1 \<Longrightarrow> x + 1 < N" for x N :: nat by linarith
  show ?thesis by (rule next_less [OF mod_less_divisor ne]) simp
qed

lemma unat_target_plus_1: "unat (fst (compact_target c) + 1) = compact_nat c mod 2 ^ 256 + 1"
  using compact_not_all_ones [of c] compact_target_value(1) [of c]
  by (simp add: unat_word_ariths)

lemma word_le_unat: "(a :: uint256) \<le> b \<longleftrightarrow> unat a \<le> unat b"
  by (rule word_le_nat_alt)

theorem CheckProofOfWork_iff:
  "CheckProofOfWork params hash nBits \<longleftrightarrow> fSkipProofOfWorkCheck params \<or>
     (\<not> odd (unat nBits div 2 ^ 23) \<and> 0 < compact_nat nBits \<and>
      compact_nat nBits \<le> unat (bnProofOfWorkLimit params) \<and> unat hash \<le> compact_nat nBits)"
proof -
  obtain t neg ovf where s: "compact_target nBits = (t, neg, ovf)" by (cases "compact_target nBits") auto
  note v = compact_target_value [of nBits, unfolded s fst_conv snd_conv]
  have lim: "unat (bnProofOfWorkLimit params) < 2 ^ 256"
    by (rule order.strict_trans2 [OF unsigned_less]) simp
  show ?thesis
  proof (cases ovf)
    case True
    then show ?thesis using v(3) lim by (simp add: CheckProofOfWork_def s)
  next
    case False
    then have t: "unat t = compact_nat nBits" using v(1,3) by simp
    then have z: "t = 0 \<longleftrightarrow> compact_nat nBits = 0" by (simp add: word_unat_eq_iff)
    show ?thesis using False v(2) t z
      by (auto simp: CheckProofOfWork_def s word_less_nat_alt not_less)
  qed
qed

theorem GetBlockProof_value:
  "\<exists>q. GetBlockProof nBits = Inr q \<and>
     unat q = (if odd (unat nBits div 2 ^ 23) \<or> compact_nat nBits = 0 \<or> 2 ^ 256 \<le> compact_nat nBits then 0
               else 2 ^ 256 div (compact_nat nBits + 1))"
proof -
  obtain t neg ovf where s: "compact_target nBits = (t, neg, ovf)" by (cases "compact_target nBits") auto
  note v = compact_target_value [of nBits, unfolded s fst_conv snd_conv]
  show ?thesis
  proof (cases "neg \<or> ovf \<or> t = 0")
    case True
    have "compact_nat nBits = 0" if "t = 0" "\<not> ovf" using v(1,3) that by simp
    then show ?thesis using True v(2,3) by (auto simp: GetBlockProof_def s)
  next
    case False
    define n where "n = compact_nat nBits"
    have n: "n < 2 ^ 256" "unat t = n" using v(1,3) False by (auto simp: n_def)
    then have nz: "0 < n" using False by (auto simp: word_unat_eq_iff)
    have t1: "unat (t + 1) = n + 1" using unat_target_plus_1 [of nBits] n s by (simp add: n_def)
    have nt: "unat (NOT t) = 2 ^ 256 - 1 - n"
    proof -
      have "NOT t = -1 - t" by (simp add: not_eq_complement)
      moreover have "unat (-1 - t) = unat (-1 :: uint256) - unat t" by (rule unat_sub) simp
      moreover have "unat (-1 :: uint256) = 2 ^ 256 - 1"
        by (simp only: unsigned_minus_1_eq_mask) (simp add: mask_eq_exp_minus_1)
      ultimately show ?thesis using n(2) by simp
    qed
    define q where "q = NOT t div (t + 1)"
    have q: "unat q = (2 ^ 256 - 1 - n) div (n + 1)" by (simp add: q_def unat_div nt t1)
    have e: "(2 ^ 256 :: nat) = (2 ^ 256 - 1 - n) + (n + 1)" using n(1) by simp
    have sum: "2 ^ 256 div (n + 1) = unat q + 1" unfolding q by (subst e, rule div_add_self2) simp
    moreover have "unat q + 1 < 2 ^ 256"
    proof -
      have "(2 ^ 256 :: nat) div (n + 1) \<le> 2 ^ 256 div 2" using nz by (intro div_le_mono2) auto
      then show ?thesis using sum by simp
    qed
    ultimately have "unat (q + 1) = 2 ^ 256 div (n + 1)" by (simp add: unat_word_ariths)
    moreover have "t + 1 \<noteq> 0" using t1 by (auto simp: word_unat_eq_iff)
    moreover have "\<not> odd (unat nBits div 2 ^ 23)" using False v(2) nz n_def by blast
    ultimately show ?thesis using False n nz
      by (simp add: GetBlockProof_def s uint_div_def q_def n_def)
  qed
qed

theorem GetBlockTrust_value:
  "GetBlockTrust nBits True = Inr 0"
  "\<exists>q. GetBlockTrust nBits False = Inr q \<and>
     unat q = (let t = compact_nat nBits mod 2 ^ 256 in if t = 0 then 0 else max 1 ((2 ^ 236 - 1) div (t + 1)))"
proof -
  have z: "fst (compact_target nBits) + 1 \<noteq> 0"
    using unat_target_plus_1 [of nBits] by (auto simp: word_unat_eq_iff)
  have p: "push_bit 256 1 = (0 :: uint256)" by (rule bit_word_eqI) (simp only: bit_push_bit_iff, simp)
  then show "GetBlockTrust nBits True = Inr 0" using z unfolding GetBlockTrust_def Let_def p by (simp add: uint_div_def)
  define t where "t = fst (compact_target nBits)"
  have t: "unat t = compact_nat nBits mod 2 ^ 256" "unat (t + 1) = compact_nat nBits mod 2 ^ 256 + 1"
    using compact_target_value(1) [of nBits] unat_target_plus_1 [of nBits] by (simp_all only: t_def)
  have w: "unat (drop_bit 20 (NOT 0) :: uint256) = 2 ^ 236 - 1"
    by (simp add: mask_eq_exp_minus_1)
  define q where "q = (drop_bit 20 (NOT 0) :: uint256) div (t + 1)"
  have q: "unat q = (2 ^ 236 - 1) div (unat t + 1)" using t by (simp only: q_def unat_div w)
  have t0: "t = 0 \<longleftrightarrow> unat t = 0" by (simp add: word_unat_eq_iff)
  have "unat (if q > 1 then q else 1) = max 1 (unat q)"
    by (auto simp: word_less_nat_alt max_def)
  then show "\<exists>q. GetBlockTrust nBits False = Inr q \<and>
     unat q = (let t = compact_nat nBits mod 2 ^ 256 in if t = 0 then 0 else max 1 ((2 ^ 236 - 1) div (t + 1)))"
    using z q t0 unfolding GetBlockTrust_def Let_def t_def [symmetric] t(1) [symmetric]
    by (cases "t = 0") (auto simp: uint_div_def q_def)
qed

lemma target_compact_total: "\<exists>c. target_compact w = Inr c \<and>
    compact_nat c = unat w div 256 ^ (compact_exp c - 3) * 256 ^ (compact_exp c - 3) \<and>
    \<not> odd (unat c div 2 ^ 23) \<and> (w \<noteq> 0 \<longrightarrow> 2 ^ 15 \<le> compact_man c)"
  using GetCompact_value [OF length_limbs_of_word, of w] by (simp add: target_compact_def word_unat_eq_iff)

section \<open>The retarget without wrap-around\<close>

lemma mul_int_val:
  assumes "0 \<le> n" "n < 2 ^ 32" "unat a * nat n < 2 ^ 256"
  shows "unat (mul_int a n) = unat a * nat n"
proof -
  define m where "m = nat n"
  have m: "of_int n = (of_nat m :: 32 word)" "m < 2 ^ 32" using assms(1,2) by (auto simp: m_def)
  have "unat (of_nat m :: 32 word) = m" using m(2) by (simp only: unat_of_nat) simp
  then have "unat (ucast (of_int n :: 32 word) :: uint256) = nat n"
    using m by (simp add: unsigned_ucast_eq take_bit_nat_eq_self m_def [symmetric])
  then show ?thesis using assms(3) by (simp add: mul_int_def unat_word_ariths)
qed

lemma uint_div_val:
  assumes "0 < n" "n < 2 ^ 256"
  shows "uint_div a (of_nat n) = Inr (of_nat (unat a div n))"
proof -
  have u: "unat (of_nat n :: uint256) = n" using assms(2) by (simp only: unat_of_nat) simp
  then have "(of_nat n :: uint256) \<noteq> 0" using assms(1) by (auto simp: word_unat_eq_iff)
  moreover have "a div of_nat n = of_nat (unat a div n)"
  proof (rule unsigned_word_eqI)
    have "unat a div n < 2 ^ 256" using unsigned_less [of a, where ?'a = nat] by (rule le_less_trans [OF div_le_dividend, THEN order.strict_trans2]) simp
    then have "unat (of_nat (unat a div n) :: uint256) = unat a div n" by (simp only: unat_of_nat) simp
    then show "unat (a div of_nat n) = unat (of_nat (unat a div n) :: uint256)" using u by (simp add: unat_div)
  qed
  ultimately show ?thesis by (simp add: uint_div_def)
qed

text \<open>The average of the targets and the time span over the blocks read, newest first.\<close>

fun gravity_average :: "nat \<Rightarrow> nat \<Rightarrow> nat list \<Rightarrow> nat" where
  "gravity_average k avg [] = avg"
| "gravity_average k avg (t # ts) =
     gravity_average (k + 1) (if k = 0 then t else (avg * (k + 1) + t) div (k + 2)) ts"

fun gravity_span :: "int \<Rightarrow> int list \<Rightarrow> int" where
  "gravity_span last_time [] = 0"
| "gravity_span last_time (t # ts) = (if last_time > 0 then last_time - t else 0) + gravity_span t ts"

lemma gravity_span_telescopes:
  "0 < l \<Longrightarrow> \<forall>t\<in>set ts. 0 < t \<Longrightarrow> gravity_span l ts = l - last (l # ts)"
  by (induction ts arbitrary: l) auto

abbreviation block_target :: "CBlockIndex \<Rightarrow> nat" where
  "block_target b \<equiv> compact_nat (iBits b)"

lemma average_less: "a < B \<Longrightarrow> t < B \<Longrightarrow> (a * (k + 1) + t) div (k + 2) < (B :: nat)"
proof -
  assume "a < B" "t < B"
  then have "a \<le> B - 1" "t \<le> B - 1" "0 < B" by simp_all
  then have "a * (k + 1) \<le> (B - 1) * (k + 1)" by (intro mult_right_mono) auto
  then have "a * (k + 1) + t \<le> (B - 1) * (k + 2)" using \<open>t \<le> B - 1\<close> by simp
  then have "(a * (k + 1) + t) div (k + 2) \<le> (B - 1) * (k + 2) div (k + 2)" by (rule div_le_mono)
  also have "\<dots> = B - 1" by (rule nonzero_mult_div_cancel_right) simp
  finally show ?thesis using \<open>0 < B\<close> by simp
qed

lemma gravity_read_val:
  assumes k: "CountBlocks d = k" "k < 24" and a: "unat (PastDifficultyAveragePrev d) < 2 ^ 240"
    and t: "block_target b < 2 ^ 240"
  defines "a' \<equiv> if k = 0 then block_target b
    else (unat (PastDifficultyAveragePrev d) * (k + 1) + block_target b) div (k + 2)"
  shows "gravity_read b d = Inr \<lparr>CountBlocks = k + 1, PastDifficultyAverage = of_nat a',
      PastDifficultyAveragePrev = of_nat a',
      nActualTimespan = nActualTimespan d + (if LastBlockTime d > 0 then LastBlockTime d - uint (iTime b) else 0),
      LastBlockTime = uint (iTime b)\<rparr>" (is ?read)
    and "a' < 2 ^ 240"
proof -
  let ?a = "unat (PastDifficultyAveragePrev d)"
  show lt: "a' < 2 ^ 240" using average_less [OF a t, of k] t by (simp add: a'_def)
  have ut: "unat (fst (compact_target (iBits b))) = block_target b"
    using compact_target_value(1) [of "iBits b"] t by simp
  have ot: "fst (compact_target (iBits b)) = of_nat (block_target b)" by (simp only: ut [symmetric] of_nat_unat ucast_id)
  show ?read
  proof (cases "k = 0")
    case True
    then show ?thesis using k by (cases d) (simp add: gravity_read_def PastBlocksMin_def a'_def ot Let_def)
  next
    case False
    have "?a * (k + 1) \<le> 2 ^ 240 * 24" using a k(2) by (intro mult_mono) auto
    then have m: "unat (mul_int (PastDifficultyAveragePrev d) (int (k + 1))) = ?a * (k + 1)"
    proof -
      have "unat (mul_int (PastDifficultyAveragePrev d) (int (k + 1))) =
          ?a * nat (int (k + 1))"
      proof (rule mul_int_val)
        have "(2 :: nat) ^ 240 * 24 < 2 ^ 256" by simp
        then show "?a * nat (int (k + 1)) < 2 ^ 256"
          using \<open>?a * (k + 1) \<le> 2 ^ 240 * 24\<close> unfolding nat_int by (rule le_less_trans [rotated])
      qed (use k(2) in simp_all)
      then show ?thesis unfolding nat_int .
    qed
    have "?a * (k + 1) + block_target b < 2 ^ 256" using \<open>?a * (k + 1) \<le> 2 ^ 240 * 24\<close> t by simp
    then have s: "unat (mul_int (PastDifficultyAveragePrev d) (int (k + 1)) + fst (compact_target (iBits b))) =
        ?a * (k + 1) + block_target b" using m ut by (simp add: unat_word_ariths)
    have "uint_div (mul_int (PastDifficultyAveragePrev d) (int (k + 1)) + fst (compact_target (iBits b)))
        (of_nat (k + 2)) = Inr (of_nat a')"
      using k(2) False s by (subst uint_div_val) (simp_all add: a'_def)
    then show ?thesis using k False by (cases d) (simp add: gravity_read_def PastBlocksMin_def Let_def)
  qed
qed

lemma gravity_loop_val:
  assumes "index_ok b" "n \<le> iHeight b" "CountBlocks d = k" "k + n \<le> 24"
    and "k \<noteq> 0 \<Longrightarrow> PastDifficultyAverage d = of_nat a \<and> PastDifficultyAveragePrev d = of_nat a \<and> a < 2 ^ 240"
    and "k = 0 \<Longrightarrow> PastDifficultyAverage d = of_nat a \<and> PastDifficultyAveragePrev d = 0 \<and> a < 2 ^ 240"
    and "\<forall>q\<in>set (recent n b). block_target q < 2 ^ 240"
  shows "\<exists>d'. gravity_loop n b d = Inr d' \<and> CountBlocks d' = k + n \<and>
    unat (PastDifficultyAverage d') = gravity_average k a (map block_target (recent n b)) \<and>
    gravity_average k a (map block_target (recent n b)) < 2 ^ 240 \<and>
    nActualTimespan d' = nActualTimespan d + gravity_span (LastBlockTime d) (map (\<lambda>q. uint (iTime q)) (recent n b))"
  using assms
proof (induction n arbitrary: b d k a)
  case 0
  then show ?case by (cases "k = 0") (simp_all only:, simp_all add: unat_of_nat)
next
  case (Suc n)
  obtain q where q: "pprev b = Some q" "index_ok q" "iHeight b = Suc (iHeight q)"
    using Suc.prems(1,2) by (auto elim: index_ok.cases)
  have rec: "recent (Suc n) b = b # recent n q" by (simp add: path.simps [of b] q(1))
  have b: "block_target b < 2 ^ 240" "\<forall>q\<in>set (recent n q). block_target q < 2 ^ 240"
    using Suc.prems(7) unfolding rec by simp_all
  have ua: "unat (of_nat a :: uint256) = a" using Suc.prems(5,6) by (cases "k = 0") (simp_all only: unat_of_nat, simp_all)
  have a: "unat (PastDifficultyAveragePrev d) < 2 ^ 240" using Suc.prems(5,6) ua by (cases "k = 0") simp_all
  define a' where "a' = (if k = 0 then block_target b
    else (unat (PastDifficultyAveragePrev d) * (k + 1) + block_target b) div (k + 2))"
  have k: "k < 24" using Suc.prems(4) by simp
  note r = gravity_read_val [OF Suc.prems(3) k a b(1), folded a'_def]
  define d1 where "d1 = \<lparr>CountBlocks = k + 1, PastDifficultyAverage = of_nat a',
      PastDifficultyAveragePrev = of_nat a',
      nActualTimespan = nActualTimespan d + (if LastBlockTime d > 0 then LastBlockTime d - uint (iTime b) else 0),
      LastBlockTime = uint (iTime b)\<rparr>"
  have step: "gravity_loop (Suc n) b d = gravity_loop n q d1"
    using r(1) [folded d1_def] q by simp
  have a'_eq: "a' = (if k = 0 then block_target b else (a * (k + 1) + block_target b) div (k + 2))"
    using Suc.prems(5) ua by (simp add: a'_def)
  have "\<exists>d'. gravity_loop n q d1 = Inr d' \<and> CountBlocks d' = (k + 1) + n \<and>
      unat (PastDifficultyAverage d') = gravity_average (k + 1) a' (map block_target (recent n q)) \<and>
      gravity_average (k + 1) a' (map block_target (recent n q)) < 2 ^ 240 \<and>
      nActualTimespan d' = nActualTimespan d1 + gravity_span (LastBlockTime d1) (map (\<lambda>q. uint (iTime q)) (recent n q))"
    by (rule Suc.IH) (use q Suc.prems(2,4) b(2) r(2) in \<open>auto simp: d1_def\<close>)
  then show ?case unfolding step rec using a'_eq by (auto simp: d1_def)
qed

text \<open>The retarget on natural numbers: the average target times the time span, held within a factor of three.\<close>

definition clamp_span :: "int \<Rightarrow> nat \<Rightarrow> nat" where
  "clamp_span t T = nat (min (int T * 3) (max (int T div 3) t))"

definition ideal_work_target :: "CChainParams \<Rightarrow> CBlockIndex \<Rightarrow> nat" where
  "ideal_work_target params p =
     (let rs = recent 24 p; T = 24 * nTargetSpacing params;
          span = uint (iTime p) - uint (iTime (last rs)) in
      min (unat (bnProofOfWorkLimit params)) (gravity_average 0 0 (map block_target rs) * clamp_span span T div T))"

theorem work_target_ideal:
  assumes p: "index_ok p" "24 \<le> iHeight p"
    and spacing: "0 < nTargetSpacing params" "nTargetSpacing params \<le> 900"
    and rs: "\<forall>q\<in>set (recent 24 p). iTime q \<noteq> 0 \<and> block_target q < 2 ^ 240"
  shows "work_target params p = Inr (of_nat (ideal_work_target params p))"
proof -
  let ?d = "\<lparr>CountBlocks = 0, PastDifficultyAverage = 0, PastDifficultyAveragePrev = 0, nActualTimespan = 0, LastBlockTime = 0\<rparr>"
  let ?rs = "recent 24 p" and ?T = "24 * nTargetSpacing params"
  define A where "A = gravity_average 0 0 (map block_target ?rs)"
  obtain d where d: "gravity_loop 24 p ?d = Inr d" "CountBlocks d = 24" "unat (PastDifficultyAverage d) = A" "A < 2 ^ 240"
      "nActualTimespan d = gravity_span 0 (map (\<lambda>q. uint (iTime q)) ?rs)"
    using gravity_loop_val [OF p, of ?d 0 0] rs by (auto simp: A_def)
  have ne: "?rs = p # recent 23 (the (pprev p))"
  proof -
    obtain q where "pprev p = Some q" using p by (cases rule: index_ok.cases) auto
    then show ?thesis by (simp add: path.simps [of p])
  qed
  have pos: "\<forall>t\<in>set (map (\<lambda>q. uint (iTime q)) ?rs). 0 < t"
    using rs uint_ge_0 by (auto simp: less_le word_uint_eq_iff)
  have "gravity_span 0 (map (\<lambda>q. uint (iTime q)) ?rs) = uint (iTime p) - uint (iTime (last ?rs))"
    using pos gravity_span_telescopes [of "uint (iTime p)" "map (\<lambda>q. uint (iTime q)) (recent 23 (the (pprev p)))"]
    unfolding ne by (simp add: last_map)
  then have span: "nActualTimespan d = uint (iTime p) - uint (iTime (last ?rs))" using d(5) by simp
  define s where "s = clamp_span (nActualTimespan d) ?T"
  have T: "0 < ?T" "?T \<le> 21600" using spacing by simp_all
  have s: "s \<le> 64800" using T(2) by (auto simp: s_def clamp_span_def)
  have c: "hold_timespan (nActualTimespan d) (int ?T) = int s"
    using T(1) by (auto simp: s_def clamp_span_def hold_timespan_def Let_def)
  have "A * s \<le> 2 ^ 240 * 64800" using d(4) s by (intro mult_mono) auto
  also have "\<dots> < 2 ^ 256" by simp
  finally have As: "A * s < 2 ^ 256" .
  have m: "unat (mul_int (PastDifficultyAverage d) (int s)) = A * s"
    using mul_int_val [of "int s" "PastDifficultyAverage d"] d(3) As s by simp
  have q: "uint_div (mul_int (PastDifficultyAverage d) (int s)) (of_nat ?T) = Inr (of_nat (A * s div ?T))"
    using uint_div_val [of ?T] T m by simp
  have "A * s div ?T < 2 ^ 256" by (rule le_less_trans [OF div_le_dividend As])
  then have u: "unat (of_nat (A * s div ?T) :: uint256) = A * s div ?T" by (simp only: unat_of_nat) simp
  have lim: "of_nat (unat (bnProofOfWorkLimit params)) = bnProofOfWorkLimit params" by simp
  have "work_target params p = Inr (if of_nat (A * s div ?T) > bnProofOfWorkLimit params
      then bnProofOfWorkLimit params else of_nat (A * s div ?T))"
    unfolding work_target_def PastBlocksMax_def Let_def d(1) bindE_Inr d(2) c of_int_of_nat_eq q ..
  also have "\<dots> = Inr (of_nat (min (unat (bnProofOfWorkLimit params)) (A * s div ?T)))"
    using u by (auto simp: min_def word_less_nat_alt)
  finally show ?thesis by (simp add: ideal_work_target_def Let_def A_def s_def span)
qed

definition ideal_stake_target :: "CBlockIndex \<Rightarrow> CBlockIndex \<Rightarrow> nat" where
  "ideal_stake_target p q =
     (let s = uint (iTime p) - uint (iTime q); s = nat (if s < 0 then 1 else s);
          t = block_target p * (2340 + 2 * s) div 2460
      in if t = 0 \<or> t > 2 ^ 232 - 1 then 2 ^ 232 - 1 else t)"

theorem stake_target_ideal:
  assumes p: "pprev p = Some q" "0 < iHeight p" "block_target p < 2 ^ 232"
    and s: "uint (iTime p) - uint (iTime q) < 2 ^ 22"
  shows "stake_target p = Inr (of_nat (ideal_stake_target p q))"
proof -
  define s where "s = nat (if uint (iTime p) - uint (iTime q) < 0 then 1 else uint (iTime p) - uint (iTime q))"
  have s': "(if uint (iTime p) - uint (iTime q) < 0 then 1 else uint (iTime p) - uint (iTime q)) = int s"
    by (simp add: s_def)
  have sl: "s < 2 ^ 22" using s by (auto simp: s_def)
  let ?t = "fst (compact_target (iBits p))" and ?B = "block_target p * (2340 + 2 * s)"
  have t: "unat ?t = block_target p" using compact_target_value(1) [of "iBits p"] p(3) by simp
  have "?B \<le> 2 ^ 232 * 2 ^ 24" using p(3) sl by (intro mult_mono) auto
  moreover have "block_target p * (2340 + 2 * s) \<noteq> 2 ^ 232 * 2 ^ 24"
  proof -
    have "?B \<le> (2 ^ 232 - 1) * 2 ^ 24" using p(3) sl by (intro mult_mono) auto
    then show ?thesis by simp
  qed
  ultimately have B: "?B < 2 ^ 256" by simp
  have m: "unat (mul_int ?t (int (2340 + 2 * s))) = ?B"
  proof -
    have "unat ?t * nat (int (2340 + 2 * s)) < 2 ^ 256" using B unfolding t nat_int .
    then show ?thesis using mul_int_val [of "int (2340 + 2 * s)" ?t] sl unfolding t nat_int by simp
  qed
  have "uint_div (mul_int ?t (int (2340 + 2 * s))) (of_nat 2460) = Inr (of_nat (?B div 2460))"
    unfolding m [symmetric] by (rule uint_div_val) simp_all
  moreover have "int (2340 + 2 * s) = 2 * int s + 2340" by simp
  ultimately have q: "uint_div (mul_int ?t (2 * int s + 2340)) 2460 = Inr (of_nat (?B div 2460))" by (simp add: add.commute)
  have "?B div 2460 < 2 ^ 256" by (rule le_less_trans [OF div_le_dividend B])
  then have u: "unat (of_nat (?B div 2460) :: uint256) = ?B div 2460" by (simp only: unat_of_nat) simp
  have lim: "unat (drop_bit 24 (NOT 0) :: uint256) = 2 ^ 232 - 1" by (simp add: mask_eq_exp_minus_1)
  define L :: uint256 where "L = drop_bit 24 (NOT 0)"
  have uL: "unat L = 2 ^ 232 - 1" using lim by (simp only: L_def)
  define b :: uint256 where "b = of_nat (?B div 2460)"
  have ub: "unat b = ?B div 2460" using u by (simp only: b_def)
  have "stake_target p = Inr (if b \<le> 0 \<or> b > L then L else b)"
    using q p(1,2) unfolding stake_target_def Let_def L_def [symmetric] b_def [symmetric] by (simp add: s' [simplified])
  also have "(if b \<le> 0 \<or> b > L then L else b) = of_nat (unat (if b \<le> 0 \<or> b > L then L else b))" by simp
  also have "unat (if b \<le> 0 \<or> b > L then L else b) = ideal_stake_target p q"
    unfolding ideal_stake_target_def Let_def s' s_def [symmetric] nat_int
    using ub uL by (auto simp: word_less_nat_alt word_le_nat_alt)
  finally show ?thesis .
qed


text \<open>The encoding of a target decodes to the target cut after its leading bytes.\<close>

definition encodes :: "32 word \<Rightarrow> nat \<Rightarrow> bool" where
  "encodes c t \<longleftrightarrow> \<not> odd (unat c div 2 ^ 23) \<and> (t \<noteq> 0 \<longrightarrow> 2 ^ 15 \<le> compact_man c) \<and>
     compact_nat c = t div 256 ^ (compact_exp c - 3) * 256 ^ (compact_exp c - 3)"

lemma target_compact_encodes: "\<exists>c. target_compact w = Inr c \<and> encodes c (unat w)"
  using target_compact_total [of w] by (auto simp: encodes_def word_unat_eq_iff)

lemma encodes_le: "encodes c t \<Longrightarrow> compact_nat c \<le> t"
  by (simp add: encodes_def)

theorem GetNextWorkRequired_ideal:
  assumes "index_ok p" "24 \<le> iHeight p" "iHeight p \<le> nLastPOWBlock params"
    and "0 < nTargetSpacing params" "nTargetSpacing params \<le> 900"
    and "\<forall>q\<in>set (recent 24 p). iTime q \<noteq> 0 \<and> block_target q < 2 ^ 240"
  shows "\<exists>c. GetNextWorkRequired params (Some p) = Inr c \<and> encodes c (ideal_work_target params p)"
proof -
  let ?T = "ideal_work_target params p"
  have "?T \<le> unat (bnProofOfWorkLimit params)" by (simp add: ideal_work_target_def Let_def)
  also have "\<dots> < 2 ^ 256" by (rule order.strict_trans2 [OF unsigned_less]) simp
  finally have u: "unat (of_nat ?T :: uint256) = ?T" by (simp only: unat_of_nat) simp
  obtain c where "target_compact (of_nat ?T) = Inr c" "encodes c ?T"
    using target_compact_encodes [of "of_nat ?T"] unfolding u by blast
  then show ?thesis using assms(2,3) work_target_ideal [OF assms(1,2,4,5,6)]
    by (simp add: GetNextWorkRequired_def PastBlocksMin_def)
qed

theorem GetNextWorkRequired_stake:
  assumes "pprev p = Some q" "24 \<le> iHeight p" "nLastPOWBlock params < iHeight p"
    and "block_target p < 2 ^ 232" "uint (iTime p) - uint (iTime q) < 2 ^ 22"
  shows "\<exists>c. GetNextWorkRequired params (Some p) = Inr c \<and> encodes c (ideal_stake_target p q)"
proof -
  let ?T = "ideal_stake_target p q"
  have "?T \<le> 2 ^ 232 - 1" by (simp add: ideal_stake_target_def Let_def)
  then have u: "unat (of_nat ?T :: uint256) = ?T" by (simp only: unat_of_nat) simp
  obtain c where "target_compact (of_nat ?T) = Inr c" "encodes c ?T"
    using target_compact_encodes [of "of_nat ?T"] unfolding u by blast
  then show ?thesis using assms(2,3) stake_target_ideal [OF assms(1) _ assms(4,5)]
    by (simp add: GetNextWorkRequired_def PastBlocksMin_def)
qed

lemma uint_div_then:
  "b \<noteq> 0 \<Longrightarrow> (\<And>q. P (f q)) \<Longrightarrow> \<exists>t. bindE (uint_div a b) (\<lambda>q. Inr (f q)) = Inr t \<and> P t"
  by (simp add: uint_div_def)

lemma gravity_read_total: "CountBlocks d < 24 \<Longrightarrow> \<exists>d'. gravity_read b d = Inr d' \<and> CountBlocks d' = CountBlocks d + 1"
proof -
  assume k: "CountBlocks d < 24"
  have "unat (of_nat (CountBlocks d + 2) :: uint256) = CountBlocks d + 2"
    using k by (simp only: unat_of_nat) simp
  then have "(of_nat (CountBlocks d + 2) :: uint256) \<noteq> 0" by (auto simp: word_unat_eq_iff)
  then show ?thesis using k
    by (auto simp: gravity_read_def Let_def PastBlocksMin_def uint_div_def)
qed

lemma gravity_loop_total:
  "n + CountBlocks d \<le> 24 \<Longrightarrow> \<exists>d'. gravity_loop n b d = Inr d' \<and> CountBlocks d' \<le> 24 \<and> (0 < n \<and> 0 < iHeight b \<or> 0 < CountBlocks d \<longrightarrow> 0 < CountBlocks d')"
proof (induction n arbitrary: b d)
  case (Suc n)
  obtain d1 where d1: "gravity_read b d = Inr d1" "CountBlocks d1 = CountBlocks d + 1"
    using gravity_read_total [of d b] Suc.prems by auto
  show ?case
  proof (cases "pprev b")
    case None
    then show ?thesis using d1 Suc.prems by auto
  next
    case (Some q)
    then show ?thesis using d1 Suc.prems Suc.IH [of d1 q] by auto
  qed
qed auto

theorem GetNextWorkRequired_total:
  assumes p: "case last_index of None \<Rightarrow> True | Some p \<Rightarrow> index_ok p"
    and spacing: "0 < nTargetSpacing params" "nTargetSpacing params < 2 ^ 59"
  shows "\<exists>c. GetNextWorkRequired params last_index = Inr c \<and> \<not> odd (unat c div 2 ^ 23) \<and>
    compact_nat c \<le> (case last_index of
      Some p \<Rightarrow> if max 23 (nLastPOWBlock params) < iHeight p then 2 ^ 232 - 1 else unat (bnProofOfWorkLimit params)
    | None \<Rightarrow> unat (bnProofOfWorkLimit params))"
proof -
  have enc: "\<exists>c. target_compact w = Inr c \<and> \<not> odd (unat c div 2 ^ 23) \<and> compact_nat c \<le> unat w" for w
    using target_compact_encodes [of w] encodes_le by (auto simp: encodes_def)
  show ?thesis
  proof (cases last_index)
    case None
    then show ?thesis using enc by (simp add: GetNextWorkRequired_def)
  next
    case (Some p)
    then have ok: "index_ok p" using p by simp
    consider "iHeight p < 24" | "24 \<le> iHeight p" "nLastPOWBlock params < iHeight p"
      | "24 \<le> iHeight p" "iHeight p \<le> nLastPOWBlock params" by linarith
    then show ?thesis
    proof cases
      case 1
      then show ?thesis using Some enc by (simp add: GetNextWorkRequired_def PastBlocksMin_def max_def)
    next
      case 2
      obtain q where q: "pprev p = Some q" using ok 2 by (cases rule: index_ok.cases) auto
      have "\<exists>t. stake_target p = Inr t \<and> unat t \<le> 2 ^ 232 - 1"
      proof -
        have "unat (mask 232 :: uint256) = 2 ^ 232 - 1" by (simp add: mask_eq_exp_minus_1)
        then have "\<exists>t. bindE (uint_div a 2460) (\<lambda>b. Inr (if b = 0 \<or> mask 232 < b then mask 232 else b)) =
            Inr t \<and> unat t \<le> 2 ^ 232 - 1" for a
          by (intro uint_div_then) (auto simp: word_less_nat_alt not_less)
        then show ?thesis using q 2 by (simp add: stake_target_def Let_def)
      qed
      then show ?thesis using Some 2 enc order_trans by (fastforce simp: GetNextWorkRequired_def PastBlocksMin_def)
    next
      case 3
      obtain d where d: "gravity_loop 24 p \<lparr>CountBlocks = 0, PastDifficultyAverage = 0,
          PastDifficultyAveragePrev = 0, nActualTimespan = 0, LastBlockTime = 0\<rparr> = Inr d"
          "CountBlocks d \<le> 24" "0 < CountBlocks d"
        using gravity_loop_total [of 24 "\<lparr>CountBlocks = 0, PastDifficultyAverage = 0,
          PastDifficultyAveragePrev = 0, nActualTimespan = 0, LastBlockTime = 0\<rparr>" p] 3 by auto
      have "CountBlocks d * nTargetSpacing params \<le> 24 * 2 ^ 59" using d(2) spacing(2) by (intro mult_mono) auto
      then have "unat (of_nat (CountBlocks d * nTargetSpacing params) :: uint256) = CountBlocks d * nTargetSpacing params"
        by (simp only: unat_of_nat) simp
      then have "(of_int (int (CountBlocks d * nTargetSpacing params)) :: uint256) \<noteq> 0"
        using d(3) spacing(1) by (simp only: of_int_of_nat_eq) (auto simp: word_unat_eq_iff)
      then have "\<exists>t. bindE (uint_div a (of_int (int (CountBlocks d * nTargetSpacing params))))
          (\<lambda>b. Inr (if b > bnProofOfWorkLimit params then bnProofOfWorkLimit params else b)) = Inr t \<and>
          unat t \<le> unat (bnProofOfWorkLimit params)" for a
        by (intro uint_div_then) (auto simp: word_less_nat_alt not_less)
      then obtain t where "work_target params p = Inr t" "unat t \<le> unat (bnProofOfWorkLimit params)"
        unfolding work_target_def PastBlocksMax_def Let_def d(1) bindE_Inr by blast
      then show ?thesis using Some 3 enc [of t] order_trans
        by (fastforce simp: GetNextWorkRequired_def PastBlocksMin_def)
    qed
  qed
qed

end
