(* ===== verification/Kernel.thy ===== *)
theory Kernel
  imports Pow "HOL-Library.Product_Lexorder"
begin

text \<open>
  The proof-of-stake kernel (kernel.cpp, the staked output of stakeinput.cpp) and AddToBlockIndex of
  main.cpp, which gives each new entry its stake modifier.  The modifier of the first block is the
  address of a string literal (uint64_t("stakemodifier")) and so a parameter.
\<close>

section \<open>Stake modifiers\<close>

definition MODIFIER_INTERVAL :: nat where "MODIFIER_INTERVAL = 60"
definition MODIFIER_INTERVAL_TESTNET :: nat where "MODIFIER_INTERVAL_TESTNET = 60"
definition MODIFIER_INTERVAL_RATIO :: nat where "MODIFIER_INTERVAL_RATIO = 3"
definition fTestNet :: bool where "fTestNet = False"

definition getIntervalVersion :: "bool \<Rightarrow> nat" where
  "getIntervalVersion testnet = (if testnet then MODIFIER_INTERVAL_TESTNET else MODIFIER_INTERVAL)"

definition GetStakeModifierSelectionIntervalSection :: "nat \<Rightarrow> fault + int" where
  "GetStakeModifierSelectionIntervalSection nSection =
     (if \<not> nSection < 64 then Inl Abort
      else Inr (int (getIntervalVersion fTestNet * 63 div (63 + (63 - nSection) * (MODIFIER_INTERVAL_RATIO - 1)))))"

fun interval_loop :: "nat list \<Rightarrow> int \<Rightarrow> fault + int" where
  "interval_loop [] nSelectionInterval = Inr nSelectionInterval"
| "interval_loop (n # ns) nSelectionInterval =
     bindE (GetStakeModifierSelectionIntervalSection n) (\<lambda>s. interval_loop ns (nSelectionInterval + s))"

definition GetStakeModifierSelectionInterval :: "fault + int" where
  "GetStakeModifierSelectionInterval = interval_loop [0..<64] 0"

definition GeneratedStakeModifier :: "CBlockIndex \<Rightarrow> bool" where
  "GeneratedStakeModifier p \<longleftrightarrow> iFlags p AND 4 \<noteq> 0"

definition GetStakeEntropyBit :: "uint256 \<Rightarrow> 32 word" where
  "GetStakeEntropyBit hash = ucast (ucast hash AND (1 :: 64 word))"

abbreviation block_time :: "CBlockIndex \<Rightarrow> int" where
  "block_time p \<equiv> uint (iTime p)"

text \<open>The entry whose modifier GetLastStakeModifier returns.\<close>

function last_modifier :: "CBlockIndex \<Rightarrow> CBlockIndex" where
  "last_modifier p = (case pprev p of
       None \<Rightarrow> p
     | Some q \<Rightarrow> if GeneratedStakeModifier p then p else last_modifier q)"
  by pat_completeness auto
termination
  by (relation "measure size") (auto simp: size_pprev)

declare last_modifier.simps [simp del]

definition GetLastStakeModifier :: "CBlockIndex option \<Rightarrow> (64 word \<times> int) option" where
  "GetLastStakeModifier pindex =
     (case pindex of
        None \<Rightarrow> None
      | Some p \<Rightarrow> let p = last_modifier p in
          if \<not> GeneratedStakeModifier p then None else Some (iStakeModifier p, block_time p))"

text \<open>The map of the selected blocks is only asked for its keys; uint64 is written in eight bytes.\<close>

definition put_word64 :: "64 word \<Rightarrow> bytes" where "put_word64 w = write_uint 8 (unat w)"

definition selection_hash :: "64 word \<Rightarrow> CBlockIndex \<Rightarrow> uint256" where
  "selection_hash nStakeModifierPrev p =
     (let hashSelection = Hash (put_uint256 (blockHash p) @ put_word64 nStakeModifierPrev)
      in if IsProofOfStake_index p then drop_bit 32 hashSelection else hashSelection)"

fun select_loop ::
  "(uint256 \<rightharpoonup> CBlockIndex) \<Rightarrow> (uint256 \<rightharpoonup> CBlockIndex) \<Rightarrow> int \<Rightarrow> 64 word \<Rightarrow> (int \<times> uint256) list \<Rightarrow>
   (uint256 \<times> CBlockIndex) option \<Rightarrow> (uint256 \<times> CBlockIndex) option option" where
  "select_loop mapBlockIndex mapSelected stop prev [] best = Some best"
| "select_loop mapBlockIndex mapSelected stop prev (item # items) best =
     (case mapBlockIndex (snd item) of
        None \<Rightarrow> None
      | Some p \<Rightarrow>
          if best \<noteq> None \<and> block_time p > stop then Some best
          else if mapSelected (blockHash p) \<noteq> None
          then select_loop mapBlockIndex mapSelected stop prev items best
          else let h = selection_hash prev p in
            select_loop mapBlockIndex mapSelected stop prev items
              (case best of None \<Rightarrow> Some (h, p) | Some (hashBest, q) \<Rightarrow> if h < hashBest then Some (h, p) else best))"

text \<open>None when the function returns false.\<close>

definition SelectBlockFromCandidates ::
  "(uint256 \<rightharpoonup> CBlockIndex) \<Rightarrow> (int \<times> uint256) list \<Rightarrow> (uint256 \<rightharpoonup> CBlockIndex) \<Rightarrow> int \<Rightarrow> 64 word \<Rightarrow> CBlockIndex option" where
  "SelectBlockFromCandidates mapBlockIndex vSortedByTimestamp mapSelectedBlocks stop prev =
     (case select_loop mapBlockIndex mapSelectedBlocks stop prev vSortedByTimestamp None of
        Some (Some (h, p)) \<Rightarrow> Some p | _ \<Rightarrow> None)"

function collect_candidates :: "int \<Rightarrow> CBlockIndex \<Rightarrow> (int \<times> uint256) list" where
  "collect_candidates start p =
     (if block_time p \<ge> start
      then (block_time p, blockHash p) # (case pprev p of None \<Rightarrow> [] | Some q \<Rightarrow> collect_candidates start q)
      else [])"
  by pat_completeness auto
termination
  by (relation "measure (\<lambda>(s, p). size p)") (auto simp: size_pprev)

declare collect_candidates.simps [simp del]

text \<open>
  The rounds still to come, the number of the round, the end of the interval, the selected blocks and
  the bits of the new modifier; None inside when a block cannot be selected.
\<close>

fun modifier_rounds ::
  "(uint256 \<rightharpoonup> CBlockIndex) \<Rightarrow> (int \<times> uint256) list \<Rightarrow> 64 word \<Rightarrow> nat \<Rightarrow> nat \<Rightarrow> int \<Rightarrow>
   (uint256 \<rightharpoonup> CBlockIndex) \<Rightarrow> 64 word \<Rightarrow> fault + 64 word option" where
  "modifier_rounds mapBlockIndex vs prev 0 nRound stop mapSelected bits = Inr (Some bits)"
| "modifier_rounds mapBlockIndex vs prev (Suc n) nRound stop mapSelected bits =
     bindE (GetStakeModifierSelectionIntervalSection nRound) (\<lambda>s.
       let stop = stop + s in
       case SelectBlockFromCandidates mapBlockIndex vs mapSelected stop prev of
         None \<Rightarrow> Inr None
       | Some p \<Rightarrow>
           modifier_rounds mapBlockIndex vs prev n (nRound + 1) stop (mapSelected(blockHash p \<mapsto> p))
             (bits OR push_bit nRound (ucast (GetStakeEntropyBit (blockHash p)))))"

text \<open>The returned flag, the modifier and whether it was generated.\<close>

definition ComputeNextStakeModifier ::
  "64 word \<Rightarrow> (uint256 \<rightharpoonup> CBlockIndex) \<Rightarrow> CBlockIndex option \<Rightarrow> fault + bool \<times> 64 word \<times> bool" where
  "ComputeNextStakeModifier literal mapBlockIndex pindexPrev =
     (case pindexPrev of
        None \<Rightarrow> Inr (True, 0, True)
      | Some p \<Rightarrow>
          if iHeight p = 0 then Inr (True, literal, True)
          else case GetLastStakeModifier (Some p) of
            None \<Rightarrow> Inr (False, 0, False)
          | Some (nStakeModifier, nModifierTime) \<Rightarrow>
              let interval = int (getIntervalVersion fTestNet) in
              if nModifierTime div interval \<ge> block_time p div interval then Inr (True, nStakeModifier, False)
              else bindE GetStakeModifierSelectionInterval (\<lambda>nSelectionInterval.
                let start = block_time p div interval * interval - nSelectionInterval;
                    vs = sort (rev (collect_candidates start p)) in
                bindE (modifier_rounds mapBlockIndex vs nStakeModifier (min 64 (length vs)) 0 start Map.empty 0)
                  (\<lambda>r. Inr (case r of
                     None \<Rightarrow> (False, nStakeModifier, False)
                   | Some nStakeModifierNew \<Rightarrow> (True, nStakeModifierNew, True)))))"

definition GetStakeModifierChecksum :: "uint256 \<Rightarrow> CBlockIndex \<Rightarrow> fault + 32 word" where
  "GetStakeModifierChecksum hashGenesisBlock p =
     (if pprev p = None \<and> blockHash p \<noteq> hashGenesisBlock then Inl Abort
      else Inr (ucast (drop_bit (256 - 32)
        (Hash ((case pprev p of None \<Rightarrow> [] | Some q \<Rightarrow> put_word32 (iModifierChecksum q)) @
               put_word32 (iFlags p) @ put_uint256 (iHashProofOfStake p) @ put_word64 (iStakeModifier p))))))"

definition CheckStakeModifierCheckpoints :: "nat \<Rightarrow> 32 word \<Rightarrow> bool" where
  "CheckStakeModifierCheckpoints nHeight nStakeModifierChecksum \<longleftrightarrow>
     (if fTestNet then True else if nHeight = 0 then nStakeModifierChecksum = 0xfd11f4e7 else True)"

text \<open>The loop of GetKernelStakeModifier: None when it does not end, Some None when it returns false.\<close>

partial_function (option) kernel_loop ::
  "CChain \<Rightarrow> int \<Rightarrow> CBlockIndex \<Rightarrow> CBlockIndex option \<Rightarrow> nat \<Rightarrow> int \<Rightarrow> (CBlockIndex \<times> nat \<times> int) option option" where
  "kernel_loop chainActive until p pindexNext nStakeModifierHeight nStakeModifierTime =
     (if nStakeModifierTime < until then
        (if pindexNext = None then Some None
         else let p = the pindexNext; pindexNext = chain_at chainActive (int (iHeight p) + 1) in
           if GeneratedStakeModifier p
           then kernel_loop chainActive until p pindexNext (iHeight p) (block_time p)
           else kernel_loop chainActive until p pindexNext nStakeModifierHeight nStakeModifierTime)
      else Some (Some (p, nStakeModifierHeight, nStakeModifierTime)))"

definition GetKernelStakeModifier ::
  "(uint256 \<rightharpoonup> CBlockIndex) \<Rightarrow> CChain \<Rightarrow> uint256 \<Rightarrow> fault + (64 word \<times> nat \<times> int) option option" where
  "GetKernelStakeModifier mapBlockIndex chainActive hashBlockFrom =
     (case mapBlockIndex hashBlockFrom of
        None \<Rightarrow> Inr (Some None)
      | Some from \<Rightarrow>
          bindE GetStakeModifierSelectionInterval (\<lambda>interval. Inr
            (map_option (map_option (\<lambda>(p, h, t). (iStakeModifier p, h, t)))
              (kernel_loop chainActive (block_time from + interval) from
                (chain_at chainActive (int (iHeight from) + 1)) (iHeight from) (block_time from)))))"

section \<open>The stake target\<close>

definition uint256_of_i64 :: "int \<Rightarrow> uint256" where
  "uint256_of_i64 n = ucast (of_int n :: 64 word)"

definition stakeTargetHit :: "uint256 \<Rightarrow> int \<Rightarrow> uint256 \<Rightarrow> bool" where
  "stakeTargetHit hashProofOfStake nValueIn bnTargetPerCoinDay \<longleftrightarrow>
     (let bnCoinDayWeight = uint256_of_i64 nValueIn div 100
      in hashProofOfStake < bnCoinDayWeight * bnTargetPerCoinDay)"

definition stake_hash :: "bytes \<Rightarrow> 64 word \<Rightarrow> 32 word \<Rightarrow> 32 word \<Rightarrow> uint256" where
  "stake_hash ssUniqueID nStakeModifier nTimeBlockFrom nTimeTx =
     Hash (put_word64 nStakeModifier @ put_word32 nTimeBlockFrom @ ssUniqueID @ put_word32 nTimeTx)"

definition CheckStake :: "bytes \<Rightarrow> int \<Rightarrow> 64 word \<Rightarrow> uint256 \<Rightarrow> 32 word \<Rightarrow> 32 word \<Rightarrow> bool \<times> uint256" where
  "CheckStake ssUniqueID nValueIn nStakeModifier bnTarget nTimeBlockFrom nTimeTx =
     (let hashProofOfStake = stake_hash ssUniqueID nStakeModifier nTimeBlockFrom nTimeTx
      in (stakeTargetHit hashProofOfStake nValueIn bnTarget, hashProofOfStake))"

definition nStakeMinAge :: "32 word" where "nStakeMinAge = 15 * 60"
definition nHashDrift :: nat where "nHashDrift = 30"

text \<open>The loop of Stake over the times to try; the height of the active chain does not change in it.\<close>

fun stake_loop :: "(32 word \<Rightarrow> bool \<times> uint256) \<Rightarrow> 32 word \<Rightarrow> nat list \<Rightarrow> uint256 \<Rightarrow> bool \<times> 32 word \<times> uint256" where
  "stake_loop check nTimeTx [] hashProof = (False, nTimeTx, hashProof)"
| "stake_loop check nTimeTx (i # is) hashProof =
     (let nTryTime = nTimeTx + of_nat nHashDrift - of_nat i in
      case check nTryTime of (hit, hashProof) \<Rightarrow>
        if \<not> hit then stake_loop check nTimeTx is hashProof else (True, nTryTime, hashProof))"

text \<open>The answer, the time and the proof hash; the modifier is what the stake input gives.\<close>

definition Stake ::
  "bytes \<Rightarrow> int \<Rightarrow> 64 word option \<Rightarrow> 32 word \<Rightarrow> 32 word \<Rightarrow> 32 word \<Rightarrow> uint256 \<Rightarrow> bool \<times> 32 word \<times> uint256" where
  "Stake ssUniqueID nValueIn modifier nBits nTimeBlockFrom nTimeTx hashProof =
     (if nTimeTx < nTimeBlockFrom then (False, nTimeTx, hashProof)
      else if nTimeBlockFrom + nStakeMinAge > nTimeTx then (False, nTimeTx, hashProof)
      else case modifier of
        None \<Rightarrow> (False, nTimeTx, hashProof)
      | Some nStakeModifier \<Rightarrow>
          stake_loop (CheckStake ssUniqueID nValueIn nStakeModifier (fst (compact_target nBits)) nTimeBlockFrom)
            nTimeTx [0..<nHashDrift] hashProof)"

text \<open>CPivStake: the staked output is named by its position and the hash of its transaction.\<close>

definition stake_uniqueness :: "COutPoint \<Rightarrow> bytes" where
  "stake_uniqueness p = put_word32 (outn p) @ put_uint256 (outhash p)"

section \<open>New index entries\<close>

record BlockIndexState =
  mapBlockIndex :: "uint256 \<rightharpoonup> CBlockIndex"
  setStakeSeen :: "(COutPoint \<times> 32 word) set"
  mapProofOfStake :: "uint256 \<rightharpoonup> uint256"
  pindexBestHeader :: "CBlockIndex option"

text \<open>The entry built for a block from the fields the constructor copies and the computed ones.\<close>

definition new_entry ::
  "uint256 \<Rightarrow> CBlock \<Rightarrow> nat \<Rightarrow> 32 word \<Rightarrow> 64 word \<Rightarrow> 32 word \<Rightarrow> uint256 \<Rightarrow> uint256 \<Rightarrow> uint256 \<Rightarrow>
   CBlockIndex option \<Rightarrow> CBlockIndex option \<Rightarrow> CBlockIndex" where
  "new_entry hsh b height flags modifier checksum hashProof trust work prev skip =
     (let h = bheader b; stake = IsProofOfStake (vtx b) in
      CBlockIndex hsh (hVersion h) (hashMerkleRoot h) (hTime h) (hBits h) (hNonce h)
        (if hVersion h > 3 then nAccumulatorCheckpoint h else 0) height flags modifier checksum
        (if stake then prevout (vin (vtx b ! 1) ! 0) else COutPoint_null) (if stake then hTime h else 0)
        hashProof trust work prev skip)"

text \<open>The part of AddToBlockIndex for an entry whose predecessor is known; it returns mapProofOfStake too.\<close>

definition linked_entry ::
  "64 word \<Rightarrow> uint256 \<Rightarrow> BlockIndexState \<Rightarrow> uint256 \<Rightarrow> CBlock \<Rightarrow> CBlockIndex \<Rightarrow>
   fault + (uint256 \<rightharpoonup> uint256) \<times> CBlockIndex" where
  "linked_entry literal hashGenesisBlock st hsh b q =
     (let h = bheader b; stake = IsProofOfStake (vtx b); height = iHeight q + 1;
          flags = (if stake then 1 else 0) in
      bindE (BuildSkip (Some q) height) (\<lambda>skip.
      bindE (GetBlockTrust (hBits h) stake) (\<lambda>trust.
      let trust = iChainTrust q + trust;
          flags = (if GetStakeEntropyBit hsh \<noteq> 0 then flags OR 2 else flags);
          proofs = (if stake \<and> mapProofOfStake st hsh = None then (mapProofOfStake st)(hsh \<mapsto> 0) else mapProofOfStake st);
          hashProof = (if stake then the (proofs hsh) else 0) in
      bindE (ComputeNextStakeModifier literal
          ((mapBlockIndex st)(hsh \<mapsto> new_entry hsh b height flags 0 0 hashProof trust 0 (Some q) skip)) (Some q))
        (\<lambda>(_, modifier, generated).
      let flags = (if generated then flags OR 4 else flags) in
      bindE (GetStakeModifierChecksum hashGenesisBlock
          (new_entry hsh b height flags modifier 0 hashProof trust 0 (Some q) skip)) (\<lambda>checksum.
      bindE (GetBlockProof (hBits h)) (\<lambda>proof.
        Inr (proofs, new_entry hsh b height flags modifier checksum hashProof trust (iChainWork q + proof)
               (Some q) skip)))))))"

definition AddToBlockIndex ::
  "(bytes \<Rightarrow> uint256) \<Rightarrow> 64 word \<Rightarrow> uint256 \<Rightarrow> BlockIndexState \<Rightarrow> CBlock \<Rightarrow> fault + BlockIndexState \<times> CBlockIndex" where
  "AddToBlockIndex HashQuark literal hashGenesisBlock st b =
     (let h = bheader b; hsh = header_hash HashQuark h; stake = IsProofOfStake (vtx b) in
      case mapBlockIndex st hsh of Some p \<Rightarrow> Inr (st, p) | None \<Rightarrow>
      bindE (case mapBlockIndex st (hashPrevBlock h) of
          None \<Rightarrow>
            bindE (GetBlockProof (hBits h)) (\<lambda>proof. Inr (mapProofOfStake st,
              new_entry hsh b 0 (if stake then 1 else 0) 0 0 0 0 (0 + proof) None None))
        | Some q \<Rightarrow> linked_entry literal hashGenesisBlock st hsh b q)
        (\<lambda>(proofs, p). Inr (\<lparr>
           mapBlockIndex = (mapBlockIndex st)(hsh \<mapsto> p),
           setStakeSeen = (if stake then insert (prevout (vin (vtx b ! 1) ! 0), hTime h) (setStakeSeen st)
                           else setStakeSeen st),
           mapProofOfStake = proofs,
           pindexBestHeader = (case pindexBestHeader st of
              None \<Rightarrow> Some p
            | Some best \<Rightarrow> if iChainWork best < iChainWork p then Some p else Some best)\<rparr>, p)))"

definition GetBlockHeader :: "CBlockIndex \<Rightarrow> CBlockHeader" where
  "GetBlockHeader p = \<lparr>hVersion = iVersion p,
     hashPrevBlock = (case pprev p of None \<Rightarrow> hashPrevBlock CBlockHeader_null | Some q \<Rightarrow> blockHash q),
     hashMerkleRoot = iMerkleRoot p, hTime = iTime p, hBits = iBits p, hNonce = iNonce p,
     nAccumulatorCheckpoint = iCheckpoint p\<rparr>"

section \<open>The selected blocks\<close>

definition section_length :: "nat \<Rightarrow> int" where
  "section_length j = int (3780 div (63 + (63 - j) * 2))"

lemma section_value: "j < 64 \<Longrightarrow> GetStakeModifierSelectionIntervalSection j = Inr (section_length j)"
  by (simp add: GetStakeModifierSelectionIntervalSection_def section_length_def getIntervalVersion_def
    fTestNet_def MODIFIER_INTERVAL_def MODIFIER_INTERVAL_RATIO_def)

lemma interval_value: "GetStakeModifierSelectionInterval = Inr 2087"
  by (simp add: GetStakeModifierSelectionInterval_def upt_rec section_value section_length_def)

text \<open>
  The blocks a round may choose from, given the candidates not selected so far in order of time: the
  first one, and all up to the end of the interval.  The choice has the smallest selection hash.
\<close>

definition pool :: "int \<Rightarrow> CBlockIndex list \<Rightarrow> CBlockIndex list" where
  "pool stop cs = (case cs of [] \<Rightarrow> [] | c # cs \<Rightarrow> c # filter (\<lambda>q. block_time q \<le> stop) cs)"

definition chosen :: "64 word \<Rightarrow> int \<Rightarrow> CBlockIndex list \<Rightarrow> CBlockIndex \<Rightarrow> bool" where
  "chosen prev stop cs p \<longleftrightarrow>
     p \<in> set (pool stop cs) \<and> (\<forall>q\<in>set (pool stop cs). selection_hash prev p \<le> selection_hash prev q)"

abbreviation candidate :: "CBlockIndex \<Rightarrow> int \<times> uint256" where
  "candidate p \<equiv> (block_time p, blockHash p)"

abbreviation unselected :: "(uint256 \<rightharpoonup> CBlockIndex) \<Rightarrow> CBlockIndex list \<Rightarrow> CBlockIndex list" where
  "unselected sel cs \<equiv> filter (\<lambda>q. sel (blockHash q) = None) cs"

lemma select_loop_best:
  assumes "\<forall>q\<in>set cs. m (blockHash q) = Some q" "sorted (map block_time cs)"
  shows "\<exists>p'. select_loop m sel stop prev (map candidate cs) (Some (selection_hash prev p, p)) =
      Some (Some (selection_hash prev p', p')) \<and>
    p' \<in> insert p (set (filter (\<lambda>q. block_time q \<le> stop) (unselected sel cs))) \<and>
    (\<forall>q\<in>insert p (set (filter (\<lambda>q. block_time q \<le> stop) (unselected sel cs))).
       selection_hash prev p' \<le> selection_hash prev q)"
  using assms
proof (induction cs arbitrary: p)
  case (Cons c cs)
  have m: "m (blockHash c) = Some c" and prems: "\<forall>q\<in>set cs. m (blockHash q) = Some q" "sorted (map block_time cs)"
    using Cons.prems by auto
  note IH = Cons.IH [OF prems]
  consider "block_time c > stop" | "block_time c \<le> stop" "sel (blockHash c) \<noteq> None"
    | "block_time c \<le> stop" "sel (blockHash c) = None" by linarith
  then show ?case
  proof cases
    case 1
    then have "filter (\<lambda>q. block_time q \<le> stop) (unselected sel (c # cs)) = []"
      using Cons.prems(2) by (fastforce simp: filter_empty_conv)
    then show ?thesis using 1 m by simp
  next
    case 2
    then have "unselected sel (c # cs) = unselected sel cs" by auto
    then show ?thesis using 2 m IH [of p] by auto
  next
    case 3
    show ?thesis
    proof (cases "selection_hash prev c < selection_hash prev p")
      case True
      then show ?thesis using 3 m IH [of c] by (fastforce simp: Let_def)
    next
      case False
      then show ?thesis using 3 m IH [of p] by (fastforce simp: Let_def)
    qed
  qed
qed simp

lemma SelectBlockFromCandidates_chosen:
  assumes "\<forall>q\<in>set cs. m (blockHash q) = Some q" "sorted (map block_time cs)" "unselected sel cs \<noteq> []"
  shows "\<exists>p. SelectBlockFromCandidates m (map candidate cs) sel stop prev = Some p \<and>
    chosen prev stop (unselected sel cs) p"
proof -
  have "\<exists>p. select_loop m sel stop prev (map candidate cs) None = Some (Some (selection_hash prev p, p)) \<and>
    chosen prev stop (unselected sel cs) p"
    using assms
  proof (induction cs)
    case (Cons c cs)
    show ?case
    proof (cases "sel (blockHash c)")
      case None
      have "\<forall>q\<in>set cs. m (blockHash q) = Some q" "sorted (map block_time cs)" using Cons.prems(1,2) by auto
      from select_loop_best [OF this, of sel stop prev c] show ?thesis
        using None Cons.prems(1) by (auto simp: chosen_def pool_def Let_def)
    next
      case (Some x)
      then show ?thesis using Cons by simp
    qed
  qed simp
  then show ?thesis by (auto simp: SelectBlockFromCandidates_def)
qed

lemma length_filter_remove: "distinct xs \<Longrightarrow> p \<in> set (filter P xs) \<Longrightarrow>
  Suc (length (filter (\<lambda>q. P q \<and> q \<noteq> p) xs)) = length (filter P xs)"
proof (induction xs)
  case (Cons x xs)
  show ?case
  proof (cases "x = p")
    case True
    then have "filter (\<lambda>q. P q \<and> q \<noteq> p) xs = filter P xs" using Cons.prems(1) by (intro filter_cong) auto
    moreover have "P x" using True Cons.prems(2) unfolding set_filter by simp
    ultimately show ?thesis using True by simp
  next
    case False
    then have "p \<in> set (filter P xs)" using Cons.prems(2) by (auto split: if_splits)
    then show ?thesis using False Cons by simp
  qed
qed simp

lemma pool_subset: "set (pool stop cs) \<subseteq> set cs"
  by (cases cs) (auto simp: pool_def)

lemma modifier_rounds_chosen:
  assumes "\<forall>q\<in>set cs. m (blockHash q) = Some q" "sorted (map block_time cs)" "distinct cs"
    and "n \<le> length (unselected sel cs)" "r + n \<le> 64"
  shows "\<exists>ps b. modifier_rounds m (map candidate cs) prev n r stop sel bits = Inr (Some b) \<and> length ps = n \<and>
    (\<forall>i<n. chosen prev (stop + (\<Sum>j\<in>{r..r + i}. section_length j))
       (filter (\<lambda>q. q \<notin> set (take i ps)) (unselected sel cs)) (ps ! i)) \<and>
    (\<forall>i<64. bit b i \<longleftrightarrow> bit bits i \<or> r \<le> i \<and> i < r + n \<and> bit (blockHash (ps ! (i - r))) 0)"
  using assms(4,5)
proof (induction n arbitrary: r stop sel bits)
  case (Suc n)
  let ?stop = "stop + section_length r"
  have ne: "unselected sel cs \<noteq> []" using Suc.prems(1) by auto
  obtain p where p: "SelectBlockFromCandidates m (map candidate cs) sel ?stop prev = Some p"
      "chosen prev ?stop (unselected sel cs) p"
    using SelectBlockFromCandidates_chosen [OF assms(1,2) ne] by blast
  have pm: "p \<in> set (unselected sel cs)"
    using p(2) pool_subset [of ?stop "unselected sel cs"] unfolding chosen_def by blast
  let ?sel = "sel(blockHash p \<mapsto> p)"
  have inj: "blockHash q = blockHash p \<longleftrightarrow> q = p" if "q \<in> set cs" for q
    using that pm assms(1) by (metis filter_is_subset option.inject subsetD)
  have un: "unselected ?sel cs = filter (\<lambda>q. sel (blockHash q) = None \<and> q \<noteq> p) cs"
    using inj by (intro filter_cong) auto
  have len: "n \<le> length (unselected ?sel cs)"
    using Suc.prems(1) length_filter_remove [OF assms(3) pm] un by simp
  have r1: "r + 1 + n \<le> 64" using Suc.prems(2) by simp
  let ?bits = "bits OR push_bit r (ucast (GetStakeEntropyBit (blockHash p)))"
  obtain ps b where IH: "modifier_rounds m (map candidate cs) prev n (r + 1) ?stop ?sel ?bits = Inr (Some b)"
      "length ps = n"
      "\<forall>i<n. chosen prev (?stop + (\<Sum>j\<in>{r + 1..r + 1 + i}. section_length j))
         (filter (\<lambda>q. q \<notin> set (take i ps)) (unselected ?sel cs)) (ps ! i)"
      "\<forall>i<64. bit b i \<longleftrightarrow> bit ?bits i \<or> r + 1 \<le> i \<and> i < r + 1 + n \<and> bit (blockHash (ps ! (i - (r + 1)))) 0"
    using Suc.IH [OF len r1] by blast
  have step: "modifier_rounds m (map candidate cs) prev (Suc n) r stop sel bits = Inr (Some b)"
    using IH(1) p(1) section_value [of r] Suc.prems(2) by simp
  have ch: "chosen prev (stop + (\<Sum>j\<in>{r..r + i}. section_length j))
       (filter (\<lambda>q. q \<notin> set (take i (p # ps))) (unselected sel cs)) ((p # ps) ! i)" if "i < Suc n" for i
  proof (cases i)
    case 0
    then show ?thesis using p(2) by simp
  next
    case (Suc k)
    have "(\<Sum>j\<in>{r..r + i}. section_length j) = section_length r + (\<Sum>j\<in>{r + 1..r + 1 + k}. section_length j)"
      using Suc by (simp add: sum.atLeast_Suc_atMost)
    moreover have "filter (\<lambda>q. q \<notin> set (take i (p # ps))) (unselected sel cs) =
        filter (\<lambda>q. q \<notin> set (take k ps)) (unselected ?sel cs)"
      unfolding un using Suc by (auto intro: filter_cong)
    ultimately show ?thesis using IH(3) Suc that by (simp add: add.assoc)
  qed
  have e: "bit ?bits i \<longleftrightarrow> bit bits i \<or> i = r \<and> bit (blockHash p) 0" if "i < 64" for i
    using that by (auto simp: bit_or_iff bit_push_bit_iff GetStakeEntropyBit_def bit_ucast_iff bit_and_iff bit_1_iff)
  have "bit b i \<longleftrightarrow> bit bits i \<or> r \<le> i \<and> i < r + Suc n \<and> bit (blockHash ((p # ps) ! (i - r))) 0" if "i < 64" for i
  proof (cases "i = r")
    case True
    then show ?thesis using IH(4) e that by auto
  next
    case False
    then show ?thesis using IH(4) e that by (auto simp: nth_Cons' Suc_le_eq)
  qed
  then show ?case using step ch IH(2) by (intro exI [of _ "p # ps"] exI [of _ b]) auto
qed auto

text \<open>The candidates for the modifier of the block after p, in the order of time and hash.\<close>

definition modifier_start :: "CBlockIndex \<Rightarrow> int" where
  "modifier_start p = block_time p div 60 * 60 - 2087"

definition interval_blocks :: "CBlockIndex \<Rightarrow> CBlockIndex list" where
  "interval_blocks p = takeWhile (\<lambda>q. modifier_start p \<le> block_time q) (rev (path p))"

definition modifier_candidates :: "CBlockIndex \<Rightarrow> CBlockIndex list" where
  "modifier_candidates p = sort_key candidate (rev (interval_blocks p))"

lemma collect_candidates_path:
  "collect_candidates start p = map candidate (takeWhile (\<lambda>q. start \<le> block_time q) (rev (path p)))"
proof (induction start p rule: collect_candidates.induct)
  case (1 start p)
  then show ?case
    by (cases "pprev p") (simp_all add: collect_candidates.simps [of start p] path.simps [of p])
qed

lemma distinct_path: "index_ok p \<Longrightarrow> distinct (path p)"
proof (induction rule: index_ok.induct)
  case (child p q)
  have "p \<notin> set (path q)"
    using path_height [OF child(2)] child(3) by fastforce
  then show ?case using child by (simp add: path.simps [of p])
qed (simp add: path.simps)

lemma map_insort: "map f (insort_key f x xs) = insort (f x) (map f xs)"
  by (induction xs) auto

lemma map_sort: "map f (sort_key f xs) = sort (map f xs)"
  by (induction xs) (simp_all add: map_insort)

lemma last_modifier_generated:
  "index_ok p \<Longrightarrow> \<exists>q\<in>set (path p). GeneratedStakeModifier q \<Longrightarrow>
     GeneratedStakeModifier (last_modifier p) \<and> last_modifier p \<in> set (path p)"
proof (induction rule: index_ok.induct)
  case (genesis p)
  then show ?case by (simp add: last_modifier.simps [of p] path.simps [of p])
next
  case (child p q)
  then show ?case by (auto simp: last_modifier.simps [of p] path.simps [of p])
qed

theorem ComputeNextStakeModifier_selects:
  assumes p: "index_ok p" "0 < iHeight p" and m: "\<forall>q\<in>set (path p). m (blockHash q) = Some q"
    and gen: "\<exists>q\<in>set (path p). GeneratedStakeModifier q"
  defines "prev \<equiv> iStakeModifier (last_modifier p)" and "cs \<equiv> modifier_candidates p"
  shows "\<exists>b ps. ComputeNextStakeModifier literal m (Some p) =
      Inr (if block_time (last_modifier p) div 60 \<ge> block_time p div 60 then (True, prev, False) else (True, b, True)) \<and>
    length ps = min 64 (length cs) \<and>
    (\<forall>i<length ps. chosen prev (modifier_start p + (\<Sum>j\<le>i. section_length j))
       (filter (\<lambda>q. q \<notin> set (take i ps)) cs) (ps ! i)) \<and>
    (\<forall>i<64. bit b i \<longleftrightarrow> i < length ps \<and> bit (blockHash (ps ! i)) 0)"
proof -
  have sub: "set (interval_blocks p) \<subseteq> set (path p)"
    using set_takeWhileD by (fastforce simp: interval_blocks_def)
  have cs: "set cs = set (interval_blocks p)" by (simp add: cs_def modifier_candidates_def)
  have known: "\<forall>q\<in>set cs. m (blockHash q) = Some q" using m sub cs by auto
  have dist: "distinct cs"
    using distinct_path [OF p(1)] by (simp add: cs_def modifier_candidates_def interval_blocks_def distinct_takeWhile)
  have vs: "sort (rev (collect_candidates (modifier_start p) p)) = map candidate cs"
    by (simp add: collect_candidates_path cs_def modifier_candidates_def map_sort interval_blocks_def rev_map)
  have sorted: "sorted (map block_time cs)"
  proof -
    have "sorted (map candidate cs)" by (simp add: cs_def modifier_candidates_def)
    then have "sorted (map fst (map candidate cs))"
      by (auto simp: sorted_wrt_map sorted_map less_eq_prod_def elim!: sorted_wrt_mono_rel [rotated])
    then show ?thesis by (simp add: comp_def)
  qed
  obtain ps b where r: "modifier_rounds m (map candidate cs) prev (min 64 (length cs)) 0 (modifier_start p) Map.empty 0 = Inr (Some b)"
      "length ps = min 64 (length cs)"
      "\<forall>i<min 64 (length cs). chosen prev (modifier_start p + (\<Sum>j\<in>{0..0 + i}. section_length j))
         (filter (\<lambda>q. q \<notin> set (take i ps)) (unselected Map.empty cs)) (ps ! i)"
      "\<forall>i<64. bit b i \<longleftrightarrow> bit (0 :: 64 word) i \<or> 0 \<le> i \<and> i < 0 + min 64 (length cs) \<and> bit (blockHash (ps ! (i - 0))) 0"
    using modifier_rounds_chosen [OF known sorted dist, of "min 64 (length cs)" Map.empty 0 prev "modifier_start p" 0]
    by auto
  have gl: "GetLastStakeModifier (Some p) = Some (prev, block_time (last_modifier p))"
    using last_modifier_generated [OF p(1) gen] by (simp add: GetLastStakeModifier_def prev_def Let_def)
  have "ComputeNextStakeModifier literal m (Some p) =
      Inr (if block_time (last_modifier p) div 60 \<ge> block_time p div 60 then (True, prev, False) else (True, b, True))"
  proof (cases "block_time (last_modifier p) div 60 \<ge> block_time p div 60")
    case True
    then show ?thesis using p(2) gl
      by (simp add: ComputeNextStakeModifier_def getIntervalVersion_def fTestNet_def MODIFIER_INTERVAL_def Let_def)
  next
    case False
    have len: "length (collect_candidates (modifier_start p) p) = length cs"
      using arg_cong [OF vs, of length] by simp
    show ?thesis using False p(2) gl r(1) vs len
      by (simp add: ComputeNextStakeModifier_def getIntervalVersion_def fTestNet_def MODIFIER_INTERVAL_def Let_def
        interval_value modifier_start_def)
  qed
  moreover have "{0..0 + i} = {..i}" for i :: nat by auto
  ultimately show ?thesis using r(2,3,4) by (intro exI [of _ b] exI [of _ ps]) simp
qed

section \<open>The modifier of a stake\<close>

lemma kernel_loop_find:
  "t < until \<Longrightarrow> active es \<Longrightarrow>
   kernel_loop (map Some es) until p (chain_at (map Some es) (int k)) h t =
     Some (map_option (\<lambda>q. (q, iHeight q, block_time q))
       (find (\<lambda>q. GeneratedStakeModifier q \<and> until \<le> block_time q) (drop k es)))"
proof (induction "length es - k" arbitrary: k p h t)
  case 0
  then show ?case by (subst kernel_loop.simps) (simp add: chain_at_def)
next
  case (Suc n)
  then have k: "k < length es" by simp
  have c: "chain_at (map Some es) (int k) = Some (es ! k)" using k by (simp add: chain_at_def)
  have h: "iHeight (es ! k) = k" using active_nth [OF Suc.prems(2) k] by simp
  have d: "drop k es = es ! k # drop (Suc k) es" using k by (simp add: Cons_nth_drop_Suc)
  have e: "int k + 1 = int (Suc k)" by simp
  show ?case
  proof (cases "GeneratedStakeModifier (es ! k) \<and> until \<le> block_time (es ! k)")
    case True
    have "kernel_loop (map Some es) until p (chain_at (map Some es) (int k)) h t =
        kernel_loop (map Some es) until (es ! k) (chain_at (map Some es) (int (Suc k))) k (block_time (es ! k))"
      using True Suc.prems(1) h unfolding c e [symmetric] by (subst kernel_loop.simps) (simp add: Let_def)
    also have "\<dots> = Some (Some (es ! k, k, block_time (es ! k)))"
      using True by (subst kernel_loop.simps) simp
    finally show ?thesis using True h unfolding d by simp
  next
    case False
    have "\<exists>h' t'. t' < until \<and> kernel_loop (map Some es) until p (chain_at (map Some es) (int k)) h t =
        kernel_loop (map Some es) until (es ! k) (chain_at (map Some es) (int (Suc k))) h' t'"
    proof (cases "GeneratedStakeModifier (es ! k)")
      case True
      then have "kernel_loop (map Some es) until p (chain_at (map Some es) (int k)) h t =
          kernel_loop (map Some es) until (es ! k) (chain_at (map Some es) (int (Suc k))) k (block_time (es ! k))"
        using Suc.prems(1) h unfolding c e [symmetric] by (subst kernel_loop.simps) (simp add: Let_def)
      moreover have "block_time (es ! k) < until" using True False by simp
      ultimately show ?thesis by blast
    next
      case False
      then show ?thesis using Suc.prems(1) h unfolding c e [symmetric]
        by (subst kernel_loop.simps) (auto simp: Let_def)
    qed
    then show ?thesis using Suc.hyps(1) [of "Suc k"] Suc.hyps(2) Suc.prems(2) False unfolding d by auto
  qed
qed

theorem GetKernelStakeModifier_first:
  assumes "active es" and "m hashBlockFrom = Some from"
  shows "GetKernelStakeModifier m (map Some es) hashBlockFrom =
    Inr (Some (map_option (\<lambda>q. (iStakeModifier q, iHeight q, block_time q))
      (find (\<lambda>q. GeneratedStakeModifier q \<and> block_time from + 2087 \<le> block_time q)
        (drop (iHeight from + 1) es))))"
proof -
  have e: "int (iHeight from) + 1 = int (iHeight from + 1)" by simp
  have "block_time from < block_time from + 2087" by simp
  note k = kernel_loop_find [OF this assms(1), of "from" "iHeight from + 1"]
  show ?thesis
    unfolding GetKernelStakeModifier_def interval_value e bindE_Inr assms(2) option.case k
    by (simp add: option.map_comp comp_def case_prod_beta)
qed

section \<open>Hitting the target\<close>

lemma unat_uint256_of_i64: "0 \<le> v \<Longrightarrow> v < 2 ^ 63 \<Longrightarrow> unat (uint256_of_i64 v) = nat v"
proof -
  assume v: "0 \<le> v" "v < 2 ^ 63"
  define m where "m = nat v"
  have m: "of_int v = (of_nat m :: 64 word)" "m < 2 ^ 64" using v by (auto simp: m_def)
  have "unat (of_nat m :: 64 word) = m" using m(2) by (simp only: unat_of_nat) simp
  then show ?thesis using m by (simp add: uint256_of_i64_def unsigned_ucast_eq take_bit_nat_eq_self m_def [symmetric])
qed

theorem stakeTargetHit_weight:
  assumes "0 \<le> v" "v < 2 ^ 63" "nat v div 100 * unat target < 2 ^ 256"
  shows "stakeTargetHit h v target \<longleftrightarrow> unat h < nat v div 100 * unat target"
proof -
  have "unat (uint256_of_i64 v div 100) = nat v div 100"
    by (simp add: unat_div unat_uint256_of_i64 [OF assms(1,2)])
  then have "unat (uint256_of_i64 v div 100 * target) = nat v div 100 * unat target"
    using assms(3) by (simp add: unat_word_ariths)
  then show ?thesis by (simp add: stakeTargetHit_def Let_def word_less_nat_alt)
qed

text \<open>The product wraps: 33.5 coins never hit a target that 16.7 coins hit with half of all hashes.\<close>

theorem stakeTargetHit_wraps:
  "fst (compact_target 0x1e008000) = 2 ^ 231"
  "\<not> stakeTargetHit h (100 * 2 ^ 25) (2 ^ 231)"
  "stakeTargetHit h (100 * 2 ^ 24) (2 ^ 231) \<longleftrightarrow> unat h < 2 ^ 255"
proof -
  have "unat (fst (compact_target 0x1e008000)) = 2 ^ 231"
    using compact_target_value(1) [of "0x1e008000"]
    by (simp add: compact_value_def compact_exp_def compact_man_def)
  then show "fst (compact_target 0x1e008000) = 2 ^ 231" by (simp add: word_unat_eq_iff)
  have "uint256_of_i64 (100 * 2 ^ 25) = 100 * 2 ^ 25" by (simp add: uint256_of_i64_def)
  then have "uint256_of_i64 (100 * 2 ^ 25) div 100 * 2 ^ 231 = 0" by simp
  then show "\<not> stakeTargetHit h (100 * 2 ^ 25) (2 ^ 231)" unfolding stakeTargetHit_def Let_def by simp
  show "stakeTargetHit h (100 * 2 ^ 24) (2 ^ 231) \<longleftrightarrow> unat h < 2 ^ 255"
    by (subst stakeTargetHit_weight) simp_all
qed

section \<open>The index keeps its invariant\<close>

definition index_inv :: "(bytes \<Rightarrow> uint256) \<Rightarrow> BlockIndexState \<Rightarrow> bool" where
  "index_inv HashQuark st \<longleftrightarrow>
     (\<forall>h p. mapBlockIndex st h = Some p \<longrightarrow>
        blockHash p = h \<and> index_ok p \<and> header_hash HashQuark (GetBlockHeader p) = h \<and>
        (\<forall>q\<in>set (path p). mapBlockIndex st (blockHash q) = Some q) \<and>
        (0 < iHeight p \<longrightarrow> (\<exists>q\<in>set (path p). GeneratedStakeModifier q)) \<and>
        GetBlockProof (iBits p) = Inr (iChainWork p - (case pprev p of None \<Rightarrow> 0 | Some q \<Rightarrow> iChainWork q)) \<and>
        (\<exists>best. pindexBestHeader st = Some best \<and> iChainWork p \<le> iChainWork best))"

lemma generated_flag: "(x OR 4) AND (4 :: 32 word) \<noteq> 0"
proof -
  have "bit ((x OR 4) AND (4 :: 32 word)) 2" by (simp add: bit_simps)
  then show ?thesis by auto
qed

lemma ComputeNextStakeModifier_total:
  assumes "index_ok q" "\<forall>r\<in>set (path q). m (blockHash r) = Some r"
    and "0 < iHeight q \<longrightarrow> (\<exists>r\<in>set (path q). GeneratedStakeModifier r)"
  shows "\<exists>modifier gen. ComputeNextStakeModifier literal m (Some q) = Inr (True, modifier, gen) \<and>
    (iHeight q = 0 \<longrightarrow> gen)"
proof (cases "iHeight q = 0")
  case True
  then show ?thesis
    by (intro exI [of _ literal] exI [of _ True]) (simp add: ComputeNextStakeModifier_def)
next
  case False
  then obtain b where "ComputeNextStakeModifier literal m (Some q) =
      Inr (if block_time (last_modifier q) div 60 \<ge> block_time q div 60
           then (True, iStakeModifier (last_modifier q), False) else (True, b, True))"
    using ComputeNextStakeModifier_selects [OF assms(1) _ assms(2), of literal] assms(3) by blast
  then show ?thesis using False by (auto split: if_splits)
qed

lemma new_entry_simps [simp]:
  "blockHash (new_entry hsh b height flags modifier checksum hashProof trust work prev skip) = hsh"
  "iHeight (new_entry hsh b height flags modifier checksum hashProof trust work prev skip) = height"
  "iFlags (new_entry hsh b height flags modifier checksum hashProof trust work prev skip) = flags"
  "iBits (new_entry hsh b height flags modifier checksum hashProof trust work prev skip) = hBits (bheader b)"
  "iChainWork (new_entry hsh b height flags modifier checksum hashProof trust work prev skip) = work"
  "pprev (new_entry hsh b height flags modifier checksum hashProof trust work prev skip) = prev"
  "pskip (new_entry hsh b height flags modifier checksum hashProof trust work prev skip) = skip"
  by (simp_all add: new_entry_def Let_def)

lemma header_of_entry:
  "header_ok (bheader b) \<Longrightarrow>
   hashPrevBlock (bheader b) = (case prev of None \<Rightarrow> 0 | Some q \<Rightarrow> blockHash q) \<Longrightarrow>
   GetBlockHeader (new_entry hsh b height flags modifier checksum hashProof trust work prev skip) = bheader b"
  by (cases "bheader b") (auto simp: GetBlockHeader_def new_entry_def Let_def CBlockHeader_null_def header_ok_def
    split: option.splits)

lemma linked_entry_ok:
  assumes q: "blockHash q = hashPrevBlock (bheader b)" "index_ok q"
      "\<forall>r\<in>set (path q). mapBlockIndex st (blockHash r) = Some r"
      "0 < iHeight q \<longrightarrow> (\<exists>r\<in>set (path q). GeneratedStakeModifier r)"
    and new: "mapBlockIndex st hsh = None" and work: "GetBlockProof (hBits (bheader b)) = Inr work"
    and hdr: "header_ok (bheader b)"
  shows "\<exists>proofs p. linked_entry literal hashGenesisBlock st hsh b q = Inr (proofs, p) \<and>
    blockHash p = hsh \<and> index_ok p \<and> GetBlockHeader p = bheader b \<and> iBits p = hBits (bheader b) \<and>
    pprev p = Some q \<and> (iHeight q = 0 \<longrightarrow> GeneratedStakeModifier p) \<and> iChainWork p = iChainWork q + work"
proof -
  obtain skip where skip: "BuildSkip (Some q) (iHeight q + 1) = Inr skip"
    using GetAncestor_parent [OF q(2)] by (simp add: BuildSkip_def)
  obtain trust where trust: "GetBlockTrust (hBits (bheader b)) (IsProofOfStake (vtx b)) = Inr trust"
    using GetBlockTrust_value [of "hBits (bheader b)"] by (cases "IsProofOfStake (vtx b)") auto
  have known: "\<forall>r\<in>set (path q). ((mapBlockIndex st)(hsh \<mapsto> e)) (blockHash r) = Some r" for e
    using q(3) new by auto
  have "\<forall>e. \<exists>modifier gen. ComputeNextStakeModifier literal ((mapBlockIndex st)(hsh \<mapsto> e)) (Some q) =
      Inr (True, modifier, gen) \<and> (iHeight q = 0 \<longrightarrow> gen)"
    using ComputeNextStakeModifier_total [OF q(2) known q(4)] by blast
  then obtain M G where mod: "\<And>e. ComputeNextStakeModifier literal ((mapBlockIndex st)(hsh \<mapsto> e)) (Some q) =
      Inr (True, M e, G e)" "\<And>e. iHeight q = 0 \<Longrightarrow> G e" by metis
  obtain C where C: "\<And>fl mo pr tr. GetStakeModifierChecksum hashGenesisBlock
      (new_entry hsh b (iHeight q + 1) fl mo 0 pr tr 0 (Some q) skip) = Inr (C fl mo pr tr)"
    by (simp add: GetStakeModifierChecksum_def)
  have prev: "hashPrevBlock (bheader b) = (case Some q of None \<Rightarrow> 0 | Some q \<Rightarrow> blockHash q)" using q(1) by simp
  have "\<exists>proofs flags modifier checksum hashProof trust. linked_entry literal hashGenesisBlock st hsh b q =
      Inr (proofs, new_entry hsh b (iHeight q + 1) flags modifier checksum hashProof trust (iChainWork q + work)
        (Some q) skip) \<and> (iHeight q = 0 \<longrightarrow> flags AND 4 \<noteq> 0)"
    unfolding linked_entry_def Let_def skip trust bindE_Inr mod(1) prod.case C work
    by (rule exI, rule exI, rule exI, rule exI, rule exI, rule exI, rule conjI, rule arg_cong [where f = Inr],
        rule prod_eqI, simp only: fst_conv, simp only: snd_conv)
      (simp add: mod(2) generated_flag)
  then obtain proofs flags modifier checksum hashProof trust where e: "linked_entry literal hashGenesisBlock st hsh b q =
      Inr (proofs, new_entry hsh b (iHeight q + 1) flags modifier checksum hashProof trust (iChainWork q + work)
        (Some q) skip)" "iHeight q = 0 \<longrightarrow> flags AND 4 \<noteq> 0" by (elim exE conjE)
  let ?p = "new_entry hsh b (iHeight q + 1) flags modifier checksum hashProof trust (iChainWork q + work) (Some q) skip"
  have "index_ok ?p" using q(2) skip by (intro index_ok.child [of ?p q]) simp_all
  then show ?thesis using e header_of_entry [OF hdr prev] by (auto simp: GeneratedStakeModifier_def)
qed

theorem AddToBlockIndex_inv:
  assumes inv: "index_inv HashQuark st" and hdr: "header_ok (bheader b)"
    and prev: "mapBlockIndex st (hashPrevBlock (bheader b)) = None \<longrightarrow> hashPrevBlock (bheader b) = 0"
  shows "\<exists>st' p. AddToBlockIndex HashQuark literal hashGenesisBlock st b = Inr (st', p) \<and>
    index_inv HashQuark st' \<and> mapBlockIndex st \<subseteq>\<^sub>m mapBlockIndex st' \<and>
    mapBlockIndex st' (header_hash HashQuark (bheader b)) = Some p"
proof (cases "mapBlockIndex st (header_hash HashQuark (bheader b))")
  case (Some p)
  then show ?thesis using inv by (simp add: AddToBlockIndex_def Let_def)
next
  case None
  let ?h = "bheader b"
  define hsh where "hsh = header_hash HashQuark ?h"
  have new: "mapBlockIndex st hsh = None" using None by (simp add: hsh_def)
  obtain work where work: "GetBlockProof (hBits ?h) = Inr work" using GetBlockProof_value [of "hBits ?h"] by blast
  define P where "P = (\<lambda>p. blockHash p = hsh \<and> index_ok p \<and> GetBlockHeader p = ?h \<and> iBits p = hBits ?h \<and>
      (case pprev p of None \<Rightarrow> iHeight p = 0
       | Some q \<Rightarrow> mapBlockIndex st (blockHash q) = Some q \<and> (iHeight q = 0 \<longrightarrow> GeneratedStakeModifier p)) \<and>
      iChainWork p = (case pprev p of None \<Rightarrow> 0 | Some q \<Rightarrow> iChainWork q) + work)"
  have "\<exists>proofs p. (case mapBlockIndex st (hashPrevBlock ?h) of
          None \<Rightarrow>
            bindE (GetBlockProof (hBits ?h)) (\<lambda>proof. Inr (mapProofOfStake st,
              new_entry hsh b 0 (if IsProofOfStake (vtx b) then 1 else 0) 0 0 0 0 (0 + proof) None None))
        | Some q \<Rightarrow> linked_entry literal hashGenesisBlock st hsh b q) = Inr (proofs, p) \<and> P p"
  proof (cases "mapBlockIndex st (hashPrevBlock ?h)")
    case None
    then show ?thesis using work prev hdr header_of_entry [OF hdr, of None]
      by (auto simp: P_def intro!: index_ok.genesis)
  next
    case (Some q)
    have q: "blockHash q = hashPrevBlock ?h" "index_ok q" "\<forall>r\<in>set (path q). mapBlockIndex st (blockHash r) = Some r"
        "0 < iHeight q \<longrightarrow> (\<exists>r\<in>set (path q). GeneratedStakeModifier r)"
      using inv Some by (auto simp: index_inv_def)
    then have "\<exists>proofs p. linked_entry literal hashGenesisBlock st hsh b q = Inr (proofs, p) \<and> P p"
    proof -
      obtain proofs p where "linked_entry literal hashGenesisBlock st hsh b q = Inr (proofs, p)"
          "blockHash p = hsh \<and> index_ok p \<and> GetBlockHeader p = ?h \<and> iBits p = hBits ?h \<and>
          pprev p = Some q \<and> (iHeight q = 0 \<longrightarrow> GeneratedStakeModifier p) \<and> iChainWork p = iChainWork q + work"
        using linked_entry_ok [OF q new work hdr] by blast
      then show ?thesis using Some q(1) by (intro exI [of _ proofs] exI [of _ p]) (simp add: P_def)
    qed
    then show ?thesis using Some by simp
  qed
  then obtain proofs p where "AddToBlockIndex HashQuark literal hashGenesisBlock st b = Inr (\<lparr>
           mapBlockIndex = (mapBlockIndex st)(hsh \<mapsto> p),
           setStakeSeen = (if IsProofOfStake (vtx b) then insert (prevout (vin (vtx b ! 1) ! 0), hTime ?h) (setStakeSeen st)
                           else setStakeSeen st),
           mapProofOfStake = proofs,
           pindexBestHeader = (case pindexBestHeader st of
              None \<Rightarrow> Some p
            | Some best \<Rightarrow> if iChainWork best < iChainWork p then Some p else Some best)\<rparr>, p)" "P p"
    using new unfolding AddToBlockIndex_def Let_def hsh_def [symmetric] by fastforce
  note added = this
  define st' where "st' = \<lparr>mapBlockIndex = (mapBlockIndex st)(hsh \<mapsto> p),
           setStakeSeen = (if IsProofOfStake (vtx b) then insert (prevout (vin (vtx b ! 1) ! 0), hTime ?h) (setStakeSeen st)
                           else setStakeSeen st),
           mapProofOfStake = proofs,
           pindexBestHeader = (case pindexBestHeader st of
              None \<Rightarrow> Some p
            | Some best \<Rightarrow> if iChainWork best < iChainWork p then Some p else Some best)\<rparr>"
  have new_st: "AddToBlockIndex HashQuark literal hashGenesisBlock st b = Inr (st', p)"
      "mapBlockIndex st' = (mapBlockIndex st)(hsh \<mapsto> p)"
      "pindexBestHeader st' = (case pindexBestHeader st of None \<Rightarrow> Some p
        | Some best \<Rightarrow> if iChainWork best < iChainWork p then Some p else Some best)" "P p"
    using added by (simp_all add: st'_def)
  have old: "blockHash r \<noteq> hsh" if "mapBlockIndex st (blockHash r) = Some r" for r
    using that new by auto
  have path: "\<forall>r\<in>set (path p). mapBlockIndex st' (blockHash r) = Some r"
  proof (cases "pprev p")
    case None
    then show ?thesis using new_st(2,4) by (simp add: path.simps [of p] P_def)
  next
    case (Some q)
    then have "\<forall>r\<in>set (path q). mapBlockIndex st (blockHash r) = Some r"
      using new_st(4) inv by (auto simp: P_def index_inv_def)
    then show ?thesis using Some new_st(2,4) old by (auto simp: path.simps [of p] P_def)
  qed
  have gen: "0 < iHeight p \<longrightarrow> (\<exists>r\<in>set (path p). GeneratedStakeModifier r)"
  proof (cases "pprev p")
    case None
    then show ?thesis using new_st(4) by (simp add: P_def)
  next
    case (Some q)
    then have "0 < iHeight q \<longrightarrow> (\<exists>r\<in>set (path q). GeneratedStakeModifier r)"
      using new_st(4) inv by (auto simp: P_def index_inv_def)
    then show ?thesis using Some new_st(4) by (auto simp: path.simps [of p] P_def)
  qed
  have "index_inv HashQuark st'"
    unfolding index_inv_def
  proof (intro allI impI)
    fix h r assume r: "mapBlockIndex st' h = Some r"
    show "blockHash r = h \<and> index_ok r \<and> header_hash HashQuark (GetBlockHeader r) = h \<and>
        (\<forall>q\<in>set (path r). mapBlockIndex st' (blockHash q) = Some q) \<and>
        (0 < iHeight r \<longrightarrow> (\<exists>q\<in>set (path r). GeneratedStakeModifier q)) \<and>
        GetBlockProof (iBits r) = Inr (iChainWork r - (case pprev r of None \<Rightarrow> 0 | Some q \<Rightarrow> iChainWork q)) \<and>
        (\<exists>best. pindexBestHeader st' = Some best \<and> iChainWork r \<le> iChainWork best)"
    proof (cases "h = hsh")
      case True
      then have rp: "r = p" using r new_st(2) by simp
      have p: "blockHash p = hsh" "index_ok p" "header_hash HashQuark (GetBlockHeader p) = hsh"
        "GetBlockProof (iBits p) = Inr (iChainWork p - (case pprev p of None \<Rightarrow> 0 | Some q \<Rightarrow> iChainWork q))"
        using new_st(4) work by (simp_all add: P_def hsh_def)
      have "\<exists>best. pindexBestHeader st' = Some best \<and> iChainWork p \<le> iChainWork best"
      proof (cases "pindexBestHeader st")
        case (Some best)
        then show ?thesis using new_st(3) by (cases "iChainWork best < iChainWork p") (simp_all add: not_less)
      qed (use new_st(3) in simp)
      then show ?thesis using True path gen p unfolding rp by blast
    next
      case False
      then have r': "mapBlockIndex st h = Some r" using r new_st(2) by simp
      note I = inv [unfolded index_inv_def, rule_format, OF r']
      have "\<forall>q\<in>set (path r). mapBlockIndex st' (blockHash q) = Some q"
      proof
        fix q assume "q \<in> set (path r)"
        then have "mapBlockIndex st (blockHash q) = Some q" using I by blast
        then show "mapBlockIndex st' (blockHash q) = Some q" using old new_st(2) by simp
      qed
      moreover have "\<exists>best. pindexBestHeader st' = Some best \<and> iChainWork r \<le> iChainWork best"
      proof -
        obtain best where "pindexBestHeader st = Some best" "iChainWork r \<le> iChainWork best" using I by blast
        then show ?thesis using new_st(3) by (cases "iChainWork best < iChainWork p") simp_all
      qed
      ultimately show ?thesis using I by blast
    qed
  qed
  moreover have "mapBlockIndex st \<subseteq>\<^sub>m mapBlockIndex st'"
    using new_st(2) new by (auto simp: map_le_def)
  ultimately show ?thesis using new_st(1,2) by (simp add: hsh_def)
qed

section \<open>Checking a proof of stake\<close>

text \<open>
  CheckProofOfStake.  The transaction lookup and the block files are parameters, and so is the branch
  for zerocoin spends.  A result None stands for a call that does not return (the loop for the
  modifier), Some None for the answer false, Some (Some h) for true with the proof hash h.
\<close>

definition script_ok :: "unit op_result \<Rightarrow> fault + bool" where
  "script_ok r = (case r of Inr _ \<Rightarrow> Inr True | Inl (Fail _) \<Rightarrow> Inr False | Inl f \<Rightarrow> Inl f)"

definition stake_index_from ::
  "(uint256 \<Rightarrow> (CTransaction \<times> uint256) option) \<Rightarrow> (uint256 \<rightharpoonup> CBlockIndex) \<Rightarrow> CChain \<Rightarrow> CTransaction \<Rightarrow> CBlockIndex option" where
  "stake_index_from GetTransaction m chainActive txFrom =
     (case GetTransaction (GetHash txFrom) of
        None \<Rightarrow> None
      | Some (tx, blk) \<Rightarrow> (case m blk of
          None \<Rightarrow> None
        | Some p \<Rightarrow> if Contains chainActive p then Some p else None))"

definition CheckProofOfStake ::
  "(bytes \<Rightarrow> uint256 \<Rightarrow> bytes \<Rightarrow> bool) \<Rightarrow> (uint256 \<Rightarrow> (CTransaction \<times> uint256) option) \<Rightarrow>
   (CBlockIndex \<Rightarrow> CBlock option) \<Rightarrow> (CBlock \<Rightarrow> fault + uint256 option option) \<Rightarrow>
   (uint256 \<rightharpoonup> CBlockIndex) \<Rightarrow> CChain \<Rightarrow> CBlock \<Rightarrow> fault + uint256 option option" where
  "CheckProofOfStake verify GetTransaction ReadBlockFromDisk zerocoin m chainActive b =
     (if length (vtx b) \<le> 1 then Inl Abort else
      let tx = vtx b ! 1; txin = vin tx ! 0; k = unat (outn (prevout txin)) in
      if \<not> IsCoinStake tx then Inr (Some None) else
      bindE (IsZerocoinSpend_tx tx) (\<lambda>zspend.
      if zspend then zerocoin b else
      case GetTransaction (outhash (prevout txin)) of None \<Rightarrow> Inr (Some None) | Some (txPrev, blk) \<Rightarrow>
      if \<not> k < length (vout txPrev) then Inl Abort else
      bindE (script_ok (VerifyScript (tx_env verify STANDARD_SCRIPT_VERIFY_FLAGS tx 0) (scriptSig txin)
          (scriptPubKey (vout txPrev ! k)))) (\<lambda>ok.
      if \<not> ok then Inr (Some None) else
      case stake_index_from GetTransaction m chainActive txPrev of None \<Rightarrow> Inr (Some None) | Some p \<Rightarrow>
      case ReadBlockFromDisk p of None \<Rightarrow> Inr (Some None) | Some blockprev \<Rightarrow>
      bindE (GetKernelStakeModifier m chainActive (blockHash p)) (\<lambda>r. case r of
        None \<Rightarrow> Inr None
      | Some None \<Rightarrow> Inr (Some None)
      | Some (Some (nStakeModifier, h, t)) \<Rightarrow>
          (case CheckStake (stake_uniqueness \<lparr>outhash = GetHash txPrev, outn = outn (prevout txin)\<rparr>)
              (nValue (vout txPrev ! k)) nStakeModifier (fst (compact_target (hBits (bheader b))))
              (hTime (bheader blockprev)) (hTime (bheader b)) of
            (hit, hashProof) \<Rightarrow> Inr (Some (if hit then Some hashProof else None)))))))"

text \<open>What makes a block pass, with q the entry the modifier is taken from.\<close>

definition stake_accepted ::
  "(bytes \<Rightarrow> uint256 \<Rightarrow> bytes \<Rightarrow> bool) \<Rightarrow> (uint256 \<Rightarrow> (CTransaction \<times> uint256) option) \<Rightarrow>
   (CBlockIndex \<Rightarrow> CBlock option) \<Rightarrow> (uint256 \<rightharpoonup> CBlockIndex) \<Rightarrow> CBlockIndex list \<Rightarrow> CBlock \<Rightarrow> uint256 \<Rightarrow>
   CTransaction \<Rightarrow> CBlockIndex \<Rightarrow> CBlockIndex \<Rightarrow> CBlock \<Rightarrow> bool" where
  "stake_accepted verify GetTransaction ReadBlockFromDisk m es b h txPrev p q blockprev \<longleftrightarrow>
     (let tx = vtx b ! 1; txin = vin tx ! 0; k = unat (outn (prevout txin)) in
      map_option fst (GetTransaction (outhash (prevout txin))) = Some txPrev \<and> k < length (vout txPrev) \<and>
      VerifyScript (tx_env verify STANDARD_SCRIPT_VERIFY_FLAGS tx 0) (scriptSig txin) (scriptPubKey (vout txPrev ! k)) = Inr () \<and>
      stake_index_from GetTransaction m (map Some es) txPrev = Some p \<and> ReadBlockFromDisk p = Some blockprev \<and>
      find (\<lambda>q. GeneratedStakeModifier q \<and> block_time p + 2087 \<le> block_time q) (drop (iHeight p + 1) es) = Some q \<and>
      h = stake_hash (stake_uniqueness \<lparr>outhash = GetHash txPrev, outn = outn (prevout txin)\<rparr>) (iStakeModifier q)
            (hTime (bheader blockprev)) (hTime (bheader b)) \<and>
      stakeTargetHit h (nValue (vout txPrev ! k)) (fst (compact_target (hBits (bheader b)))))"

theorem CheckProofOfStake_iff:
  assumes es: "active es" and m: "\<forall>h p. m h = Some p \<longrightarrow> blockHash p = h \<and> index_ok p"
    and not_zerocoin: "IsZerocoinSpend_tx (vtx b ! 1) = Inr False"
  shows "CheckProofOfStake verify GetTransaction ReadBlockFromDisk zerocoin m (map Some es) b = Inr (Some (Some h)) \<longleftrightarrow>
    IsProofOfStake (vtx b) \<and>
    (\<exists>txPrev p q blockprev. stake_accepted verify GetTransaction ReadBlockFromDisk m es b h txPrev p q blockprev)"
    (is "?C = Inr (Some (Some h)) \<longleftrightarrow> _")
proof -
  let ?tx = "vtx b ! 1" let ?in = "vin ?tx ! 0" let ?k = "unat (outn (prevout ?in))"
  have gk: "GetKernelStakeModifier m (map Some es) (blockHash p) =
      Inr (Some (map_option (\<lambda>q. (iStakeModifier q, iHeight q, block_time q))
        (find (\<lambda>q. GeneratedStakeModifier q \<and> block_time p + 2087 \<le> block_time q) (drop (iHeight p + 1) es))))"
    if "stake_index_from GetTransaction m (map Some es) txPrev = Some p" for txPrev p
    using that m by (intro GetKernelStakeModifier_first [OF es])
      (auto simp: stake_index_from_def split: option.splits if_splits)
  show ?thesis
  proof
    assume ok: "?C = Inr (Some (Some h))"
    have len: "1 < length (vtx b)" and cs: "IsCoinStake ?tx"
      using ok by (auto simp: CheckProofOfStake_def Let_def split: if_splits)
    obtain txPrev blk where tp: "GetTransaction (outhash (prevout ?in)) = Some (txPrev, blk)"
      using ok len cs not_zerocoin by (auto simp: CheckProofOfStake_def Let_def split: option.splits)
    have k: "?k < length (vout txPrev)"
      using ok len cs not_zerocoin tp by (auto simp: CheckProofOfStake_def Let_def split: if_splits)
    have vs: "VerifyScript (tx_env verify STANDARD_SCRIPT_VERIFY_FLAGS ?tx 0) (scriptSig ?in) (scriptPubKey (vout txPrev ! ?k)) = Inr ()"
      using ok len cs not_zerocoin tp k
      by (auto simp: CheckProofOfStake_def Let_def script_ok_def split: sum.splits fault.splits)
    obtain p where p: "stake_index_from GetTransaction m (map Some es) txPrev = Some p"
      using ok len cs not_zerocoin tp k vs
      by (auto simp: CheckProofOfStake_def Let_def script_ok_def split: option.splits)
    obtain blockprev where bp: "ReadBlockFromDisk p = Some blockprev"
      using ok len cs not_zerocoin tp k vs p
      by (auto simp: CheckProofOfStake_def Let_def script_ok_def split: option.splits)
    obtain q where q: "find (\<lambda>q. GeneratedStakeModifier q \<and> block_time p + 2087 \<le> block_time q) (drop (iHeight p + 1) es) = Some q"
      using ok len cs not_zerocoin tp k vs p bp gk [OF p]
      by (auto simp: CheckProofOfStake_def Let_def script_ok_def split: option.splits)
    have "stake_accepted verify GetTransaction ReadBlockFromDisk m es b h txPrev p q blockprev"
      using ok len cs not_zerocoin tp k vs p bp gk [OF p] q
      by (auto simp: stake_accepted_def CheckProofOfStake_def Let_def script_ok_def CheckStake_def split: if_splits)
    then show "IsProofOfStake (vtx b) \<and>
      (\<exists>txPrev p q blockprev. stake_accepted verify GetTransaction ReadBlockFromDisk m es b h txPrev p q blockprev)"
      using len cs by (auto simp: IsProofOfStake_def)
  next
    assume "IsProofOfStake (vtx b) \<and>
      (\<exists>txPrev p q blockprev. stake_accepted verify GetTransaction ReadBlockFromDisk m es b h txPrev p q blockprev)"
    then obtain txPrev p q blockprev where pos: "IsProofOfStake (vtx b)"
      and acc: "stake_accepted verify GetTransaction ReadBlockFromDisk m es b h txPrev p q blockprev" by blast
    have p: "stake_index_from GetTransaction m (map Some es) txPrev = Some p"
      using acc by (simp add: stake_accepted_def Let_def)
    show "?C = Inr (Some (Some h))"
      using pos acc not_zerocoin gk [OF p]
      by (auto simp: stake_accepted_def CheckProofOfStake_def Let_def script_ok_def CheckStake_def IsProofOfStake_def)
  qed
qed

theorem CheckProofOfStake_sound:
  assumes es: "active es" and m: "\<forall>h p. m h = Some p \<longrightarrow> blockHash p = h \<and> index_ok p"
    and acc: "stake_accepted verify GetTransaction ReadBlockFromDisk m es b h txPrev p q blockprev"
  shows "p \<in> set es" "q \<in> set es" "iHeight p < iHeight q" "block_time p + 2087 \<le> block_time q"
    "GeneratedStakeModifier q"
proof -
  have "stake_index_from GetTransaction m (map Some es) txPrev = Some p"
    and q: "find (\<lambda>q. GeneratedStakeModifier q \<and> block_time p + 2087 \<le> block_time q) (drop (iHeight p + 1) es) = Some q"
    using acc by (simp_all add: stake_accepted_def Let_def)
  then have "Contains (map Some es) p" "index_ok p"
    using m by (auto simp: stake_index_from_def split: option.splits if_splits)
  then show "p \<in> set es" using Contains_active [OF es] by auto
  obtain i where i: "i < length es - (iHeight p + 1)" "q = drop (iHeight p + 1) es ! i"
      "GeneratedStakeModifier q" "block_time p + 2087 \<le> block_time q"
    using q by (auto simp: find_Some_iff)
  then have "q = es ! (iHeight p + 1 + i)" "iHeight p + 1 + i < length es" by auto
  then show "q \<in> set es" "iHeight p < iHeight q" using active_nth [OF es] by simp_all
  show "block_time p + 2087 \<le> block_time q" "GeneratedStakeModifier q" using i(3,4) by blast+
qed

text \<open>The index of the staked output is used without a check against the outputs of the transaction.\<close>

theorem CheckProofOfStake_reads_past_the_outputs:
  assumes "IsProofOfStake (vtx b)" and "IsZerocoinSpend_tx (vtx b ! 1) = Inr False"
    and "GetTransaction (outhash (prevout (vin (vtx b ! 1) ! 0))) = Some (txPrev, blk)"
    and "length (vout txPrev) \<le> unat (outn (prevout (vin (vtx b ! 1) ! 0)))"
  shows "CheckProofOfStake verify GetTransaction ReadBlockFromDisk zerocoin m chainActive b = Inl Abort"
  using assms by (auto simp: CheckProofOfStake_def Let_def IsProofOfStake_def not_less)

end
