(* ===== verification/TxChecks.thy ===== *)
theory TxChecks
  imports Kernel
begin

text \<open>
  The checks of a transaction in main.cpp: CheckTransaction, IsFinalTx, the counts of signature
  operations, and CheckInputs on a cache of coins.  The libzerocoin checks are parameters.  Scripts are
  verified in place (pvChecks is NULL); the signature cache of CachingTransactionSignatureChecker only
  remembers answers of the key check.
\<close>

section \<open>Verdicts\<close>

text \<open>What a check leaves in a fresh CValidationState.\<close>

datatype verdict = Valid | Invalid (vDoS: nat) (vRejectCode: nat) (vRejectReason: string)

definition REJECT_INVALID :: nat where "REJECT_INVALID = 0x10"
definition REJECT_NONSTANDARD :: nat where "REJECT_NONSTANDARD = 0x40"
definition MAX_ZEROCOIN_TX_SIZE :: nat where "MAX_ZEROCOIN_TX_SIZE = 150000"
definition LOCKTIME_THRESHOLD :: int where "LOCKTIME_THRESHOLD = 500000000"
definition nMaturity :: int where "nMaturity = 15"
definition nMaxMoneyOut :: CAmount where "nMaxMoneyOut = 100000000 * COIN"
definition nMaxZerocoinSpendsPerTransaction :: nat where "nMaxZerocoinSpendsPerTransaction = 7"

definition MoneyRange :: "CAmount \<Rightarrow> bool" where
  "MoneyRange nValueOut \<longleftrightarrow> nValueOut \<ge> 0 \<and> nValueOut \<le> nMaxMoneyOut"

section \<open>CheckTransaction\<close>

fun check_outputs ::
  "(CTxOut \<Rightarrow> bool) \<Rightarrow> bool \<Rightarrow> CTransaction \<Rightarrow> CTxOut list \<Rightarrow> CAmount \<Rightarrow> nat \<Rightarrow> fault + verdict \<times> nat" where
  "check_outputs mint_ok fZerocoinActive tx [] nValueOut nZCSpendCount = Inr (Valid, nZCSpendCount)"
| "check_outputs mint_ok fZerocoinActive tx (txo # os) nValueOut nZCSpendCount =
     bindE (if CTxOut_IsEmpty txo then bindE (IsCoinBase tx) (\<lambda>cb. Inr (\<not> cb \<and> \<not> IsCoinStake tx)) else Inr False)
       (\<lambda>empty.
     if empty then Inr (Invalid 100 0 '''', nZCSpendCount)
     else if nValue txo < 0 then Inr (Invalid 100 REJECT_INVALID ''bad-txns-vout-negative'', nZCSpendCount)
     else if nValue txo > nMaxMoneyOut then Inr (Invalid 100 REJECT_INVALID ''bad-txns-vout-toolarge'', nZCSpendCount)
     else let nValueOut = wrap64 (nValueOut + nValue txo) in
     if \<not> MoneyRange nValueOut
     then Inr (Invalid 100 REJECT_INVALID ''bad-txns-txouttotal-toolarge'', nZCSpendCount)
     else if fZerocoinActive \<and> CTxOut_IsZerocoinMint txo \<and> \<not> mint_ok txo then Inr (Invalid 100 0 '''', nZCSpendCount)
     else check_outputs mint_ok fZerocoinActive tx os nValueOut
       (if fZerocoinActive \<and> IsZerocoinSpend (scriptPubKey txo) then nZCSpendCount + 1 else nZCSpendCount))"

fun duplicate_inputs :: "CTxIn list \<Rightarrow> COutPoint list \<Rightarrow> bool" where
  "duplicate_inputs [] vInOutPoints = False"
| "duplicate_inputs (i # is) vInOutPoints =
     (if prevout i \<in> set vInOutPoints then True
      else duplicate_inputs is (if \<not> IsZerocoinSpend (scriptSig i) then prevout i # vInOutPoints else vInOutPoints))"

definition check_zerocoin :: "(CTransaction \<Rightarrow> bool) \<Rightarrow> CTransaction \<Rightarrow> nat \<Rightarrow> fault + verdict" where
  "check_zerocoin spend_ok tx nZCSpendCount =
     (if nZCSpendCount > nMaxZerocoinSpendsPerTransaction then Inr (Invalid 100 0 '''')
      else bindE (IsZerocoinSpend_tx tx) (\<lambda>zs.
        if zs then
          (if \<not> list_all (\<lambda>i. IsZerocoinSpend (scriptSig i)) (vin tx) then Inr (Invalid 100 0 '''')
           else if \<not> spend_ok tx then Inr (Invalid 100 0 '''') else Inr Valid)
        else Inr Valid))"

definition check_input_scripts :: "bool \<Rightarrow> nat \<Rightarrow> int \<Rightarrow> CTransaction \<Rightarrow> fault + verdict" where
  "check_input_scripts fZerocoinActive nLastPOW chainHeight tx =
     bindE (IsCoinBase tx) (\<lambda>cb.
     if cb then
       (let expectedScriptSigLength = (if chainHeight > int nLastPOW then 2 else 1);
            size = length (scriptSig (vin tx ! 0)) in
        if size < expectedScriptSigLength \<or> size > 150
        then Inr (Invalid 100 REJECT_INVALID ''bad-cb-length'') else Inr Valid)
     else bindE (if fZerocoinActive then IsZerocoinSpend_tx tx else Inr False) (\<lambda>zs.
       if zs then
         (if length (vin tx) < 1 \<or> length (vin tx) > nMaxZerocoinSpendsPerTransaction
          then Inr (Invalid 10 REJECT_INVALID ''bad-zerocoinspend'') else Inr Valid)
       else if list_ex (\<lambda>i. COutPoint_IsNull (prevout i) \<and> fZerocoinActive \<and> \<not> IsZerocoinSpend (scriptSig i)) (vin tx)
       then Inr (Invalid 10 REJECT_INVALID ''bad-txns-prevout-null'')
       else Inr Valid))"

definition CheckTransaction ::
  "(CTxOut \<Rightarrow> bool) \<Rightarrow> (CTransaction \<Rightarrow> bool) \<Rightarrow> nat \<Rightarrow> int \<Rightarrow> CTransaction \<Rightarrow> bool \<Rightarrow> fault + verdict" where
  "CheckTransaction mint_ok spend_ok nLastPOW chainHeight tx fZerocoinActive =
     (if vin tx = [] then Inr (Invalid 10 REJECT_INVALID ''bad-txns-vin-empty'')
      else if vout tx = [] then Inr (Invalid 10 REJECT_INVALID ''bad-txns-vout-empty'')
      else if length (put_CTransaction tx) > MAX_ZEROCOIN_TX_SIZE
      then Inr (Invalid 100 REJECT_INVALID ''bad-txns-oversize'')
      else bindE (check_outputs mint_ok fZerocoinActive tx (vout tx) 0 0) (\<lambda>(v, nZCSpendCount).
        if v \<noteq> Valid then Inr v
        else bindE (if fZerocoinActive then check_zerocoin spend_ok tx nZCSpendCount else Inr Valid) (\<lambda>v.
        if v \<noteq> Valid then Inr v
        else if duplicate_inputs (vin tx) [] then Inr (Invalid 100 REJECT_INVALID ''bad-txns-inputs-duplicate'')
        else check_input_scripts fZerocoinActive nLastPOW chainHeight tx)))"

section \<open>Finality and signature operations\<close>

definition IsFinalTx :: "int \<Rightarrow> int \<Rightarrow> CTransaction \<Rightarrow> int \<Rightarrow> int \<Rightarrow> bool" where
  "IsFinalTx chainHeight adjustedTime tx nBlockHeight nBlockTime =
     (if nLockTime tx = 0 then True
      else
        let nBlockHeight = (if nBlockHeight = 0 then chainHeight else nBlockHeight);
            nBlockTime = (if nBlockTime = 0 then adjustedTime else nBlockTime);
            t = uint (nLockTime tx) in
        if t < (if t < LOCKTIME_THRESHOLD then nBlockHeight else nBlockTime) then True
        else list_all CTxIn_IsFinal (vin tx))"

definition GetLegacySigOpCount :: "CTransaction \<Rightarrow> nat" where
  "GetLegacySigOpCount tx =
     foldl (\<lambda>n txo. n + GetSigOpCount (scriptPubKey txo) False)
       (foldl (\<lambda>n i. n + GetSigOpCount (scriptSig i) False) 0 (vin tx)) (vout tx)"

fun p2sh_sigops :: "'s coins_ops \<Rightarrow> CTxIn list \<Rightarrow> nat \<Rightarrow> 's cache \<Rightarrow> fault + nat \<times> 's cache" where
  "p2sh_sigops ops [] nSigOps c = Inr (nSigOps, c)"
| "p2sh_sigops ops (i # is) nSigOps c =
     bindE (GetOutputFor ops c i) (\<lambda>(txo, c).
       p2sh_sigops ops is
         (if IsPayToScriptHash (scriptPubKey txo) then nSigOps + GetSigOpCount_P2SH (scriptPubKey txo) (scriptSig i)
          else nSigOps) c)"

definition GetP2SHSigOpCount :: "'s coins_ops \<Rightarrow> CTransaction \<Rightarrow> 's cache \<Rightarrow> fault + nat \<times> 's cache" where
  "GetP2SHSigOpCount ops tx c =
     bindE (has_inputs tx) (\<lambda>b. if \<not> b then Inr (0, c) else p2sh_sigops ops (vin tx) 0 c)"

section \<open>CheckInputs\<close>

text \<open>The loop over the values: the verdict and the sum.\<close>

fun check_values :: "'s coins_ops \<Rightarrow> int \<Rightarrow> CTxIn list \<Rightarrow> CAmount \<Rightarrow> 's cache \<Rightarrow> fault + (verdict \<times> CAmount) \<times> 's cache" where
  "check_values ops nSpendHeight [] nValueIn c = Inr ((Valid, nValueIn), c)"
| "check_values ops nSpendHeight (i # is) nValueIn c =
     bindE (AccessCoins ops c (outhash (prevout i))) (\<lambda>(r, c).
     case r of None \<Rightarrow> Inl Abort | Some coins \<Rightarrow>
     if (fCoinBase coins \<or> fCoinStake coins) \<and> nSpendHeight - cHeight coins < nMaturity
     then Inr ((Invalid 0 REJECT_INVALID ''bad-txns-premature-spend-of-coinbase'', nValueIn), c)
     else if \<not> unat (outn (prevout i)) < length (cvout coins) then Inl Abort
     else let v = nValue (cvout coins ! unat (outn (prevout i))); nValueIn = wrap64 (nValueIn + v) in
     if \<not> MoneyRange v \<or> \<not> MoneyRange nValueIn
     then Inr ((Invalid 100 REJECT_INVALID ''bad-txns-inputvalues-outofrange'', nValueIn), c)
     else check_values ops nSpendHeight is nValueIn c)"

definition script_check ::
  "(bytes \<Rightarrow> uint256 \<Rightarrow> bytes \<Rightarrow> bool) \<Rightarrow> CScript \<Rightarrow> CTransaction \<Rightarrow> nat \<Rightarrow> flags \<Rightarrow> fault + bool" where
  "script_check verify script tx nIn fl =
     script_ok (VerifyScript (tx_env verify fl tx nIn) (scriptSig (vin tx ! nIn)) script)"

fun check_scripts ::
  "'s coins_ops \<Rightarrow> (bytes \<Rightarrow> uint256 \<Rightarrow> bytes \<Rightarrow> bool) \<Rightarrow> CTransaction \<Rightarrow> flags \<Rightarrow> nat list \<Rightarrow> 's cache \<Rightarrow>
   fault + verdict \<times> 's cache" where
  "check_scripts ops verify tx fl [] c = Inr (Valid, c)"
| "check_scripts ops verify tx fl (i # is) c =
     (let p = prevout (vin tx ! i) in
      bindE (AccessCoins ops c (outhash p)) (\<lambda>(r, c).
      case r of None \<Rightarrow> Inl Abort | Some coins \<Rightarrow>
      if \<not> unat (outn p) < length (cvout coins) then Inl Abort
      else let script = scriptPubKey (cvout coins ! unat (outn p)) in
      bindE (script_check verify script tx i fl) (\<lambda>ok.
      if ok then check_scripts ops verify tx fl is c
      else if fl AND STANDARD_NOT_MANDATORY_VERIFY_FLAGS \<noteq> 0 then
        bindE (script_check verify script tx i (fl AND NOT STANDARD_NOT_MANDATORY_VERIFY_FLAGS)) (\<lambda>ok.
          Inr (if ok then Invalid 0 REJECT_NONSTANDARD ''non-mandatory-script-verify-flag''
               else Invalid 100 REJECT_INVALID ''mandatory-script-verify-flag-failed'', c))
      else Inr (Invalid 100 REJECT_INVALID ''mandatory-script-verify-flag-failed'', c))))"

definition check_fee :: "CTransaction \<Rightarrow> CAmount \<Rightarrow> fault + verdict" where
  "check_fee tx nValueIn =
     (if IsCoinStake tx then Inr Valid
      else bindE (GetValueOut tx) (\<lambda>out.
        if nValueIn < out then Inr (Invalid 100 REJECT_INVALID ''bad-txns-in-belowout'')
        else let nTxFee = wrap64 (nValueIn - out) in
        if nTxFee < 0 then Inr (Invalid 100 REJECT_INVALID ''bad-txns-fee-negative'')
        else if \<not> MoneyRange (wrap64 (0 + nTxFee)) then Inr (Invalid 100 REJECT_INVALID ''bad-txns-fee-outofrange'')
        else Inr Valid))"

definition CheckInputs ::
  "'s coins_ops \<Rightarrow> (bytes \<Rightarrow> uint256 \<Rightarrow> bytes \<Rightarrow> bool) \<Rightarrow> (uint256 \<rightharpoonup> CBlockIndex) \<Rightarrow> bool \<Rightarrow> flags \<Rightarrow> CTransaction \<Rightarrow>
   's cache \<Rightarrow> fault + verdict \<times> 's cache" where
  "CheckInputs ops verify idx fScriptChecks fl tx c =
     bindE (has_inputs tx) (\<lambda>b.
     if \<not> b then Inr (Valid, c)
     else bindE (HaveInputs ops c tx) (\<lambda>(have, c).
     if \<not> have then Inr (Invalid 0 0 '''', c)
     else bindE (GetBestBlock ops c) (\<lambda>(h, c).
     case idx h of None \<Rightarrow> Inl Abort | Some pindexPrev \<Rightarrow>
     bindE (check_values ops (int (iHeight pindexPrev) + 1) (vin tx) 0 c) (\<lambda>((v, nValueIn), c).
     if v \<noteq> Valid then Inr (v, c)
     else bindE (check_fee tx nValueIn) (\<lambda>v.
     if v \<noteq> Valid then Inr (v, c)
     else if fScriptChecks then check_scripts ops verify tx fl [0..<length (vin tx)] c
     else Inr (Valid, c))))))"

section \<open>What CheckTransaction accepts\<close>

lemma duplicate_inputs_iff:
  "duplicate_inputs is seen \<longleftrightarrow>
     (\<exists>i\<in>set is. prevout i \<in> set seen) \<or>
     \<not> sorted_wrt (\<lambda>i j. prevout i = prevout j \<longrightarrow> IsZerocoinSpend (scriptSig i)) is"
proof (induction "is" seen rule: duplicate_inputs.induct)
  case (2 i "is" seen)
  let ?z = "IsZerocoinSpend (scriptSig i)"
  show ?case
  proof (cases "prevout i \<in> set seen")
    case False
    then have "duplicate_inputs (i # is) seen \<longleftrightarrow>
        (\<exists>j\<in>set is. prevout j \<in> set (if \<not> ?z then prevout i # seen else seen)) \<or>
        \<not> sorted_wrt (\<lambda>i j. prevout i = prevout j \<longrightarrow> IsZerocoinSpend (scriptSig i)) is"
      using 2 by simp
    then show ?thesis using False by (cases ?z) (auto simp: eq_commute [of "prevout i"])
  qed simp
qed simp

lemma distinct_inputs:
  "sorted_wrt (\<lambda>i j. prevout i = prevout j \<longrightarrow> IsZerocoinSpend (scriptSig i)) is \<Longrightarrow>
   \<forall>i\<in>set is. \<not> IsZerocoinSpend (scriptSig i) \<Longrightarrow> distinct (map prevout is)"
  by (induction "is") auto

lemma check_outputs_valid:
  assumes "IsCoinBase tx = Inr cb" "0 \<le> s" "s \<le> nMaxMoneyOut"
  shows "\<exists>v m. check_outputs mint_ok False tx outs s n = Inr (v, m) \<and>
    (v = Valid \<longleftrightarrow> (\<forall>txo\<in>set outs. (CTxOut_IsEmpty txo \<longrightarrow> cb \<or> IsCoinStake tx) \<and> 0 \<le> nValue txo) \<and>
      s + sum_list (map nValue outs) \<le> nMaxMoneyOut)"
  using assms(2,3)
proof (induction outs arbitrary: s n)
  case (Cons txo outs)
  have max: "nMaxMoneyOut = 10 ^ 16" by (simp add: nMaxMoneyOut_def)
  have pos: "(\<forall>txo\<in>set outs. 0 \<le> nValue txo) \<Longrightarrow> 0 \<le> sum_list (map nValue outs)"
    by (rule sum_list_nonneg) auto
  show ?case
  proof (cases "(CTxOut_IsEmpty txo \<longrightarrow> cb \<or> IsCoinStake tx) \<and> 0 \<le> nValue txo \<and> s + nValue txo \<le> nMaxMoneyOut")
    case True
    then have w: "wrap64 (s + nValue txo) = s + nValue txo" "nValue txo \<le> nMaxMoneyOut"
      using Cons.prems max by (auto intro!: wrap64_id simp: INT64_MIN_def INT64_MAX_def)
    then have "check_outputs mint_ok False tx (txo # outs) s n = check_outputs mint_ok False tx outs (s + nValue txo) n"
      using True Cons.prems assms(1) by (cases "CTxOut_IsEmpty txo"; cases cb) (simp_all add: MoneyRange_def Let_def)
    then show ?thesis using Cons.IH [of "s + nValue txo" n] True Cons.prems by (auto simp: add.assoc)
  next
    case False
    have "wrap64 (s + nValue txo) = s + nValue txo" if "0 \<le> nValue txo" "nValue txo \<le> nMaxMoneyOut"
      using that Cons.prems max by (intro wrap64_id) (simp_all add: INT64_MIN_def INT64_MAX_def)
    then have "\<exists>v m. check_outputs mint_ok False tx (txo # outs) s n = Inr (v, m) \<and> v \<noteq> Valid"
      using False Cons.prems assms(1) by (auto simp: MoneyRange_def Let_def)
    moreover have "\<not> ((\<forall>txo\<in>set (txo # outs). (CTxOut_IsEmpty txo \<longrightarrow> cb \<or> IsCoinStake tx) \<and> 0 \<le> nValue txo) \<and>
        s + sum_list (map nValue (txo # outs)) \<le> nMaxMoneyOut)"
      using False pos by auto
    ultimately show ?thesis by blast
  qed
qed simp

text \<open>The conditions of CheckTransaction while zerocoin is not active.\<close>

definition tx_acceptable :: "nat \<Rightarrow> int \<Rightarrow> CTransaction \<Rightarrow> bool \<Rightarrow> bool" where
  "tx_acceptable nLastPOW chainHeight tx cb \<longleftrightarrow>
     vin tx \<noteq> [] \<and> vout tx \<noteq> [] \<and> length (put_CTransaction tx) \<le> 150000 \<and>
     (\<forall>txo\<in>set (vout tx). 0 \<le> nValue txo \<and> (CTxOut_IsEmpty txo \<longrightarrow> cb \<or> IsCoinStake tx)) \<and>
     sum_list (map nValue (vout tx)) \<le> nMaxMoneyOut \<and>
     sorted_wrt (\<lambda>i j. prevout i = prevout j \<longrightarrow> IsZerocoinSpend (scriptSig i)) (vin tx) \<and>
     (cb \<longrightarrow> length (scriptSig (vin tx ! 0)) \<in> {(if chainHeight > int nLastPOW then 2 else 1)..150})"

lemma CheckTransaction_accepts:
  assumes "IsCoinBase tx = Inr cb"
  shows "\<exists>v. CheckTransaction mint_ok spend_ok nLastPOW chainHeight tx False = Inr v \<and>
    (v = Valid \<longleftrightarrow> tx_acceptable nLastPOW chainHeight tx cb)"
proof -
  obtain v m where o: "check_outputs mint_ok False tx (vout tx) 0 0 = Inr (v, m)"
      "v = Valid \<longleftrightarrow> (\<forall>txo\<in>set (vout tx). (CTxOut_IsEmpty txo \<longrightarrow> cb \<or> IsCoinStake tx) \<and> 0 \<le> nValue txo) \<and>
        0 + sum_list (map nValue (vout tx)) \<le> nMaxMoneyOut"
    using check_outputs_valid [OF assms, of 0 mint_ok "vout tx" 0] by (auto simp: nMaxMoneyOut_def)
  have s: "\<exists>v. check_input_scripts False nLastPOW chainHeight tx = Inr v \<and>
      (v = Valid \<longleftrightarrow> (cb \<longrightarrow> length (scriptSig (vin tx ! 0)) \<in> {(if chainHeight > int nLastPOW then 2 else 1)..150}))"
    using assms by (cases cb) (auto simp: check_input_scripts_def Let_def list_ex_iff)
  show ?thesis
  proof (cases "v = Valid")
    case True
    then show ?thesis using o s
      by (auto simp: CheckTransaction_def tx_acceptable_def duplicate_inputs_iff MAX_ZEROCOIN_TX_SIZE_def)
  next
    case False
    then show ?thesis using o
      by (auto simp: CheckTransaction_def tx_acceptable_def MAX_ZEROCOIN_TX_SIZE_def)
  qed
qed

theorem CheckTransaction_iff:
  assumes "IsCoinBase tx = Inr cb"
  shows "CheckTransaction mint_ok spend_ok nLastPOW chainHeight tx False = Inr Valid \<longleftrightarrow>
    tx_acceptable nLastPOW chainHeight tx cb"
  using CheckTransaction_accepts [OF assms, of mint_ok spend_ok nLastPOW chainHeight] by auto

theorem IsFinalTx_later:
  assumes "IsFinalTx ch at tx h t" "0 < h" "0 < t" "h \<le> h'" "t \<le> t'"
  shows "IsFinalTx ch' at' tx h' t'"
  using assms by (auto simp: IsFinalTx_def Let_def split: if_splits)

section \<open>What CheckInputs accepts\<close>

definition spent_output :: "utxos \<Rightarrow> COutPoint \<Rightarrow> CTxOut" where
  "spent_output V p = (case V (outhash p) of None \<Rightarrow> CTxOut_null | Some coins \<Rightarrow> cvout coins ! unat (outn p))"

definition mature :: "utxos \<Rightarrow> int \<Rightarrow> COutPoint \<Rightarrow> bool" where
  "mature V nSpendHeight p \<longleftrightarrow> (case V (outhash p) of None \<Rightarrow> False
     | Some coins \<Rightarrow> (fCoinBase coins \<or> fCoinStake coins \<longrightarrow> nSpendHeight - cHeight coins \<ge> 15))"

definition value_in :: "utxos \<Rightarrow> CTxIn list \<Rightarrow> CAmount" where
  "value_in V is = sum_list (map (\<lambda>i. nValue (spent_output V (prevout i))) is)"

definition inputs_acceptable ::
  "(bytes \<Rightarrow> uint256 \<Rightarrow> bytes \<Rightarrow> bool) \<Rightarrow> utxos \<Rightarrow> int \<Rightarrow> bool \<Rightarrow> flags \<Rightarrow> CTransaction \<Rightarrow> bool" where
  "inputs_acceptable verify V nSpendHeight fScriptChecks fl tx \<longleftrightarrow>
     (\<forall>i\<in>set (vin tx). have_coins_for V (prevout i) \<and> mature V nSpendHeight (prevout i) \<and>
        0 \<le> nValue (spent_output V (prevout i))) \<and>
     value_in V (vin tx) \<le> nMaxMoneyOut \<and>
     (\<not> IsCoinStake tx \<longrightarrow> sum_list (map nValue (vout tx)) \<le> value_in V (vin tx)) \<and>
     (fScriptChecks \<longrightarrow> (\<forall>k<length (vin tx).
        VerifyScript (tx_env verify fl tx k) (scriptSig (vin tx ! k))
          (scriptPubKey (spent_output V (prevout (vin tx ! k)))) = Inr ()))"

lemma script_check_total:
  "script_check verify script tx k fl =
    Inr (VerifyScript (tx_env verify fl tx k) (scriptSig (vin tx ! k)) script = Inr ())"
  using VerifyScript_Fail [of "tx_env verify fl tx k" "scriptSig (vin tx ! k)" script]
  by (auto simp: script_check_def script_ok_def split: sum.splits fault.splits)

lemma nonneg_sum_list: "\<forall>x\<in>set xs. 0 \<le> f x \<Longrightarrow> 0 \<le> sum_list (map f xs)" for f :: "'a \<Rightarrow> int"
  by (rule sum_list_nonneg) auto

lemma member_le_sum: "\<forall>x\<in>set xs. 0 \<le> f x \<Longrightarrow> x \<in> set xs \<Longrightarrow> f x \<le> sum_list (map f xs)" for f :: "'a \<Rightarrow> int"
proof (induction xs)
  case (Cons y ys)
  then show ?case using nonneg_sum_list [of ys f] by fastforce
qed simp

lemma check_fee_valid:
  assumes "0 \<le> v" "v \<le> nMaxMoneyOut" "\<forall>txo\<in>set (vout tx). 0 \<le> nValue txo"
    "sum_list (map nValue (vout tx)) \<le> nMaxMoneyOut"
  shows "\<exists>r. check_fee tx v = Inr r \<and>
    (r = Valid \<longleftrightarrow> \<not> IsCoinStake tx \<longrightarrow> sum_list (map nValue (vout tx)) \<le> v)"
proof -
  let ?s = "sum_list (map nValue (vout tx))"
  have max: "nMaxMoneyOut = 10 ^ 16" by (simp add: nMaxMoneyOut_def)
  have s: "0 \<le> ?s" using assms(3) by (rule nonneg_sum_list)
  have "list_all (\<lambda>txo. nValue txo \<le> INT64_MAX) (vout tx)"
    using member_le_sum [OF assms(3)] assms(4) max by (fastforce simp: list_all_iff INT64_MAX_def)
  then have "GetValueOut tx = Inr ?s"
    using value_out_loop_sum [of 0 "vout tx"] assms(3,4) max
    by (simp add: GetValueOut_def list_all_iff INT64_MAX_def)
  moreover have "wrap64 (v - ?s) = v - ?s"
    using s assms max by (intro wrap64_id) (simp_all add: INT64_MIN_def INT64_MAX_def)
  ultimately show ?thesis using s assms by (auto simp: check_fee_def MoneyRange_def Let_def)
qed

lemma avail_view:
  assumes "live r = V (outhash p)" "have_coins_for V p"
  obtains coins where "r = Some coins" "V (outhash p) = Some coins" "unat (outn p) < length (cvout coins)"
  using assms by (auto simp: have_coins_for_def live_def IsAvailable_def split: option.splits if_splits)

lemma all_upt: "(\<forall>k\<in>set [0..<n]. P k) \<longleftrightarrow> (\<forall>k<n. P k)"
  by auto

context coins_reader
begin

lemma csame_trans: "csame a b \<Longrightarrow> csame b c \<Longrightarrow> csame a c"
  by (auto simp: same_view_def)

lemma csame_refl: "cinv c \<Longrightarrow> csame c c"
  by (simp add: same_view_def)

lemma csame_view: "csame c c' \<Longrightarrow> cinv c' \<and> cache_view view c' = cache_view view c \<and> cache_tip tip c' = cache_tip tip c"
  by (simp add: same_view_def)

lemma check_values:
  assumes "cinv c" "\<forall>i\<in>set is. have_coins_for (cache_view view c) (prevout i)" "0 \<le> s" "s \<le> nMaxMoneyOut"
  shows "\<exists>r s' c'. check_values ops h is s c = Inr ((r, s'), c') \<and> csame c c' \<and>
    (r = Valid \<longrightarrow> s' = s + value_in (cache_view view c) is) \<and>
    (r = Valid \<longleftrightarrow> (\<forall>i\<in>set is. mature (cache_view view c) h (prevout i) \<and>
        0 \<le> nValue (spent_output (cache_view view c) (prevout i))) \<and>
      s + value_in (cache_view view c) is \<le> nMaxMoneyOut)"
  using assms
proof (induction "is" arbitrary: s c)
  case Nil
  then show ?case by (simp add: csame_refl value_in_def)
next
  case (Cons i "is")
  let ?V = "cache_view view c" and ?p = "prevout i"
  obtain r c1 where r: "AccessCoins ops c (outhash ?p) = Inr (r, c1)" "csame c c1"
    "live r = ?V (outhash ?p)"
    using AccessCoins [OF Cons.prems(1)] by blast
  obtain coins where coins: "r = Some coins" "?V (outhash ?p) = Some coins" "unat (outn ?p) < length (cvout coins)"
    by (rule avail_view [where V = ?V and p = ?p and r = r, OF r(3)]) (use Cons.prems(2) in auto)
  have c1: "cinv c1" "cache_view view c1 = ?V" using csame_view [OF r(2)] by simp_all
  define v where "v = nValue (cvout coins ! unat (outn ?p))"
  have v: "nValue (spent_output ?V ?p) = v" by (simp add: spent_output_def coins(2) v_def)
  have m: "mature ?V h ?p \<longleftrightarrow> \<not> ((fCoinBase coins \<or> fCoinStake coins) \<and> h - cHeight coins < nMaturity)"
    by (auto simp: mature_def coins(2) nMaturity_def)
  have step: "check_values ops h (i # is) s c =
     (if (fCoinBase coins \<or> fCoinStake coins) \<and> h - cHeight coins < nMaturity
      then Inr ((Invalid 0 REJECT_INVALID ''bad-txns-premature-spend-of-coinbase'', s), c1)
      else if \<not> MoneyRange v \<or> \<not> MoneyRange (wrap64 (s + v))
      then Inr ((Invalid 100 REJECT_INVALID ''bad-txns-inputvalues-outofrange'', wrap64 (s + v)), c1)
      else check_values ops h is (wrap64 (s + v)) c1)"
    using coins(3) by (simp add: r(1) coins(1) v_def Let_def)
  have max: "nMaxMoneyOut = 10 ^ 16" by (simp add: nMaxMoneyOut_def)
  have w: "wrap64 (s + v) = s + v" if "0 \<le> v" "v \<le> nMaxMoneyOut"
    using that Cons.prems(3,4) max by (intro wrap64_id) (simp_all add: INT64_MIN_def INT64_MAX_def)
  show ?case
  proof (cases "mature ?V h ?p \<and> 0 \<le> v \<and> s + v \<le> nMaxMoneyOut")
    case True
    then have "check_values ops h (i # is) s c = check_values ops h is (s + v) c1"
      unfolding step using Cons.prems(3) w m by (auto simp: MoneyRange_def)
    moreover obtain r' s' c' where ih: "check_values ops h is (s + v) c1 = Inr ((r', s'), c')" "csame c1 c'"
      "r' = Valid \<longrightarrow> s' = s + v + value_in ?V is"
      "r' = Valid \<longleftrightarrow> (\<forall>i\<in>set is. mature ?V h (prevout i) \<and> 0 \<le> nValue (spent_output ?V (prevout i))) \<and>
        s + v + value_in ?V is \<le> nMaxMoneyOut"
      using Cons.IH [of c1 "s + v"] c1 Cons.prems(2,3) True by auto
    moreover have "csame c c'" by (rule csame_trans [OF r(2) ih(2)])
    ultimately show ?thesis using True v by (auto simp: value_in_def)
  next
    case False
    then have "\<exists>r s'. check_values ops h (i # is) s c = Inr ((r, s'), c1) \<and> r \<noteq> Valid"
      unfolding step using m w by (auto simp: MoneyRange_def)
    moreover have "0 \<le> value_in ?V is" if "\<forall>i\<in>set is. 0 \<le> nValue (spent_output ?V (prevout i))"
      unfolding value_in_def using that by (rule nonneg_sum_list)
    then have "\<not> ((\<forall>i\<in>set (i # is). mature ?V h (prevout i) \<and> 0 \<le> nValue (spent_output ?V (prevout i))) \<and>
        s + value_in ?V (i # is) \<le> nMaxMoneyOut)"
      using False v by (auto simp: value_in_def)
    ultimately show ?thesis using r(2) by blast
  qed
qed

lemma check_scripts:
  assumes "cinv c" "\<forall>k\<in>set ks. have_coins_for (cache_view view c) (prevout (vin tx ! k))"
  shows "\<exists>r c'. check_scripts ops verify tx fl ks c = Inr (r, c') \<and> csame c c' \<and>
    (r = Valid \<longleftrightarrow> (\<forall>k\<in>set ks. VerifyScript (tx_env verify fl tx k) (scriptSig (vin tx ! k))
        (scriptPubKey (spent_output (cache_view view c) (prevout (vin tx ! k)))) = Inr ()))"
  using assms
proof (induction ks arbitrary: c)
  case Nil
  then show ?case by (simp add: csame_refl)
next
  case (Cons k ks)
  let ?V = "cache_view view c" and ?p = "prevout (vin tx ! k)"
  obtain r c1 where r: "AccessCoins ops c (outhash ?p) = Inr (r, c1)" "csame c c1"
    "live r = ?V (outhash ?p)"
    using AccessCoins [OF Cons.prems(1)] by blast
  obtain coins where coins: "r = Some coins" "?V (outhash ?p) = Some coins" "unat (outn ?p) < length (cvout coins)"
    by (rule avail_view [where V = ?V and p = ?p and r = r, OF r(3)]) (use Cons.prems(2) in auto)
  have c1: "cinv c1" "cache_view view c1 = ?V" using csame_view [OF r(2)] by simp_all
  have s: "spent_output ?V ?p = cvout coins ! unat (outn ?p)" by (simp add: spent_output_def coins(2))
  show ?case
  proof (cases "VerifyScript (tx_env verify fl tx k) (scriptSig (vin tx ! k)) (scriptPubKey (spent_output ?V ?p)) = Inr ()")
    case True
    then have "check_scripts ops verify tx fl (k # ks) c = check_scripts ops verify tx fl ks c1"
      using coins(3) by (simp add: r(1) coins(1) s Let_def script_check_total)
    moreover obtain r' c' where ih: "check_scripts ops verify tx fl ks c1 = Inr (r', c')" "csame c1 c'"
      "r' = Valid \<longleftrightarrow> (\<forall>k\<in>set ks. VerifyScript (tx_env verify fl tx k) (scriptSig (vin tx ! k))
        (scriptPubKey (spent_output ?V (prevout (vin tx ! k)))) = Inr ())"
      using Cons.IH [of c1] c1 Cons.prems(2) by auto
    moreover have "csame c c'" by (rule csame_trans [OF r(2) ih(2)])
    ultimately show ?thesis using True by auto
  next
    case False
    then have "\<exists>r. check_scripts ops verify tx fl (k # ks) c = Inr (r, c1) \<and> r \<noteq> Valid"
      using coins(3) by (auto simp: r(1) coins(1) s Let_def script_check_total)
    then show ?thesis using r(2) False by auto
  qed
qed

lemma CheckInputs:
  assumes "cinv c" "has_inputs tx = Inr True" "idx (cache_tip tip c) = Some pindexPrev"
    "\<forall>txo\<in>set (vout tx). 0 \<le> nValue txo" "sum_list (map nValue (vout tx)) \<le> nMaxMoneyOut"
  shows "\<exists>r c'. CheckInputs ops verify idx fScriptChecks fl tx c = Inr (r, c') \<and> csame c c' \<and>
    (r = Valid \<longleftrightarrow>
      inputs_acceptable verify (cache_view view c) (int (iHeight pindexPrev) + 1) fScriptChecks fl tx)"
proof -
  let ?V = "cache_view view c" and ?h = "int (iHeight pindexPrev) + 1"
  obtain c1 where have_in: "HaveInputs ops c tx =
      Inr (list_all (have_coins_for ?V) (map prevout (vin tx)), c1)" and c1: "csame c c1"
  proof -
    have "HaveInputs ops c tx = have_inputs_loop ops (vin tx) c"
      using assms(2) by (auto simp: HaveInputs_def has_inputs_def bindE_eq_Inr split: if_splits)
    then show ?thesis using have_inputs_loop [OF assms(1), of "vin tx"] that by auto
  qed
  have c1v: "cinv c1" "cache_view view c1 = ?V" "cache_tip tip c1 = cache_tip tip c" using csame_view [OF c1] by simp_all
  show ?thesis
  proof (cases "\<forall>i\<in>set (vin tx). have_coins_for ?V (prevout i)")
    case False
    then have "CheckInputs ops verify idx fScriptChecks fl tx c = Inr (Invalid 0 0 '''', c1)"
      using assms(2) have_in by (auto simp: CheckInputs_def list_all_iff)
    then show ?thesis using False c1 by (auto simp: inputs_acceptable_def)
  next
    case True
    obtain c2 where c2: "GetBestBlock ops c1 = Inr (cache_tip tip c, c2)" "csame c c2"
      using GetBestBlock [OF c1v(1)] csame_trans [OF c1] c1v(3) by auto
    have c2v: "cinv c2" "cache_view view c2 = ?V" using csame_view [OF c2(2)] by simp_all
    obtain r s c3 where c3: "check_values ops ?h (vin tx) 0 c2 = Inr ((r, s), c3)" "csame c c3"
      "r = Valid \<longrightarrow> s = value_in ?V (vin tx)"
      "r = Valid \<longleftrightarrow> (\<forall>i\<in>set (vin tx). mature ?V ?h (prevout i) \<and> 0 \<le> nValue (spent_output ?V (prevout i))) \<and>
        value_in ?V (vin tx) \<le> nMaxMoneyOut"
    proof -
      have "(0::int) \<le> 0" "0 \<le> nMaxMoneyOut" by (simp_all add: nMaxMoneyOut_def)
      from check_values [OF c2v(1) _ this, of "vin tx" ?h] True show ?thesis
        using that csame_trans [OF c2(2)] unfolding c2v(2) add_0 by blast
    qed
    have run: "CheckInputs ops verify idx fScriptChecks fl tx c =
      (if r \<noteq> Valid then Inr (r, c3)
       else bindE (check_fee tx s) (\<lambda>v. if v \<noteq> Valid then Inr (v, c3)
         else if fScriptChecks then check_scripts ops verify tx fl [0..<length (vin tx)] c3 else Inr (Valid, c3)))"
      using True assms(2,3) by (simp add: CheckInputs_def have_in list_all_iff c2(1) c3(1))
    show ?thesis
    proof (cases "r = Valid")
      case False
      then show ?thesis using run c3 by (auto simp: inputs_acceptable_def)
    next
      case r: True
      have s: "s = value_in ?V (vin tx)" "s \<le> nMaxMoneyOut" using c3(3,4) r by simp_all
      have "0 \<le> s" unfolding s(1) value_in_def using c3(4) r by (intro nonneg_sum_list) auto
      then obtain f where f: "check_fee tx s = Inr f"
        "f = Valid \<longleftrightarrow> \<not> IsCoinStake tx \<longrightarrow> sum_list (map nValue (vout tx)) \<le> s"
        using check_fee_valid [OF _ s(2) assms(4,5)] by blast
      have c3v: "cinv c3" "cache_view view c3 = ?V" using csame_view [OF c3(2)] by simp_all
      have "\<forall>k\<in>set [0..<length (vin tx)]. have_coins_for ?V (prevout (vin tx ! k))" using True by simp
      then obtain q c4 where c4: "check_scripts ops verify tx fl [0..<length (vin tx)] c3 = Inr (q, c4)" "csame c c4"
        "q = Valid \<longleftrightarrow> (\<forall>k<length (vin tx). VerifyScript (tx_env verify fl tx k) (scriptSig (vin tx ! k))
          (scriptPubKey (spent_output ?V (prevout (vin tx ! k)))) = Inr ())"
        using check_scripts [OF c3v(1), of "[0..<length (vin tx)]" tx verify fl] csame_trans [OF c3(2)] that
        unfolding c3v(2) all_upt by blast
      show ?thesis
      proof (cases "f = Valid \<and> fScriptChecks")
        case True
        then show ?thesis using run r f c4 c3(4) s \<open>\<forall>i\<in>set (vin tx). have_coins_for ?V (prevout i)\<close>
          by (auto simp: inputs_acceptable_def)
      next
        case no: False
        then have "\<exists>q. CheckInputs ops verify idx fScriptChecks fl tx c = Inr (q, c3) \<and> (q = Valid \<longleftrightarrow> f = Valid)"
          using run r f by auto
        then show ?thesis using no c3(2,4) r f s True by (auto simp: inputs_acceptable_def)
      qed
    qed
  qed
qed

end

section \<open>From the checks to the connection\<close>

text \<open>A scriptSig that begins with OP_ZEROCOINSPEND does not run.\<close>

lemma EvalScript_ZEROCOINSPEND:
  assumes "IsZerocoinSpend s"
  shows "EvalScript env stk s \<noteq> Inr r"
proof -
  obtain b rest where s: "s = b # rest" "unat b = OP_ZEROCOINSPEND"
    using assms by (cases s) (auto simp: IsZerocoinSpend_def split: if_splits)
  have "b = of_nat 0xc2" using s(2) by (simp add: word_unat_eq_iff)
  then have g: "GetOp2 s = (True, 0xc2, [], rest)" using GetOp2_op [where opc = "0xc2"] by (simp add: s(1))
  have "eval_step env s \<lparr>stack = stk, altstack = [], vfExec = [], pbegincodehash = s, nOpCount = 0\<rparr> =
      serr SCRIPT_ERR_BAD_OPCODE"
    by (simp add: eval_step_def g Let_def count_op_def disabled_ops_def exec_op_def stack_op_def unary_ops_def
        binary_ops_def hash_ops_def)
  then show ?thesis by (simp add: EvalScript_def eval_loop.simps s(1))
qed

lemma VerifyScript_ZEROCOINSPEND: "VerifyScript env s p = Inr () \<Longrightarrow> \<not> IsZerocoinSpend s"
  using EvalScript_ZEROCOINSPEND [of s env "[]"] by (auto simp: VerifyScript_def bindE_eq_Inr split: if_splits)

lemma Spend_nth:
  assumes "Spend coins p = Some (coins', undo)" "m \<noteq> unat (outn p)" "IsAvailable coins m"
  shows "cvout coins' ! m = cvout coins ! m"
proof -
  define d where "d = coins\<lparr>cvout := (cvout coins)[unat (outn p) := CTxOut_null]\<rparr>"
  have "coins' = Cleanup d" using assms(1) by (auto simp: Spend_def Let_def d_def split: if_splits)
  then obtain k where "cvout d = cvout coins' @ k" using Cleanup_split [of d] by blast
  moreover have "m < length (cvout coins')" using Spend_avail [OF assms] by (simp add: IsAvailable_def)
  ultimately have "cvout coins' ! m = cvout d ! m" by (simp add: nth_append)
  then show ?thesis using assms(2) by (simp add: d_def)
qed

lemma spend_coins_outputs:
  assumes "spend_coins V ps = Some (us, V')" "list_all (have_coins_for V) ps" "distinct ps"
  shows "map utxout us = map (spent_output V) ps"
  using assms
proof (induction ps arbitrary: V us)
  case (Cons p ps)
  obtain coins where coins: "V (outhash p) = Some coins"
    using Cons.prems(2) by (auto simp: have_coins_for_def split: option.splits)
  obtain coins' u us' where s: "Spend coins p = Some (coins', u)"
    "spend_coins (V(outhash p := live (Some coins'))) ps = Some (us', V')" "us = u # us'"
    using Cons.prems(1) coins by (auto split: option.splits)
  let ?W = "V(outhash p := live (Some coins'))"
  have same: "have_coins_for ?W q \<and> spent_output ?W q = spent_output V q" if q: "q \<in> set ps" for q
  proof (cases "outhash q = outhash p")
    case True
    have "q \<noteq> p" using Cons.prems(3) q by auto
    then have n: "unat (outn q) \<noteq> unat (outn p)" using True by (auto intro!: COutPoint.equality simp: word_unat_eq_iff)
    have a: "IsAvailable coins (unat (outn q))"
      using Cons.prems(2) q True coins by (auto simp: have_coins_for_def list_all_iff)
    have a': "IsAvailable coins' (unat (outn q))" by (rule Spend_avail [OF s(1) n a])
    then have "\<not> IsPruned coins'" by (auto simp: IsAvailable_def IsPruned_def list_all_length)
    then show ?thesis using True coins a' Spend_nth [OF s(1) n a] by (simp add: have_coins_for_def spent_output_def live_def)
  next
    case False
    then show ?thesis using Cons.prems(2) q by (auto simp: have_coins_for_def spent_output_def list_all_iff)
  qed
  then have "list_all (have_coins_for ?W) ps" by (simp add: list_all_iff)
  moreover have "distinct ps" using Cons.prems(3) by simp
  ultimately have "map utxout us' = map (spent_output ?W) ps" using Cons.IH [OF s(2)] by blast
  moreover have "map (spent_output ?W) ps = map (spent_output V) ps" using same by simp
  moreover have "utxout u = spent_output V p"
    using s(1) coins by (auto simp: Spend_def spent_output_def Let_def split: if_splits)
  ultimately show ?case by (simp add: s(3))
qed simp

context coins_view
begin

lemma accepted_connects:
  assumes "cinv c" "has_inputs tx = Inr True" "idx (cache_tip tip c) = Some pindexPrev" "tx_coins_ok tx nHeight"
    "CheckTransaction mint_ok spend_ok nLastPOW chainHeight tx False = Inr Valid"
    "CheckInputs ops verify idx True fl tx c = Inr (Valid, c1)"
  shows "\<exists>undos c2. UpdateCoins ops tx nHeight c1 = Inr (undos, c2) \<and> cinv c2 \<and>
    map utxout undos = map (\<lambda>i. spent_output (cache_view view c) (prevout i)) (vin tx) \<and>
    (\<not> IsCoinStake tx \<longrightarrow> sum_list (map nValue (vout tx)) \<le> sum_list (map (nValue \<circ> utxout) undos))"
proof -
  let ?V = "cache_view view c"
  obtain cb where cb: "IsCoinBase tx = Inr cb" using has_inputs_coinbase [OF assms(2)] by blast
  have t: "tx_acceptable nLastPOW chainHeight tx cb" using CheckTransaction_iff [OF cb] assms(5) by blast
  have outs: "\<forall>txo\<in>set (vout tx). 0 \<le> nValue txo" "sum_list (map nValue (vout tx)) \<le> nMaxMoneyOut"
    using t by (simp_all add: tx_acceptable_def)
  have i: "inputs_acceptable verify ?V (int (iHeight pindexPrev) + 1) True fl tx" and c1: "csame c c1"
    using CheckInputs [where idx = idx and c = c and tx = tx and verify = verify and fScriptChecks = True and fl = fl,
        OF assms(1,2,3) outs] assms(6) by auto
  have "\<not> IsZerocoinSpend (scriptSig j)" if "j \<in> set (vin tx)" for j
    using i that by (auto simp: inputs_acceptable_def in_set_conv_nth dest!: VerifyScript_ZEROCOINSPEND)
  then have d: "distinct (map prevout (vin tx))"
    using t by (intro distinct_inputs) (auto simp: tx_acceptable_def)
  have h: "list_all (have_coins_for ?V) (map prevout (vin tx))"
    using i by (auto simp: inputs_acceptable_def list_all_iff)
  have c1v: "cinv c1" "cache_view view c1 = ?V" using csame_view [OF c1] by simp_all
  obtain us V' where us: "spend_coins ?V (map prevout (vin tx)) = Some (us, V')"
    using spend_coins_total [OF h d] by auto
  then obtain c2 where c2: "UpdateCoins ops tx nHeight c1 = Inr (us, c2)" "cinv c2"
    using UpdateCoins [OF c1v(1) assms(2,4)] by (auto simp: connect_view_def c1v(2))
  have m: "map utxout us = map (\<lambda>i. spent_output ?V (prevout i)) (vin tx)"
    using spend_coins_outputs [OF us h d] by simp
  then have "value_in ?V (vin tx) = sum_list (map (nValue \<circ> utxout) us)"
  proof -
    have "map (nValue \<circ> utxout) us = map nValue (map utxout us)" by simp
    then show ?thesis unfolding m value_in_def by (simp add: o_def)
  qed
  then show ?thesis using c2 m i by (auto simp: inputs_acceptable_def)
qed

end

section \<open>Inputs named twice\<close>

definition unspent_at :: "CCoins \<Rightarrow> nat \<Rightarrow> bool" where
  "unspent_at coins m \<longleftrightarrow> m < length (cvout coins) \<and> \<not> CTxOut_IsNull (cvout coins ! m)"

definition unspent :: "utxos \<Rightarrow> COutPoint \<Rightarrow> bool" where
  "unspent V p \<longleftrightarrow> (case V (outhash p) of None \<Rightarrow> False | Some coins \<Rightarrow> unspent_at coins (unat (outn p)))"

lemma Spend_unspent:
  assumes "Spend coins p = Some (coins', undo)" "unspent_at coins' m"
  shows "m \<noteq> unat (outn p) \<and> unspent_at coins m"
proof -
  define d where "d = coins\<lparr>cvout := (cvout coins)[unat (outn p) := CTxOut_null]\<rparr>"
  have "coins' = Cleanup d" using assms(1) by (auto simp: Spend_def Let_def d_def split: if_splits)
  then obtain k where k: "cvout d = cvout coins' @ k" using Cleanup_split [of d] by blast
  then have "m < length (cvout d)" "\<not> CTxOut_IsNull (cvout d ! m)"
    using assms(2) by (simp_all add: unspent_at_def nth_append)
  moreover have "length (cvout d) = length (cvout coins)" by (simp add: d_def)
  ultimately show ?thesis by (cases "m = unat (outn p)") (auto simp: d_def unspent_at_def)
qed

lemma unspent_Spend:
  assumes "V (outhash q) = Some coins" "Spend coins q = Some (coins', u)"
    "unspent (V(outhash q := live (Some coins'))) p"
  shows "p \<noteq> q \<and> unspent V p"
proof (cases "outhash p = outhash q")
  case True
  then have "unspent_at coins' (unat (outn p))"
    using assms(3) by (auto simp: unspent_def live_def split: if_splits)
  from Spend_unspent [OF assms(2) this] show ?thesis using True assms(1) by (auto simp: unspent_def)
next
  case False
  then show ?thesis using assms(3) by (auto simp: unspent_def)
qed

lemma spend_coins_distinct:
  "spend_coins V ps \<noteq> None \<Longrightarrow> list_all (unspent V) ps \<and> distinct ps"
proof (induction ps arbitrary: V)
  case (Cons q ps)
  obtain coins coins' u where s: "V (outhash q) = Some coins" "Spend coins q = Some (coins', u)"
    "spend_coins (V(outhash q := live (Some coins'))) ps \<noteq> None"
    using Cons.prems by (auto split: option.splits)
  have "unspent V q"
    using s(1,2) by (auto simp: unspent_def unspent_at_def Spend_def Let_def split: if_splits)
  moreover have "p \<noteq> q \<and> unspent V p" if "p \<in> set ps" for p
    using Cons.IH [OF s(3)] that unfolding list_all_iff by (intro unspent_Spend [where V = V, OF s(1,2)]) blast
  moreover have "distinct ps" using Cons.IH [OF s(3)] by blast
  ultimately show ?case by (auto simp: list_all_iff)
qed simp

context coins_view
begin

lemma UpdateCoins_iff:
  assumes "cinv c" "has_inputs tx = Inr True" "tx_coins_ok tx nHeight"
    "list_all (have_coins_for (cache_view view c)) (map prevout (vin tx))"
  shows "(\<exists>r. UpdateCoins ops tx nHeight c = Inr r) \<longleftrightarrow> distinct (map prevout (vin tx))"
    and "UpdateCoins ops tx nHeight c = Inl e \<Longrightarrow> e = Abort"
  using UpdateCoins [OF assms(1-3)] spend_coins_distinct [of "cache_view view c" "map prevout (vin tx)"]
    spend_coins_total [OF assms(4)]
  by (auto simp: connect_view_def split: option.splits)

text \<open>CheckTransaction does not remember the outpoint of an input whose scriptSig begins with
OP_ZEROCOINSPEND.  With script checks off (before the last checkpoint) such a transaction may name
an output twice: its value counts twice, and UpdateCoins then runs into its assertion.\<close>

lemma duplicate_aborts:
  assumes "cinv c" "idx (cache_tip tip c) = Some pindexPrev" "vin tx = [i, j]" "prevout i = prevout j"
    "IsZerocoinSpend (scriptSig i)" "IsZerocoinSpend (scriptSig j)" "outhash (prevout i) \<noteq> 0"
    "vout tx = [txo]" "0 \<le> nValue txo" "nValue txo \<le> nMaxMoneyOut" "\<not> CTxOut_IsEmpty txo"
    "length (put_CTransaction tx) \<le> 150000" "tx_coins_ok tx nHeight"
    "have_coins_for (cache_view view c) (prevout i)"
    "mature (cache_view view c) (int (iHeight pindexPrev) + 1) (prevout i)"
    "0 \<le> nValue (spent_output (cache_view view c) (prevout i))"
    "2 * nValue (spent_output (cache_view view c) (prevout i)) \<le> nMaxMoneyOut"
    "nValue txo \<le> 2 * nValue (spent_output (cache_view view c) (prevout i))"
  shows "\<exists>c1. CheckTransaction mint_ok spend_ok nLastPOW chainHeight tx False = Inr Valid \<and>
    CheckInputs ops verify idx False fl tx c = Inr (Valid, c1) \<and> UpdateCoins ops tx nHeight c1 = Inl Abort"
proof -
  let ?V = "cache_view view c"
  have cb: "IsCoinBase tx = Inr False" by (simp add: IsCoinBase_def assms(3))
  have stake: "\<not> IsCoinStake tx" by (simp add: IsCoinStake_def assms(3,8))
  have hi: "has_inputs tx = Inr True" using cb assms(7) by (simp add: has_inputs_def IsZerocoinSpend_tx_def assms(3))
  have "tx_acceptable nLastPOW chainHeight tx False"
    using assms(5,6,9-12) by (simp add: tx_acceptable_def assms(3,8))
  then have t: "CheckTransaction mint_ok spend_ok nLastPOW chainHeight tx False = Inr Valid"
    using CheckTransaction_iff [OF cb] by blast
  have ia: "inputs_acceptable verify ?V (int (iHeight pindexPrev) + 1) False fl tx"
    using assms(14-18) by (simp add: inputs_acceptable_def value_in_def assms(3,8) flip: assms(4))
  have outs: "\<forall>txo\<in>set (vout tx). 0 \<le> nValue txo" "sum_list (map nValue (vout tx)) \<le> nMaxMoneyOut"
    using assms(9,10) by (simp_all add: assms(8))
  obtain c1 where c1: "CheckInputs ops verify idx False fl tx c = Inr (Valid, c1)" "csame c c1"
    using CheckInputs [where idx = idx and c = c and tx = tx and verify = verify and fScriptChecks = False
        and fl = fl, OF assms(1) hi assms(2) outs] ia by auto
  have "\<not> distinct (map prevout (vin tx))" using assms(3,4) by simp
  then have "UpdateCoins ops tx nHeight c1 = Inl Abort"
    using UpdateCoins_iff [of c1, OF _ hi assms(13)] csame_view [OF c1(2)] ia
    by (cases "UpdateCoins ops tx nHeight c1") (auto simp: inputs_acceptable_def list_all_iff)
  then show ?thesis using t c1(1) by blast
qed

end

end
