(* ===== verification/BlockChecks.thy ===== *)
theory BlockChecks
  imports TxChecks
begin

text \<open>
  The checks of headers and blocks in main.cpp: CheckBlockHeader, CheckBlock, ContextualCheckBlockHeader,
  ContextualCheckBlock and AcceptBlockHeader, the checkpoints of checkpoints.cpp and the validation status
  of an index entry (chain.h).  What other threads and modules provide (the adjusted time, the transaction
  locks, the masternode payments, whether the node is still synchronizing) is the record \<open>node_env\<close>.
\<close>

section \<open>The validation state\<close>

datatype mode_state = MODE_VALID | MODE_INVALID | MODE_ERROR

record CValidationState =
  vmode :: mode_state
  nDoS :: int
  strRejectReason :: string
  chRejectCode :: nat
  corruptionPossible :: bool

definition CValidationState_init :: CValidationState where
  "CValidationState_init = \<lparr>vmode = MODE_VALID, nDoS = 0, strRejectReason = '''', chRejectCode = 0,
     corruptionPossible = False\<rparr>"

definition DoS :: "nat \<Rightarrow> nat \<Rightarrow> string \<Rightarrow> bool \<Rightarrow> CValidationState \<Rightarrow> CValidationState" where
  "DoS level chRejectCodeIn strRejectReasonIn corruptionIn st =
     (let st = st\<lparr>chRejectCode := chRejectCodeIn, strRejectReason := strRejectReasonIn, corruptionPossible := corruptionIn\<rparr> in
      if vmode st = MODE_ERROR then st else st\<lparr>nDoS := nDoS st + int level, vmode := MODE_INVALID\<rparr>)"

definition state_Error :: "string \<Rightarrow> CValidationState \<Rightarrow> CValidationState" where
  "state_Error strRejectReasonIn st =
     (if vmode st = MODE_VALID then st\<lparr>strRejectReason := strRejectReasonIn\<rparr> else st)\<lparr>vmode := MODE_ERROR\<rparr>"

definition state_IsValid :: "CValidationState \<Rightarrow> bool" where "state_IsValid st \<longleftrightarrow> vmode st = MODE_VALID"
definition state_IsInvalid :: "CValidationState \<Rightarrow> bool" where "state_IsInvalid st \<longleftrightarrow> vmode st = MODE_INVALID"

text \<open>A check answers None when it passes, or the arguments of the call of DoS it ends with (a call of
Invalid has level 0); the last field says that the block is entered in mapRejectedBlocks.\<close>

datatype reject = Reject (rLevel: nat) (rCode: nat) (rReason: string) (rCorruption: bool) (rRecord: bool)

definition reject_state :: "reject \<Rightarrow> CValidationState \<Rightarrow> CValidationState" where
  "reject_state r = DoS (rLevel r) (rCode r) (rReason r) (rCorruption r)"

definition both :: "fault + reject option \<Rightarrow> fault + reject option \<Rightarrow> fault + reject option" where
  "both a b = bindE a (\<lambda>r. if r = None then b else Inr r)"

definition REJECT_OBSOLETE :: nat where "REJECT_OBSOLETE = 0x11"
definition REJECT_CHECKPOINT :: nat where "REJECT_CHECKPOINT = 0x43"
definition MAX_BLOCK_SIZE_CURRENT :: nat where "MAX_BLOCK_SIZE_CURRENT = 2000000"
definition MAX_BLOCK_SIZE_LEGACY :: nat where "MAX_BLOCK_SIZE_LEGACY = 1000000"
definition MAX_BLOCK_SIGOPS_CURRENT :: nat where "MAX_BLOCK_SIGOPS_CURRENT = MAX_BLOCK_SIZE_CURRENT div 50"
definition MAX_BLOCK_SIGOPS_LEGACY :: nat where "MAX_BLOCK_SIGOPS_LEGACY = MAX_BLOCK_SIZE_LEGACY div 50"

section \<open>Checkpoints\<close>

text \<open>A map of checkpoints is the list of its entries by height.\<close>

type_synonym checkpoints = "(nat \<times> uint256) list"

definition Checkpoints_CheckBlock :: "bool \<Rightarrow> checkpoints \<Rightarrow> nat \<Rightarrow> uint256 \<Rightarrow> bool \<Rightarrow> bool" where
  "Checkpoints_CheckBlock fEnabled cps nHeight hash fMatchesCheckpoint =
     (if \<not> fEnabled then True
      else case map_of cps nHeight of None \<Rightarrow> \<not> fMatchesCheckpoint | Some h \<Rightarrow> hash = h)"

definition GetTotalBlocksEstimate :: "bool \<Rightarrow> checkpoints \<Rightarrow> nat" where
  "GetTotalBlocksEstimate fEnabled cps = (if \<not> fEnabled then 0 else fst (last cps))"

fun last_known :: "(uint256 \<rightharpoonup> CBlockIndex) \<Rightarrow> checkpoints \<Rightarrow> CBlockIndex option" where
  "last_known idx [] = None"
| "last_known idx ((n, h) # cps) = (case idx h of Some p \<Rightarrow> Some p | None \<Rightarrow> last_known idx cps)"

definition GetLastCheckpoint :: "bool \<Rightarrow> checkpoints \<Rightarrow> (uint256 \<rightharpoonup> CBlockIndex) \<Rightarrow> CBlockIndex option" where
  "GetLastCheckpoint fEnabled cps idx = (if \<not> fEnabled then None else last_known idx (rev cps))"

definition mapCheckpoints :: checkpoints where
  "mapCheckpoints =
    [(0, 0x0000028b94db22c97211ba15866bc2c9bc0daa7e9ac410a6c9660d8be19915c7),
     (6942, 0x00000010c715f94b9bfe7666f1f81b4bf20c4cb1fcd67a8c75305d6bf9372a20),
     (30000, 0x00000000c568c33cf4b881a256e779e7c73b7e326db2f603a0ce16277506baa5),
     (60000, 0x000000000222d4eb292e05aa35b4959f0705c77520d5e3c4980172988483db36),
     (101000, 0xdf8bbe946d173b8bb266ddec0195dc415baadd332dfbedd79b4668ba69893aac),
     (170000, 0xdfb4f14e31f62318ada32144417258b7ce040865343477641aabb0ff739508f1),
     (252000, 0xb9e9141619cd48dddbd75a033f171b3cd9317f748d6a1ba8ce455ad2662c28d2),
     (312987, 0x5d3dda2359f5e8c33b6eddd1a5cd35a4c8ac8036f779160176b4bfdb672da84c),
     (320547, 0xb5746d774e01cd391b685c45b67e49bd10dd982594ca9db07753672a0eecae9e),
     (338259, 0x2d8d514a8d25b12d539be6d3f19203ba775eda6089509ffaa2d2170f4db814e1),
     (342484, 0x04256ee6229e65c0d8062dae8a25ff8e6157e036f0b5cddfce2e8998d1057ff0),
     (349570, 0xd3ceb4f4434405b96317b3f79bbd635a1417e7c4af12785fb43068c326e6b69b),
     (360000, 0x904a75d6e111b00c0e94479e9d272c23aef8ec558361c1e8f8ff093513e9980a),
     (370000, 0xc81e26ff2c0a4ff9cec7b2f667ae154d3bb9833b1ccc10ac14553e91030b064c),
     (380000, 0x9e587de3dca3fa15dfac3af358ecb5c896a3b0fa021bc79fe29525d3367dec2c),
     (390000, 0x88164f10e6ba197ccc8dc32bf9e2441a0cf2311c190939e323302eb9965cd5b4),
     (400000, 0x45f68b8dbe1afab2463833c1fcc6a1b4917b285cc7fdfc488630057f6ca78382),
     (410000, 0xf1fd391eb2878532c7958e02819a3ae5641211f1f43b836def4646a3d051f25d),
     (420000, 0x96530e94fc0921bf6a954c3f366749f6e773b6d5be4797bf8dedc6072fcfe011),
     (430000, 0xc2da688b535bdfa4a5f829c8b7bb7e7b5f6e19e50db5643d4e4fde9246b0da94),
     (440000, 0xb6c52c601a9f3781f23b4700e1c5ee118e0b1f82e4fc75a0e8e65188cf38c007),
     (450000, 0x1d5559decf22861804c5ff4572ba8bdd05a42c356ddbe590fdcf6a54ce7565b2),
     (460000, 0xfe910c6017e8349c9fac63b967718759a9c16a4ef68987d4273dd672687be46f),
     (470000, 0x4c369c57e17b7cd8ce33c38ab019341455116f58cae73a8aca63f11345ffe84c),
     (500000, 0x352480dd2ec41b69dfe138526c922f3a6ba3f4628fb4cc878c032d6493da99bf),
     (525000, 0xa5cf438567d529633fe91e00eac011346241a283c9e997240a7fb0c4c1c46494),
     (550000, 0x49130b13d34c47ed1e4d2b9f4fadf7864570831afe6f37de7661f3a4cfa6d7e6),
     (575000, 0x7837882bb3742737a85978c4ba97d4e691b97c0538df93d3cbde55153bfcd771),
     (600000, 0xfb527a83cbd736c044925c6103907663688db52e58254a7fd37c85a8687803ba),
     (625000, 0x5a11fe53a3cf5b5957b01c49d4d1c1ca07ad8aca9e236cfac41dc8e28c4a9288),
     (650000, 0xc196df73ff3a98a99c2e9ea203400133b1d72e1ba5141e0b900885501b256de4),
     (675000, 0x68e61725462ffc2ab981765f5f9b6ea4c31fa9326f646fc60a316640b388f696),
     (700000, 0x6494a0123faffe104a2803b98ec0c90f2696f0bb5d8e8ea9cc1fa2e0ee500b19)]"

section \<open>The environment\<close>

record node_env =
  net :: CChainParams
  hashGenesis :: uint256
  cps :: checkpoints
  fCheckpoints :: bool
  nZerocoinStartTime :: int
  nZerocoinHeaderVersion :: int
  nMaxReorgDepth :: int
  Quark :: "bytes \<Rightarrow> uint256"
  adjustedTime :: int
  nodeTime :: int
  fSwiftTX :: bool
  mapLockedInputs :: "COutPoint \<rightharpoonup> uint256"
  fInitialDownload :: bool
  PayeeValid :: "CBlock \<Rightarrow> nat \<Rightarrow> bool"
  MintOk :: "CTxOut \<Rightarrow> bool"
  SpendOk :: "CTransaction \<Rightarrow> bool"
  Serial :: "CTxIn \<Rightarrow> nat"

definition block_hash :: "node_env \<Rightarrow> CBlock \<Rightarrow> uint256" where
  "block_hash env b = header_hash (Quark env) (bheader b)"

abbreviation (input) BlockTime :: "CBlock \<Rightarrow> int" where "BlockTime b \<equiv> uint (hTime (bheader b))"

section \<open>CheckBlockHeader and CheckBlock\<close>

definition CheckBlockHeader :: "node_env \<Rightarrow> CBlock \<Rightarrow> bool \<Rightarrow> reject option" where
  "CheckBlockHeader env b fCheckPOW =
     (let h = bheader b in
      if fCheckPOW \<and> \<not> CheckProofOfWork (net env) (block_hash env b) (hBits h)
      then Some (Reject 50 REJECT_INVALID ''high-hash'' False False)
      else if BlockTime b > nZerocoinStartTime env then
        (if hVersion h < nZerocoinHeaderVersion env then Some (Reject 50 REJECT_INVALID ''block-version'' False False) else None)
      else if hVersion h \<ge> nZerocoinHeaderVersion env then Some (Reject 50 REJECT_INVALID ''block-version'' False False)
      else None)"

definition check_time :: "node_env \<Rightarrow> CBlock \<Rightarrow> reject option" where
  "check_time env b =
     (if BlockTime b > adjustedTime env + (if IsProofOfStake (vtx b) then 180 else 7200)
      then Some (Reject 0 REJECT_INVALID ''time-too-new'' False False) else None)"

definition check_merkle :: "bool \<Rightarrow> CBlock \<Rightarrow> reject option" where
  "check_merkle fCheckMerkleRoot b =
     (if fCheckMerkleRoot then
        (case BuildMerkleTree (map GetHash (vtx b)) of (tree, mutated) \<Rightarrow>
           if hashMerkleRoot (bheader b) \<noteq> merkle_tree_root tree then Some (Reject 100 REJECT_INVALID ''bad-txnmrklroot'' True False)
           else if mutated then Some (Reject 100 REJECT_INVALID ''bad-txns-duplicate'' True False) else None)
      else None)"

definition check_size :: "CBlock \<Rightarrow> reject option" where
  "check_size b =
     (if vtx b = [] \<or> length (vtx b) > MAX_BLOCK_SIZE_CURRENT \<or> length (put_block b) > MAX_BLOCK_SIZE_CURRENT
      then Some (Reject 100 REJECT_INVALID ''bad-blk-length'' False False) else None)"

fun any_coinbase :: "CTransaction list \<Rightarrow> fault + bool" where
  "any_coinbase [] = Inr False"
| "any_coinbase (tx # txs) = bindE (IsCoinBase tx) (\<lambda>cb. if cb then Inr True else any_coinbase txs)"

definition check_coinbase :: "CBlock \<Rightarrow> fault + reject option" where
  "check_coinbase b =
     bindE (case vtx b of [] \<Rightarrow> Inr False | tx # _ \<Rightarrow> IsCoinBase tx) (\<lambda>cb.
     if \<not> cb then Inr (Some (Reject 100 REJECT_INVALID ''bad-cb-missing'' False False))
     else bindE (any_coinbase (tl (vtx b))) (\<lambda>m.
       Inr (if m then Some (Reject 100 REJECT_INVALID ''bad-cb-multiple'' False False) else None)))"

definition check_stake_layout :: "CBlock \<Rightarrow> reject option" where
  "check_stake_layout b =
     (if IsProofOfStake (vtx b) then
        (if length (vout (vtx b ! 0)) \<noteq> 1 \<or> \<not> CTxOut_IsEmpty (vout (vtx b ! 0) ! 0) then Some (Reject 100 0 '''' False False)
         else if vtx b = [] \<or> \<not> IsCoinStake (vtx b ! 1) then Some (Reject 100 0 '''' False False)
         else if list_ex IsCoinStake (drop 2 (vtx b)) then Some (Reject 100 0 '''' False False)
         else None)
      else None)"

definition lock_conflict :: "node_env \<Rightarrow> CTransaction \<Rightarrow> CTxIn \<Rightarrow> bool" where
  "lock_conflict env tx i = (case mapLockedInputs env (prevout i) of None \<Rightarrow> False | Some h \<Rightarrow> h \<noteq> GetHash tx)"

fun check_locks :: "node_env \<Rightarrow> CTransaction list \<Rightarrow> fault + reject option" where
  "check_locks env [] = Inr None"
| "check_locks env (tx # txs) =
     bindE (IsCoinBase tx) (\<lambda>cb.
       if \<not> cb \<and> list_ex (lock_conflict env tx) (vin tx)
       then Inr (Some (Reject 0 REJECT_INVALID ''conflicting-tx-ix'' False True))
       else check_locks env txs)"

definition check_payee :: "node_env \<Rightarrow> (uint256 \<rightharpoonup> CBlockIndex) \<Rightarrow> CChain \<Rightarrow> CBlock \<Rightarrow> reject option" where
  "check_payee env idx chainActive b =
     (case Tip False chainActive of
        None \<Rightarrow> None
      | Some tip \<Rightarrow>
          let nHeight = (if blockHash tip = hashPrevBlock (bheader b) then iHeight tip + 1
            else case idx (hashPrevBlock (bheader b)) of None \<Rightarrow> 0 | Some p \<Rightarrow> iHeight p + 1) in
          if nHeight \<noteq> 0 \<and> \<not> fInitialDownload env \<and> \<not> PayeeValid env b nHeight
          then Some (Reject 0 REJECT_INVALID ''bad-cb-payee'' False True) else None)"

text \<open>The serials of the zerocoin spends of the block: None when one comes twice.\<close>

fun add_serials :: "node_env \<Rightarrow> CTxIn list \<Rightarrow> nat list \<Rightarrow> nat list option" where
  "add_serials env [] vBlockSerials = Some vBlockSerials"
| "add_serials env (i # is) vBlockSerials =
     (if IsZerocoinSpend (scriptSig i) then
        (if Serial env i \<in> set vBlockSerials then None else add_serials env is (vBlockSerials @ [Serial env i]))
      else add_serials env is vBlockSerials)"

fun check_txs :: "node_env \<Rightarrow> int \<Rightarrow> bool \<Rightarrow> CTransaction list \<Rightarrow> nat list \<Rightarrow> fault + reject option" where
  "check_txs env chainHeight fZerocoinActive [] vBlockSerials = Inr None"
| "check_txs env chainHeight fZerocoinActive (tx # txs) vBlockSerials =
     bindE (CheckTransaction (MintOk env) (SpendOk env) (nLastPOWBlock (net env)) chainHeight tx fZerocoinActive) (\<lambda>v.
     case v of
       Invalid d c r \<Rightarrow> Inr (Some (Reject d c r False False))
     | Valid \<Rightarrow>
         bindE (IsZerocoinSpend_tx tx) (\<lambda>zs.
           if zs then
             (case add_serials env (vin tx) vBlockSerials of
                None \<Rightarrow> Inr (Some (Reject 100 0 '''' False False))
              | Some vBlockSerials \<Rightarrow> check_txs env chainHeight fZerocoinActive txs vBlockSerials)
           else check_txs env chainHeight fZerocoinActive txs vBlockSerials))"

definition check_sigops :: "bool \<Rightarrow> CBlock \<Rightarrow> reject option" where
  "check_sigops fZerocoinActive b =
     (let nSigOps = foldl (\<lambda>n tx. n + GetLegacySigOpCount tx) 0 (vtx b);
          nMaxBlockSigOps = (if fZerocoinActive then MAX_BLOCK_SIGOPS_CURRENT else MAX_BLOCK_SIGOPS_LEGACY) in
      if nSigOps > nMaxBlockSigOps then Some (Reject 100 REJECT_INVALID ''bad-blk-sigops'' True False) else None)"

text \<open>The checks after the header, in their order.\<close>

definition check_body ::
  "node_env \<Rightarrow> (uint256 \<rightharpoonup> CBlockIndex) \<Rightarrow> CChain \<Rightarrow> CBlock \<Rightarrow> bool \<Rightarrow> fault + reject option" where
  "check_body env idx chainActive b fCheckMerkleRoot =
     (let fZerocoinActive = BlockTime b > nZerocoinStartTime env in
      both (Inr (check_time env b))
     (both (Inr (check_merkle fCheckMerkleRoot b))
     (both (Inr (check_size b))
     (both (check_coinbase b)
     (both (Inr (check_stake_layout b))
     (both (if fSwiftTX env then check_locks env (vtx b) else Inr None)
     (both (Inr (check_payee env idx chainActive b))
     (both (check_txs env (Height chainActive) fZerocoinActive (vtx b) [])
           (Inr (check_sigops fZerocoinActive b))))))))))"

definition CheckBlock ::
  "node_env \<Rightarrow> (uint256 \<rightharpoonup> CBlockIndex) \<Rightarrow> CChain \<Rightarrow> CBlock \<Rightarrow> bool \<Rightarrow> bool \<Rightarrow> CValidationState \<Rightarrow>
   (uint256 \<rightharpoonup> int) \<Rightarrow> fault + bool \<times> CValidationState \<times> (uint256 \<rightharpoonup> int)" where
  "CheckBlock env idx chainActive b fCheckPOW fCheckMerkleRoot st mapRejectedBlocks =
     (if block_hash env b = hashGenesis env then Inr (True, st, mapRejectedBlocks)
      else case CheckBlockHeader env b (fCheckPOW \<and> IsProofOfWork (vtx b)) of
        Some r \<Rightarrow> Inr (False, DoS 100 REJECT_INVALID ''bad-header'' True (reject_state r st), mapRejectedBlocks)
      | None \<Rightarrow>
          bindE (check_body env idx chainActive b fCheckMerkleRoot) (\<lambda>c. Inr (case c of
            None \<Rightarrow> (True, st, mapRejectedBlocks)
          | Some r \<Rightarrow> (False, reject_state r st,
              if rRecord r \<and> mapRejectedBlocks (block_hash env b) = None
              then mapRejectedBlocks(block_hash env b \<mapsto> nodeTime env) else mapRejectedBlocks))))"

section \<open>The checks in the context of the chain\<close>

definition ContextualCheckBlockHeader ::
  "node_env \<Rightarrow> (uint256 \<rightharpoonup> CBlockIndex) \<Rightarrow> CChain \<Rightarrow> CBlock \<Rightarrow> CBlockIndex option \<Rightarrow> fault + reject option" where
  "ContextualCheckBlockHeader env idx chainActive b pindexPrev =
     (let hash = block_hash env b in
      if hash = hashGenesis env then Inr None
      else case pindexPrev of None \<Rightarrow> Inl Abort | Some p \<Rightarrow>
      let nHeight = iHeight p + 1;
          majority = (\<lambda>v. IsSuperMajority (nToCheckBlockUpgradeMajority (net env)) v (Some p)
            (nRejectBlockOutdatedMajority (net env))) in
      Inr (if Height chainActive - int nHeight \<ge> nMaxReorgDepth env then Some (Reject 100 0 '''' False False)
      else if BlockTime b \<le> int (GetMedianTimePast p) then Some (Reject 0 REJECT_INVALID ''time-too-old'' False False)
      else if \<not> Checkpoints_CheckBlock (fCheckpoints env) (cps env) nHeight hash False
      then Some (Reject 100 REJECT_CHECKPOINT ''checkpoint mismatch'' False False)
      else if (case GetLastCheckpoint (fCheckpoints env) (cps env) idx of None \<Rightarrow> False | Some c \<Rightarrow> nHeight < iHeight c)
      then Some (Reject 0 0 '''' False False)
      else if hVersion (bheader b) < 2 \<and> majority 2 then Some (Reject 0 REJECT_OBSOLETE ''bad-version'' False False)
      else if hVersion (bheader b) < 3 \<and> majority 3 then Some (Reject 0 REJECT_OBSOLETE ''bad-version'' False False)
      else None))"

definition ContextualCheckBlock :: "node_env \<Rightarrow> CChain \<Rightarrow> CBlock \<Rightarrow> CBlockIndex option \<Rightarrow> fault + reject option" where
  "ContextualCheckBlock env chainActive b pindexPrev =
     (let nHeight = (case pindexPrev of None \<Rightarrow> 0 | Some p \<Rightarrow> iHeight p + 1) in
      if \<not> list_all (\<lambda>tx. IsFinalTx (Height chainActive) (adjustedTime env) tx (int nHeight) (BlockTime b)) (vtx b)
      then Inr (Some (Reject 10 REJECT_INVALID ''bad-txns-nonfinal'' False False))
      else if hVersion (bheader b) \<ge> 2 \<and>
        IsSuperMajority (nToCheckBlockUpgradeMajority (net env)) 2 pindexPrev (nEnforceBlockUpgradeMajority (net env))
      then (case vtx b of [] \<Rightarrow> Inl Abort | tx # _ \<Rightarrow> (case vin tx of [] \<Rightarrow> Inl Abort | i # _ \<Rightarrow>
        let expect = push_int64 [] (int nHeight) in
        Inr (if length (scriptSig i) < length expect \<or> take (length expect) (scriptSig i) \<noteq> expect
             then Some (Reject 100 REJECT_INVALID ''bad-cb-height'' False False) else None)))
      else Inr None)"

section \<open>Accepting a header\<close>

text \<open>The status of the entries, which changes after they are added.\<close>

definition BLOCK_VALID_TREE :: "32 word" where "BLOCK_VALID_TREE = 2"
definition BLOCK_VALID_MASK :: "32 word" where "BLOCK_VALID_MASK = 1 OR 2 OR 3 OR 4 OR 5"
definition BLOCK_FAILED_MASK :: "32 word" where "BLOCK_FAILED_MASK = 32 OR 64"

definition index_IsValid :: "32 word \<Rightarrow> 32 word \<Rightarrow> fault + bool" where
  "index_IsValid nStatus nUpTo =
     (if nUpTo AND NOT BLOCK_VALID_MASK \<noteq> 0 then Inl Abort
      else if nStatus AND BLOCK_FAILED_MASK \<noteq> 0 then Inr False
      else Inr (nStatus AND BLOCK_VALID_MASK \<ge> nUpTo))"

definition RaiseValidity :: "32 word \<Rightarrow> 32 word \<Rightarrow> fault + bool \<times> 32 word" where
  "RaiseValidity nStatus nUpTo =
     (if nUpTo AND NOT BLOCK_VALID_MASK \<noteq> 0 then Inl Abort
      else if nStatus AND BLOCK_FAILED_MASK \<noteq> 0 then Inr (False, nStatus)
      else if nStatus AND BLOCK_VALID_MASK < nUpTo
      then Inr (True, (nStatus AND NOT BLOCK_VALID_MASK) OR nUpTo)
      else Inr (False, nStatus))"

record HeaderState =
  index :: BlockIndexState
  blockStatus :: "uint256 \<Rightarrow> 32 word"

definition failed :: "HeaderState \<Rightarrow> CBlockIndex \<Rightarrow> bool" where
  "failed hs p \<longleftrightarrow> blockStatus hs (blockHash p) AND BLOCK_FAILED_MASK \<noteq> 0"

text \<open>\<open>reconsider\<close> is the branch that reconsiders a failed parent that is a checkpoint; pindex is the
variable of the code, NULL until the entry is added.\<close>

definition AcceptBlockHeader ::
  "node_env \<Rightarrow> 64 word \<Rightarrow> (HeaderState \<Rightarrow> CBlockIndex \<Rightarrow> HeaderState option) \<Rightarrow> CChain \<Rightarrow> CBlock \<Rightarrow> CValidationState \<Rightarrow>
   HeaderState \<Rightarrow> fault + bool \<times> CBlockIndex option \<times> CValidationState \<times> HeaderState" where
  "AcceptBlockHeader env literal reconsider chainActive b st hs =
     (let hash = block_hash env b; idx = mapBlockIndex (index hs); pindex = (None :: CBlockIndex option) in
      case idx hash of
        Some p \<Rightarrow>
          Inr (if failed hs p then (False, Some p, DoS 0 0 ''duplicate'' False st, hs) else (True, Some p, st, hs))
      | None \<Rightarrow>
      case CheckBlockHeader env b False of Some r \<Rightarrow> Inr (False, None, reject_state r st, hs) | None \<Rightarrow>
      let add = (\<lambda>pindexPrev.
        bindE (ContextualCheckBlockHeader env idx chainActive b pindexPrev) (\<lambda>c. case c of
          Some r \<Rightarrow> Inr (False, None, reject_state r st, hs)
        | None \<Rightarrow>
            bindE (AddToBlockIndex (Quark env) literal (hashGenesis env) (index hs) b) (\<lambda>(ix, p).
            bindE (RaiseValidity 0 BLOCK_VALID_TREE) (\<lambda>(_, status).
              Inr (True, Some p, st, \<lparr>index = ix, blockStatus = (blockStatus hs)(hash := status)\<rparr>))))) in
      if hash = hashGenesis env then add None
      else case idx (hashPrevBlock (bheader b)) of
        None \<Rightarrow> Inr (False, None, DoS 0 0 ''bad-prevblk'' False st, hs)
      | Some p \<Rightarrow>
          if failed hs p then
            (let invalid = Inr (False, None, DoS 100 REJECT_INVALID ''bad-prevblk'' False st, hs) in
             case pindex of None \<Rightarrow> invalid | Some q \<Rightarrow>
               if Checkpoints_CheckBlock (fCheckpoints env) (cps env) (iHeight q - 1) (hashPrevBlock (bheader b)) True
               then (case reconsider hs p of None \<Rightarrow> invalid | Some hs \<Rightarrow> Inr (True, None, st, hs))
               else invalid)
          else add (Some p))"

section \<open>What CheckBlock accepts\<close>

lemma both_None: "both a b = Inr None \<longleftrightarrow> a = Inr None \<and> b = Inr None"
  by (cases a) (auto simp: both_def)

lemma both_cong: "both (Inr None) b = b"
  by (simp add: both_def)

lemma check_time_None: "check_time env b = None \<longleftrightarrow>
  BlockTime b \<le> adjustedTime env + (if IsProofOfStake (vtx b) then 180 else 7200)"
  by (simp add: check_time_def)

lemma check_merkle_None: "check_merkle fCheckMerkleRoot b = None \<longleftrightarrow>
  (fCheckMerkleRoot \<longrightarrow> hashMerkleRoot (bheader b) = merkle_root (map GetHash (vtx b)) \<and> \<not> merkle_mutated (map GetHash (vtx b)))"
  using BuildMerkleTree_root [of "map GetHash (vtx b)"]
  by (auto simp: check_merkle_def split: prod.splits)

lemma check_size_None: "check_size b = None \<longleftrightarrow>
  vtx b \<noteq> [] \<and> length (vtx b) \<le> MAX_BLOCK_SIZE_CURRENT \<and> length (put_block b) \<le> MAX_BLOCK_SIZE_CURRENT"
  by (auto simp: check_size_def)

lemma any_coinbase_False: "any_coinbase txs = Inr False \<longleftrightarrow> (\<forall>tx\<in>set txs. IsCoinBase tx = Inr False)"
proof (induction txs)
  case (Cons tx txs)
  then show ?case by (cases "IsCoinBase tx") auto
qed simp

lemma check_coinbase_None: "vtx b \<noteq> [] \<Longrightarrow> check_coinbase b = Inr None \<longleftrightarrow>
  IsCoinBase (hd (vtx b)) = Inr True \<and> (\<forall>tx\<in>set (tl (vtx b)). IsCoinBase tx = Inr False)"
  unfolding any_coinbase_False [symmetric]
  by (cases "IsCoinBase (hd (vtx b))"; cases "any_coinbase (tl (vtx b))")
    (auto simp: check_coinbase_def neq_Nil_conv split: if_splits)

lemma check_stake_layout_None: "check_stake_layout b = None \<longleftrightarrow> (IsProofOfStake (vtx b) \<longrightarrow>
  length (vout (hd (vtx b))) = 1 \<and> CTxOut_IsEmpty (hd (vout (hd (vtx b)))) \<and>
  list_all (\<lambda>tx. \<not> IsCoinStake tx) (drop 2 (vtx b)))"
proof (cases "IsProofOfStake (vtx b)")
  case True
  then have "vtx b \<noteq> []" "IsCoinStake (vtx b ! 1)" by (auto simp: IsProofOfStake_def)
  moreover have "vtx b ! 0 = hd (vtx b)" using calculation by (simp add: hd_conv_nth)
  moreover have "length xs = 1 \<Longrightarrow> xs ! 0 = hd xs" for xs :: "CTxOut list" by (cases xs) auto
  ultimately show ?thesis using True by (auto simp: check_stake_layout_def list_all_iff list_ex_iff)
qed (simp add: check_stake_layout_def)

lemma check_locks_None: "check_locks env txs = Inr None \<longleftrightarrow>
  (\<forall>tx\<in>set txs. IsCoinBase tx = Inr True \<or> (IsCoinBase tx = Inr False \<and> \<not> list_ex (lock_conflict env tx) (vin tx)))"
proof (induction txs)
  case (Cons tx txs)
  then show ?case by (cases "IsCoinBase tx") auto
qed simp

text \<open>The serials of the zerocoin spends in the order CheckBlock collects them.\<close>

definition spent_serials :: "node_env \<Rightarrow> CTransaction \<Rightarrow> nat list" where
  "spent_serials env tx = (if IsZerocoinSpend_tx tx = Inr True
     then map (Serial env) (filter (\<lambda>i. IsZerocoinSpend (scriptSig i)) (vin tx)) else [])"

lemma add_serials_eq: "distinct acc \<Longrightarrow> add_serials env is acc =
  (let new = map (Serial env) (filter (\<lambda>i. IsZerocoinSpend (scriptSig i)) is) in
   if distinct (acc @ new) then Some (acc @ new) else None)"
proof (induction "is" arbitrary: acc)
  case (Cons i "is")
  show ?case
  proof (cases "IsZerocoinSpend (scriptSig i) \<and> Serial env i \<notin> set acc")
    case True
    then show ?thesis using Cons.IH [of "acc @ [Serial env i]"] Cons.prems by (auto simp: Let_def)
  next
    case False
    then show ?thesis using Cons.IH [of acc] Cons.prems by (auto simp: Let_def)
  qed
qed simp

lemma check_txs_None: "distinct acc \<Longrightarrow> check_txs env h z txs acc = Inr None \<longleftrightarrow>
  (\<forall>tx\<in>set txs. CheckTransaction (MintOk env) (SpendOk env) (nLastPOWBlock (net env)) h tx z = Inr Valid \<and>
     \<not> isl (IsZerocoinSpend_tx tx)) \<and>
  distinct (acc @ concat (map (spent_serials env) txs))"
proof (induction txs arbitrary: acc)
  case (Cons tx txs)
  let ?c = "CheckTransaction (MintOk env) (SpendOk env) (nLastPOWBlock (net env)) h tx z"
  show ?case
  proof (cases "?c = Inr Valid")
    case False
    then have "check_txs env h z (tx # txs) acc \<noteq> Inr None" by (cases ?c) (auto split: verdict.splits)
    then show ?thesis using False by auto
  next
    case c: True
    show ?thesis
    proof (cases "IsZerocoinSpend_tx tx")
      case (Inl e)
      then show ?thesis using c by simp
    next
      case (Inr zs)
      show ?thesis
      proof (cases zs)
        case z: True
        let ?s = "spent_serials env tx"
        have s: "?s = map (Serial env) (filter (\<lambda>i. IsZerocoinSpend (scriptSig i)) (vin tx))"
          using Inr z by (simp add: spent_serials_def)
        have add: "add_serials env (vin tx) acc = (if distinct (acc @ ?s) then Some (acc @ ?s) else None)"
          unfolding s using add_serials_eq [OF Cons.prems, of env "vin tx"] by (simp only: Let_def)
        show ?thesis
        proof (cases "distinct (acc @ ?s)")
          case True
          then have "add_serials env (vin tx) acc = Some (acc @ ?s)" unfolding add by (simp only: if_True)
          then have "check_txs env h z (tx # txs) acc = check_txs env h z txs (acc @ ?s)" using c Inr z by simp
          then show ?thesis using c Inr Cons.IH [OF True] by simp
        next
          case False
          then have "add_serials env (vin tx) acc = None" unfolding add by (simp only: if_False)
          then have "check_txs env h z (tx # txs) acc \<noteq> Inr None" using c Inr z by simp
          moreover have "\<not> distinct (acc @ concat (map (spent_serials env) (tx # txs)))" using False by auto
          ultimately show ?thesis by blast
        qed
      next
        case False
        then show ?thesis using c Inr Cons.IH [OF Cons.prems] by (simp add: spent_serials_def)
      qed
    qed
  qed
qed simp

lemma foldl_sum: "foldl (\<lambda>n x. n + f x) (a :: nat) xs = a + sum_list (map f xs)"
  by (induction xs arbitrary: a) auto

lemma check_sigops_None: "check_sigops z b = None \<longleftrightarrow>
  sum_list (map GetLegacySigOpCount (vtx b)) \<le> (if z then 40000 else 20000)"
  by (auto simp: check_sigops_def foldl_sum MAX_BLOCK_SIGOPS_CURRENT_def MAX_BLOCK_SIGOPS_LEGACY_def
    MAX_BLOCK_SIZE_CURRENT_def MAX_BLOCK_SIZE_LEGACY_def)

text \<open>What a block other than the first one has to satisfy.\<close>

definition header_fine :: "node_env \<Rightarrow> CBlock \<Rightarrow> bool" where
  "header_fine env b \<longleftrightarrow>
     (BlockTime b > nZerocoinStartTime env \<longleftrightarrow> hVersion (bheader b) \<ge> nZerocoinHeaderVersion env)"

definition transactions_fine :: "node_env \<Rightarrow> CChain \<Rightarrow> CBlock \<Rightarrow> bool" where
  "transactions_fine env chainActive b \<longleftrightarrow>
     (let z = BlockTime b > nZerocoinStartTime env in
      IsCoinBase (hd (vtx b)) = Inr True \<and> (\<forall>tx\<in>set (tl (vtx b)). IsCoinBase tx = Inr False) \<and>
      (\<forall>tx\<in>set (vtx b). CheckTransaction (MintOk env) (SpendOk env) (nLastPOWBlock (net env)) (Height chainActive) tx z = Inr Valid \<and>
         \<not> isl (IsZerocoinSpend_tx tx)) \<and>
      distinct (concat (map (spent_serials env) (vtx b))) \<and>
      sum_list (map GetLegacySigOpCount (vtx b)) \<le> (if z then 40000 else 20000))"

lemma CheckBlockHeader_None: "CheckBlockHeader env b fCheckPOW = None \<longleftrightarrow>
  (fCheckPOW \<longrightarrow> CheckProofOfWork (net env) (block_hash env b) (hBits (bheader b))) \<and> header_fine env b"
  by (auto simp: CheckBlockHeader_def header_fine_def Let_def)

lemma coinbase_known: "IsCoinBase (hd txs) = Inr True \<Longrightarrow> \<forall>tx\<in>set (tl txs). IsCoinBase tx = Inr False \<Longrightarrow> txs \<noteq> [] \<Longrightarrow>
  check_locks env txs = Inr None \<longleftrightarrow> (\<forall>tx\<in>set (tl txs). \<forall>i\<in>set (vin tx). \<not> lock_conflict env tx i)"
  by (cases txs) (auto simp: check_locks_None list_ex_iff)

text \<open>The propositional part of the next theorem.\<close>

lemma join_checks:
  assumes "A \<longleftrightarrow> H \<and> B" "B \<longleftrightarrow> t \<and> m \<and> s \<and> cb \<and> l \<and> lk \<and> p \<and> x \<and> g"
    and "x \<and> g \<and> c1 \<and> c2 \<longleftrightarrow> T" "ne \<Longrightarrow> c1 \<Longrightarrow> c2 \<Longrightarrow> lk \<longleftrightarrow> lk'" "ne \<Longrightarrow> cb \<longleftrightarrow> c1 \<and> c2"
    and "s \<longleftrightarrow> ne \<and> l1 \<and> l2"
  shows "A \<longleftrightarrow> H \<and> t \<and> m \<and> ne \<and> l1 \<and> l2 \<and> l \<and> lk' \<and> p \<and> T"
  using assms by argo

theorem CheckBlock_iff:
  assumes "block_hash env b \<noteq> hashGenesis env"
  shows "(\<exists>st' rej'. CheckBlock env idx chainActive b fCheckPOW fCheckMerkleRoot st rej = Inr (True, st', rej')) \<longleftrightarrow>
    (fCheckPOW \<and> IsProofOfWork (vtx b) \<longrightarrow> CheckProofOfWork (net env) (block_hash env b) (hBits (bheader b))) \<and>
    header_fine env b \<and>
    BlockTime b \<le> adjustedTime env + (if IsProofOfStake (vtx b) then 180 else 7200) \<and>
    (fCheckMerkleRoot \<longrightarrow> hashMerkleRoot (bheader b) = merkle_root (map GetHash (vtx b)) \<and>
       \<not> merkle_mutated (map GetHash (vtx b))) \<and>
    vtx b \<noteq> [] \<and> length (vtx b) \<le> 2000000 \<and> length (put_block b) \<le> 2000000 \<and>
    (IsProofOfStake (vtx b) \<longrightarrow> length (vout (hd (vtx b))) = 1 \<and> CTxOut_IsEmpty (hd (vout (hd (vtx b)))) \<and>
       list_all (\<lambda>tx. \<not> IsCoinStake tx) (drop 2 (vtx b))) \<and>
    (fSwiftTX env \<longrightarrow> (\<forall>tx\<in>set (tl (vtx b)). \<forall>i\<in>set (vin tx). \<not> lock_conflict env tx i)) \<and>
    check_payee env idx chainActive b = None \<and>
    transactions_fine env chainActive b"
proof -
  let ?z = "BlockTime b > nZerocoinStartTime env"
  have "(\<exists>st' rej'. CheckBlock env idx chainActive b fCheckPOW fCheckMerkleRoot st rej = Inr (True, st', rej')) \<longleftrightarrow>
    CheckBlockHeader env b (fCheckPOW \<and> IsProofOfWork (vtx b)) = None \<and>
    check_body env idx chainActive b fCheckMerkleRoot = Inr None"
    using assms
    by (cases "check_body env idx chainActive b fCheckMerkleRoot")
      (auto simp: CheckBlock_def split: option.splits)
  moreover have "check_body env idx chainActive b fCheckMerkleRoot = Inr None \<longleftrightarrow>
    check_time env b = None \<and> check_merkle fCheckMerkleRoot b = None \<and> check_size b = None \<and>
    check_coinbase b = Inr None \<and> check_stake_layout b = None \<and>
    (fSwiftTX env \<longrightarrow> check_locks env (vtx b) = Inr None) \<and> check_payee env idx chainActive b = None \<and>
    check_txs env (Height chainActive) ?z (vtx b) [] = Inr None \<and> check_sigops ?z b = None"
    by (simp add: check_body_def Let_def both_None)
  moreover have "check_txs env (Height chainActive) ?z (vtx b) [] = Inr None \<and> check_sigops ?z b = None \<and>
      IsCoinBase (hd (vtx b)) = Inr True \<and> (\<forall>tx\<in>set (tl (vtx b)). IsCoinBase tx = Inr False) \<longleftrightarrow>
    transactions_fine env chainActive b"
    unfolding check_sigops_None transactions_fine_def Let_def
    using check_txs_None [of "[]" env "Height chainActive" ?z "vtx b"]
    by (simp only: distinct.simps append_Nil) blast
  moreover have "(fSwiftTX env \<longrightarrow> check_locks env (vtx b) = Inr None) \<longleftrightarrow>
      (fSwiftTX env \<longrightarrow> (\<forall>tx\<in>set (tl (vtx b)). \<forall>i\<in>set (vin tx). \<not> lock_conflict env tx i))"
    if "vtx b \<noteq> []" "IsCoinBase (hd (vtx b)) = Inr True" "\<forall>tx\<in>set (tl (vtx b)). IsCoinBase tx = Inr False"
    using coinbase_known [OF that(2,3,1), of env] by simp
  moreover have "vtx b \<noteq> [] \<Longrightarrow> check_coinbase b = Inr None \<longleftrightarrow>
      IsCoinBase (hd (vtx b)) = Inr True \<and> (\<forall>tx\<in>set (tl (vtx b)). IsCoinBase tx = Inr False)"
    by (rule check_coinbase_None)
  moreover have "check_size b = None \<longleftrightarrow> vtx b \<noteq> [] \<and> length (vtx b) \<le> 2000000 \<and> length (put_block b) \<le> 2000000"
    by (simp add: check_size_None MAX_BLOCK_SIZE_CURRENT_def)
  ultimately have "(\<exists>st' rej'. CheckBlock env idx chainActive b fCheckPOW fCheckMerkleRoot st rej = Inr (True, st', rej')) \<longleftrightarrow>
    CheckBlockHeader env b (fCheckPOW \<and> IsProofOfWork (vtx b)) = None \<and> check_time env b = None \<and>
    check_merkle fCheckMerkleRoot b = None \<and> vtx b \<noteq> [] \<and> length (vtx b) \<le> 2000000 \<and> length (put_block b) \<le> 2000000 \<and>
    check_stake_layout b = None \<and>
    (fSwiftTX env \<longrightarrow> (\<forall>tx\<in>set (tl (vtx b)). \<forall>i\<in>set (vin tx). \<not> lock_conflict env tx i)) \<and>
    check_payee env idx chainActive b = None \<and> transactions_fine env chainActive b"
    by (rule join_checks)
  then show ?thesis
    unfolding CheckBlockHeader_None check_time_None check_merkle_None check_stake_layout_None conj_assoc .
qed

lemma DoS_state: "vmode st \<noteq> MODE_ERROR \<Longrightarrow>
  vmode (DoS n c r k st) = MODE_INVALID \<and> nDoS (DoS n c r k st) = nDoS st + int n \<and>
  chRejectCode (DoS n c r k st) = c \<and> corruptionPossible (DoS n c r k st) = k"
  by (simp add: DoS_def Let_def)

theorem CheckBlock_verdict:
  assumes "CheckBlock env idx chainActive b fCheckPOW fCheckMerkleRoot st rej = Inr (ok, st', rej')" "vmode st \<noteq> MODE_ERROR"
  shows "(ok \<longrightarrow> st' = st \<and> rej' = rej) \<and> (\<not> ok \<longrightarrow> state_IsInvalid st' \<and> nDoS st \<le> nDoS st') \<and>
    rej \<subseteq>\<^sub>m rej'"
proof (cases "check_body env idx chainActive b fCheckMerkleRoot")
  case (Inl e)
  then show ?thesis using assms
    by (auto simp: CheckBlock_def state_IsInvalid_def DoS_state reject_state_def split: if_splits option.splits)
next
  case (Inr c)
  then show ?thesis using assms
    by (cases c)
      (auto simp: CheckBlock_def state_IsInvalid_def DoS_state reject_state_def map_le_def split: if_splits option.splits)
qed

text \<open>Two accepted blocks with one root hold the same transactions, unless SHA-256 has a second preimage.\<close>

theorem CheckBlock_same_root:
  assumes "\<exists>st' rej'. CheckBlock env idx c b fCheckPOW True st rej = Inr (True, st', rej')"
    and "\<exists>st' rej'. CheckBlock env' idx' c' b' fCheckPOW' True st2 rej2 = Inr (True, st', rej')"
    and "block_hash env b \<noteq> hashGenesis env" "block_hash env' b' \<noteq> hashGenesis env'"
    and "hashMerkleRoot (bheader b) = hashMerkleRoot (bheader b')"
    and "length (levels (map GetHash (vtx b))) = length (levels (map GetHash (vtx b')))"
  shows "map GetHash (vtx b) = map GetHash (vtx b') \<or> second_preimage (tree_nodes (map GetHash (vtx b)))"
proof -
  have "hashMerkleRoot (bheader b) = merkle_root (map GetHash (vtx b))" "\<not> merkle_mutated (map GetHash (vtx b))" "vtx b \<noteq> []"
    using assms(1) unfolding CheckBlock_iff [OF assms(3)] by blast+
  moreover have "hashMerkleRoot (bheader b') = merkle_root (map GetHash (vtx b'))" "\<not> merkle_mutated (map GetHash (vtx b'))"
    "vtx b' \<noteq> []"
    using assms(2) unfolding CheckBlock_iff [OF assms(4)] by blast+
  ultimately show ?thesis
    using merkle_root_inj [of "map GetHash (vtx b)" "map GetHash (vtx b')" "tree_nodes (map GetHash (vtx b))"] assms(5,6)
    by (metis list.map_disc_iff order_refl)
qed

section \<open>Median times\<close>

theorem GetMedianTimePast_mono:
  assumes "pprev p = Some q" "GetMedianTimePast q < unat (iTime p)"
  shows "GetMedianTimePast q \<le> GetMedianTimePast p"
proof (rule ccontr)
  let ?t = "\<lambda>p. past_times nMedianTimeSpan p"
  let ?m = "GetMedianTimePast q"
  assume "\<not> ?thesis"
  then have less: "GetMedianTimePast p < ?m" by simp
  have t: "?t p = unat (iTime p) # past_times 10 q" using assms(1) by (simp add: nMedianTimeSpan_def eval_nat_numeral)
  have q: "past_times 10 q = take 10 (?t q)"
    by (simp add: past_times_recent nMedianTimeSpan_def take_map min_def)
  have lq: "length (?t q) \<le> 11" by (simp add: past_times_recent nMedianTimeSpan_def)
  have split: "length xs = length (filter (\<lambda>t. m \<le> t) xs) + length (filter (\<lambda>t. t < m) xs)" for m :: nat and xs
    by (induction xs) auto
  have high: "length (?t q) \<le> 2 * length (filter (\<lambda>t. ?m \<le> t) (?t q))"
    using GetMedianTimePast_median(3) [of q] by (simp add: past_times_recent)
  have low: "length (?t p) < 2 * length (filter (\<lambda>t. t \<le> GetMedianTimePast p) (?t p))"
    using GetMedianTimePast_median(2) [of p] by (simp add: past_times_recent)
  have le: "length (filter P xs) \<le> length (filter Q xs)" if "\<And>t. P t \<Longrightarrow> Q t" for P Q and xs :: "nat list"
    using that by (induction xs) auto
  have "length (filter (\<lambda>t. t \<le> GetMedianTimePast p) (?t p)) \<le> length (filter (\<lambda>t. t < ?m) (?t p))"
    by (rule le) (use less in simp)
  also have "\<dots> = length (filter (\<lambda>t. t < ?m) (take 10 (?t q)))" using assms(2) unfolding t q by simp
  finally have a: "length (?t p) < 2 * length (filter (\<lambda>t. t < ?m) (take 10 (?t q)))" using low by simp
  have "length (filter (\<lambda>t. t < ?m) (take 10 (?t q) @ drop 10 (?t q))) \<ge> length (filter (\<lambda>t. t < ?m) (take 10 (?t q)))"
    unfolding filter_append by simp
  then have "length (filter (\<lambda>t. t < ?m) (take 10 (?t q))) \<le> length (filter (\<lambda>t. t < ?m) (?t q))" by simp
  moreover have "length (?t p) = Suc (min 10 (length (?t q)))" unfolding t q by simp
  ultimately show False using a high lq split [of "?t q" ?m] by linarith
qed

section \<open>The header index\<close>

text \<open>What AcceptBlockHeader keeps: every entry but the first one was checked in the context of its parent.\<close>

definition entry_fine :: "node_env \<Rightarrow> CBlockIndex \<Rightarrow> bool" where
  "entry_fine env p \<longleftrightarrow> (case pprev p of
       None \<Rightarrow> blockHash p = hashGenesis env
     | Some q \<Rightarrow> GetMedianTimePast q < unat (iTime p) \<and>
         Checkpoints_CheckBlock (fCheckpoints env) (cps env) (iHeight p) (blockHash p) False)"

definition header_inv :: "node_env \<Rightarrow> HeaderState \<Rightarrow> bool" where
  "header_inv env hs \<longleftrightarrow> index_inv (Quark env) (index hs) \<and>
     mapBlockIndex (index hs) (hashGenesis env) \<noteq> None \<and>
     (\<forall>h p. mapBlockIndex (index hs) h = Some p \<longrightarrow> entry_fine env p)"

lemma new_entry_fields:
  assumes "AddToBlockIndex HashQuark literal hashGenesisBlock st b = Inr (st', p)"
    and "mapBlockIndex st (header_hash HashQuark (bheader b)) = None"
    and "mapBlockIndex st (hashPrevBlock (bheader b)) = Some q"
  shows "mapBlockIndex st' = (mapBlockIndex st)(header_hash HashQuark (bheader b) \<mapsto> p) \<and>
    pprev p = Some q \<and> iTime p = hTime (bheader b) \<and> iHeight p = iHeight q + 1 \<and>
    blockHash p = header_hash HashQuark (bheader b) \<and> iVersion p = hVersion (bheader b)"
  using assms
  by (auto simp: AddToBlockIndex_def linked_entry_def Let_def new_entry_def bindE_eq_Inr split: if_splits)

lemma ContextualCheckBlockHeader_None:
  assumes "block_hash env b \<noteq> hashGenesis env"
    "ContextualCheckBlockHeader env idx chainActive b (Some p) = Inr None"
  shows "int (GetMedianTimePast p) < BlockTime b \<and>
    Checkpoints_CheckBlock (fCheckpoints env) (cps env) (iHeight p + 1) (block_hash env b) False"
  using assms by (simp add: ContextualCheckBlockHeader_def Let_def split: if_splits)

lemma RaiseValidity_new: "RaiseValidity 0 BLOCK_VALID_TREE = Inr (True, BLOCK_VALID_TREE)"
  by (simp add: RaiseValidity_def BLOCK_VALID_TREE_def BLOCK_VALID_MASK_def BLOCK_FAILED_MASK_def)

lemma ContextualCheckBlockHeader_total: "\<exists>r. ContextualCheckBlockHeader env idx chainActive b (Some p) = Inr r"
  by (simp add: ContextualCheckBlockHeader_def Let_def)

text \<open>The cases of AcceptBlockHeader for a block that is not known yet.\<close>

lemma AcceptBlockHeader_new:
  assumes "mapBlockIndex (index hs) (block_hash env b) = None" "block_hash env b \<noteq> hashGenesis env"
  shows "AcceptBlockHeader env literal reconsider chainActive b st hs =
    (case CheckBlockHeader env b False of
       Some r \<Rightarrow> Inr (False, None, reject_state r st, hs)
     | None \<Rightarrow> case mapBlockIndex (index hs) (hashPrevBlock (bheader b)) of
         None \<Rightarrow> Inr (False, None, DoS 0 0 ''bad-prevblk'' False st, hs)
       | Some q \<Rightarrow>
           if failed hs q then Inr (False, None, DoS 100 REJECT_INVALID ''bad-prevblk'' False st, hs)
           else case projr (ContextualCheckBlockHeader env (mapBlockIndex (index hs)) chainActive b (Some q)) of
             Some r \<Rightarrow> Inr (False, None, reject_state r st, hs)
           | None \<Rightarrow> bindE (AddToBlockIndex (Quark env) literal (hashGenesis env) (index hs) b) (\<lambda>(ix, p).
               Inr (True, Some p, st, \<lparr>index = ix,
                 blockStatus = (blockStatus hs)(block_hash env b := BLOCK_VALID_TREE)\<rparr>)))"
proof (cases "mapBlockIndex (index hs) (hashPrevBlock (bheader b))")
  case None
  then show ?thesis using assms by (simp add: AcceptBlockHeader_def Let_def split: option.splits)
next
  case (Some q)
  obtain r where "ContextualCheckBlockHeader env (mapBlockIndex (index hs)) chainActive b (Some q) = Inr r"
    using ContextualCheckBlockHeader_total by blast
  then show ?thesis using assms Some
    by (simp add: AcceptBlockHeader_def Let_def RaiseValidity_new split: option.splits)
qed

theorem AcceptBlockHeader_inv:
  assumes inv: "header_inv env hs" and hdr: "header_ok (bheader b)"
  shows "\<exists>ok pindex st' hs'. AcceptBlockHeader env literal reconsider chainActive b st hs = Inr (ok, pindex, st', hs') \<and>
    header_inv env hs' \<and> mapBlockIndex (index hs) \<subseteq>\<^sub>m mapBlockIndex (index hs') \<and>
    (ok \<longrightarrow> st' = st \<and> (\<exists>p. pindex = Some p \<and> mapBlockIndex (index hs') (block_hash env b) = Some p \<and> \<not> failed hs' p)) \<and>
    (\<not> ok \<longrightarrow> hs' = hs)"
proof (cases "mapBlockIndex (index hs) (block_hash env b)")
  case (Some p)
  then show ?thesis using inv by (cases "failed hs p") (auto simp: AcceptBlockHeader_def Let_def)
next
  case None
  let ?hash = "block_hash env b" and ?prev = "mapBlockIndex (index hs) (hashPrevBlock (bheader b))"
  have ng: "?hash \<noteq> hashGenesis env" using None inv by (auto simp: header_inv_def)
  note new = AcceptBlockHeader_new [OF None ng, of literal reconsider chainActive st]
  show ?thesis
  proof (cases "CheckBlockHeader env b False = None \<and> (\<exists>q. ?prev = Some q \<and> \<not> failed hs q \<and>
      ContextualCheckBlockHeader env (mapBlockIndex (index hs)) chainActive b (Some q) = Inr None)")
    case False
    have "\<exists>st'. AcceptBlockHeader env literal reconsider chainActive b st hs = Inr (False, None, st', hs)"
    proof (cases ?prev)
      case None
      then show ?thesis by (cases "CheckBlockHeader env b False") (simp_all add: new)
    next
      case (Some q)
      obtain r where "ContextualCheckBlockHeader env (mapBlockIndex (index hs)) chainActive b (Some q) = Inr r"
        using ContextualCheckBlockHeader_total by blast
      then show ?thesis using False Some
        by (cases "CheckBlockHeader env b False"; cases r; cases "failed hs q") (simp_all add: new)
    qed
    then show ?thesis using inv by auto
  next
    case True
    then obtain q where q: "?prev = Some q" "\<not> failed hs q"
      "ContextualCheckBlockHeader env (mapBlockIndex (index hs)) chainActive b (Some q) = Inr None"
      and h: "CheckBlockHeader env b False = None" by blast
    obtain ix p where add: "AddToBlockIndex (Quark env) literal (hashGenesis env) (index hs) b = Inr (ix, p)"
      "index_inv (Quark env) ix" "mapBlockIndex (index hs) \<subseteq>\<^sub>m mapBlockIndex ix" "mapBlockIndex ix ?hash = Some p"
      using AddToBlockIndex_inv [of "Quark env" "index hs" b literal "hashGenesis env"] inv hdr q(1)
      by (auto simp: header_inv_def block_hash_def)
    let ?hs = "\<lparr>index = ix, blockStatus = (blockStatus hs)(?hash := BLOCK_VALID_TREE)\<rparr>"
    have acc: "AcceptBlockHeader env literal reconsider chainActive b st hs = Inr (True, Some p, st, ?hs)"
      unfolding new by (simp add: h q add(1))
    note f = new_entry_fields [OF add(1) None [unfolded block_hash_def] q(1), folded block_hash_def]
    note ctx = ContextualCheckBlockHeader_None [OF ng q(3)]
    have "int (GetMedianTimePast q) < int (unat (hTime (bheader b)))" using ctx by simp
    then have "GetMedianTimePast q < unat (iTime p)" using f by (simp only: of_nat_less_iff)
    then have "entry_fine env p" using ctx f by (simp add: entry_fine_def)
    then have "\<forall>h r. mapBlockIndex ix h = Some r \<longrightarrow> entry_fine env r"
      using inv f unfolding header_inv_def by (metis fun_upd_apply option.inject)
    moreover have "mapBlockIndex ix (hashGenesis env) \<noteq> None"
      using inv add(3) unfolding header_inv_def map_le_def dom_def by (metis (mono_tags) mem_Collect_eq)
    ultimately have "header_inv env ?hs" using add(2) by (simp add: header_inv_def)
    moreover have "\<not> failed ?hs p" using f
      by (simp add: failed_def BLOCK_VALID_TREE_def BLOCK_FAILED_MASK_def)
    ultimately show ?thesis using acc add(3,4) by auto
  qed
qed

text \<open>What the invariant gives for a chain of the index.\<close>

lemma header_inv_path:
  assumes "header_inv env hs" "mapBlockIndex (index hs) h = Some p" "q \<in> set (path p)"
  shows "entry_fine env q \<and> mapBlockIndex (index hs) (blockHash q) = Some q"
  using assms unfolding header_inv_def index_inv_def by blast

lemma sorted_le_last: "sorted xs \<Longrightarrow> x \<in> set xs \<Longrightarrow> x \<le> last xs"
  by (induction xs) (auto split: if_splits)

theorem chain_times:
  assumes "header_inv env hs" "mapBlockIndex (index hs) h = Some p"
  shows "sorted (map GetMedianTimePast (path p))"
proof -
  have "index_ok p" using assms by (auto simp: header_inv_def index_inv_def)
  moreover have "\<forall>q\<in>set (path p). entry_fine env q" using header_inv_path [OF assms] by blast
  ultimately show ?thesis
  proof (induction rule: index_ok.induct)
    case (genesis p)
    then show ?case by (simp add: path.simps [of p])
  next
    case (child p r)
    have p: "path p = path r @ [p]" using child.hyps(1) by (simp add: path.simps [of p])
    have r: "sorted (map GetMedianTimePast (path r))" using child.IH child.prems p by simp
    have "GetMedianTimePast r \<le> GetMedianTimePast p"
      using child.prems child.hyps(1) p by (intro GetMedianTimePast_mono) (simp_all add: entry_fine_def)
    moreover have "\<forall>x\<in>set (map GetMedianTimePast (path r)). x \<le> GetMedianTimePast r"
      using sorted_le_last [OF r] by (simp add: last_map)
    ultimately show ?case unfolding p using r by (auto simp: sorted_append intro: order_trans)
  qed
qed

theorem chain_checkpoints:
  assumes "header_inv env hs" "mapBlockIndex (index hs) h = Some p" "fCheckpoints env"
    and "map_of (cps env) n = Some cp" "0 < n" "n \<le> iHeight p"
  shows "blockHash (path p ! n) = cp"
proof -
  have ok: "index_ok p" using assms(1,2) by (auto simp: header_inv_def index_inv_def)
  let ?q = "path p ! n"
  have m: "?q \<in> set (path p)" using assms(6) length_path [OF ok] by simp
  have hq: "index_ok ?q" "iHeight ?q = n" using path_prefix [OF ok assms(6)] by auto
  have "entry_fine env ?q" using header_inv_path [OF assms(1,2) m] by blast
  moreover have "pprev ?q \<noteq> None" using hq assms(5) by (cases rule: index_ok.cases) auto
  ultimately show ?thesis using hq(2) assms(3,4) by (auto simp: entry_fine_def Checkpoints_CheckBlock_def)
qed

text \<open>A header whose parent is marked as failed is refused, also when the parent is a checkpoint: the
branch that would reconsider the parent is never taken.\<close>

theorem AcceptBlockHeader_failed_parent:
  assumes "mapBlockIndex (index hs) (block_hash env b) = None" "block_hash env b \<noteq> hashGenesis env"
    and "CheckBlockHeader env b False = None" "mapBlockIndex (index hs) (hashPrevBlock (bheader b)) = Some q" "failed hs q"
  shows "AcceptBlockHeader env literal reconsider chainActive b st hs =
    Inr (False, None, DoS 100 REJECT_INVALID ''bad-prevblk'' False st, hs)"
  using AcceptBlockHeader_new [OF assms(1,2), of literal reconsider chainActive st] assms(3-5) by simp

text \<open>The last checkpoint that is known is the highest checkpoint whose block is in the index.\<close>

lemma last_known_Some: "last_known idx cs = Some p \<Longrightarrow>
  \<exists>n h xs ys. cs = xs @ (n, h) # ys \<and> idx h = Some p \<and> (\<forall>(m, k)\<in>set xs. idx k = None)"
proof (induction cs)
  case (Cons c cs)
  obtain n h where c: "c = (n, h)" by (cases c) auto
  show ?case
  proof (cases "idx h")
    case None
    then obtain n' h' xs ys where "cs = xs @ (n', h') # ys" "idx h' = Some p" "\<forall>(m, k)\<in>set xs. idx k = None"
      using Cons c by auto
    then show ?thesis using None c by (intro exI [of _ n'] exI [of _ h'] exI [of _ "c # xs"] exI [of _ ys]) auto
  next
    case (Some q)
    then show ?thesis using Cons.prems c by (intro exI [of _ n] exI [of _ h] exI [of _ "[]"] exI [of _ cs]) simp
  qed
qed simp

theorem GetLastCheckpoint_highest:
  assumes "sorted_wrt (<) (map fst cs)" "GetLastCheckpoint True cs idx = Some p"
  shows "\<exists>n h. (n, h) \<in> set cs \<and> idx h = Some p \<and> (\<forall>(m, k)\<in>set cs. n < m \<longrightarrow> idx k = None)"
proof -
  obtain n h xs ys where e: "rev cs = xs @ (n, h) # ys" "idx h = Some p" "\<forall>(m, k)\<in>set xs. idx k = None"
    using last_known_Some assms(2) by (fastforce simp: GetLastCheckpoint_def)
  have cs: "cs = rev ys @ (n, h) # rev xs" using arg_cong [OF e(1), of rev] by simp
  then have "\<forall>(m, k)\<in>set ys. m < n" using assms(1) by (auto simp: sorted_wrt_append)
  then show ?thesis using e(2,3) unfolding cs by (intro exI [of _ n] exI [of _ h]) auto
qed

end
