(* ===== verification/Base58.thy ===== *)
theory Base58
  imports BlockChecks
begin

text \<open>
  Base-58 strings and addresses (base58.cpp, base58.h).  A C string is the list of its characters before
  the terminating zero; the vectors of digits that the loops work on are lists of numbers with the least
  significant digit first, the order in which the loops run through them.
\<close>

section \<open>Encoding and decoding\<close>

definition pszBase58 :: string where
  "pszBase58 = ''123456789ABCDEFGHJKLMNPQRSTUVWXYZabcdefghijkmnopqrstuvwxyz''"

definition isspace :: "char \<Rightarrow> bool" where
  "isspace c \<longleftrightarrow> c \<in> set [CHR '' '', CHR 0x09, CHR 0x0A, CHR 0x0B, CHR 0x0C, CHR 0x0D]"

definition strchr :: "string \<Rightarrow> char \<Rightarrow> nat option" where
  "strchr s c = (if c \<in> set s then Some (length (takeWhile (\<lambda>x. x \<noteq> c) s)) else None)"

text \<open>The loop that applies \<open>v = v * m + carry\<close> to the digits v in base b; it returns the last carry too.\<close>

fun carry_loop :: "nat \<Rightarrow> nat \<Rightarrow> nat \<Rightarrow> nat list \<Rightarrow> nat list \<times> nat" where
  "carry_loop m b carry [] = ([], carry)"
| "carry_loop m b carry (d # ds) =
     (case carry_loop m b ((carry + m * d) div b) ds of (ds', out) \<Rightarrow> ((carry + m * d) mod b # ds', out))"

fun encode_loop :: "bytes \<Rightarrow> nat list \<Rightarrow> fault + nat list" where
  "encode_loop [] b58 = Inr b58"
| "encode_loop (c # bs) b58 =
     (case carry_loop 256 58 (unat c) b58 of (b58, carry) \<Rightarrow>
        if carry \<noteq> 0 then Inl Abort else encode_loop bs b58)"

definition EncodeBase58 :: "bytes \<Rightarrow> fault + string" where
  "EncodeBase58 p =
     (let zeroes = length (takeWhile (\<lambda>b. b = 0) p); p = dropWhile (\<lambda>b. b = 0) p in
      bindE (encode_loop p (replicate (length p * 138 div 100 + 1) 0)) (\<lambda>b58.
        Inr (replicate zeroes CHR ''1'' @ map (\<lambda>d. pszBase58 ! d) (dropWhile (\<lambda>d. d = 0) (rev b58)))))"

text \<open>It ends with None at a character that is no digit, otherwise with the rest of the string.\<close>

fun decode_loop :: "string \<Rightarrow> nat list \<Rightarrow> fault + (nat list \<times> string) option" where
  "decode_loop [] b256 = Inr (Some (b256, []))"
| "decode_loop (c # s) b256 =
     (if isspace c then Inr (Some (b256, c # s))
      else case strchr pszBase58 c of
        None \<Rightarrow> Inr None
      | Some ch \<Rightarrow> (case carry_loop 58 256 ch b256 of (b256, carry) \<Rightarrow>
          if carry \<noteq> 0 then Inl Abort else decode_loop s b256))"

definition DecodeBase58 :: "string \<Rightarrow> fault + bytes option" where
  "DecodeBase58 psz =
     (let psz = dropWhile isspace psz; zeroes = length (takeWhile (\<lambda>c. c = CHR ''1'') psz);
          psz = dropWhile (\<lambda>c. c = CHR ''1'') psz in
      bindE (decode_loop psz (replicate (length psz * 733 div 1000 + 1) 0)) (\<lambda>r. Inr (case r of
        None \<Rightarrow> None
      | Some (b256, psz) \<Rightarrow>
          if dropWhile isspace psz \<noteq> [] then None
          else Some (replicate zeroes 0 @ map of_nat (dropWhile (\<lambda>d. d = 0) (rev b256))))))"

text \<open>The overload for std::string passes the characters before the first zero.\<close>

definition c_str :: "string \<Rightarrow> string" where "c_str = takeWhile (\<lambda>c. c \<noteq> CHR 0x00)"

definition DecodeBase58_str :: "string \<Rightarrow> fault + bytes option" where
  "DecodeBase58_str s = DecodeBase58 (c_str s)"

text \<open>The functions that print the decoded bytes in hexadecimal; the loop of the first one runs from index 1
until it meets the size less 4, which is never when there are fewer than 5 bytes.\<close>

definition hex_byte :: "byte \<Rightarrow> string" where
  "hex_byte b = [''0123456789abcdef'' ! (unat b div 16), ''0123456789abcdef'' ! (unat b mod 16)]"

definition DecodeBase58ToHex :: "string \<Rightarrow> fault + string" where
  "DecodeBase58ToHex str =
     bindE (DecodeBase58_str str) (\<lambda>r. case r of
       None \<Rightarrow> Inr (''Failed with '' @ str @ [CHR 0x0A])
     | Some vchRet \<Rightarrow>
         if length vchRet < 5 then Inl Abort
         else Inr (concat (map hex_byte (drop 1 (take (length vchRet - 4) vchRet)))))"

definition DecodeBase58_hex :: "string \<Rightarrow> fault + string" where
  "DecodeBase58_hex psz =
     bindE (DecodeBase58 psz) (\<lambda>r. Inr (concat (map hex_byte (case r of None \<Rightarrow> [] | Some vch \<Rightarrow> vch))))"

definition EncodeBase58Check :: "bytes \<Rightarrow> fault + string" where
  "EncodeBase58Check vchIn = EncodeBase58 (vchIn @ take 4 (uint256_bytes (Hash vchIn)))"

definition DecodeBase58Check :: "string \<Rightarrow> fault + bytes option" where
  "DecodeBase58Check psz =
     bindE (DecodeBase58 psz) (\<lambda>r. Inr (case r of
       None \<Rightarrow> None
     | Some vch \<Rightarrow>
         if length vch < 4 then None
         else let n = length vch - 4 in
           if take 4 (uint256_bytes (Hash (take n vch))) \<noteq> drop n vch then None else Some (take n vch)))"

section \<open>Addresses and keys\<close>

record CBase58Data =
  vchVersion :: bytes
  vchData :: bytes

definition CBase58Data_empty :: CBase58Data where
  "CBase58Data_empty = \<lparr>vchVersion = [], vchData = []\<rparr>"

definition SetData :: "bytes \<Rightarrow> bytes \<Rightarrow> CBase58Data" where
  "SetData vchVersionIn pdata = \<lparr>vchVersion = vchVersionIn, vchData = pdata\<rparr>"

definition SetString :: "string \<Rightarrow> nat \<Rightarrow> fault + bool \<times> CBase58Data" where
  "SetString psz nVersionBytes =
     bindE (DecodeBase58Check psz) (\<lambda>r. Inr (case r of
       None \<Rightarrow> (False, CBase58Data_empty)
     | Some vchTemp \<Rightarrow>
         if length vchTemp < nVersionBytes then (False, CBase58Data_empty)
         else (True, \<lparr>vchVersion = take nVersionBytes vchTemp, vchData = drop nVersionBytes vchTemp\<rparr>)))"

definition ToString :: "CBase58Data \<Rightarrow> fault + string" where
  "ToString a = EncodeBase58Check (vchVersion a @ vchData a)"

fun vector_less :: "bytes \<Rightarrow> bytes \<Rightarrow> bool" where
  "vector_less [] [] = False"
| "vector_less [] (y # ys) = True"
| "vector_less (x # xs) [] = False"
| "vector_less (x # xs) (y # ys) = (x < y \<or> \<not> y < x \<and> vector_less xs ys)"

definition CompareTo :: "CBase58Data \<Rightarrow> CBase58Data \<Rightarrow> int" where
  "CompareTo a b58 =
     (if vector_less (vchVersion a) (vchVersion b58) then -1
      else if vector_less (vchVersion b58) (vchVersion a) then 1
      else if vector_less (vchData a) (vchData b58) then -1
      else if vector_less (vchData b58) (vchData a) then 1
      else 0)"

text \<open>The prefixes of the network.\<close>

record base58Prefixes =
  PUBKEY_ADDRESS :: bytes
  SCRIPT_ADDRESS :: bytes
  SECRET_KEY :: bytes

definition mainPrefixes :: base58Prefixes where
  "mainPrefixes = \<lparr>PUBKEY_ADDRESS = [19], SCRIPT_ADDRESS = [11], SECRET_KEY = [17]\<rparr>"

definition testPrefixes :: base58Prefixes where
  "testPrefixes = \<lparr>PUBKEY_ADDRESS = [30], SCRIPT_ADDRESS = [22], SECRET_KEY = [9]\<rparr>"

definition address_Set :: "base58Prefixes \<Rightarrow> CTxDestination \<Rightarrow> CBase58Data \<Rightarrow> bool \<times> CBase58Data" where
  "address_Set params dest a =
     (case dest of
        CKeyID h \<Rightarrow> (True, SetData (PUBKEY_ADDRESS params) (take 20 h))
      | CScriptID h \<Rightarrow> (True, SetData (SCRIPT_ADDRESS params) (take 20 h))
      | CNoDestination \<Rightarrow> (False, a))"

definition address_IsValid :: "base58Prefixes \<Rightarrow> CBase58Data \<Rightarrow> bool" where
  "address_IsValid params a \<longleftrightarrow> length (vchData a) = 20 \<and>
     (vchVersion a = PUBKEY_ADDRESS params \<or> vchVersion a = SCRIPT_ADDRESS params)"

definition address_Get :: "base58Prefixes \<Rightarrow> CBase58Data \<Rightarrow> CTxDestination" where
  "address_Get params a =
     (if \<not> address_IsValid params a then CNoDestination
      else if vchVersion a = PUBKEY_ADDRESS params then CKeyID (take 20 (vchData a))
      else if vchVersion a = SCRIPT_ADDRESS params then CScriptID (take 20 (vchData a))
      else CNoDestination)"

definition address_GetKeyID :: "base58Prefixes \<Rightarrow> CBase58Data \<Rightarrow> bytes option" where
  "address_GetKeyID params a =
     (if \<not> address_IsValid params a \<or> vchVersion a \<noteq> PUBKEY_ADDRESS params then None
      else Some (take 20 (vchData a)))"

definition address_IsScript :: "base58Prefixes \<Rightarrow> CBase58Data \<Rightarrow> bool" where
  "address_IsScript params a \<longleftrightarrow> address_IsValid params a \<and> vchVersion a = SCRIPT_ADDRESS params"

text \<open>A valid key is its 32 bytes and whether its public key is compressed, an invalid one is None;
\<open>Check\<close> is the range check of the elliptic-curve library.\<close>

type_synonym CKey = "(bytes \<times> bool) option"

definition CKey_Set :: "(bytes \<Rightarrow> bool) \<Rightarrow> bytes \<Rightarrow> bool \<Rightarrow> CKey" where
  "CKey_Set Check p fCompressedIn =
     (if length p \<noteq> 32 then None else if Check p then Some (p, fCompressedIn) else None)"

definition secret_SetKey :: "base58Prefixes \<Rightarrow> CKey \<Rightarrow> fault + CBase58Data" where
  "secret_SetKey params vchSecret =
     (case vchSecret of
        None \<Rightarrow> Inl Abort
      | Some (vch, fCompressed) \<Rightarrow>
          let a = SetData (SECRET_KEY params) vch in
          Inr (if fCompressed then a\<lparr>vchData := vchData a @ [1]\<rparr> else a))"

definition secret_GetKey :: "(bytes \<Rightarrow> bool) \<Rightarrow> CBase58Data \<Rightarrow> fault + CKey" where
  "secret_GetKey Check a =
     (if length (vchData a) < 32 then Inl Abort
      else Inr (CKey_Set Check (take 32 (vchData a)) (length (vchData a) > 32 \<and> vchData a ! 32 = 1)))"

definition secret_IsValid :: "base58Prefixes \<Rightarrow> CBase58Data \<Rightarrow> bool" where
  "secret_IsValid params a \<longleftrightarrow>
     (length (vchData a) = 32 \<or> length (vchData a) = 33 \<and> vchData a ! 32 = 1) \<and> vchVersion a = SECRET_KEY params"

definition secret_SetString :: "base58Prefixes \<Rightarrow> string \<Rightarrow> fault + bool \<times> CBase58Data" where
  "secret_SetString params psz =
     bindE (SetString psz 1) (\<lambda>(ok, a). Inr (ok \<and> secret_IsValid params a, a))"

section \<open>Digits of a number\<close>

text \<open>The value of digits, most significant first, and the digits of a number without leading zeros.\<close>

definition digits_val :: "nat \<Rightarrow> nat list \<Rightarrow> nat" where
  "digits_val b ds = foldl (\<lambda>a d. a * b + d) 0 ds"

function digits_of :: "nat \<Rightarrow> nat \<Rightarrow> nat list" where
  "digits_of b n = (if n = 0 \<or> b < 2 then [] else digits_of b (n div b) @ [n mod b])"
  by pat_completeness auto
termination
  by (relation "measure snd") (auto intro: div_less_dividend)

declare digits_of.simps [simp del]

lemma digits_val_Nil [simp]: "digits_val b [] = 0"
  by (simp add: digits_val_def)

lemma digits_val_snoc [simp]: "digits_val b (ds @ [d]) = digits_val b ds * b + d"
  by (simp add: digits_val_def)

lemma digits_val_append: "digits_val b (xs @ ys) = digits_val b xs * b ^ length ys + digits_val b ys"
  by (induction ys rule: rev_induct) (simp_all add: append_assoc [symmetric] algebra_simps del: append_assoc)

lemma digits_val_Cons: "digits_val b (d # ds) = d * b ^ length ds + digits_val b ds"
  using digits_val_append [of b "[d]" ds] by (simp add: digits_val_def)

lemma digits_val_less: "\<forall>d\<in>set ds. d < b \<Longrightarrow> digits_val b ds < b ^ length ds"
proof (induction ds rule: rev_induct)
  case (snoc d ds)
  then have "digits_val b ds + 1 \<le> b ^ length ds" "d < b" by auto
  then have "(digits_val b ds + 1) * b \<le> b ^ length ds * b" by (intro mult_right_mono) simp_all
  then show ?case using \<open>d < b\<close> by (simp add: algebra_simps)
qed simp

lemma digits_of_digit: "2 \<le> b \<Longrightarrow> d \<in> set (digits_of b n) \<Longrightarrow> d < b"
  by (induction b n rule: digits_of.induct) (subst (asm) (2) digits_of.simps, auto split: if_splits)

lemma digits_of_val [simp]: "2 \<le> b \<Longrightarrow> digits_val b (digits_of b n) = n"
  by (induction b n rule: digits_of.induct) (subst digits_of.simps, auto)

lemma digits_of_hd: "2 \<le> b \<Longrightarrow> digits_of b n \<noteq> [] \<Longrightarrow> hd (digits_of b n) \<noteq> 0"
proof (induction b n rule: digits_of.induct)
  case (1 b n)
  show ?case
  proof (cases "n < b")
    case True
    then show ?thesis using 1(2,3) by (subst digits_of.simps, subst (asm) digits_of.simps)
      (auto simp: digits_of.simps [of b 0] split: if_splits)
  next
    case False
    then have n: "n \<noteq> 0" "n div b \<noteq> 0" using 1(2) by (auto simp: div_eq_0_iff)
    then have "digits_of b (n div b) \<noteq> []" using 1(2) by (subst digits_of.simps) simp
    then show ?thesis using 1 n by (subst digits_of.simps) simp
  qed
qed

lemma digits_of_ok: "2 \<le> b \<Longrightarrow> (\<forall>d\<in>set (digits_of b n). d < b) \<and> (digits_of b n = [] \<or> hd (digits_of b n) \<noteq> 0)"
  using digits_of_digit digits_of_hd by blast

lemma digits_of_digits_val:
  assumes "2 \<le> b"
  shows "\<forall>d\<in>set ds. d < b \<Longrightarrow> ds = [] \<or> hd ds \<noteq> 0 \<Longrightarrow> digits_of b (digits_val b ds) = ds"
proof (induction ds rule: rev_induct)
  case Nil
  then show ?case by (simp add: digits_of.simps)
next
  case (snoc d ds)
  show ?case
  proof (cases "ds = []")
    case True
    then show ?thesis using snoc.prems assms by (simp add: digits_of.simps [of b d] digits_of.simps [of b 0] digits_val_def)
  next
    case False
    then have h: "hd ds \<noteq> 0" "d < b" using snoc.prems by auto
    obtain e es where e: "ds = e # es" using False by (cases ds) auto
    have "0 < digits_val b ds" using h(1) assms unfolding e by (simp add: digits_val_Cons)
    then show ?thesis using snoc h assms by (subst digits_of.simps) auto
  qed
qed

lemma dropWhile_zero: "digits_val b (dropWhile (\<lambda>d. d = 0) ds) = digits_val b ds"
  by (induction ds) (auto simp: digits_val_Cons)

lemma strip_zeros:
  assumes "2 \<le> b" "\<forall>d\<in>set ds. d < b"
  shows "dropWhile (\<lambda>d. d = 0) ds = digits_of b (digits_val b ds)"
proof -
  let ?d = "dropWhile (\<lambda>d. d = 0) ds"
  have "\<forall>d\<in>set ?d. d < b" using assms(2) set_dropWhileD by fastforce
  moreover have "?d = [] \<or> hd ?d \<noteq> 0" by (induction ds) auto
  ultimately show ?thesis using digits_of_digits_val [OF assms(1), of ?d] dropWhile_zero by simp
qed

section \<open>The loops\<close>

lemma carry_loop_val:
  "0 < b \<Longrightarrow> carry_loop m b c ds = (ds', out) \<Longrightarrow>
   digits_val b (rev ds') + b ^ length ds * out = c + m * digits_val b (rev ds) \<and> length ds' = length ds \<and> (\<forall>d\<in>set ds'. d < b)"
proof (induction ds arbitrary: c ds')
  case (Cons d ds)
  obtain es where e: "carry_loop m b ((c + m * d) div b) ds = (es, out)" "ds' = (c + m * d) mod b # es"
    using Cons.prems by (auto split: prod.splits)
  note ih = Cons.IH [OF Cons.prems(1) e(1)]
  have "digits_val b (rev ds') + b ^ length (d # ds) * out =
      b * (digits_val b (rev es) + b ^ length ds * out) + (c + m * d) mod b"
    by (simp add: e(2) algebra_simps)
  also have "\<dots> = b * ((c + m * d) div b + m * digits_val b (rev ds)) + (c + m * d) mod b" using ih by simp
  also have "\<dots> = b * ((c + m * d) div b) + (c + m * d) mod b + b * (m * digits_val b (rev ds))"
    by (simp add: algebra_simps)
  also have "\<dots> = c + m * digits_val b (rev (d # ds))" by (simp add: algebra_simps)
  finally show ?case using ih Cons.prems(1) e(2) by simp
qed simp

text \<open>A step of the loops: the carry vanishes when the vector has room for the value.\<close>

lemma carry_step:
  assumes "0 < b" "c + m * digits_val b (rev v) < b ^ length v"
  shows "\<exists>v'. carry_loop m b c v = (v', 0) \<and> length v' = length v \<and> (\<forall>d\<in>set v'. d < b) \<and>
    digits_val b (rev v') = digits_val b (rev v) * m + c"
proof -
  obtain v' out where e: "carry_loop m b c v = (v', out)" by fastforce
  note v = carry_loop_val [OF assms(1) e]
  have "out = 0"
  proof (rule ccontr)
    assume "out \<noteq> 0"
    then have "b ^ length v * 1 \<le> b ^ length v * out" by (intro mult_left_mono) simp_all
    then show False using v assms(2) by linarith
  qed
  then show ?thesis using e v by (simp add: mult.commute)
qed

lemma step_le: "(c :: nat) < m \<Longrightarrow> x * m + c + 1 \<le> (x + 1) * m"
  by (simp add: distrib_right)

lemma encode_loop_val:
  "(digits_val 58 (rev v) + 1) * 256 ^ length bs \<le> 58 ^ length v \<Longrightarrow> \<forall>d\<in>set v. d < 58 \<Longrightarrow>
   \<exists>v'. encode_loop bs v = Inr v' \<and> (\<forall>d\<in>set v'. d < 58) \<and>
     digits_val 58 (rev v') = digits_val 58 (rev v) * 256 ^ length bs + digits_val 256 (map unat bs)"
proof (induction bs arbitrary: v)
  case (Cons c bs)
  let ?x = "digits_val 58 (rev v)"
  have "?x * 256 + unat c + 1 \<le> (?x + 1) * 256" by (rule step_le) simp
  then have "(?x * 256 + unat c + 1) * 256 ^ length bs \<le> (?x + 1) * 256 * 256 ^ length bs"
    by (rule mult_right_mono) simp
  also have "\<dots> \<le> 58 ^ length v" using Cons.prems(1) by (simp only: length_Cons power_Suc mult.assoc)
  finally have le: "(?x * 256 + unat c + 1) * 256 ^ length bs \<le> 58 ^ length v" .
  have "(?x * 256 + unat c + 1) * 1 \<le> (?x * 256 + unat c + 1) * 256 ^ length bs" by (intro mult_le_mono2) simp
  from order.trans [OF this le] have "unat c + 256 * ?x < 58 ^ length v" by (simp add: Suc_le_eq ac_simps)
  then obtain v' where v': "carry_loop 256 58 (unat c) v = (v', 0)" "length v' = length v" "\<forall>d\<in>set v'. d < 58"
    "digits_val 58 (rev v') = ?x * 256 + unat c" using carry_step [of 58 "unat c" 256 v] by auto
  then have "(digits_val 58 (rev v') + 1) * 256 ^ length bs \<le> 58 ^ length v'" using le by simp
  from Cons.IH [OF this v'(3)] show ?case
    using v' by (auto simp: digits_val_Cons algebra_simps)
qed simp

section \<open>Room for the digits\<close>

lemma room:
  assumes "(a :: nat) ^ k \<le> b ^ l" "0 < b" "0 < k"
  shows "a ^ n \<le> b ^ (n * l div k + 1)"
proof -
  have "(a ^ n) ^ k = (a ^ k) ^ n" by (simp add: power_mult [symmetric] mult.commute)
  also have "\<dots> \<le> (b ^ l) ^ n" using assms(1) by (rule power_mono) simp
  also have "\<dots> = b ^ (n * l)" by (simp add: power_mult [symmetric] mult.commute)
  also have "\<dots> \<le> b ^ ((n * l div k + 1) * k)"
  proof -
    have "n * l \<le> (n * l div k + 1) * k" using dividend_less_div_times [OF assms(3), of "n * l"] by simp
    then show ?thesis using assms(2) by (intro power_increasing) simp_all
  qed
  also have "\<dots> = (b ^ (n * l div k + 1)) ^ k" by (rule power_mult)
  finally show ?thesis using assms(3) by (simp add: power_mono_iff)
qed

lemma room58: "256 ^ n \<le> (58 :: nat) ^ (n * 138 div 100 + 1)"
  by (rule room) simp_all

lemma room256: "58 ^ n \<le> (256 :: nat) ^ (n * 733 div 1000 + 1)"
proof (rule room)
  have "(58 :: nat) ^ 125 \<le> 2 ^ 733" by simp
  then have le: "((58 :: nat) ^ 125) ^ 8 \<le> (2 ^ 733) ^ 8" by (rule power_mono) simp
  have "(1000 :: nat) = 125 * 8" "(256 :: nat) = 2 ^ 8" "(8 :: nat) * 733 = 733 * 8" by simp_all
  then have "(58 :: nat) ^ 1000 = (58 ^ 125) ^ 8" "(256 :: nat) ^ 733 = (2 ^ 733) ^ 8"
    by (metis power_mult)+
  then show "(58 :: nat) ^ 1000 \<le> 256 ^ 733" using le by argo
qed simp_all

lemma zeros_val [simp]: "digits_val b (replicate n 0) = 0"
  by (induction n) (simp_all add: digits_val_Cons)

lemma EncodeBase58_digits: "EncodeBase58 p =
  (let z = length (takeWhile (\<lambda>b. b = 0) p) in
   Inr (replicate z CHR ''1'' @ map ((!) pszBase58) (digits_of 58 (digits_val 256 (map unat (drop z p))))))"
proof -
  let ?p = "dropWhile (\<lambda>b. b = 0) p" and ?v = "replicate (length (dropWhile (\<lambda>b. b = 0) p) * 138 div 100 + 1) (0 :: nat)"
  have z: "digits_val 58 (rev ?v) = 0" by (simp add: zeros_val del: replicate.simps)
  then obtain v' where v': "encode_loop ?p ?v = Inr v'" "\<forall>d\<in>set v'. d < 58"
    "digits_val 58 (rev v') = digits_val 256 (map unat ?p)"
    using encode_loop_val [of ?v ?p] room58 [of "length ?p"] by auto
  have "dropWhile (\<lambda>d. d = 0) (rev v') = digits_of 58 (digits_val 256 (map unat ?p))"
    using strip_zeros [of 58 "rev v'"] v'(2,3) by simp
  then show ?thesis using v'(1) by (simp add: EncodeBase58_def Let_def dropWhile_eq_drop)
qed

section \<open>The alphabet\<close>

lemma alphabet: "length pszBase58 = 58" "distinct pszBase58" "pszBase58 ! 0 = CHR ''1''"
  "list_all (\<lambda>c. \<not> isspace c) pszBase58"
  by code_simp+

lemma strchr_Some: "strchr s c = Some d \<longleftrightarrow> c \<in> set s \<and> d = length (takeWhile (\<lambda>x. x \<noteq> c) s)"
  by (auto simp: strchr_def)

lemma strchr_nth: "distinct s \<Longrightarrow> d < length s \<Longrightarrow> strchr s (s ! d) = Some d"
proof -
  assume a: "distinct s" "d < length s"
  have "takeWhile (\<lambda>x. x \<noteq> s ! d) s = take d s"
    using a by (intro takeWhile_eq_take_P_nth) (auto simp: nth_eq_iff_index_eq)
  then show ?thesis using a by (simp add: strchr_def)
qed

abbreviation digit :: "char \<Rightarrow> nat" where "digit c \<equiv> the (strchr pszBase58 c)"

lemma digit_nth: "d < 58 \<Longrightarrow> strchr pszBase58 (pszBase58 ! d) = Some d"
  using strchr_nth alphabet(1,2) by simp

lemma nth_digit: "c \<in> set pszBase58 \<Longrightarrow> \<exists>d < 58. c = pszBase58 ! d"
  using alphabet(1) by (metis in_set_conv_nth)

lemma digit_props:
  assumes "c \<in> set pszBase58"
  shows "digit c < 58" "pszBase58 ! digit c = c" "digit c = 0 \<longleftrightarrow> c = CHR ''1''" "\<not> isspace c"
proof -
  obtain d where d: "d < 58" "c = pszBase58 ! d" using nth_digit [OF assms] by blast
  then show "digit c < 58" "pszBase58 ! digit c = c" using digit_nth by simp_all
  show "digit c = 0 \<longleftrightarrow> c = CHR ''1''" using d digit_nth [of d] digit_nth [of 0] alphabet(3) by auto
  show "\<not> isspace c" using alphabet(4) assms by (simp add: list_all_iff)
qed

section \<open>Decoding\<close>

lemma decode_loop_val:
  "(digits_val 256 (rev v) + 1) * 58 ^ length s \<le> 256 ^ length v \<Longrightarrow> \<forall>d\<in>set v. d < 256 \<Longrightarrow>
   (let w = takeWhile (\<lambda>c. \<not> isspace c) s in
    if set w \<subseteq> set pszBase58
    then \<exists>v'. decode_loop s v = Inr (Some (v', dropWhile (\<lambda>c. \<not> isspace c) s)) \<and> (\<forall>d\<in>set v'. d < 256) \<and>
      digits_val 256 (rev v') = digits_val 256 (rev v) * 58 ^ length w + digits_val 58 (map digit w)
    else decode_loop s v = Inr None)"
proof (induction s arbitrary: v)
  case (Cons c s)
  let ?x = "digits_val 256 (rev v)"
  show ?case
  proof (cases "isspace c \<or> c \<notin> set pszBase58")
    case True
    then show ?thesis using Cons.prems(2) by (auto simp: strchr_def)
  next
    case False
    then have c: "c \<in> set pszBase58" "\<not> isspace c" by auto
    obtain ch where ch: "strchr pszBase58 c = Some ch" "ch < 58"
      using digit_props(1) [OF c(1)] c(1) by (simp add: strchr_def)
    have "?x * 58 + ch + 1 \<le> (?x + 1) * 58" using ch(2) by (rule step_le)
    then have "(?x * 58 + ch + 1) * 58 ^ length s \<le> (?x + 1) * 58 * 58 ^ length s" by (rule mult_right_mono) simp
    also have "\<dots> \<le> 256 ^ length v" using Cons.prems(1) by (simp only: length_Cons power_Suc mult.assoc)
    finally have le: "(?x * 58 + ch + 1) * 58 ^ length s \<le> 256 ^ length v" .
    have "(?x * 58 + ch + 1) * 1 \<le> (?x * 58 + ch + 1) * 58 ^ length s" by (intro mult_le_mono2) simp
    from order.trans [OF this le] have "ch + 58 * ?x < 256 ^ length v" by (simp add: Suc_le_eq ac_simps)
    then obtain v' where v': "carry_loop 58 256 ch v = (v', 0)" "length v' = length v" "\<forall>d\<in>set v'. d < 256"
      "digits_val 256 (rev v') = ?x * 58 + ch" using carry_step [of 256 ch 58 v] by auto
    have step: "decode_loop (c # s) v = decode_loop s v'" using c(2) ch(1) v'(1) by simp
    have "(digits_val 256 (rev v') + 1) * 58 ^ length s \<le> 256 ^ length v'" using le v'(2,4) by simp
    note ih = Cons.IH [OF this v'(3)]
    show ?thesis
    proof (cases "set (takeWhile (\<lambda>c. \<not> isspace c) s) \<subseteq> set pszBase58")
      case True
      then show ?thesis using ih c ch v' unfolding step by (auto simp: Let_def digits_val_Cons algebra_simps)
    next
      case False
      then show ?thesis using ih c unfolding step by (auto simp: Let_def)
    qed
  qed
qed simp

lemma drop_takeWhile:
  assumes "\<And>c. Q c \<Longrightarrow> P c"
  shows "takeWhile P (dropWhile Q s) = drop (length (takeWhile Q s)) (takeWhile P s)"
    and "dropWhile P (dropWhile Q s) = dropWhile P s"
    and "takeWhile Q (takeWhile P s) = takeWhile Q s"
  using assms by (induction s) auto

text \<open>What DecodeBase58 computes, and that its assertion never fails.\<close>

theorem DecodeBase58_value:
  "DecodeBase58 psz =
     (let s = dropWhile isspace psz; w = takeWhile (\<lambda>c. \<not> isspace c) s;
          z = length (takeWhile (\<lambda>c. c = CHR ''1'') w) in
      Inr (if set w \<subseteq> set pszBase58 \<and> list_all isspace (dropWhile (\<lambda>c. \<not> isspace c) s)
        then Some (replicate z 0 @ map of_nat (digits_of 256 (digits_val 58 (map digit (drop z w))))) else None))"
proof -
  define s where "s = dropWhile isspace psz"
  define p where "p = dropWhile (\<lambda>c. c = CHR ''1'') s"
  define z where "z = length (takeWhile (\<lambda>c. c = CHR ''1'') s)"
  define w where "w = takeWhile (\<lambda>c. \<not> isspace c) s"
  have ns: "c = CHR ''1'' \<Longrightarrow> \<not> isspace c" for c by (simp add: isspace_def)
  have w: "takeWhile (\<lambda>c. \<not> isspace c) p = drop z w" "dropWhile (\<lambda>c. \<not> isspace c) p = dropWhile (\<lambda>c. \<not> isspace c) s"
    "length (takeWhile (\<lambda>c. c = CHR ''1'') w) = z"
    using drop_takeWhile [of "\<lambda>c. c = CHR ''1''" "\<lambda>c. \<not> isspace c" s] ns by (auto simp: p_def w_def z_def)
  have one: "CHR ''1'' \<in> set pszBase58" by code_simp
  have "take z w = takeWhile (\<lambda>c. c = CHR ''1'') w" unfolding w(3) [symmetric] by (rule takeWhile_eq_take [symmetric])
  then have "set (take z w) \<subseteq> set pszBase58" using one by (auto dest: set_takeWhileD)
  moreover have "set w = set (take z w) \<union> set (drop z w)" by (metis append_take_drop_id set_append)
  ultimately have sub: "set (drop z w) \<subseteq> set pszBase58 \<longleftrightarrow> set w \<subseteq> set pszBase58" by blast
  define v where "v = replicate (length p * 733 div 1000 + 1) (0 :: nat)"
  have v: "digits_val 256 (rev v) = 0" "(58 :: nat) ^ length p \<le> 256 ^ length v" "\<forall>d\<in>set v. d < 256"
    using room256 [of "length p"] by (simp_all add: v_def zeros_val del: replicate.simps power_Suc)
  have d: "DecodeBase58 psz = bindE (decode_loop p v) (\<lambda>r. Inr (case r of None \<Rightarrow> None
      | Some (b256, psz) \<Rightarrow> if dropWhile isspace psz \<noteq> [] then None
          else Some (replicate z 0 @ map of_nat (dropWhile (\<lambda>d. d = 0) (rev b256)))))"
    by (simp only: DecodeBase58_def Let_def s_def p_def z_def v_def)
  have all: "dropWhile isspace t = [] \<longleftrightarrow> list_all isspace t" for t by (induction t) auto
  have loop: "if set (drop z w) \<subseteq> set pszBase58
    then \<exists>v'. decode_loop p v = Inr (Some (v', dropWhile (\<lambda>c. \<not> isspace c) s)) \<and> (\<forall>d\<in>set v'. d < 256) \<and>
      digits_val 256 (rev v') = digits_val 58 (map digit (drop z w))
    else decode_loop p v = Inr None"
    using decode_loop_val [of v p] v by (simp add: Let_def w split: if_splits)
  show ?thesis
  proof (cases "set (drop z w) \<subseteq> set pszBase58")
    case True
    then obtain v' where v': "decode_loop p v = Inr (Some (v', dropWhile (\<lambda>c. \<not> isspace c) s))"
      "\<forall>d\<in>set v'. d < 256" "digits_val 256 (rev v') = digits_val 58 (map digit (drop z w))" using loop by auto
    have "dropWhile (\<lambda>d. d = 0) (rev v') = digits_of 256 (digits_val 58 (map digit (drop z w)))"
      using strip_zeros [of 256 "rev v'"] v'(2,3) by simp
    moreover have "set w \<subseteq> set pszBase58" using True sub by blast
    ultimately show ?thesis
      unfolding d Let_def s_def [symmetric] w_def [symmetric] w(3) v'(1) bindE_Inr option.case prod.case
      by (cases "dropWhile isspace (dropWhile (\<lambda>c. \<not> isspace c) s)") (simp_all only: all [symmetric], simp_all)
  next
    case False
    then have "decode_loop p v = Inr None" "\<not> set w \<subseteq> set pszBase58" using loop sub by auto
    then show ?thesis unfolding d Let_def s_def [symmetric] w_def [symmetric] w(3) by simp
  qed
qed

text \<open>A string decodes to v exactly when it is the encoding of v, with spaces around it.\<close>

lemma digits_bytes: "n = digits_val 256 (map unat (v :: bytes)) \<Longrightarrow> v = [] \<or> hd v \<noteq> 0 \<Longrightarrow>
  map of_nat (digits_of 256 n) = v"
proof -
  assume n: "n = digits_val 256 (map unat v)" "v = [] \<or> hd v \<noteq> 0"
  have "map unat v = [] \<or> hd (map unat v) \<noteq> 0" using n(2) by (cases v) (auto simp: unat_eq_0 simp flip: neq0_conv)
  then have "digits_of 256 n = map unat v" unfolding n(1) by (intro digits_of_digits_val) auto
  then show ?thesis by (simp add: comp_def)
qed

lemma digits_chars: "\<forall>c\<in>set w. c \<in> set pszBase58 \<Longrightarrow> w = [] \<or> hd w \<noteq> CHR ''1'' \<Longrightarrow>
  map ((!) pszBase58) (digits_of 58 (digits_val 58 (map digit w))) = w"
proof -
  assume w: "\<forall>c\<in>set w. c \<in> set pszBase58" "w = [] \<or> hd w \<noteq> CHR ''1''"
  have "map digit w = [] \<or> hd (map digit w) \<noteq> 0"
  proof (cases w)
    case (Cons c cs)
    then show ?thesis using w digit_props(3) [of c] by simp
  qed simp
  then have "digits_of 58 (digits_val 58 (map digit w)) = map digit w"
    using w(1) digit_props(1) by (intro digits_of_digits_val) auto
  then show ?thesis using w(1) digit_props(2) by (simp add: comp_def map_idI)
qed

lemma strip_prefix: "drop (length (takeWhile (\<lambda>x. x = a) xs)) xs = [] \<or> hd (drop (length (takeWhile (\<lambda>x. x = a) xs)) xs) \<noteq> a"
  by (induction xs) auto

lemma split_prefix: "replicate (length (takeWhile (\<lambda>x. x = a) xs)) a @ drop (length (takeWhile (\<lambda>x. x = a) xs)) xs = xs"
  by (induction xs) auto

lemma count_prefix: "ys = [] \<or> hd ys \<noteq> a \<Longrightarrow> length (takeWhile (\<lambda>x. x = a) (replicate z a @ ys)) = z"
  by (induction z) (cases ys, auto)+

lemma EncodeBase58_word:
  assumes "EncodeBase58 v = Inr w"
  shows "set w \<subseteq> set pszBase58" "length (takeWhile (\<lambda>c. c = CHR ''1'') w) = length (takeWhile (\<lambda>b. b = 0) v)"
    "map digit (drop (length (takeWhile (\<lambda>b. b = 0) v)) w) =
       digits_of 58 (digits_val 256 (map unat (drop (length (takeWhile (\<lambda>b. b = 0) v)) v)))"
proof -
  define z where "z = length (takeWhile (\<lambda>b. b = 0) v)"
  define ds where "ds = digits_of 58 (digits_val 256 (map unat (drop z v)))"
  have ds: "\<forall>d\<in>set ds. d < 58" "ds = [] \<or> hd ds \<noteq> 0"
    using digits_of_ok [of 58] unfolding ds_def by auto
  have w: "w = replicate z CHR ''1'' @ map ((!) pszBase58) ds"
    using assms by (simp add: EncodeBase58_digits Let_def flip: z_def ds_def)
  have one: "CHR ''1'' \<in> set pszBase58" by code_simp
  then show "set w \<subseteq> set pszBase58" using ds(1) alphabet(1) unfolding w by auto
  have "map ((!) pszBase58) ds = [] \<or> hd (map ((!) pszBase58) ds) \<noteq> CHR ''1''"
  proof (cases ds)
    case (Cons d es)
    then show ?thesis using ds digit_nth [of d] digit_nth [of 0] alphabet(3) by auto
  qed simp
  then show "length (takeWhile (\<lambda>c. c = CHR ''1'') w) = z" unfolding w by (rule count_prefix)
  show "map digit (drop z w) = ds" using ds(1) digit_nth unfolding w by (simp add: comp_def map_idI)
qed

theorem DecodeBase58_inverts:
  "DecodeBase58 s = Inr (Some v) \<longleftrightarrow>
     (\<exists>pre w post. s = pre @ w @ post \<and> list_all isspace pre \<and> list_all isspace post \<and> EncodeBase58 v = Inr w)"
proof
  assume d: "DecodeBase58 s = Inr (Some v)"
  define p where "p = dropWhile isspace s"
  define w where "w = takeWhile (\<lambda>c. \<not> isspace c) p"
  define z where "z = length (takeWhile (\<lambda>c. c = CHR ''1'') w)"
  have v: "v = replicate z 0 @ map of_nat (digits_of 256 (digits_val 58 (map digit (drop z w))))"
    and w: "set w \<subseteq> set pszBase58" and post: "list_all isspace (dropWhile (\<lambda>c. \<not> isspace c) p)"
    using d by (auto simp: DecodeBase58_value Let_def split: if_splits simp flip: p_def w_def z_def)
  define ds where "ds = digits_of 256 (digits_val 58 (map digit (drop z w)))"
  have ds: "\<forall>d\<in>set ds. d < 256" "ds = [] \<or> hd ds \<noteq> 0"
    using digits_of_ok [of 256] unfolding ds_def by auto
  have unat_ds: "map unat (map of_nat ds :: bytes) = ds"
    using ds(1) by (simp add: comp_def unat_of_nat_byte map_idI)
  have "(map of_nat ds :: bytes) = [] \<or> hd (map of_nat ds :: bytes) \<noteq> 0"
  proof (cases ds)
    case (Cons d es)
    then have "unat (of_nat d :: byte) = d" using ds(1) by (simp add: unat_of_nat_byte)
    then show ?thesis using Cons ds(2) by auto
  qed simp
  then have z: "length (takeWhile (\<lambda>b. b = 0) v) = z" unfolding v ds_def [symmetric] by (rule count_prefix)
  have dv: "drop z v = map of_nat ds" unfolding v ds_def by simp
  have "digits_val 256 (map unat (drop z v)) = digits_val 58 (map digit (drop z w))"
    unfolding dv unat_ds by (simp add: ds_def)
  moreover have "\<forall>c\<in>set (drop z w). c \<in> set pszBase58" using w set_drop_subset [of z w] by blast
  ultimately have "EncodeBase58 v = Inr (replicate z CHR ''1'' @ drop z w)"
    using digits_chars [of "drop z w"] strip_prefix [of "CHR ''1''" w]
    by (simp add: EncodeBase58_digits Let_def z flip: z_def)
  then have "EncodeBase58 v = Inr w" using split_prefix [of "CHR ''1''" w] by (simp flip: z_def)
  moreover have "s = takeWhile isspace s @ w @ dropWhile (\<lambda>c. \<not> isspace c) p"
    unfolding w_def by (simp add: p_def)
  moreover have "list_all isspace (takeWhile isspace s)" by (auto simp: list_all_iff dest: set_takeWhileD)
  ultimately show "\<exists>pre w post. s = pre @ w @ post \<and> list_all isspace pre \<and> list_all isspace post \<and> EncodeBase58 v = Inr w"
    using post by blast
next
  assume "\<exists>pre w post. s = pre @ w @ post \<and> list_all isspace pre \<and> list_all isspace post \<and> EncodeBase58 v = Inr w"
  then obtain pre w post where s: "s = pre @ w @ post" "list_all isspace pre" "list_all isspace post"
    and e: "EncodeBase58 v = Inr w" by blast
  note w = EncodeBase58_word [OF e]
  have nsp: "\<not> isspace c" if "c \<in> set w" for c using that w(1) digit_props(4) by blast
  have p: "takeWhile (\<lambda>c. \<not> isspace c) (dropWhile isspace s) = w"
    "list_all isspace (dropWhile (\<lambda>c. \<not> isspace c) (dropWhile isspace s))"
  proof -
    have pre: "dropWhile isspace s = dropWhile isspace (w @ post)"
      using s(2) unfolding s(1) by (simp add: list_all_iff dropWhile_append2)
    have post: "takeWhile (\<lambda>c. \<not> isspace c) post = []" "dropWhile (\<lambda>c. \<not> isspace c) post = post"
      using s(3) by (cases post; simp)+
    have np: "dropWhile isspace post = []" using s(3) by (simp add: list_all_iff)
    have nw: "dropWhile isspace (w @ post) = w @ post" if "w \<noteq> []" using nsp that by (cases w) auto
    show "takeWhile (\<lambda>c. \<not> isspace c) (dropWhile isspace s) = w"
      using nsp by (cases "w = []") (simp_all add: pre np nw takeWhile_append2 post)
    show "list_all isspace (dropWhile (\<lambda>c. \<not> isspace c) (dropWhile isspace s))"
      using nsp s(3) by (cases "w = []") (simp_all add: pre np nw dropWhile_append2 post)
  qed
  let ?z = "length (takeWhile (\<lambda>b. b = 0) v)"
  have "map of_nat (digits_of 256 (digits_val 256 (map unat (drop ?z v)))) = drop ?z v"
    by (rule digits_bytes [OF HOL.refl strip_prefix])
  then have "DecodeBase58 s = Inr (Some (replicate ?z 0 @ drop ?z v))"
    using w p(2) by (simp add: DecodeBase58_value Let_def p(1))
  then show "DecodeBase58 s = Inr (Some v)" by (simp only: split_prefix)
qed

section \<open>Checksums and addresses\<close>

lemma EncodeBase58_total: "\<exists>w. EncodeBase58 v = Inr w"
  by (simp add: EncodeBase58_digits Let_def)

lemma DecodeBase58_EncodeBase58: "EncodeBase58 v = Inr w \<Longrightarrow> DecodeBase58 w = Inr (Some v)"
  unfolding DecodeBase58_inverts by (intro exI [of _ "[]"] exI [of _ w]) simp

lemma EncodeBase58_inj: "EncodeBase58 v = EncodeBase58 v' \<Longrightarrow> v = v'"
  by (metis EncodeBase58_total DecodeBase58_EncodeBase58 Inr_inject option.inject)

lemma length_checksum: "length (take 4 (uint256_bytes h)) = 4"
  by (simp add: uint256_bytes_def)

theorem DecodeBase58Check_inverts:
  "DecodeBase58Check s = Inr (Some v) \<longleftrightarrow>
     (\<exists>pre w post. s = pre @ w @ post \<and> list_all isspace pre \<and> list_all isspace post \<and> EncodeBase58Check v = Inr w)"
proof -
  have "DecodeBase58Check s = Inr (Some v) \<longleftrightarrow>
      DecodeBase58 s = Inr (Some (v @ take 4 (uint256_bytes (Hash v))))"
  proof (cases "DecodeBase58 s")
    case (Inr r)
    show ?thesis
    proof (cases r)
      case (Some vch)
      have "4 \<le> length vch \<and> take 4 (uint256_bytes (Hash (take (length vch - 4) vch))) = drop (length vch - 4) vch \<and>
          v = take (length vch - 4) vch \<longleftrightarrow> vch = v @ take 4 (uint256_bytes (Hash v))"
        using length_checksum [of "Hash v"] by (auto simp: uint256_bytes_def)
      then show ?thesis using Inr Some by (auto simp: DecodeBase58Check_def Let_def)
    qed (use Inr in \<open>simp add: DecodeBase58Check_def\<close>)
  qed (simp add: DecodeBase58Check_def)
  then show ?thesis unfolding DecodeBase58_inverts EncodeBase58Check_def .
qed

lemma EncodeBase58Check_total: "\<exists>w. EncodeBase58Check v = Inr w"
  by (simp add: EncodeBase58Check_def EncodeBase58_total)

lemma DecodeBase58Check_total: "\<exists>r. DecodeBase58Check s = Inr r"
proof -
  obtain r where "DecodeBase58 s = Inr r" by (simp add: DecodeBase58_value Let_def)
  then show ?thesis by (simp add: DecodeBase58Check_def)
qed

text \<open>DecodeBase58ToHex prints what is between the version byte and the checksum, and reads outside of the
decoded bytes when there are fewer than five of them.\<close>

lemma c_str_word: "EncodeBase58 v = Inr w \<Longrightarrow> c_str w = w"
proof -
  assume "EncodeBase58 v = Inr w"
  then have "set w \<subseteq> set pszBase58" by (rule EncodeBase58_word)
  moreover have "CHR 0x00 \<notin> set pszBase58" by code_simp
  ultimately show ?thesis unfolding c_str_def by (auto simp: takeWhile_eq_all_conv)
qed

theorem DecodeBase58ToHex_data:
  assumes "EncodeBase58Check (ver # data) = Inr w"
  shows "DecodeBase58ToHex w = Inr (concat (map hex_byte data))"
proof -
  let ?c = "take 4 (uint256_bytes (Hash (ver # data)))"
  have e: "EncodeBase58 (ver # data @ ?c) = Inr w" using assms by (simp add: EncodeBase58Check_def)
  show ?thesis
    using DecodeBase58_EncodeBase58 [OF e] length_checksum [of "Hash (ver # data)"]
    by (simp add: DecodeBase58ToHex_def DecodeBase58_str_def c_str_word [OF e])
qed

theorem DecodeBase58ToHex_short:
  assumes "EncodeBase58 v = Inr w" "length v < 5"
  shows "DecodeBase58ToHex w = Inl Abort"
  using DecodeBase58_EncodeBase58 [OF assms(1)] assms(2)
  by (simp add: DecodeBase58ToHex_def DecodeBase58_str_def c_str_word [OF assms(1)])

text \<open>The strings SetString accepts are the ones ToString writes, with spaces around them.\<close>

theorem SetString_iff:
  "SetString s n = Inr (True, a) \<longleftrightarrow> length (vchVersion a) = n \<and>
     (\<exists>pre w post. s = pre @ w @ post \<and> list_all isspace pre \<and> list_all isspace post \<and> ToString a = Inr w)"
proof -
  have "SetString s n = Inr (True, a) \<longleftrightarrow>
      length (vchVersion a) = n \<and> DecodeBase58Check s = Inr (Some (vchVersion a @ vchData a))"
  proof -
    obtain r where r: "DecodeBase58Check s = Inr r" using DecodeBase58Check_total by blast
    show ?thesis
    proof (cases r)
      case (Some v)
      then show ?thesis using r by (cases a) (auto simp: SetString_def min_def)
    qed (use r in \<open>simp add: SetString_def\<close>)
  qed
  then show ?thesis unfolding DecodeBase58Check_inverts ToString_def .
qed

definition prefixes_ok :: "base58Prefixes \<Rightarrow> bool" where
  "prefixes_ok params \<longleftrightarrow> length (PUBKEY_ADDRESS params) = 1 \<and> length (SCRIPT_ADDRESS params) = 1 \<and>
     length (SECRET_KEY params) = 1 \<and>
     distinct [PUBKEY_ADDRESS params, SCRIPT_ADDRESS params, SECRET_KEY params]"

lemma network_prefixes: "prefixes_ok mainPrefixes" "prefixes_ok testPrefixes"
  by (simp_all add: prefixes_ok_def mainPrefixes_def testPrefixes_def)

definition dest_ok :: "CTxDestination \<Rightarrow> bool" where
  "dest_ok dest \<longleftrightarrow> (case dest of CKeyID h \<Rightarrow> length h = 20 | CScriptID h \<Rightarrow> length h = 20 | CNoDestination \<Rightarrow> False)"

text \<open>An address string names one destination, and the string of a destination is accepted and read back.\<close>

theorem address_roundtrip:
  assumes "prefixes_ok params" "dest_ok dest"
  shows "\<exists>a w. address_Set params dest a0 = (True, a) \<and> ToString a = Inr w \<and> SetString w 1 = Inr (True, a) \<and>
    address_IsValid params a \<and> address_Get params a = dest"
proof -
  obtain a where a: "address_Set params dest a0 = (True, a)" "length (vchVersion a) = 1" "address_IsValid params a"
      "address_Get params a = dest"
    using assms by (auto simp: prefixes_ok_def dest_ok_def address_Set_def SetData_def address_IsValid_def address_Get_def
      split: CTxDestination.splits)
  obtain w where w: "ToString a = Inr w" using EncodeBase58Check_total by (auto simp: ToString_def)
  have "SetString w 1 = Inr (True, a)"
    unfolding SetString_iff using a(2) w by (intro conjI exI [of _ "[]"] exI [of _ w]) simp_all
  then show ?thesis using a w by blast
qed

theorem address_unique:
  assumes "prefixes_ok params" "SetString s 1 = Inr (True, a)" "SetString s' 1 = Inr (True, a')"
    and "address_IsValid params a" "address_IsValid params a'" "address_Get params a = address_Get params a'"
  shows "a = a'"
proof (rule CBase58Data.equality)
  show "vchVersion a = vchVersion a'" "vchData a = vchData a'"
    using assms by (auto simp: address_IsValid_def address_Get_def prefixes_ok_def split: if_splits)
qed simp

theorem secret_roundtrip:
  assumes "prefixes_ok params" "length vch = 32" "Check vch"
  shows "\<exists>a w. secret_SetKey params (Some (vch, fCompressed)) = Inr a \<and> ToString a = Inr w \<and>
    secret_SetString params w = Inr (True, a) \<and> secret_GetKey Check a = Inr (Some (vch, fCompressed))"
proof -
  let ?a = "\<lparr>vchVersion = SECRET_KEY params, vchData = vch @ (if fCompressed then [1] else [])\<rparr>"
  have a: "secret_SetKey params (Some (vch, fCompressed)) = Inr ?a"
    by (simp add: secret_SetKey_def SetData_def Let_def)
  obtain w where w: "ToString ?a = Inr w" using EncodeBase58Check_total by (auto simp: ToString_def)
  have "SetString w 1 = Inr (True, ?a)"
    unfolding SetString_iff using assms(1) w by (intro conjI exI [of _ "[]"] exI [of _ w]) (simp_all add: prefixes_ok_def)
  then have "secret_SetString params w = Inr (True, ?a)" using assms(2)
    by (simp add: secret_SetString_def secret_IsValid_def nth_append)
  moreover have "secret_GetKey Check ?a = Inr (Some (vch, fCompressed))" using assms(2,3)
    by (simp add: secret_GetKey_def CKey_Set_def nth_append)
  ultimately show ?thesis using a w by blast
qed

text \<open>CompareTo is the lexicographic order of version and data.\<close>

lemma vector_less_irrefl [simp]: "\<not> vector_less xs xs"
  by (induction xs) auto

lemma vector_less_cases: "vector_less xs ys \<or> xs = ys \<or> vector_less ys xs"
  by (induction xs ys rule: vector_less.induct) auto

lemma vector_less_asym: "vector_less xs ys \<Longrightarrow> \<not> vector_less ys xs"
  by (induction xs ys rule: vector_less.induct) auto

theorem CompareTo_zero: "CompareTo a b = 0 \<longleftrightarrow> vchVersion a = vchVersion b \<and> vchData a = vchData b"
  using vector_less_cases by (auto simp: CompareTo_def)

theorem CompareTo_swap: "CompareTo b a = - CompareTo a b"
  by (auto simp: CompareTo_def dest: vector_less_asym)

end
