(* ===== verification/Bloom.thy ===== *)
theory Bloom
  imports Base58
begin

text \<open>
  Bloom filters (bloom.cpp, MurmurHash3 of hash.cpp), the filtered blocks built from them
  (merkleblock.cpp) and the three messages of main.cpp by which a peer sets its filter.  The constructor
  that sizes a filter with floating-point logarithms, which only a client calls, is left out.
\<close>

section \<open>MurmurHash3\<close>

definition ROTL32 :: "32 word \<Rightarrow> nat \<Rightarrow> 32 word" where
  "ROTL32 x r = push_bit r x OR drop_bit (32 - r) x"

definition murmur_c1 :: "32 word" where "murmur_c1 = 0xcc9e2d51"
definition murmur_c2 :: "32 word" where "murmur_c2 = 0x1b873593"

text \<open>The body, over the blocks of four bytes; it returns the tail.\<close>

fun murmur_body :: "32 word \<Rightarrow> bytes \<Rightarrow> 32 word \<times> bytes" where
  "murmur_body h1 (a # b # c # d # data) =
     (let k1 = ROTL32 (of_nat (le_val [a, b, c, d]) * murmur_c1) 15 * murmur_c2 in
      murmur_body (ROTL32 (h1 XOR k1) 13 * 5 + 0xe6546b64) data)"
| "murmur_body h1 tail = (h1, tail)"

definition murmur_tail :: "32 word \<Rightarrow> bytes \<Rightarrow> 32 word" where
  "murmur_tail h1 tail =
     (let k1 = (0 :: 32 word);
          k1 = (if length tail = 3 then k1 XOR push_bit 16 (ucast (tail ! 2)) else k1);
          k1 = (if length tail \<ge> 2 then k1 XOR push_bit 8 (ucast (tail ! 1)) else k1) in
      if length tail \<ge> 1 then h1 XOR (ROTL32 ((k1 XOR ucast (tail ! 0)) * murmur_c1) 15 * murmur_c2) else h1)"

definition MurmurHash3 :: "32 word \<Rightarrow> bytes \<Rightarrow> 32 word" where
  "MurmurHash3 nHashSeed vDataToHash =
     (let h1 = (case murmur_body nHashSeed vDataToHash of (h1, tail) \<Rightarrow> murmur_tail h1 tail);
          h1 = h1 XOR of_nat (length vDataToHash);
          h1 = (h1 XOR drop_bit 16 h1) * 0x85ebca6b;
          h1 = (h1 XOR drop_bit 13 h1) * 0xc2b2ae35 in
      h1 XOR drop_bit 16 h1)"

section \<open>The filter\<close>

definition MAX_BLOOM_FILTER_SIZE :: nat where "MAX_BLOOM_FILTER_SIZE = 36000"
definition MAX_HASH_FUNCS :: nat where "MAX_HASH_FUNCS = 50"
definition BLOOM_UPDATE_ALL :: byte where "BLOOM_UPDATE_ALL = 1"
definition BLOOM_UPDATE_P2PUBKEY_ONLY :: byte where "BLOOM_UPDATE_P2PUBKEY_ONLY = 2"
definition BLOOM_UPDATE_MASK :: byte where "BLOOM_UPDATE_MASK = 3"

record CBloomFilter =
  vData :: bytes
  isFull :: bool
  isEmpty :: bool
  nHashFuncs :: "32 word"
  nTweak :: "32 word"
  nFlags :: byte

definition CBloomFilter_init :: CBloomFilter where
  "CBloomFilter_init = \<lparr>vData = [], isFull = True, isEmpty = False, nHashFuncs = 0, nTweak = 0, nFlags = 0\<rparr>"

definition bloom_Hash :: "CBloomFilter \<Rightarrow> nat \<Rightarrow> bytes \<Rightarrow> fault + nat" where
  "bloom_Hash f nHashNum vDataToHash =
     (if length (vData f) * 8 = 0 then Inl Abort
      else Inr (unat (MurmurHash3 (of_nat nHashNum * 0xFBA4C795 + nTweak f) vDataToHash) mod (length (vData f) * 8)))"

definition get_bit :: "bytes \<Rightarrow> nat \<Rightarrow> bool" where
  "get_bit data nIndex \<longleftrightarrow> data ! drop_bit 3 nIndex AND push_bit (7 AND nIndex) 1 \<noteq> 0"

definition set_bit_at :: "bytes \<Rightarrow> nat \<Rightarrow> bytes" where
  "set_bit_at data nIndex =
     data[drop_bit 3 nIndex := data ! drop_bit 3 nIndex OR push_bit (7 AND nIndex) 1]"

fun insert_loop :: "CBloomFilter \<Rightarrow> nat list \<Rightarrow> bytes \<Rightarrow> fault + CBloomFilter" where
  "insert_loop f [] vKey = Inr f"
| "insert_loop f (i # is) vKey =
     bindE (bloom_Hash f i vKey) (\<lambda>nIndex. insert_loop (f\<lparr>vData := set_bit_at (vData f) nIndex\<rparr>) is vKey)"

definition bloom_insert :: "CBloomFilter \<Rightarrow> bytes \<Rightarrow> fault + CBloomFilter" where
  "bloom_insert f vKey =
     (if isFull f then Inr f
      else bindE (insert_loop f [0..<unat (nHashFuncs f)] vKey) (\<lambda>f. Inr (f\<lparr>isEmpty := False\<rparr>)))"

fun contains_loop :: "CBloomFilter \<Rightarrow> nat list \<Rightarrow> bytes \<Rightarrow> fault + bool" where
  "contains_loop f [] vKey = Inr True"
| "contains_loop f (i # is) vKey =
     bindE (bloom_Hash f i vKey) (\<lambda>nIndex. if \<not> get_bit (vData f) nIndex then Inr False else contains_loop f is vKey)"

definition bloom_contains :: "CBloomFilter \<Rightarrow> bytes \<Rightarrow> fault + bool" where
  "bloom_contains f vKey =
     (if isFull f then Inr True else if isEmpty f then Inr False
      else contains_loop f [0..<unat (nHashFuncs f)] vKey)"

text \<open>The overloads for outpoints and hashes.\<close>

definition insert_outpoint :: "CBloomFilter \<Rightarrow> COutPoint \<Rightarrow> fault + CBloomFilter" where
  "insert_outpoint f outpoint = bloom_insert f (put_COutPoint outpoint)"

definition insert_hash :: "CBloomFilter \<Rightarrow> uint256 \<Rightarrow> fault + CBloomFilter" where
  "insert_hash f h = bloom_insert f (uint256_bytes h)"

definition contains_outpoint :: "CBloomFilter \<Rightarrow> COutPoint \<Rightarrow> fault + bool" where
  "contains_outpoint f outpoint = bloom_contains f (put_COutPoint outpoint)"

definition contains_hash :: "CBloomFilter \<Rightarrow> uint256 \<Rightarrow> fault + bool" where
  "contains_hash f h = bloom_contains f (uint256_bytes h)"

definition bloom_clear :: "CBloomFilter \<Rightarrow> CBloomFilter" where
  "bloom_clear f = f\<lparr>vData := replicate (length (vData f)) 0, isFull := False, isEmpty := True\<rparr>"

definition IsWithinSizeConstraints :: "CBloomFilter \<Rightarrow> bool" where
  "IsWithinSizeConstraints f \<longleftrightarrow> length (vData f) \<le> MAX_BLOOM_FILTER_SIZE \<and> unat (nHashFuncs f) \<le> MAX_HASH_FUNCS"

definition UpdateEmptyFull :: "CBloomFilter \<Rightarrow> CBloomFilter" where
  "UpdateEmptyFull f =
     f\<lparr>isFull := list_all (\<lambda>b. b = 0xff) (vData f), isEmpty := list_all (\<lambda>b. b = 0) (vData f)\<rparr>"

definition put_filter :: "CBloomFilter \<Rightarrow> bytes" where
  "put_filter f = put_blob (vData f) @ put_word32 (nHashFuncs f) @ put_word32 (nTweak f) @ [nFlags f]"

definition get_filter :: "CBloomFilter reader" where
  "get_filter s =
     bindE (get_blob s) (\<lambda>(d, s). bindE (get_word32 s) (\<lambda>(n, s). bindE (get_word32 s) (\<lambda>(t, s).
     bindE (read_bytes 1 s) (\<lambda>(b, s).
       Inr (CBloomFilter_init\<lparr>vData := d, nHashFuncs := n, nTweak := t, nFlags := hd b\<rparr>, s)))))"

section \<open>Matching transactions\<close>

text \<open>Whether the filter contains a pushed element of a script.\<close>

function script_match :: "CBloomFilter \<Rightarrow> bytes \<Rightarrow> fault + bool" where
  "script_match f pc =
     (if pc = [] then Inr False
      else case GetOp2 pc of (fRet, opcode, data, pc') \<Rightarrow>
        if \<not> fRet then Inr False
        else bindE (if length data \<noteq> 0 then bloom_contains f data else Inr False) (\<lambda>m.
          if m then Inr True else script_match f pc'))"
  by pat_completeness auto
termination
  by (relation "measure (\<lambda>(f, pc). length pc)") (use GetOp2_length in \<open>auto, metis\<close>)

declare script_match.simps [simp del]

definition match_update :: "CBloomFilter \<Rightarrow> CScript \<Rightarrow> COutPoint \<Rightarrow> fault + CBloomFilter" where
  "match_update f script out =
     (if nFlags f AND BLOOM_UPDATE_MASK = BLOOM_UPDATE_ALL then insert_outpoint f out
      else if nFlags f AND BLOOM_UPDATE_MASK = BLOOM_UPDATE_P2PUBKEY_ONLY then
        bindE (Solver script) (\<lambda>(ok, typ, vSolutions).
          if ok \<and> (typ = TX_PUBKEY \<or> typ = TX_MULTISIG) then insert_outpoint f out else Inr f)
      else Inr f)"

fun match_outputs :: "CBloomFilter \<Rightarrow> uint256 \<Rightarrow> nat \<Rightarrow> CTxOut list \<Rightarrow> bool \<Rightarrow> fault + bool \<times> CBloomFilter" where
  "match_outputs f hsh i [] fFound = Inr (fFound, f)"
| "match_outputs f hsh i (txout # outs) fFound =
     bindE (script_match f (scriptPubKey txout)) (\<lambda>m.
       if m then bindE (match_update f (scriptPubKey txout) \<lparr>outhash = hsh, outn = of_nat i\<rparr>) (\<lambda>f.
         match_outputs f hsh (i + 1) outs True)
       else match_outputs f hsh (i + 1) outs fFound)"

fun match_inputs :: "CBloomFilter \<Rightarrow> CTxIn list \<Rightarrow> fault + bool" where
  "match_inputs f [] = Inr False"
| "match_inputs f (txin # ins) =
     bindE (contains_outpoint f (prevout txin)) (\<lambda>c. if c then Inr True
     else bindE (script_match f (scriptSig txin)) (\<lambda>m. if m then Inr True else match_inputs f ins))"

definition IsRelevantAndUpdate :: "CBloomFilter \<Rightarrow> CTransaction \<Rightarrow> fault + bool \<times> CBloomFilter" where
  "IsRelevantAndUpdate f tx =
     (if isFull f then Inr (True, f) else if isEmpty f then Inr (False, f)
      else bindE (contains_hash f (GetHash tx)) (\<lambda>fFound.
        bindE (match_outputs f (GetHash tx) 0 (vout tx) fFound) (\<lambda>(fFound, f).
          if fFound then Inr (True, f) else bindE (match_inputs f (vin tx)) (\<lambda>m. Inr (m, f)))))"

section \<open>Filtered blocks\<close>

fun match_block :: "CBloomFilter \<Rightarrow> CTransaction list \<Rightarrow> fault + bool list \<times> CBloomFilter" where
  "match_block f [] = Inr ([], f)"
| "match_block f (tx # txs) =
     bindE (IsRelevantAndUpdate f tx) (\<lambda>(m, f). bindE (match_block f txs) (\<lambda>(ms, f). Inr (m # ms, f)))"

record CMerkleBlock =
  header :: CBlockHeader
  txn :: CPartialMerkleTree
  vMatchedTxn :: "(nat \<times> uint256) list"

definition new_merkle_block :: "CBlock \<Rightarrow> CBloomFilter \<Rightarrow> fault + CMerkleBlock \<times> CBloomFilter" where
  "new_merkle_block block f =
     bindE (match_block f (vtx block)) (\<lambda>(vMatch, f).
       let vHashes = map GetHash (vtx block) in
       Inr (\<lparr>header = bheader block, txn = new_pmt vHashes vMatch,
         vMatchedTxn = map (\<lambda>i. (i, vHashes ! i)) (filter ((!) vMatch) [0..<length vMatch])\<rparr>, f))"

section \<open>The messages of a peer\<close>

record peer =
  pfilter :: "CBloomFilter option"
  fRelayTxes :: bool
  nMisbehavior :: nat
  fShouldBan :: bool

datatype message = FilterLoad bytes | FilterAdd bytes | FilterClear

definition Misbehaving :: "nat \<Rightarrow> peer \<Rightarrow> nat \<Rightarrow> peer" where
  "Misbehaving banscore p howmuch =
     (if howmuch = 0 then p
      else let p = p\<lparr>nMisbehavior := nMisbehavior p + howmuch\<rparr> in
        if nMisbehavior p \<ge> banscore \<and> nMisbehavior p - howmuch < banscore then p\<lparr>fShouldBan := True\<rparr> else p)"

text \<open>A message that cannot be read throws, which leaves the peer as it was.\<close>

definition filter_message :: "bool \<Rightarrow> nat \<Rightarrow> message \<Rightarrow> peer \<Rightarrow> fault + peer" where
  "filter_message node_bloom banscore m p =
     (if \<not> node_bloom then Inr (Misbehaving banscore p 100)
      else case m of
        FilterLoad vRecv \<Rightarrow> (case get_filter vRecv of
            Inl e \<Rightarrow> Inr p
          | Inr (f, _) \<Rightarrow>
              let p = (if \<not> IsWithinSizeConstraints f then Misbehaving banscore p 100
                       else p\<lparr>pfilter := Some (UpdateEmptyFull f)\<rparr>) in
              Inr (p\<lparr>fRelayTxes := True\<rparr>))
      | FilterAdd vRecv \<Rightarrow> (case get_blob vRecv of
            Inl e \<Rightarrow> Inr p
          | Inr (d, _) \<Rightarrow>
              if length d > 520 then Inr (Misbehaving banscore p 100)
              else case pfilter p of
                Some f \<Rightarrow> bindE (bloom_insert f d) (\<lambda>f. Inr (p\<lparr>pfilter := Some f\<rparr>))
              | None \<Rightarrow> Inr (Misbehaving banscore p 100))
      | FilterClear \<Rightarrow> Inr (p\<lparr>pfilter := Some CBloomFilter_init, fRelayTxes := True\<rparr>))"

section \<open>Bits\<close>

lemma bit_position: "n < 8 * length d \<Longrightarrow> drop_bit 3 n < length d" for d :: bytes
  by (simp add: drop_bit_eq_div)

lemma and_7: "7 AND n = n mod (8 :: nat)"
proof -
  have "(7 :: nat) = mask 3" by (simp add: mask_eq_exp_minus_1)
  then have "7 AND n = take_bit 3 n" by (simp only: and.commute take_bit_eq_mask)
  then show ?thesis by (simp add: take_bit_eq_mod)
qed

lemma get_bit_bit: "get_bit d n \<longleftrightarrow> bit (d ! (n div 8)) (n mod 8)"
  unfolding get_bit_def and_7 by (simp add: drop_bit_eq_div push_bit_of_1 and_exp_eq_0_iff_not_bit)

lemma get_bit_set_bit:
  assumes "n < 8 * length d" "m < 8 * length d"
  shows "get_bit (set_bit_at d n) m \<longleftrightarrow> get_bit d m \<or> m = n"
proof -
  have s: "set_bit_at d n = d[n div 8 := d ! (n div 8) OR push_bit (n mod 8) 1]"
    unfolding set_bit_at_def and_7 by (simp add: drop_bit_eq_div)
  have len: "n div 8 < length d" "m div 8 < length d" using assms by simp_all
  show ?thesis
  proof (cases "m div 8 = n div 8")
    case True
    have "bit (push_bit (n mod 8) (1 :: byte)) (m mod 8) \<longleftrightarrow> m mod 8 = n mod 8"
      by (auto simp: bit_exp_iff bit_push_bit_iff bit_1_iff)
    moreover have "m mod 8 = n mod 8 \<longleftrightarrow> m = n" using True by (metis div_mult_mod_eq)
    ultimately show ?thesis using True len by (simp add: get_bit_bit s bit_or_iff)
  next
    case False
    then show ?thesis using len by (auto simp: get_bit_bit s)
  qed
qed

lemma length_set_bit_at [simp]: "length (set_bit_at d n) = length d"
  by (simp add: set_bit_at_def)

section \<open>What the filter promises\<close>

definition key_bit :: "CBloomFilter \<Rightarrow> bytes \<Rightarrow> nat \<Rightarrow> nat" where
  "key_bit f k i = unat (MurmurHash3 (of_nat i * 0xFBA4C795 + nTweak f) k) mod (length (vData f) * 8)"

text \<open>A filter that is not marked as full has data, so that no index is reduced modulo zero.\<close>

definition filter_ok :: "CBloomFilter \<Rightarrow> bool" where
  "filter_ok f \<longleftrightarrow> isFull f \<or> vData f \<noteq> []"

definition mem :: "CBloomFilter \<Rightarrow> bytes \<Rightarrow> bool" where
  "mem f k \<longleftrightarrow> isFull f \<or> \<not> isEmpty f \<and> (\<forall>i < unat (nHashFuncs f). get_bit (vData f) (key_bit f k i))"

lemma bloom_Hash_ok: "vData f \<noteq> [] \<Longrightarrow> bloom_Hash f i k = Inr (key_bit f k i)"
  by (simp add: bloom_Hash_def key_bit_def)

lemma key_bit_less: "vData f \<noteq> [] \<Longrightarrow> key_bit f k i < 8 * length (vData f)"
  by (simp add: key_bit_def mult.commute)

lemma contains_loop_ok: "vData f \<noteq> [] \<Longrightarrow> contains_loop f is k = Inr (\<forall>i\<in>set is. get_bit (vData f) (key_bit f k i))"
  by (induction "is") (simp_all add: bloom_Hash_ok)

theorem bloom_contains_mem: "filter_ok f \<Longrightarrow> bloom_contains f k = Inr (mem f k)"
  by (auto simp: bloom_contains_def mem_def filter_ok_def contains_loop_ok)

text \<open>The order of filters: the same parameters, more bits.\<close>

definition filter_le :: "CBloomFilter \<Rightarrow> CBloomFilter \<Rightarrow> bool" where
  "filter_le f g \<longleftrightarrow> length (vData g) = length (vData f) \<and> nHashFuncs g = nHashFuncs f \<and> nTweak g = nTweak f \<and>
     nFlags g = nFlags f \<and> isFull g = isFull f \<and> (isEmpty g \<longrightarrow> isEmpty f) \<and>
     (\<forall>n < 8 * length (vData f). get_bit (vData f) n \<longrightarrow> get_bit (vData g) n)"

lemma filter_le_refl [simp]: "filter_le f f"
  by (simp add: filter_le_def)

lemma filter_le_trans [trans]: "filter_le f g \<Longrightarrow> filter_le g h \<Longrightarrow> filter_le f h"
  by (auto simp: filter_le_def)

lemma filter_le_ok: "filter_le f g \<Longrightarrow> filter_ok f \<Longrightarrow> filter_ok g"
  by (auto simp: filter_le_def filter_ok_def)

lemma mem_mono: "filter_le f g \<Longrightarrow> filter_ok f \<Longrightarrow> mem f k \<Longrightarrow> mem g k"
proof -
  assume le: "filter_le f g" and ok: "filter_ok f" and m: "mem f k"
  have k: "key_bit g k = key_bit f k" using le by (auto simp: key_bit_def filter_le_def)
  show ?thesis
  proof (cases "isFull f")
    case False
    then have "vData f \<noteq> []" using ok by (simp add: filter_ok_def)
    then show ?thesis using le m False key_bit_less [of f k] unfolding mem_def k filter_le_def by auto
  qed (use le in \<open>simp add: mem_def filter_le_def\<close>)
qed

lemma insert_loop_ok:
  "vData f \<noteq> [] \<Longrightarrow> \<exists>g. insert_loop f is k = Inr g \<and> filter_le f g \<and> isEmpty g = isEmpty f \<and>
     (\<forall>i\<in>set is. get_bit (vData g) (key_bit f k i))"
proof (induction "is" arbitrary: f)
  case (Cons i "is")
  let ?f = "f\<lparr>vData := set_bit_at (vData f) (key_bit f k i)\<rparr>"
  have ne: "vData ?f \<noteq> []" using Cons.prems by (simp add: set_bit_at_def)
  note b = get_bit_set_bit [OF key_bit_less [OF Cons.prems]]
  have le: "filter_le f ?f" using b by (simp add: filter_le_def)
  have k: "key_bit ?f k = key_bit f k" by (auto simp: key_bit_def)
  obtain g where g: "insert_loop ?f is k = Inr g" "filter_le ?f g" "isEmpty g = isEmpty ?f"
    "\<forall>i\<in>set is. get_bit (vData g) (key_bit f k i)"
    using Cons.IH [OF ne] unfolding k by blast
  have "get_bit (vData ?f) (key_bit f k i)" using b key_bit_less [OF Cons.prems] by simp
  then have "get_bit (vData g) (key_bit f k i)" using g(2) key_bit_less [OF Cons.prems] by (simp add: filter_le_def)
  then show ?case using g filter_le_trans [OF le g(2)] Cons.prems by (simp add: bloom_Hash_ok)
qed simp

theorem bloom_insert_ok:
  assumes "filter_ok f"
  shows "\<exists>g. bloom_insert f k = Inr g \<and> filter_le f g \<and> mem g k"
proof (cases "isFull f")
  case True
  then show ?thesis by (auto simp: bloom_insert_def mem_def)
next
  case False
  then have "vData f \<noteq> []" using assms by (simp add: filter_ok_def)
  then obtain g where g: "insert_loop f [0..<unat (nHashFuncs f)] k = Inr g" "filter_le f g"
    "\<forall>i<unat (nHashFuncs f). get_bit (vData g) (key_bit f k i)"
    using insert_loop_ok [of f "[0..<unat (nHashFuncs f)]" k] by auto
  have "key_bit (g\<lparr>isEmpty := False\<rparr>) k = key_bit f k" "nHashFuncs g = nHashFuncs f"
    using g(2) by (auto simp: key_bit_def filter_le_def)
  then have "mem (g\<lparr>isEmpty := False\<rparr>) k" using g(3) by (simp add: mem_def)
  moreover have "filter_le f (g\<lparr>isEmpty := False\<rparr>)" using g(2) by (simp add: filter_le_def)
  ultimately show ?thesis using False g(1) by (simp add: bloom_insert_def)
qed

text \<open>Without data, a filter that is not marked as full divides by zero at the first key.\<close>

theorem bloom_insert_aborts:
  "vData f = [] \<Longrightarrow> \<not> isFull f \<Longrightarrow> 0 < nHashFuncs f \<Longrightarrow> bloom_insert f k = Inl Abort"
proof -
  assume a: "vData f = []" "\<not> isFull f" "0 < nHashFuncs f"
  then have "0 < unat (nHashFuncs f)" by (simp add: unat_gt_0)
  then obtain i "is" where "[0..<unat (nHashFuncs f)] = i # is" by (cases "[0..<unat (nHashFuncs f)]") auto
  then show ?thesis using a by (simp add: bloom_insert_def bloom_Hash_def)
qed

section \<open>Transactions\<close>

text \<open>The elements a script pushes, up to the first instruction that cannot be read.\<close>

function script_data :: "bytes \<Rightarrow> bytes list" where
  "script_data pc =
     (if pc = [] then []
      else case GetOp2 pc of (fRet, opcode, data, pc') \<Rightarrow>
        if \<not> fRet then [] else if data \<noteq> [] then data # script_data pc' else script_data pc')"
  by pat_completeness auto
termination
  by (relation "measure length") (use GetOp2_length in \<open>auto, metis+\<close>)

declare script_data.simps [simp del]

lemma script_match_data: "filter_ok f \<Longrightarrow> script_match f pc = Inr (\<exists>d\<in>set (script_data pc). mem f d)"
proof (induction "length pc" arbitrary: pc rule: less_induct)
  case less
  obtain ok opc d pc' where g: "GetOp2 pc = (ok, opc, d, pc')" by (cases "GetOp2 pc") auto
  show ?case
  proof (cases "pc = [] \<or> \<not> ok")
    case True
    then show ?thesis using g by (auto simp: script_match.simps [of f pc] script_data.simps [of pc])
  next
    case False
    then have "length pc' < length pc" using GetOp2_length [OF g] by simp
    then have ih: "script_match f pc' = Inr (\<exists>d\<in>set (script_data pc'). mem f d)" using less by blast
    show ?thesis using False g ih bloom_contains_mem [OF less.prems]
      by (simp add: script_match.simps [of f pc] script_data.simps [of pc])
  qed
qed

lemma script_data_short: "script_data s \<noteq> [] \<Longrightarrow> 2 \<le> length s"
proof (rule ccontr)
  assume a: "script_data s \<noteq> []" "\<not> 2 \<le> length s"
  show False
  proof (cases s)
    case Nil
    then show ?thesis using a(1) by (simp add: script_data.simps [of "[]"])
  next
    case (Cons b bs)
    then have s: "s = [b]" using a(2) by (cases bs) auto
    obtain ok opc d pc' where g: "GetOp2 [b] = (ok, opc, d, pc')" by (cases "GetOp2 [b]") auto
    have "d = []" using g by (auto simp: GetOp2.simps(2) push_size_def Let_def split: if_splits option.splits)
    moreover have "pc' = []" using GetOp2_length [OF g] by simp
    ultimately show ?thesis using a(1) g unfolding s
      by (simp add: script_data.simps [of "[b]"] script_data.simps [of "[]"] split: if_splits)
  qed
qed

lemma Solver_long: "2 \<le> length s \<Longrightarrow> \<exists>r. Solver s = Inr r"
  by (cases "scan_templates mTemplates s") (auto simp: Solver_def)

text \<open>After a match the outpoint is in the filter when the flags ask for it.\<close>

definition update_covers :: "CBloomFilter \<Rightarrow> CScript \<Rightarrow> bool" where
  "update_covers f script \<longleftrightarrow> nFlags f AND BLOOM_UPDATE_MASK = BLOOM_UPDATE_ALL \<or>
     nFlags f AND BLOOM_UPDATE_MASK = BLOOM_UPDATE_P2PUBKEY_ONLY \<and>
     (\<exists>typ sol. Solver script = Inr (True, typ, sol) \<and> (typ = TX_PUBKEY \<or> typ = TX_MULTISIG))"

lemma match_update_ok:
  assumes "filter_ok f" "2 \<le> length script"
  shows "\<exists>g. match_update f script out = Inr g \<and> filter_le f g \<and> (update_covers f script \<longrightarrow> mem g (put_COutPoint out))"
proof -
  obtain g where g: "insert_outpoint f out = Inr g" "filter_le f g" "mem g (put_COutPoint out)"
    using bloom_insert_ok [OF assms(1)] by (auto simp: insert_outpoint_def)
  obtain ok ty sol where "Solver script = Inr (ok, ty, sol)" using Solver_long [OF assms(2)] by auto
  then show ?thesis using g by (auto simp: match_update_def update_covers_def)
qed

definition output_watched :: "CBloomFilter \<Rightarrow> CTxOut \<Rightarrow> bool" where
  "output_watched f txout \<longleftrightarrow> (\<exists>d\<in>set (script_data (scriptPubKey txout)). mem f d)"

lemma update_covers_le: "filter_le f g \<Longrightarrow> update_covers g s = update_covers f s"
  by (simp add: update_covers_def filter_le_def)

lemma output_watched_mono: "filter_le f g \<Longrightarrow> filter_ok f \<Longrightarrow> output_watched f t \<Longrightarrow> output_watched g t"
  using mem_mono by (auto simp: output_watched_def)

lemma match_outputs_ok:
  "filter_ok f \<Longrightarrow> \<exists>b g. match_outputs f h i outs fFound = Inr (b, g) \<and> filter_le f g \<and>
     (fFound \<or> (\<exists>t\<in>set outs. output_watched f t) \<longrightarrow> b) \<and>
     (\<forall>k < length outs. output_watched f (outs ! k) \<and> update_covers f (scriptPubKey (outs ! k)) \<longrightarrow>
        mem g (put_COutPoint \<lparr>outhash = h, outn = of_nat (i + k)\<rparr>))"
proof (induction outs arbitrary: f i fFound)
  case (Cons t outs)
  let ?out = "\<lparr>outhash = h, outn = of_nat i\<rparr> :: COutPoint"
  note m = script_match_data [OF Cons.prems, of "scriptPubKey t", folded output_watched_def]
  show ?case
  proof (cases "output_watched f t")
    case True
    then have "2 \<le> length (scriptPubKey t)" using script_data_short by (force simp: output_watched_def)
    from match_update_ok [OF Cons.prems this, of ?out] obtain f1 where f1: "match_update f (scriptPubKey t) ?out = Inr f1"
      "filter_le f f1" "update_covers f (scriptPubKey t) \<longrightarrow> mem f1 (put_COutPoint ?out)" by blast
    have ok1: "filter_ok f1" using filter_le_ok [OF f1(2) Cons.prems] .
    from Cons.IH [OF ok1, of "i + 1" True] obtain g where
      g: "match_outputs f1 h (i + 1) outs True = Inr (True, g)" "filter_le f1 g"
      "\<forall>k < length outs. output_watched f1 (outs ! k) \<and> update_covers f1 (scriptPubKey (outs ! k)) \<longrightarrow>
        mem g (put_COutPoint \<lparr>outhash = h, outn = of_nat (i + 1 + k)\<rparr>)" by auto
    have "output_watched f ((t # outs) ! k) \<and> update_covers f (scriptPubKey ((t # outs) ! k)) \<longrightarrow>
        mem g (put_COutPoint \<lparr>outhash = h, outn = of_nat (i + k)\<rparr>)" if "k < length (t # outs)" for k
    proof (cases k)
      case 0
      then show ?thesis using f1(3) mem_mono [OF g(2) ok1] by simp
    next
      case (Suc k')
      then show ?thesis using g(3) that output_watched_mono [OF f1(2) Cons.prems] update_covers_le [OF f1(2)]
        by (auto simp: add.assoc [symmetric])
    qed
    then show ?thesis using m True f1(1) g(1) filter_le_trans [OF f1(2) g(2)]
      by (intro exI [of _ True] exI [of _ g]) simp
  next
    case False
    from Cons.IH [OF Cons.prems, of "i + 1" fFound] obtain b g where
      g: "match_outputs f h (i + 1) outs fFound = Inr (b, g)" "filter_le f g"
      "fFound \<or> (\<exists>t\<in>set outs. output_watched f t) \<longrightarrow> b"
      "\<forall>k < length outs. output_watched f (outs ! k) \<and> update_covers f (scriptPubKey (outs ! k)) \<longrightarrow>
        mem g (put_COutPoint \<lparr>outhash = h, outn = of_nat (i + 1 + k)\<rparr>)" by blast
    have "output_watched f ((t # outs) ! k) \<and> update_covers f (scriptPubKey ((t # outs) ! k)) \<longrightarrow>
        mem g (put_COutPoint \<lparr>outhash = h, outn = of_nat (i + k)\<rparr>)" if "k < length (t # outs)" for k
      using g(4) that False by (cases k) (auto simp: add.assoc [symmetric])
    then show ?thesis using m False g(1-3) by auto
  qed
qed simp

definition input_watched :: "CBloomFilter \<Rightarrow> CTxIn \<Rightarrow> bool" where
  "input_watched f txin \<longleftrightarrow> mem f (put_COutPoint (prevout txin)) \<or> (\<exists>d\<in>set (script_data (scriptSig txin)). mem f d)"

lemma match_inputs_ok: "filter_ok f \<Longrightarrow> match_inputs f ins = Inr (\<exists>t\<in>set ins. input_watched f t)"
  by (induction ins) (auto simp: contains_outpoint_def bloom_contains_mem script_match_data input_watched_def)

text \<open>The transactions a filter has to report: by their hash, an output or an input.\<close>

definition watched :: "CBloomFilter \<Rightarrow> CTransaction \<Rightarrow> bool" where
  "watched f tx \<longleftrightarrow> mem f (uint256_bytes (GetHash tx)) \<or> (\<exists>t\<in>set (vout tx). output_watched f t) \<or>
     (\<exists>t\<in>set (vin tx). input_watched f t)"

lemma input_watched_mono: "filter_le f g \<Longrightarrow> filter_ok f \<Longrightarrow> input_watched f t \<Longrightarrow> input_watched g t"
  using mem_mono by (auto simp: input_watched_def)

lemma watched_mono: "filter_le f g \<Longrightarrow> filter_ok f \<Longrightarrow> watched f tx \<Longrightarrow> watched g tx"
  using mem_mono output_watched_mono input_watched_mono unfolding watched_def by meson

theorem IsRelevantAndUpdate_ok:
  assumes ok: "filter_ok f"
  shows "\<exists>b g. IsRelevantAndUpdate f tx = Inr (b, g) \<and> filter_le f g \<and> (isFull f \<or> \<not> isEmpty f \<and> watched f tx \<longrightarrow> b) \<and>
    (\<not> isFull f \<and> \<not> isEmpty f \<longrightarrow> (\<forall>k < length (vout tx).
       output_watched f (vout tx ! k) \<and> update_covers f (scriptPubKey (vout tx ! k)) \<longrightarrow>
       mem g (put_COutPoint \<lparr>outhash = GetHash tx, outn = of_nat k\<rparr>)))"
proof (cases "isFull f \<or> isEmpty f")
  case False
  have c: "contains_hash f (GetHash tx) = Inr (mem f (uint256_bytes (GetHash tx)))"
    by (simp add: contains_hash_def bloom_contains_mem [OF ok])
  from match_outputs_ok [OF ok, of "GetHash tx" 0 "vout tx" "mem f (uint256_bytes (GetHash tx))"] obtain b g where
    g: "match_outputs f (GetHash tx) 0 (vout tx) (mem f (uint256_bytes (GetHash tx))) = Inr (b, g)" "filter_le f g"
    "mem f (uint256_bytes (GetHash tx)) \<or> (\<exists>t\<in>set (vout tx). output_watched f t) \<longrightarrow> b"
    "\<forall>k < length (vout tx). output_watched f (vout tx ! k) \<and> update_covers f (scriptPubKey (vout tx ! k)) \<longrightarrow>
       mem g (put_COutPoint \<lparr>outhash = GetHash tx, outn = of_nat k\<rparr>)" by auto
  note ok' = filter_le_ok [OF g(2) ok]
  have r: "IsRelevantAndUpdate f tx = Inr (b \<or> (\<exists>t\<in>set (vin tx). input_watched g t), g)"
    using False c g(1) match_inputs_ok [OF ok'] by (simp add: IsRelevantAndUpdate_def)
  moreover have "watched f tx \<longrightarrow> b \<or> (\<exists>t\<in>set (vin tx). input_watched g t)"
    using g(3) input_watched_mono [OF g(2) ok] by (auto simp: watched_def)
  ultimately show ?thesis using g(2,4) False by blast
qed (auto simp: IsRelevantAndUpdate_def)

section \<open>The filter of a peer\<close>

text \<open>What the messages keep: the filter of the peer never divides by zero, and its flags agree with its data.\<close>

lemma UpdateEmptyFull_ok: "filter_ok (UpdateEmptyFull f)"
  by (cases "vData f") (simp_all add: filter_ok_def UpdateEmptyFull_def)

lemma init_ok: "filter_ok CBloomFilter_init"
  by (simp add: filter_ok_def CBloomFilter_init_def)

definition peer_ok :: "peer \<Rightarrow> bool" where
  "peer_ok p \<longleftrightarrow> (\<forall>f. pfilter p = Some f \<longrightarrow> filter_ok f)"

lemma Misbehaving_filter [simp]: "pfilter (Misbehaving n p m) = pfilter p"
  by (simp add: Misbehaving_def Let_def)

theorem filter_message_ok:
  assumes "peer_ok p"
  shows "\<exists>p'. filter_message node_bloom banscore m p = Inr p' \<and> peer_ok p'"
proof (cases m)
  case (FilterLoad s)
  then show ?thesis using assms UpdateEmptyFull_ok
    by (cases "get_filter s") (auto simp: filter_message_def peer_ok_def Let_def)
next
  case (FilterAdd s)
  show ?thesis
  proof (cases "pfilter p")
    case None
    then show ?thesis using assms FilterAdd by (cases "get_blob s") (auto simp: filter_message_def peer_ok_def)
  next
    case (Some f)
    then have "filter_ok f" using assms by (simp add: peer_ok_def)
    then have "\<exists>g. bloom_insert f d = Inr g \<and> filter_ok g" for d using bloom_insert_ok filter_le_ok by blast
    then obtain ins where ins: "bloom_insert f d = Inr (ins d)" "filter_ok (ins d)" for d by metis
    show ?thesis
    proof (cases "get_blob s")
      case (Inr r)
      then show ?thesis using assms FilterAdd Some ins
        by (cases r) (simp add: filter_message_def peer_ok_def)
    qed (use assms FilterAdd in \<open>simp add: filter_message_def peer_ok_def\<close>)
  qed
qed (use assms init_ok in \<open>auto simp: filter_message_def peer_ok_def\<close>)

text \<open>The states a peer can bring the node to; a relevant transaction updates the filter too.\<close>

inductive peer_reach :: "bool \<Rightarrow> nat \<Rightarrow> peer \<Rightarrow> bool" for node_bloom banscore where
  start: "pfilter p = None \<Longrightarrow> peer_reach node_bloom banscore p"
| message: "peer_reach node_bloom banscore p \<Longrightarrow> filter_message node_bloom banscore m p = Inr p' \<Longrightarrow>
    peer_reach node_bloom banscore p'"
| relay: "peer_reach node_bloom banscore p \<Longrightarrow> pfilter p = Some f \<Longrightarrow> IsRelevantAndUpdate f tx = Inr (b, g) \<Longrightarrow>
    peer_reach node_bloom banscore (p\<lparr>pfilter := Some g\<rparr>)"

lemma peer_reach_ok: "peer_reach node_bloom banscore p \<Longrightarrow> peer_ok p"
proof (induction rule: peer_reach.induct)
  case (message p m p')
  then show ?case using filter_message_ok [of p node_bloom banscore m] by auto
next
  case (relay p f tx b g)
  then have "filter_ok f" by (simp add: peer_ok_def)
  then show ?case using IsRelevantAndUpdate_ok [of f tx] relay filter_le_ok by (auto simp: peer_ok_def)
qed (simp add: peer_ok_def)

theorem peer_never_aborts:
  assumes "peer_reach node_bloom banscore p"
  shows "(\<exists>p'. filter_message node_bloom banscore m p = Inr p') \<and>
    (\<forall>f tx. pfilter p = Some f \<longrightarrow> (\<exists>r. IsRelevantAndUpdate f tx = Inr r))"
  using filter_message_ok [OF peer_reach_ok [OF assms]] IsRelevantAndUpdate_ok peer_reach_ok [OF assms]
  unfolding peer_ok_def by blast

text \<open>A filter that a client sends keeps its keys.\<close>

lemma get_put_filter:
  assumes "length (vData f) \<le> MAX_SIZE"
  shows "get_filter (put_filter f @ rest) = Inr (f\<lparr>isFull := True, isEmpty := False\<rparr>, rest)"
  using assms canonical_codec.axioms(1) [OF canonical_word32]
  by (simp add: get_filter_def put_filter_def blob.get_put codec.get_put [OF canonical_codec.axioms(1) [OF canonical_word32]]
    read_bytes_def CBloomFilter_init_def)

lemma UpdateEmptyFull_mem:
  assumes "mem f k" "vData f \<noteq> []" "\<not> isFull f" "0 < nHashFuncs f"
  shows "mem (UpdateEmptyFull (f\<lparr>isFull := a, isEmpty := b\<rparr>)) k"
proof -
  let ?i = "key_bit f k 0"
  have "get_bit (vData f) ?i" using assms(1,3,4) by (simp add: mem_def unat_gt_0)
  then have "bit (vData f ! (?i div 8)) (?i mod 8)" by (simp add: get_bit_bit)
  then have "vData f ! (?i div 8) \<noteq> 0" by auto
  moreover have "?i div 8 < length (vData f)" using key_bit_less [OF assms(2), of k 0] by simp
  ultimately have ne: "\<not> list_all (\<lambda>b. b = 0) (vData f)" by (auto simp: list_all_length)
  have "key_bit (UpdateEmptyFull (f\<lparr>isFull := a, isEmpty := b\<rparr>)) k = key_bit f k"
    by (auto simp: key_bit_def UpdateEmptyFull_def)
  then show ?thesis using assms(1,3) ne by (auto simp: mem_def UpdateEmptyFull_def)
qed

theorem loaded_filter:
  assumes "mem f k" "vData f \<noteq> []" "\<not> isFull f" "0 < nHashFuncs f" "IsWithinSizeConstraints f"
  shows "\<exists>p' g. filter_message True banscore (FilterLoad (put_filter f)) p = Inr p' \<and> pfilter p' = Some g \<and>
    filter_ok g \<and> bloom_contains g k = Inr True \<and> fRelayTxes p'"
proof -
  have "length (vData f) \<le> MAX_SIZE" using assms(5) by (simp add: IsWithinSizeConstraints_def MAX_BLOOM_FILTER_SIZE_def)
  then have g: "get_filter (put_filter f) = Inr (f\<lparr>isFull := True, isEmpty := False\<rparr>, [])"
    using get_put_filter [of f "[]"] by simp
  have c: "IsWithinSizeConstraints (f\<lparr>isFull := True, isEmpty := False\<rparr>)" using assms(5) by (simp add: IsWithinSizeConstraints_def)
  show ?thesis
    using g c UpdateEmptyFull_mem [OF assms(1-4), where a = True and b = False] bloom_contains_mem [OF UpdateEmptyFull_ok] UpdateEmptyFull_ok
    by (simp add: filter_message_def)
qed

text \<open>
  A set that may hold more than was put into it: the interface a client of the filter relies on.  Keys are
  inserted one after the other.
\<close>

fun insert_each :: "('f \<Rightarrow> 'k \<Rightarrow> fault + 'f) \<Rightarrow> 'f \<Rightarrow> 'k list \<Rightarrow> fault + 'f" where
  "insert_each ins f [] = Inr f"
| "insert_each ins f (k # ks) = bindE (ins f k) (\<lambda>f. insert_each ins f ks)"

locale approximate_set =
  fixes ok :: "'f \<Rightarrow> bool" and le :: "'f \<Rightarrow> 'f \<Rightarrow> bool" and member :: "'f \<Rightarrow> 'k \<Rightarrow> bool"
    and ins :: "'f \<Rightarrow> 'k \<Rightarrow> fault + 'f"
  assumes ins_ok: "ok f \<Longrightarrow> \<exists>g. ins f k = Inr g \<and> le f g \<and> member g k"
    and le_ok: "le f g \<Longrightarrow> ok f \<Longrightarrow> ok g"
    and le_refl: "le f f"
    and le_trans: "le f g \<Longrightarrow> le g h \<Longrightarrow> le f h"
    and member_mono: "le f g \<Longrightarrow> ok f \<Longrightarrow> member f k \<Longrightarrow> member g k"
begin

lemma insert_each_ok: "ok f \<Longrightarrow> \<exists>g. insert_each ins f ks = Inr g \<and> le f g \<and> (\<forall>k\<in>set ks. member g k)"
proof (induction ks arbitrary: f)
  case Nil
  then show ?case using le_refl by simp
next
  case (Cons k ks)
  obtain f1 where f1: "ins f k = Inr f1" "le f f1" "member f1 k" using ins_ok [OF Cons.prems] by blast
  note ok1 = le_ok [OF f1(2) Cons.prems]
  obtain g where g: "insert_each ins f1 ks = Inr g" "le f1 g" "\<forall>k\<in>set ks. member g k" using Cons.IH [OF ok1] by blast
  then show ?case using f1 member_mono [OF g(2) ok1 f1(3)] le_trans [OF f1(2) g(2)] by auto
qed

end

interpretation bloom: approximate_set filter_ok filter_le mem bloom_insert
  by unfold_locales (simp_all add: bloom_insert_ok filter_le_ok filter_le_trans mem_mono)

theorem no_false_negatives:
  assumes "vData f \<noteq> []" "\<not> isFull f" "0 < nHashFuncs f" "IsWithinSizeConstraints f" "k \<in> set ks"
  shows "\<exists>g p' h. insert_each bloom_insert f ks = Inr g \<and> filter_message True banscore (FilterLoad (put_filter g)) p = Inr p' \<and>
    pfilter p' = Some h \<and> bloom_contains h k = Inr True"
proof -
  have "filter_ok f" using assms(1) by (simp add: filter_ok_def)
  then obtain g where g: "insert_each bloom_insert f ks = Inr g" "filter_le f g" "mem g k" using bloom.insert_each_ok assms(5) by blast
  then have "vData g \<noteq> []" "\<not> isFull g" "0 < nHashFuncs g" "IsWithinSizeConstraints g"
    using assms(1-4) by (auto simp: filter_le_def IsWithinSizeConstraints_def)
  from loaded_filter [OF g(3) this] show ?thesis using g(1) by blast
qed

section \<open>What a filtered block delivers\<close>

lemma match_block_ok:
  "filter_ok f \<Longrightarrow> \<exists>ms g. match_block f txs = Inr (ms, g) \<and> length ms = length txs \<and> filter_le f g"
proof (induction txs arbitrary: f)
  case (Cons tx txs)
  obtain b f1 where f1: "IsRelevantAndUpdate f tx = Inr (b, f1)" "filter_le f f1"
    using IsRelevantAndUpdate_ok [OF Cons.prems] by blast
  obtain ms g where g: "match_block f1 txs = Inr (ms, g)" "length ms = length txs" "filter_le f1 g"
    using Cons.IH [OF filter_le_ok [OF f1(2) Cons.prems]] by blast
  then show ?case using f1 filter_le_trans [OF f1(2) g(3)] by simp
qed simp

text \<open>The filter that the transaction at a position of the block meets.\<close>

lemma match_block_nth:
  "filter_ok f \<Longrightarrow> match_block f txs = Inr (ms, g) \<Longrightarrow> j < length txs \<Longrightarrow>
   \<exists>h h'. filter_le f h \<and> IsRelevantAndUpdate h (txs ! j) = Inr (ms ! j, h') \<and> filter_le h h' \<and>
     (\<forall>k. j < k \<and> k < length txs \<longrightarrow> (\<exists>e e'. filter_le h' e \<and> IsRelevantAndUpdate e (txs ! k) = Inr (ms ! k, e')))"
proof (induction txs arbitrary: f ms j)
  case (Cons tx txs)
  obtain b f1 where f1: "IsRelevantAndUpdate f tx = Inr (b, f1)" "filter_le f f1"
    using IsRelevantAndUpdate_ok [OF Cons.prems(1)] by blast
  note ok1 = filter_le_ok [OF f1(2) Cons.prems(1)]
  obtain ns where ns: "match_block f1 txs = Inr (ns, g)" "ms = b # ns"
    using Cons.prems(2) f1(1) by (auto simp: bindE_eq_Inr)
  show ?case
  proof (cases j)
    case 0
    have "\<exists>e e'. filter_le f1 e \<and> IsRelevantAndUpdate e ((tx # txs) ! k) = Inr (ms ! k, e')"
      if k: "0 < k" "k < length (tx # txs)" for k
    proof -
      obtain i where i: "k = Suc i" using k(1) by (cases k) auto
      then have i2: "i < length txs" using k(2) by simp
      then show ?thesis using Cons.IH [OF ok1 ns(1) i2] ns(2) i by auto
    qed
    then show ?thesis using 0 f1 ns(2) by (intro exI [of _ f] exI [of _ f1]) simp
  next
    case (Suc i)
    then have "i < length txs" using Cons.prems(3) by simp
    from Cons.IH [OF ok1 ns(1) this] obtain h h' where h: "filter_le f1 h"
      "IsRelevantAndUpdate h (txs ! i) = Inr (ns ! i, h')" "filter_le h h'"
      "\<forall>k. i < k \<and> k < length txs \<longrightarrow> (\<exists>e e'. filter_le h' e \<and> IsRelevantAndUpdate e (txs ! k) = Inr (ns ! k, e'))"
      by blast
    have "\<exists>e e'. filter_le h' e \<and> IsRelevantAndUpdate e ((tx # txs) ! k) = Inr (ms ! k, e')"
      if "j < k" "k < length (tx # txs)" for k
      using h(4) that Suc ns(2) by (cases k) auto
    then show ?thesis using h(1-3) filter_le_trans [OF f1(2) h(1)] Suc ns(2)
      by (intro exI [of _ h] exI [of _ h']) simp
  qed
qed simp

lemma matched_hashes: "length ms = length xs \<Longrightarrow>
  map fst (filter snd (zip xs (map ((!) ms) [0..<length xs]))) = map ((!) xs) (filter ((!) ms) [0..<length ms])"
proof -
  assume l: "length ms = length xs"
  then have ms: "map ((!) ms) [0..<length xs] = ms" by (metis map_nth)
  have "map fst (filter snd (zip xs ms)) = map ((!) xs) (filter ((!) ms) [0..<length ms])"
    using l
  proof (induction xs ms rule: list_induct2')
    case (4 x xs m ms)
    have u: "[0..<length (m # ms)] = 0 # map Suc [0..<length ms]" by (simp add: map_Suc_upt upt_conv_Cons del: upt_Suc)
    show ?case using 4 unfolding u by (simp add: filter_map comp_def)
  qed simp_all
  then show ?thesis unfolding ms .
qed

text \<open>
  The client gets every transaction that its filter watches, and every later transaction of the block that
  spends an output whose script it watches, when the flags ask for the update.
\<close>

definition spends_output :: "CTransaction \<Rightarrow> uint256 \<Rightarrow> nat \<Rightarrow> bool" where
  "spends_output tx h k \<longleftrightarrow> (\<exists>i\<in>set (vin tx). prevout i = \<lparr>outhash = h, outn = of_nat k\<rparr>)"

theorem filtered_block:
  assumes ok: "filter_ok f" "\<not> isFull f" "\<not> isEmpty f" and txs: "vtx b \<noteq> []" "length (vtx b) \<le> 33333"
  shows "\<exists>mb g pmt. new_merkle_block b f = Inr (mb, g) \<and> get_pmt (put_pmt (txn mb) @ rest) = Inr (pmt, rest) \<and>
    ExtractMatches pmt = (merkle_root (map GetHash (vtx b)), map snd (vMatchedTxn mb)) \<and>
    (\<forall>j < length (vtx b). watched f (vtx b ! j) \<or>
       (\<exists>i k. i < j \<and> k < length (vout (vtx b ! i)) \<and> output_watched f (vout (vtx b ! i) ! k) \<and>
          update_covers f (scriptPubKey (vout (vtx b ! i) ! k)) \<and> spends_output (vtx b ! j) (GetHash (vtx b ! i)) k) \<longrightarrow>
       (j, GetHash (vtx b ! j)) \<in> set (vMatchedTxn mb))"
proof -
  let ?xs = "map GetHash (vtx b)"
  obtain ms g where m: "match_block f (vtx b) = Inr (ms, g)" "length ms = length (vtx b)"
    using match_block_ok [OF ok(1)] by blast
  define mb where "mb = \<lparr>header = bheader b, txn = new_pmt ?xs ms,
    vMatchedTxn = map (\<lambda>i. (i, ?xs ! i)) (filter ((!) ms) [0..<length ms])\<rparr>"
  have nb: "new_merkle_block b f = Inr (mb, g)" using m(1) by (simp add: new_merkle_block_def mb_def Let_def)
  obtain pmt where pmt: "get_pmt (put_pmt (new_pmt ?xs ms) @ rest) = Inr (pmt, rest)"
    "ExtractMatches pmt = (merkle_root ?xs, map fst (filter snd (zip ?xs (map (\<lambda>p. ms ! p) [0..<length ?xs]))))"
    using ExtractMatches_wire [of ?xs ms rest] txs by auto
  have e: "ExtractMatches pmt = (merkle_root ?xs, map snd (vMatchedTxn mb))"
    using pmt(2) matched_hashes [of ms ?xs] m(2) by (simp add: mb_def comp_def)
  have hit: "(j, GetHash (vtx b ! j)) \<in> set (vMatchedTxn mb)" if "j < length (vtx b)" "ms ! j" for j
    using that m(2) by (auto simp: mb_def)
  have rel: "ms ! j" if "filter_le f e" "IsRelevantAndUpdate e (vtx b ! j) = Inr (ms ! j, e')" "watched e (vtx b ! j)" for e e' j
    using IsRelevantAndUpdate_ok [OF filter_le_ok [OF that(1) ok(1)], of "vtx b ! j"] that ok(2,3)
    by (auto simp: filter_le_def)
  have "ms ! j" if j: "j < length (vtx b)" and w: "watched f (vtx b ! j) \<or>
      (\<exists>i k. i < j \<and> k < length (vout (vtx b ! i)) \<and> output_watched f (vout (vtx b ! i) ! k) \<and>
         update_covers f (scriptPubKey (vout (vtx b ! i) ! k)) \<and> spends_output (vtx b ! j) (GetHash (vtx b ! i)) k)" for j
    using w
  proof (elim disjE exE conjE)
    assume "watched f (vtx b ! j)"
    then show ?thesis using match_block_nth [OF ok(1) m(1) j] watched_mono [OF _ ok(1)] rel by blast
  next
    fix i k assume i: "i < j" "k < length (vout (vtx b ! i))" "output_watched f (vout (vtx b ! i) ! k)"
      "update_covers f (scriptPubKey (vout (vtx b ! i) ! k))" "spends_output (vtx b ! j) (GetHash (vtx b ! i)) k"
    have "i < length (vtx b)" using i(1) j by simp
    from match_block_nth [OF ok(1) m(1) this] obtain h h' e e' where h: "filter_le f h"
      "IsRelevantAndUpdate h (vtx b ! i) = Inr (ms ! i, h')" "filter_le h h'" "filter_le h' e"
      "IsRelevantAndUpdate e (vtx b ! j) = Inr (ms ! j, e')" using i(1) j by blast
    note okh = filter_le_ok [OF h(1) ok(1)]
    have "\<not> isFull h \<and> \<not> isEmpty h" using h(1) ok(2,3) by (auto simp: filter_le_def)
    moreover have "output_watched h (vout (vtx b ! i) ! k)" using output_watched_mono [OF h(1) ok(1) i(3)] .
    moreover have "update_covers h (scriptPubKey (vout (vtx b ! i) ! k))" using i(4) update_covers_le [OF h(1)] by simp
    ultimately have "mem h' (put_COutPoint \<lparr>outhash = GetHash (vtx b ! i), outn = of_nat k\<rparr>)"
      using IsRelevantAndUpdate_ok [OF okh, of "vtx b ! i"] h(2) i(2) by auto
    then have "mem e (put_COutPoint \<lparr>outhash = GetHash (vtx b ! i), outn = of_nat k\<rparr>)"
      using mem_mono [OF h(4) filter_le_ok [OF h(3) okh]] by blast
    then have "\<exists>t\<in>set (vin (vtx b ! j)). input_watched e t"
      using i(5) unfolding spends_output_def input_watched_def by metis
    then have "watched e (vtx b ! j)" by (simp add: watched_def)
    moreover have "filter_le f e" using h(1,3,4) filter_le_trans by blast
    ultimately show ?thesis using rel h(5) by blast
  qed
  then show ?thesis using nb pmt(1) e hit by (intro exI [of _ mb] exI [of _ g] exI [of _ pmt]) (auto simp: mb_def)
qed

end
