(* ===== verification/Mempool.thy ===== *)
theory Mempool
  imports Bloom
begin

text \<open>
  The memory pool (txmempool.cpp, txmempool.h).  A std::map is the list of its entries in the order of the
  keys.  A CInPoint points to a transaction inside mapTx; the pointer is the key of its entry, and following
  it when the entry is gone is a fault.  The fee estimator, which computes with floating-point numbers and
  never changes the pool, is left out; priorities are the bit patterns of doubles.
\<close>

section \<open>Ordered maps\<close>

fun map_put :: "'k :: linorder \<Rightarrow> 'v \<Rightarrow> ('k \<times> 'v) list \<Rightarrow> ('k \<times> 'v) list" where
  "map_put k v [] = [(k, v)]"
| "map_put k v ((k', v') # m) =
     (if k < k' then (k, v) # (k', v') # m else if k = k' then (k, v) # m else (k', v') # map_put k v m)"

definition map_erase :: "'k \<Rightarrow> ('k \<times> 'v) list \<Rightarrow> ('k \<times> 'v) list" where
  "map_erase k m = filter (\<lambda>(k', v). k' \<noteq> k) m"

text \<open>The order of outpoints: by hash, then by index.\<close>

instantiation COutPoint_ext :: (linorder) linorder
begin

definition less_COutPoint_ext :: "'a COutPoint_scheme \<Rightarrow> 'a COutPoint_scheme \<Rightarrow> bool" where
  "a < b \<longleftrightarrow> outhash a < outhash b \<or> outhash a = outhash b \<and>
     (outn a < outn b \<or> outn a = outn b \<and> COutPoint.more a < COutPoint.more b)"

definition less_eq_COutPoint_ext :: "'a COutPoint_scheme \<Rightarrow> 'a COutPoint_scheme \<Rightarrow> bool" where
  "a \<le> b \<longleftrightarrow> a < b \<or> a = (b :: 'a COutPoint_scheme)"

instance
proof
  fix a b c :: "'a COutPoint_scheme"
  show "a < b \<longleftrightarrow> a \<le> b \<and> \<not> b \<le> a" by (auto simp: less_eq_COutPoint_ext_def less_COutPoint_ext_def)
  show "a \<le> a" by (simp add: less_eq_COutPoint_ext_def)
  show "a \<le> b \<Longrightarrow> b \<le> c \<Longrightarrow> a \<le> c" by (auto simp: less_eq_COutPoint_ext_def less_COutPoint_ext_def)
  show "a \<le> b \<Longrightarrow> b \<le> a \<Longrightarrow> a = b" by (auto simp: less_eq_COutPoint_ext_def less_COutPoint_ext_def)
  show "a \<le> b \<or> b \<le> a"
  proof (cases "outhash a = outhash b \<and> outn a = outn b")
    case True
    then have "COutPoint.more a = COutPoint.more b \<Longrightarrow> a = b" by (intro COutPoint.equality) simp_all
    then show ?thesis using True linorder_less_linear [of "COutPoint.more a" "COutPoint.more b"]
      by (auto simp: less_eq_COutPoint_ext_def less_COutPoint_ext_def)
  next
    case False
    then show ?thesis by (auto simp: less_eq_COutPoint_ext_def less_COutPoint_ext_def)
  qed
qed

end

section \<open>The pool\<close>

definition MEMPOOL_HEIGHT :: int where "MEMPOOL_HEIGHT = 0x7FFFFFFF"

record CTxMemPoolEntry =
  etx :: CTransaction
  eFee :: CAmount
  eTxSize :: nat
  eModSize :: nat
  eTime :: int
  ePriority :: "64 word"
  eHeight :: int

definition new_pool_entry :: "CTransaction \<Rightarrow> CAmount \<Rightarrow> int \<Rightarrow> 64 word \<Rightarrow> int \<Rightarrow> CTxMemPoolEntry" where
  "new_pool_entry tx fee time priority height =
     (let nTxSize = length (put_CTransaction tx) in
      \<lparr>etx = tx, eFee = fee, eTxSize = nTxSize, eModSize = CalculateModifiedSize tx nTxSize,
       eTime = time, ePriority = priority, eHeight = height\<rparr>)"

record CInPoint =
  ptx :: uint256
  inn :: nat

record CTxMemPool =
  mapTx :: "(uint256 \<times> CTxMemPoolEntry) list"
  mapNextTx :: "(COutPoint \<times> CInPoint) list"
  mapDeltas :: "(uint256 \<times> 64 word \<times> CAmount) list"
  nTransactionsUpdated :: "32 word"
  totalTxSize :: "64 word"

definition empty_pool :: CTxMemPool where
  "empty_pool = \<lparr>mapTx = [], mapNextTx = [], mapDeltas = [], nTransactionsUpdated = 0, totalTxSize = 0\<rparr>"

definition pool_exists :: "CTxMemPool \<Rightarrow> uint256 \<Rightarrow> bool" where
  "pool_exists p h \<longleftrightarrow> map_of (mapTx p) h \<noteq> None"

definition pool_lookup :: "CTxMemPool \<Rightarrow> uint256 \<Rightarrow> CTransaction option" where
  "pool_lookup p h = map_option etx (map_of (mapTx p) h)"

definition queryHashes :: "CTxMemPool \<Rightarrow> uint256 list" where
  "queryHashes p = map fst (mapTx p)"

definition getTransactions :: "CTxMemPool \<Rightarrow> uint256 set" where
  "getTransactions p = set (map fst (mapTx p))"

definition AddTransactionsUpdated :: "CTxMemPool \<Rightarrow> 32 word \<Rightarrow> CTxMemPool" where
  "AddTransactionsUpdated p n = p\<lparr>nTransactionsUpdated := nTransactionsUpdated p + n\<rparr>"

fun put_inputs :: "uint256 \<Rightarrow> nat \<Rightarrow> CTxIn list \<Rightarrow> (COutPoint \<times> CInPoint) list \<Rightarrow> (COutPoint \<times> CInPoint) list" where
  "put_inputs h i [] m = m"
| "put_inputs h i (txin # ins) m = put_inputs h (i + 1) ins (map_put (prevout txin) \<lparr>ptx = h, inn = i\<rparr> m)"

definition addUnchecked :: "CTxMemPool \<Rightarrow> uint256 \<Rightarrow> CTxMemPoolEntry \<Rightarrow> fault + CTxMemPool" where
  "addUnchecked p h entry =
     (let p = p\<lparr>mapTx := map_put h entry (mapTx p)\<rparr>; tx = etx entry in
      bindE (IsZerocoinSpend_tx tx) (\<lambda>zs.
        let p = (if \<not> zs then p\<lparr>mapNextTx := put_inputs h 0 (vin tx) (mapNextTx p)\<rparr> else p) in
        Inr (p\<lparr>nTransactionsUpdated := nTransactionsUpdated p + 1,
               totalTxSize := totalTxSize p + of_nat (eTxSize entry)\<rparr>)))"

text \<open>The hashes of the transactions of the pool that spend the outputs of a transaction.\<close>

fun spenders :: "CTxMemPool \<Rightarrow> uint256 \<Rightarrow> nat list \<Rightarrow> fault + uint256 list" where
  "spenders p h [] = Inr []"
| "spenders p h (i # is) =
     (case map_of (mapNextTx p) \<lparr>outhash = h, outn = of_nat i\<rparr> of
        None \<Rightarrow> spenders p h is
      | Some it \<Rightarrow> (case map_of (mapTx p) (ptx it) of
          None \<Rightarrow> Inl Abort
        | Some e \<Rightarrow> bindE (spenders p h is) (\<lambda>hs. Inr (GetHash (etx e) # hs))))"

definition remove_entry :: "CTxMemPool \<Rightarrow> uint256 \<Rightarrow> CTxMemPoolEntry \<Rightarrow> CTxMemPool" where
  "remove_entry p h e =
     p\<lparr>mapNextTx := fold map_erase (map prevout (vin (etx e))) (mapNextTx p),
       totalTxSize := totalTxSize p - of_nat (eTxSize e),
       mapTx := map_erase h (mapTx p),
       nTransactionsUpdated := nTransactionsUpdated p + 1\<rparr>"

lemma map_erase_shorter: "map_of m k = Some v \<Longrightarrow> length (map_erase k m) < length m"
  unfolding map_erase_def by (rule length_filter_less [of "(k, v)"]) (auto dest: map_of_SomeD)

text \<open>The loop over the queue of hashes; it returns the removed transactions too.\<close>

function remove_loop :: "bool \<Rightarrow> uint256 list \<Rightarrow> CTxMemPool \<Rightarrow> CTransaction list \<Rightarrow>
    fault + CTxMemPool \<times> CTransaction list" where
  "remove_loop fRecursive txToRemove p removed =
     (case txToRemove of
        [] \<Rightarrow> Inr (p, removed)
      | h # txToRemove \<Rightarrow> (case map_of (mapTx p) h of
          None \<Rightarrow> remove_loop fRecursive txToRemove p removed
        | Some e \<Rightarrow>
            bindE (if fRecursive then spenders p h [0..<length (vout (etx e))] else Inr []) (\<lambda>hs.
              remove_loop fRecursive (txToRemove @ hs) (remove_entry p h e) (removed @ [etx e]))))"
  by pat_completeness auto
termination
  by (relation "measures [\<lambda>(r, q, p, rm). length (mapTx p), \<lambda>(r, q, p, rm). length q]")
    (auto simp: remove_entry_def dest: map_erase_shorter)

declare remove_loop.simps [simp del]

definition remove_tx :: "CTxMemPool \<Rightarrow> CTransaction \<Rightarrow> CTransaction list \<Rightarrow> bool \<Rightarrow>
    fault + CTxMemPool \<times> CTransaction list" where
  "remove_tx p origTx removed fRecursive =
     (let h = GetHash origTx in
      bindE (if fRecursive \<and> map_of (mapTx p) h = None then spenders p h [0..<length (vout origTx)] else Inr []) (\<lambda>hs.
        remove_loop fRecursive (h # hs) p removed))"

text \<open>Whether a transaction of the pool spends a coin that is gone or a coinbase or coinstake that is immature;
\<open>view\<close> is what AccessCoins of the cache below the pool gives.\<close>

fun spends_immature :: "bool \<Rightarrow> (uint256 \<Rightarrow> CCoins option) \<Rightarrow> CTxMemPool \<Rightarrow> 32 word \<Rightarrow> CTxIn list \<Rightarrow> fault + bool" where
  "spends_immature fSanityCheck view p nMemPoolHeight [] = Inr False"
| "spends_immature fSanityCheck view p nMemPoolHeight (txin # ins) =
     (if map_of (mapTx p) (outhash (prevout txin)) \<noteq> None then spends_immature fSanityCheck view p nMemPoolHeight ins
      else case view (outhash (prevout txin)) of
        None \<Rightarrow> if fSanityCheck then Inl Abort else Inr True
      | Some coins \<Rightarrow>
          if (fCoinBase coins \<or> fCoinStake coins) \<and> nMemPoolHeight - word_of_int (cHeight coins) < word_of_int nMaturity
          then Inr True
          else spends_immature fSanityCheck view p nMemPoolHeight ins)"

fun immature_entries :: "bool \<Rightarrow> (uint256 \<Rightarrow> CCoins option) \<Rightarrow> CTxMemPool \<Rightarrow> 32 word \<Rightarrow> (uint256 \<times> CTxMemPoolEntry) list \<Rightarrow>
    fault + CTransaction list" where
  "immature_entries fSanityCheck view p nMemPoolHeight [] = Inr []"
| "immature_entries fSanityCheck view p nMemPoolHeight ((h, e) # es) =
     bindE (spends_immature fSanityCheck view p nMemPoolHeight (vin (etx e))) (\<lambda>b.
     bindE (immature_entries fSanityCheck view p nMemPoolHeight es) (\<lambda>txs. Inr (if b then etx e # txs else txs)))"

fun remove_each :: "CTxMemPool \<Rightarrow> CTransaction list \<Rightarrow> fault + CTxMemPool" where
  "remove_each p [] = Inr p"
| "remove_each p (tx # txs) = bindE (remove_tx p tx [] True) (\<lambda>(p, _). remove_each p txs)"

definition removeCoinbaseSpends :: "bool \<Rightarrow> (uint256 \<Rightarrow> CCoins option) \<Rightarrow> CTxMemPool \<Rightarrow> 32 word \<Rightarrow> fault + CTxMemPool" where
  "removeCoinbaseSpends fSanityCheck view p nMemPoolHeight =
     bindE (immature_entries fSanityCheck view p nMemPoolHeight (mapTx p)) (remove_each p)"

fun conflicts_loop :: "CTransaction \<Rightarrow> CTxIn list \<Rightarrow> CTxMemPool \<Rightarrow> CTransaction list \<Rightarrow>
    fault + CTxMemPool \<times> CTransaction list" where
  "conflicts_loop tx [] p removed = Inr (p, removed)"
| "conflicts_loop tx (txin # ins) p removed =
     (case map_of (mapNextTx p) (prevout txin) of
        None \<Rightarrow> conflicts_loop tx ins p removed
      | Some it \<Rightarrow> (case map_of (mapTx p) (ptx it) of
          None \<Rightarrow> Inl Abort
        | Some e \<Rightarrow>
            if GetHash (etx e) \<noteq> GetHash tx
            then bindE (remove_tx p (etx e) removed True) (\<lambda>(p, removed). conflicts_loop tx ins p removed)
            else conflicts_loop tx ins p removed))"

definition removeConflicts :: "CTxMemPool \<Rightarrow> CTransaction \<Rightarrow> CTransaction list \<Rightarrow> fault + CTxMemPool \<times> CTransaction list" where
  "removeConflicts p tx removed = conflicts_loop tx (vin tx) p removed"

definition ClearPrioritisation :: "CTxMemPool \<Rightarrow> uint256 \<Rightarrow> CTxMemPool" where
  "ClearPrioritisation p h = p\<lparr>mapDeltas := map_erase h (mapDeltas p)\<rparr>"

text \<open>\<open>dadd\<close> is the addition of doubles; the added fees are 64-bit integers.\<close>

definition PrioritiseTransaction ::
  "(64 word \<Rightarrow> 64 word \<Rightarrow> 64 word) \<Rightarrow> CTxMemPool \<Rightarrow> uint256 \<Rightarrow> 64 word \<Rightarrow> CAmount \<Rightarrow> CTxMemPool" where
  "PrioritiseTransaction dadd p h dPriorityDelta nFeeDelta =
     (let (d, f) = (case map_of (mapDeltas p) h of None \<Rightarrow> (0, 0) | Some r \<Rightarrow> r) in
      p\<lparr>mapDeltas := map_put h (dadd d dPriorityDelta, f + nFeeDelta) (mapDeltas p)\<rparr>)"

definition ApplyDeltas ::
  "(64 word \<Rightarrow> 64 word \<Rightarrow> 64 word) \<Rightarrow> CTxMemPool \<Rightarrow> uint256 \<Rightarrow> 64 word \<times> CAmount \<Rightarrow> 64 word \<times> CAmount" where
  "ApplyDeltas dadd p h deltas =
     (case map_of (mapDeltas p) h of None \<Rightarrow> deltas
      | Some (d, f) \<Rightarrow> (dadd (fst deltas) d, snd deltas + f))"

fun removeForBlock :: "CTxMemPool \<Rightarrow> CTransaction list \<Rightarrow> CTransaction list \<Rightarrow> fault + CTxMemPool \<times> CTransaction list" where
  "removeForBlock p [] conflicts = Inr (p, conflicts)"
| "removeForBlock p (tx # txs) conflicts =
     bindE (remove_tx p tx [] False) (\<lambda>(p, dummy).
     bindE (removeConflicts p tx conflicts) (\<lambda>(p, conflicts).
       removeForBlock (ClearPrioritisation p (GetHash tx)) txs conflicts))"

definition pool_clear :: "CTxMemPool \<Rightarrow> CTxMemPool" where
  "pool_clear p = p\<lparr>mapTx := [], mapNextTx := [], totalTxSize := 0, nTransactionsUpdated := nTransactionsUpdated p + 1\<rparr>"

text \<open>CCoins::Spend(int) and the loop from the lower bound of the outputs of a transaction.\<close>

definition Spend_at :: "CCoins \<Rightarrow> 32 word \<Rightarrow> CCoins" where
  "Spend_at coins n = (case Spend coins \<lparr>outhash = 0, outn = n\<rparr> of None \<Rightarrow> coins | Some (coins, undo) \<Rightarrow> coins)"

definition pruneSpent :: "CTxMemPool \<Rightarrow> uint256 \<Rightarrow> CCoins \<Rightarrow> CCoins" where
  "pruneSpent p hashTx coins =
     fold (\<lambda>(out, it) coins. Spend_at coins (outn out))
       (takeWhile (\<lambda>(out, it). outhash out = hashTx)
         (dropWhile (\<lambda>(out, it). out < \<lparr>outhash = hashTx, outn = 0\<rparr>) (mapNextTx p))) coins"

section \<open>Laws of the maps\<close>

text \<open>What a client of a std::map relies on.\<close>

locale ordered_map =
  fixes ok :: "'m \<Rightarrow> bool" and look :: "'m \<Rightarrow> 'k \<rightharpoonup> 'v" and put :: "'k \<Rightarrow> 'v \<Rightarrow> 'm \<Rightarrow> 'm" and erase :: "'k \<Rightarrow> 'm \<Rightarrow> 'm"
  assumes look_put: "ok m \<Longrightarrow> look (put k v m) = (look m)(k \<mapsto> v)" and ok_put: "ok m \<Longrightarrow> ok (put k v m)"
    and look_erase: "look (erase k m) = (look m)(k := None)" and ok_erase: "ok m \<Longrightarrow> ok (erase k m)"
begin

lemma look_erase_all: "look (fold erase ks m) = (look m) |` (- set ks)"
  by (induction ks arbitrary: m) (auto simp: look_erase restrict_map_def)

lemma ok_erase_all: "ok m \<Longrightarrow> ok (fold erase ks m)"
  by (induction ks arbitrary: m) (auto intro: ok_erase)

end

definition sorted_map :: "('k :: linorder \<times> 'v) list \<Rightarrow> bool" where
  "sorted_map m \<longleftrightarrow> sorted_wrt (<) (map fst m)"

lemma set_map_put: "fst ` set (map_put k v m) = insert k (fst ` set m)"
  by (induction k v m rule: map_put.induct) auto

lemma sorted_map_put: "sorted_map m \<Longrightarrow> sorted_map (map_put k v m)"
proof (induction k v m rule: map_put.induct)
  case (2 k v k' v' m)
  consider "k < k'" | "k = k'" | "k' < k" by (rule linorder_cases)
  then show ?case
  proof cases
    case 3
    then show ?thesis using 2 set_map_put [of k v m] by (auto simp: sorted_map_def)
  qed (use 2 in \<open>auto simp: sorted_map_def\<close>)
qed (simp add: sorted_map_def)

lemma map_of_notin: "\<forall>x\<in>set m. k \<noteq> fst x \<Longrightarrow> map_of m k = None"
  by (auto simp: map_of_eq_None_iff)

lemma map_of_map_put: "sorted_map m \<Longrightarrow> map_of (map_put k v m) = (map_of m)(k \<mapsto> v)"
proof (induction k v m rule: map_put.induct)
  case (2 k v k' v' m)
  then show ?case by (auto simp: sorted_map_def)
qed simp

lemma map_of_erase: "map_of (map_erase k m) = (map_of m)(k := None)"
  by (induction m) (auto simp: map_erase_def)

lemma sorted_map_erase: "sorted_map m \<Longrightarrow> sorted_map (map_erase k m)"
  by (induction m) (auto simp: sorted_map_def map_erase_def)

interpretation std_map: ordered_map sorted_map map_of map_put map_erase
  by unfold_locales (simp_all add: map_of_map_put sorted_map_put map_of_erase sorted_map_erase)

text \<open>Sums over a map.\<close>

lemma sum_map_put: "map_of m k = None \<Longrightarrow> sorted_map m \<Longrightarrow>
  sum_list (map (f \<circ> snd) (map_put k v m)) = f v + (sum_list (map (f \<circ> snd) m) :: nat)"
  by (induction k v m rule: map_put.induct) (auto simp: sorted_map_def split: if_splits)

lemma sum_map_erase: "map_of m k = Some v \<Longrightarrow> sorted_map m \<Longrightarrow>
  sum_list (map (f \<circ> snd) m) = f v + (sum_list (map (f \<circ> snd) (map_erase k m)) :: nat)"
proof (induction m)
  case (Cons x m)
  obtain k' v' where x: "x = (k', v')" by (cases x) auto
  have s: "sorted_map m" using Cons.prems(2) by (simp add: sorted_map_def)
  show ?case
  proof (cases "k' = k")
    case True
    have "k \<notin> fst ` set m" using Cons.prems(2) x True by (auto simp: sorted_map_def)
    then have "map_erase k m = m" by (force simp: map_erase_def filter_id_conv)
    then show ?thesis using Cons.prems(1) x True by (simp add: map_erase_def)
  next
    case False
    then show ?thesis using Cons.IH s Cons.prems(1) x by (simp add: map_erase_def)
  qed
qed simp

section \<open>Consistency\<close>

text \<open>What check asserts of a pool: both maps are ordered, every entry is stored under its hash, the inputs of
the entries that are no zerocoin spends are exactly the keys of mapNextTx, and the sizes add up.\<close>

definition pool_entry_ok :: "CTxMemPool \<Rightarrow> uint256 \<Rightarrow> CTxMemPoolEntry \<Rightarrow> bool" where
  "pool_entry_ok p h e \<longleftrightarrow> GetHash (etx e) = h \<and>
     (IsZerocoinSpend_tx (etx e) = Inr False \<or>
      IsZerocoinSpend_tx (etx e) = Inr True \<and> (\<forall>i\<in>set (vin (etx e)). map_of (mapNextTx p) (prevout i) = None))"

definition spends_at :: "CTxMemPool \<Rightarrow> COutPoint \<Rightarrow> CInPoint \<Rightarrow> bool" where
  "spends_at p out ip \<longleftrightarrow> (\<exists>e. map_of (mapTx p) (ptx ip) = Some e \<and> IsZerocoinSpend_tx (etx e) = Inr False \<and>
     inn ip < length (vin (etx e)) \<and> prevout (vin (etx e) ! inn ip) = out)"

definition pool_size :: "CTxMemPool \<Rightarrow> nat" where
  "pool_size p = sum_list (map (eTxSize \<circ> snd) (mapTx p))"

definition pool_ok :: "CTxMemPool \<Rightarrow> bool" where
  "pool_ok p \<longleftrightarrow> sorted_map (mapTx p) \<and> sorted_map (mapNextTx p) \<and>
     (\<forall>h e. map_of (mapTx p) h = Some e \<longrightarrow> pool_entry_ok p h e) \<and>
     (\<forall>out ip. map_of (mapNextTx p) out = Some ip \<longleftrightarrow> spends_at p out ip) \<and>
     totalTxSize p = of_nat (pool_size p)"

lemma pool_okD:
  assumes "pool_ok p"
  shows "sorted_map (mapTx p)" "sorted_map (mapNextTx p)"
    "map_of (mapTx p) h = Some e \<Longrightarrow> pool_entry_ok p h e"
    "map_of (mapNextTx p) out = Some ip \<longleftrightarrow> spends_at p out ip"
    "totalTxSize p = of_nat (pool_size p)"
  using assms by (auto simp: pool_ok_def)

lemma empty_pool_ok: "pool_ok empty_pool"
  by (simp add: pool_ok_def empty_pool_def sorted_map_def spends_at_def pool_size_def)

text \<open>The inputs of a new transaction.\<close>

lemma put_inputs_sorted: "sorted_map m \<Longrightarrow> sorted_map (put_inputs h i ins m)"
  by (induction h i ins m rule: put_inputs.induct) (simp_all add: sorted_map_put)

lemma put_inputs_other: "sorted_map m \<Longrightarrow> out \<notin> prevout ` set ins \<Longrightarrow> map_of (put_inputs h i ins m) out = map_of m out"
  by (induction h i ins m rule: put_inputs.induct) (simp_all add: sorted_map_put map_of_map_put)

lemma put_inputs_nth:
  "sorted_map m \<Longrightarrow> distinct (map prevout ins) \<Longrightarrow> j < length ins \<Longrightarrow>
   map_of (put_inputs h i ins m) (prevout (ins ! j)) = Some \<lparr>ptx = h, inn = i + j\<rparr>"
proof (induction h i ins m arbitrary: j rule: put_inputs.induct)
  case (2 h i txin ins m)
  show ?case
  proof (cases j)
    case 0
    then show ?thesis using 2 by (simp add: put_inputs_other sorted_map_put map_of_map_put)
  next
    case (Suc k)
    then show ?thesis using 2 by (simp add: sorted_map_put)
  qed
qed simp

lemma put_inputs_look:
  assumes "sorted_map m" "distinct (map prevout ins)"
  shows "map_of (put_inputs h i ins m) out = Some ip \<longleftrightarrow>
    (\<exists>j<length ins. prevout (ins ! j) = out \<and> ip = \<lparr>ptx = h, inn = i + j\<rparr>) \<or>
    out \<notin> prevout ` set ins \<and> map_of m out = Some ip"
proof (cases "out \<in> prevout ` set ins")
  case True
  then obtain j where j: "j < length ins" "prevout (ins ! j) = out" by (auto simp: in_set_conv_nth)
  have "k = j" if "k < length ins" "prevout (ins ! k) = out" for k
    using assms(2) j that nth_eq_iff_index_eq [of "map prevout ins" k j] by simp
  have at_j: "map_of (put_inputs h i ins m) out = Some \<lparr>ptx = h, inn = i + j\<rparr>"
    using put_inputs_nth [OF assms j(1), of h i] j(2) by simp
  have "(\<exists>k<length ins. prevout (ins ! k) = out \<and> ip = \<lparr>ptx = h, inn = i + k\<rparr>) \<longleftrightarrow> ip = \<lparr>ptx = h, inn = i + j\<rparr>"
    using j \<open>\<And>k. k < length ins \<Longrightarrow> prevout (ins ! k) = out \<Longrightarrow> k = j\<close> by blast
  then show ?thesis using at_j True by (simp add: eq_commute)
next
  case False
  then have "\<nexists>j. j < length ins \<and> prevout (ins ! j) = out" by auto
  then show ?thesis using put_inputs_other [OF assms(1) False, of h i] False by auto
qed

section \<open>Adding\<close>

definition may_enter :: "CTxMemPool \<Rightarrow> CTxMemPoolEntry \<Rightarrow> bool" where
  "may_enter p e \<longleftrightarrow> map_of (mapTx p) (GetHash (etx e)) = None \<and>
     (\<forall>i\<in>set (vin (etx e)). map_of (mapNextTx p) (prevout i) = None) \<and>
     (IsZerocoinSpend_tx (etx e) = Inr True \<or>
      IsZerocoinSpend_tx (etx e) = Inr False \<and> distinct (map prevout (vin (etx e))) \<and>
      (\<forall>h e'. map_of (mapTx p) h = Some e' \<and> IsZerocoinSpend_tx (etx e') = Inr True \<longrightarrow>
         prevout ` set (vin (etx e)) \<inter> prevout ` set (vin (etx e')) = {}))"

lemma map_put_fields:
  assumes "pool_ok p" "map_of (mapTx p) h = None"
  shows "sorted_map (map_put h e (mapTx p))"
    "map_of (map_put h e (mapTx p)) = (map_of (mapTx p))(h \<mapsto> e)"
    "sum_list (map (eTxSize \<circ> snd) (map_put h e (mapTx p))) = eTxSize e + pool_size p"
  using pool_okD(1) [OF assms(1)] assms(2)
  by (simp_all add: sorted_map_put map_of_map_put sum_map_put pool_size_def)

lemma add_zerocoin_spend:
  assumes ok: "pool_ok p" and enter: "may_enter p e" and zs: "IsZerocoinSpend_tx (etx e) = Inr True"
  shows "\<exists>p'. addUnchecked p (GetHash (etx e)) e = Inr p' \<and> pool_ok p' \<and>
    map_of (mapTx p') = (map_of (mapTx p))(GetHash (etx e) \<mapsto> e)"
proof -
  let ?h = "GetHash (etx e)"
  let ?p = "p\<lparr>mapTx := map_put ?h e (mapTx p), nTransactionsUpdated := nTransactionsUpdated p + 1,
    totalTxSize := totalTxSize p + of_nat (eTxSize e)\<rparr>"
  have new: "map_of (mapTx p) ?h = None" using enter by (simp add: may_enter_def)
  note f = map_put_fields [OF ok new, of e]
  have "spends_at ?p out ip \<longleftrightarrow> spends_at p out ip" for out ip
    using new zs by (auto simp: spends_at_def f(2))
  moreover have "pool_entry_ok ?p h e'" if "map_of (mapTx ?p) h = Some e'" for h e'
    using that pool_okD(3) [OF ok, of h e'] enter zs
    by (auto simp: f(2) pool_entry_ok_def may_enter_def split: if_splits)
  ultimately have "pool_ok ?p"
    using f pool_okD(2,4,5) [OF ok] by (simp add: pool_ok_def pool_size_def)
  moreover have "addUnchecked p ?h e = Inr ?p" using zs by (simp add: addUnchecked_def Let_def)
  ultimately show ?thesis using f(2) by auto
qed

lemma add_spend:
  assumes ok: "pool_ok p" and enter: "may_enter p e" and zs: "IsZerocoinSpend_tx (etx e) = Inr False"
  shows "\<exists>p'. addUnchecked p (GetHash (etx e)) e = Inr p' \<and> pool_ok p' \<and>
    map_of (mapTx p') = (map_of (mapTx p))(GetHash (etx e) \<mapsto> e)"
proof -
  let ?h = "GetHash (etx e)" and ?ins = "vin (etx e)"
  let ?p = "p\<lparr>mapTx := map_put ?h e (mapTx p), mapNextTx := put_inputs ?h 0 ?ins (mapNextTx p),
    nTransactionsUpdated := nTransactionsUpdated p + 1, totalTxSize := totalTxSize p + of_nat (eTxSize e)\<rparr>"
  have new: "map_of (mapTx p) ?h = None" and free: "\<And>i. i \<in> set ?ins \<Longrightarrow> map_of (mapNextTx p) (prevout i) = None"
    and d: "distinct (map prevout ?ins)"
    and apart: "\<And>h e'. map_of (mapTx p) h = Some e' \<Longrightarrow> IsZerocoinSpend_tx (etx e') = Inr True \<Longrightarrow>
      prevout ` set ?ins \<inter> prevout ` set (vin (etx e')) = {}"
    using enter zs by (auto simp: may_enter_def)
  note f = map_put_fields [OF ok new, of e]
  note look = put_inputs_look [OF pool_okD(2) [OF ok] d, of ?h 0]
  have spends: "map_of (mapNextTx ?p) out = Some ip \<longleftrightarrow> spends_at ?p out ip" for out ip
  proof (cases "ptx ip = ?h")
    case True
    have "\<not> spends_at p out ip" using True new by (simp add: spends_at_def)
    then have "map_of (mapNextTx ?p) out = Some ip \<longleftrightarrow> (\<exists>j<length ?ins. prevout (?ins ! j) = out \<and> ip = \<lparr>ptx = ?h, inn = j\<rparr>)"
      using look [of out ip] pool_okD(4) [OF ok] by simp
    also have "\<dots> \<longleftrightarrow> inn ip < length ?ins \<and> prevout (?ins ! inn ip) = out" using True by (cases ip) auto
    also have "\<dots> \<longleftrightarrow> spends_at ?p out ip" using True zs by (simp add: spends_at_def f(2))
    finally show ?thesis .
  next
    case False
    then have "map_of (mapNextTx ?p) out = Some ip \<longleftrightarrow> map_of (mapNextTx p) out = Some ip"
      using look [of out ip] free by auto
    then show ?thesis using pool_okD(4) [OF ok] False by (simp add: spends_at_def f(2))
  qed
  have "pool_entry_ok ?p h e'" if "map_of (mapTx ?p) h = Some e'" for h e'
  proof (cases "h = ?h")
    case False
    then have e': "map_of (mapTx p) h = Some e'" using that by (simp add: f(2))
    have "map_of (mapNextTx ?p) (prevout i) = None"
      if "IsZerocoinSpend_tx (etx e') = Inr True" "i \<in> set (vin (etx e'))" for i
      using put_inputs_other [OF pool_okD(2) [OF ok], of "prevout i" ?ins ?h 0] apart [OF e' that(1)]
        pool_okD(3) [OF ok e'] that by (auto simp: pool_entry_ok_def)
    then show ?thesis using pool_okD(3) [OF ok e'] by (auto simp: pool_entry_ok_def)
  qed (use that zs in \<open>simp add: f(2) pool_entry_ok_def\<close>)
  then have "pool_ok ?p"
    using f spends pool_okD(2,5) [OF ok] by (simp add: pool_ok_def pool_size_def put_inputs_sorted)
  moreover have "addUnchecked p ?h e = Inr ?p" using zs by (simp add: addUnchecked_def Let_def)
  ultimately show ?thesis using f(2) by auto
qed

lemma addUnchecked_ok:
  assumes "pool_ok p" "may_enter p e"
  shows "\<exists>p'. addUnchecked p (GetHash (etx e)) e = Inr p' \<and> pool_ok p' \<and>
    map_of (mapTx p') = (map_of (mapTx p))(GetHash (etx e) \<mapsto> e)"
  using add_zerocoin_spend [OF assms] add_spend [OF assms] assms(2) by (auto simp: may_enter_def)

section \<open>Removing\<close>

lemma pool_spender:
  assumes "pool_ok p" "map_of (mapNextTx p) out = Some ip"
  shows "\<exists>e. map_of (mapTx p) (ptx ip) = Some e \<and> GetHash (etx e) = ptx ip \<and> prevout (vin (etx e) ! inn ip) = out \<and>
    inn ip < length (vin (etx e))"
  using assms pool_okD(3,4) [OF assms(1)] by (fastforce simp: spends_at_def pool_entry_ok_def)

lemma remove_entry_next:
  "map_of (mapNextTx (remove_entry p h e)) = (map_of (mapNextTx p)) |` (- prevout ` set (vin (etx e)))"
  by (simp add: remove_entry_def std_map.look_erase_all)

lemma remove_entry_tx: "map_of (mapTx (remove_entry p h e)) = (map_of (mapTx p))(h := None)"
  by (simp add: remove_entry_def map_of_erase)

text \<open>The inputs of an entry lead back to it, or to nothing for a zerocoin spend.\<close>

lemma own_inputs:
  assumes "pool_ok p" "map_of (mapTx p) h = Some e" "out \<in> prevout ` set (vin (etx e))" "map_of (mapNextTx p) out = Some ip"
  shows "ptx ip = h"
proof -
  from assms(3) obtain j where j: "j < length (vin (etx e))" "prevout (vin (etx e) ! j) = out"
    by (auto simp: in_set_conv_nth)
  have "IsZerocoinSpend_tx (etx e) = Inr False"
    using pool_okD(3) [OF assms(1,2)] assms(3,4) by (auto simp: pool_entry_ok_def)
  then have "spends_at p out \<lparr>ptx = h, inn = j\<rparr>" using assms(2) j by (simp add: spends_at_def)
  then show ?thesis using pool_okD(4) [OF assms(1)] assms(4) by (metis CInPoint.select_convs(1) option.inject)
qed

lemma remove_entry_ok:
  assumes ok: "pool_ok p" and e: "map_of (mapTx p) h = Some e"
  shows "pool_ok (remove_entry p h e)"
proof -
  let ?p = "remove_entry p h e"
  have nxt: "map_of (mapNextTx ?p) out = Some ip \<longleftrightarrow> spends_at ?p out ip" for out ip
  proof (cases "out \<in> prevout ` set (vin (etx e))")
    case True
    have "\<not> spends_at ?p out ip"
    proof
      assume a: "spends_at ?p out ip"
      then have "ptx ip \<noteq> h" "spends_at p out ip" by (auto simp: spends_at_def remove_entry_tx split: if_splits)
      then show False using own_inputs [OF ok e True] pool_okD(4) [OF ok] by blast
    qed
    then show ?thesis using True by (simp add: remove_entry_next)
  next
    case False
    have "ptx ip \<noteq> h" if "spends_at p out ip"
    proof
      assume "ptx ip = h"
      then have "out \<in> prevout ` set (vin (etx e))" using that e by (auto simp: spends_at_def)
      then show False using False by simp
    qed
    then have "spends_at ?p out ip \<longleftrightarrow> spends_at p out ip" by (auto simp: spends_at_def remove_entry_tx)
    then show ?thesis using False pool_okD(4) [OF ok] by (simp add: remove_entry_next)
  qed
  have "pool_entry_ok ?p h' e'" if "map_of (mapTx ?p) h' = Some e'" for h' e'
    using that pool_okD(3) [OF ok, of h' e']
    by (auto simp: pool_entry_ok_def remove_entry_tx remove_entry_next restrict_map_def split: if_splits)
  moreover have "totalTxSize ?p = of_nat (pool_size ?p)"
    using sum_map_erase [OF e pool_okD(1) [OF ok], of eTxSize] pool_okD(5) [OF ok]
    by (simp add: remove_entry_def pool_size_def)
  ultimately show ?thesis
    using nxt pool_okD(1,2) [OF ok]
    by (simp add: pool_ok_def) (simp add: remove_entry_def sorted_map_erase std_map.ok_erase_all)
qed

definition spends_tx :: "CTxMemPool \<Rightarrow> CTransaction \<Rightarrow> uint256 \<Rightarrow> bool" where
  "spends_tx p tx h \<longleftrightarrow> (\<exists>i<length (vout tx). \<exists>ip.
     map_of (mapNextTx p) \<lparr>outhash = GetHash tx, outn = of_nat i\<rparr> = Some ip \<and> ptx ip = h)"

lemma spenders_ok:
  assumes "pool_ok p"
  shows "\<exists>hs. spenders p h is = Inr hs \<and>
    set hs = {h'. \<exists>i\<in>set is. \<exists>ip. map_of (mapNextTx p) \<lparr>outhash = h, outn = of_nat i\<rparr> = Some ip \<and> ptx ip = h'}"
proof (induction "is")
  case (Cons i "is")
  then obtain hs where hs: "spenders p h is = Inr hs"
    "set hs = {h'. \<exists>i\<in>set is. \<exists>ip. map_of (mapNextTx p) \<lparr>outhash = h, outn = of_nat i\<rparr> = Some ip \<and> ptx ip = h'}"
    by blast
  show ?case
  proof (cases "map_of (mapNextTx p) \<lparr>outhash = h, outn = of_nat i\<rparr>")
    case None
    then show ?thesis using hs by simp
  next
    case (Some ip)
    obtain e where "map_of (mapTx p) (ptx ip) = Some e" "GetHash (etx e) = ptx ip"
      using pool_spender [OF assms Some] by blast
    then show ?thesis using Some hs by auto
  qed
qed simp

lemma spenders_tx:
  assumes "pool_ok p"
  shows "\<exists>hs. spenders p (GetHash tx) [0..<length (vout tx)] = Inr hs \<and> set hs = {h. spends_tx p tx h}"
  using spenders_ok [OF assms, of "GetHash tx" "[0..<length (vout tx)]"] by (simp add: spends_tx_def Bex_def)

text \<open>The entries that depend on an entry, directly or not.\<close>

definition child :: "CTxMemPool \<Rightarrow> uint256 \<Rightarrow> uint256 \<Rightarrow> bool" where
  "child p h h' \<longleftrightarrow> (\<exists>e. map_of (mapTx p) h = Some e \<and> spends_tx p (etx e) h')"

definition reach :: "CTxMemPool \<Rightarrow> uint256 set \<Rightarrow> uint256 set" where
  "reach p q = {h. \<exists>x\<in>q. (child p)\<^sup>*\<^sup>* x h}"

lemma child_removed:
  assumes ok: "pool_ok p" and e: "map_of (mapTx p) h = Some e"
  shows "child (remove_entry p h e) a b \<longleftrightarrow> child p a b \<and> a \<noteq> h \<and> b \<noteq> h"
proof -
  let ?p = "remove_entry p h e"
  have "map_of (mapNextTx ?p) out = Some ip \<longleftrightarrow> map_of (mapNextTx p) out = Some ip \<and> ptx ip \<noteq> h" for out ip
    using pool_okD(4) [OF remove_entry_ok [OF ok e], of out ip] pool_okD(4) [OF ok, of out ip]
    by (auto simp: spends_at_def remove_entry_tx)
  then have "spends_tx ?p tx b \<longleftrightarrow> spends_tx p tx b \<and> b \<noteq> h" for tx by (auto simp: spends_tx_def)
  then show ?thesis by (auto simp: child_def remove_entry_tx)
qed

lemma reach_removed:
  assumes ok: "pool_ok p" and e: "map_of (mapTx p) h = Some e" and hs: "set hs = {h'. spends_tx p (etx e) h'}"
  shows "reach p (insert h q) = insert h (reach (remove_entry p h e) (q \<union> set hs))"
proof (intro equalityI subsetI)
  let ?p = "remove_entry p h e"
  fix y assume "y \<in> reach p (insert h q)"
  then obtain x where x: "x \<in> insert h q" "(child p)\<^sup>*\<^sup>* x y" by (auto simp: reach_def)
  from x(2) show "y \<in> insert h (reach ?p (q \<union> set hs))"
  proof (induction rule: rtranclp_induct)
    case base
    then show ?case using x(1) by (auto simp: reach_def)
  next
    case (step y z)
    consider "z = h" | "y = h" "z \<noteq> h" | "y \<noteq> h" "z \<noteq> h" by blast
    then show ?case
    proof cases
      case 2
      then have "z \<in> set hs" using step.hyps(2) e hs by (auto simp: child_def)
      then show ?thesis by (auto simp: reach_def)
    next
      case 3
      then have "child ?p y z" "y \<in> reach ?p (q \<union> set hs)" using step child_removed [OF ok e] by auto
      then show ?thesis by (auto simp: reach_def intro: rtranclp.rtrancl_into_rtrancl)
    qed simp
  qed
next
  let ?p = "remove_entry p h e"
  fix y assume "y \<in> insert h (reach ?p (q \<union> set hs))"
  then consider "y = h" | x where "x \<in> q \<union> set hs" "(child ?p)\<^sup>*\<^sup>* x y" by (auto simp: reach_def)
  then show "y \<in> reach p (insert h q)"
  proof cases
    case 2
    have "(child p)\<^sup>*\<^sup>* x y" using 2(2) by (rule mono_rtranclp [rule_format, rotated]) (simp add: child_removed [OF ok e])
    moreover have "child p h x" if "x \<in> set hs" using that e hs by (auto simp: child_def)
    ultimately show ?thesis using 2(1) by (auto simp: reach_def intro: converse_rtranclp_into_rtranclp)
  qed (auto simp: reach_def)
qed

text \<open>The loop of a recursive removal takes what can be reached from the queue, and nothing else.\<close>

lemma reach_gone: "map_of (mapTx p) h = None \<Longrightarrow> reach p (insert h q) = insert h (reach p q)"
  by (auto simp: reach_def child_def elim: converse_rtranclpE)

lemma remove_loop_recursive:
  "pool_ok p \<Longrightarrow> \<exists>p' rm'. remove_loop True q p rm = Inr (p', rm') \<and> pool_ok p' \<and>
     map_of (mapTx p') = (map_of (mapTx p)) |` (- reach p (set q)) \<and>
     set rm' = set rm \<union> etx ` {e. \<exists>h\<in>reach p (set q). map_of (mapTx p) h = Some e}"
proof (induction True q p rm rule: remove_loop.induct)
  case (1 q p rm)
  show ?case
  proof (cases q)
    case Nil
    then show ?thesis using 1(3) by (simp add: remove_loop.simps [of True "[]"] reach_def restrict_map_def)
  next
    case (Cons h q')
    show ?thesis
    proof (cases "map_of (mapTx p) h")
      case None
      have "(map_of (mapTx p)) |` (- reach p (set q')) = (map_of (mapTx p)) |` (- reach p (set q))"
        using None by (auto simp: Cons reach_gone restrict_map_def)
      then show ?thesis
        using 1(1) [OF Cons None 1(3)] None by (simp add: remove_loop.simps [of True "h # q'"] Cons reach_gone)
    next
      case (Some e)
      have h: "GetHash (etx e) = h" using pool_okD(3) [OF 1(3) Some] by (simp add: pool_entry_ok_def)
      obtain hs where hs: "spenders p h [0..<length (vout (etx e))] = Inr hs" "set hs = {h. spends_tx p (etx e) h}"
        using spenders_tx [OF 1(3), of "etx e"] h by auto
      let ?p = "remove_entry p h e"
      let ?R = "reach ?p (set (q' @ hs))"
      obtain p' rm' where r: "remove_loop True (q' @ hs) ?p (rm @ [etx e]) = Inr (p', rm')" "pool_ok p'"
        "map_of (mapTx p') = (map_of (mapTx ?p)) |` (- ?R)"
        "set rm' = set (rm @ [etx e]) \<union> etx ` {e. \<exists>h\<in>?R. map_of (mapTx ?p) h = Some e}"
        using 1(2) [OF Cons Some _ remove_entry_ok [OF 1(3) Some], of hs] hs(1) by auto
      have R: "reach p (set q) = insert h ?R"
        using reach_removed [OF 1(3) Some hs(2), of "set q'"] by (simp add: Cons)
      have "map_of (mapTx p') = (map_of (mapTx p)) |` (- reach p (set q))"
        unfolding r(3) R by (auto simp: remove_entry_tx restrict_map_def)
      moreover have "set rm' = set rm \<union> etx ` {e. \<exists>h\<in>reach p (set q). map_of (mapTx p) h = Some e}"
      proof -
        have "{x. \<exists>h'\<in>insert h ?R. map_of (mapTx p) h' = Some x} =
          insert e {x. \<exists>h'\<in>?R. map_of (mapTx ?p) h' = Some x}"
          using Some by (intro set_eqI) (simp add: remove_entry_tx, metis option.inject)
        then show ?thesis unfolding r(4) R by simp
      qed
      ultimately show ?thesis
        using r(1,2) Some hs(1) by (simp add: remove_loop.simps [of True "h # q'"] Cons)
    qed
  qed
qed

text \<open>The entries a recursive removal of a transaction is to take.\<close>

inductive dependent :: "CTxMemPool \<Rightarrow> CTransaction \<Rightarrow> uint256 \<Rightarrow> bool" for p tx where
  itself: "dependent p tx (GetHash tx)"
| of_absent: "map_of (mapTx p) (GetHash tx) = None \<Longrightarrow> spends_tx p tx h \<Longrightarrow> dependent p tx h"
| of_dependent: "dependent p tx h \<Longrightarrow> map_of (mapTx p) h = Some e \<Longrightarrow> spends_tx p (etx e) h' \<Longrightarrow> dependent p tx h'"

lemma dependent_reach:
  assumes "set hs = (if map_of (mapTx p) (GetHash tx) = None then {h. spends_tx p tx h} else {})"
  shows "reach p (insert (GetHash tx) (set hs)) = {h. dependent p tx h}"
proof (intro equalityI subsetI)
  fix y assume "y \<in> reach p (insert (GetHash tx) (set hs))"
  then obtain x where x: "x \<in> insert (GetHash tx) (set hs)" "(child p)\<^sup>*\<^sup>* x y" by (auto simp: reach_def)
  from x(2) have "dependent p tx y"
  proof (induction rule: rtranclp_induct)
    case base
    then show ?case using x(1) assms by (auto intro: itself of_absent split: if_splits)
  qed (auto simp: child_def intro: of_dependent)
  then show "y \<in> {h. dependent p tx h}" by simp
next
  fix y assume "y \<in> {h. dependent p tx h}"
  then have "dependent p tx y" by simp
  then show "y \<in> reach p (insert (GetHash tx) (set hs))"
  proof induction
    case (of_dependent h e h')
    then have "child p h h'" by (auto simp: child_def)
    then show ?case using of_dependent.IH by (auto simp: reach_def intro: rtranclp.rtrancl_into_rtrancl)
  qed (auto simp: reach_def assms)
qed

lemma remove_recursive:
  assumes "pool_ok p"
  shows "\<exists>p' rm'. remove_tx p tx rm True = Inr (p', rm') \<and> pool_ok p' \<and>
     map_of (mapTx p') = (map_of (mapTx p)) |` {h. \<not> dependent p tx h} \<and>
     set rm' = set rm \<union> etx ` {e. \<exists>h. dependent p tx h \<and> map_of (mapTx p) h = Some e}"
proof -
  let ?none = "map_of (mapTx p) (GetHash tx) = None"
  obtain hs where hs: "(if ?none then spenders p (GetHash tx) [0..<length (vout tx)] else Inr []) = Inr hs"
    "set hs = (if ?none then {h. spends_tx p tx h} else {})"
    using spenders_tx [OF assms, of tx] by (cases ?none) auto
  have "remove_tx p tx rm True = remove_loop True (GetHash tx # hs) p rm"
    using hs(1) by (simp add: remove_tx_def)
  then show ?thesis
    using remove_loop_recursive [OF assms, of "GetHash tx # hs" rm] dependent_reach [OF hs(2)]
    by (simp add: Compl_eq)
qed

lemma remove_single:
  assumes "pool_ok p"
  shows "\<exists>p' rm'. remove_tx p tx rm False = Inr (p', rm') \<and> pool_ok p' \<and>
    map_of (mapTx p') = (map_of (mapTx p))(GetHash tx := None)"
proof (cases "map_of (mapTx p) (GetHash tx)")
  case None
  then show ?thesis using assms by (auto simp: remove_tx_def remove_loop.simps)
next
  case (Some e)
  have "remove_tx p tx rm False = Inr (remove_entry p (GetHash tx) e, rm @ [etx e])"
    using Some by (simp add: remove_tx_def remove_loop.simps)
  then show ?thesis using remove_entry_ok [OF assms Some] remove_entry_tx by auto
qed

section \<open>Blocks and conflicts\<close>

text \<open>A pool that has lost entries and gained none.\<close>

definition shrunk :: "CTxMemPool \<Rightarrow> CTxMemPool \<Rightarrow> bool" where
  "shrunk p p' \<longleftrightarrow> pool_ok p' \<and> map_of (mapTx p') \<subseteq>\<^sub>m map_of (mapTx p)"

lemma shrunk_trans: "shrunk p p' \<Longrightarrow> shrunk p' p'' \<Longrightarrow> shrunk p p''"
  by (auto simp: shrunk_def intro: map_le_trans)

lemma shrunk_refl: "pool_ok p \<Longrightarrow> shrunk p p" by (simp add: shrunk_def)

lemma shrunk_Some:
  assumes "shrunk p p'" "map_of (mapTx p') h = Some e"
  shows "map_of (mapTx p) h = Some e"
proof -
  have "h \<in> dom (map_of (mapTx p'))" using assms(2) by blast
  then show ?thesis using assms by (simp add: shrunk_def map_le_def)
qed

lemma shrunk_None: "shrunk p p' \<Longrightarrow> map_of (mapTx p) h = None \<Longrightarrow> map_of (mapTx p') h = None"
  using shrunk_Some [of p p' h] by (cases "map_of (mapTx p') h") auto

lemma shrunk_next:
  assumes "pool_ok p" "shrunk p p'" "map_of (mapNextTx p') out = Some ip"
  shows "map_of (mapNextTx p) out = Some ip"
proof -
  have "spends_at p' out ip" using pool_okD(4) [of p'] assms(2,3) by (simp add: shrunk_def)
  then have "spends_at p out ip"
    using assms(2) by (auto simp: spends_at_def shrunk_def map_le_def dom_def)
  then show ?thesis using pool_okD(4) [OF assms(1)] by blast
qed

lemma shrunk_recursive:
  assumes "pool_ok p"
  obtains p' rm' where "remove_tx p tx rm True = Inr (p', rm')" "shrunk p p'" "map_of (mapTx p') (GetHash tx) = None"
proof -
  obtain p' rm' where r: "remove_tx p tx rm True = Inr (p', rm')" "pool_ok p'"
    "map_of (mapTx p') = (map_of (mapTx p)) |` {h. \<not> dependent p tx h}"
    using remove_recursive [OF assms, of tx rm] by blast
  have "shrunk p p'" unfolding shrunk_def r(3) using r(2) by (auto simp: map_le_def restrict_map_def)
  moreover have "map_of (mapTx p') (GetHash tx) = None"
    unfolding r(3) using dependent.itself [of p tx] by (simp add: restrict_map_def)
  ultimately show ?thesis using that r(1) by blast
qed

text \<open>After removeConflicts no entry but the transaction itself spends one of its inputs.\<close>

lemma conflicts_loop_ok:
  "pool_ok p \<Longrightarrow> \<exists>p' rm'. conflicts_loop tx ins p rm = Inr (p', rm') \<and> shrunk p p' \<and>
     (\<forall>txin\<in>set ins. \<forall>ip. map_of (mapNextTx p') (prevout txin) = Some ip \<longrightarrow> ptx ip = GetHash tx)"
proof (induction tx ins p rm rule: conflicts_loop.induct)
  case (1 tx p rm)
  then show ?case by (simp add: shrunk_refl)
next
  case (2 tx txin ins p rm)
  have rest: ?case
    if a: "conflicts_loop tx (txin # ins) p rm = conflicts_loop tx ins q rm2" "shrunk p q"
      "\<And>ip. map_of (mapNextTx q) (prevout txin) = Some ip \<Longrightarrow> ptx ip = GetHash tx"
      and b: "\<exists>p' rm'. conflicts_loop tx ins q rm2 = Inr (p', rm') \<and> shrunk q p' \<and>
        (\<forall>txin\<in>set ins. \<forall>ip. map_of (mapNextTx p') (prevout txin) = Some ip \<longrightarrow> ptx ip = GetHash tx)" for q rm2
  proof -
    obtain p' rm' where p': "conflicts_loop tx ins q rm2 = Inr (p', rm')" "shrunk q p'"
      "\<forall>txin\<in>set ins. \<forall>ip. map_of (mapNextTx p') (prevout txin) = Some ip \<longrightarrow> ptx ip = GetHash tx"
      using b by blast
    have "ptx ip = GetHash tx" if "map_of (mapNextTx p') (prevout txin) = Some ip" for ip
      using a(2,3) shrunk_next [OF _ p'(2) that] by (simp add: shrunk_def)
    then show ?thesis using a(1) p' shrunk_trans [OF a(2) p'(2)] by auto
  qed
  show ?case
  proof (cases "map_of (mapNextTx p) (prevout txin)")
    case None
    show ?thesis by (rule rest [of p rm]) (use None 2 in \<open>auto simp: shrunk_refl\<close>)
  next
    case (Some it)
    obtain e where e: "map_of (mapTx p) (ptx it) = Some e" "GetHash (etx e) = ptx it"
      using pool_spender [OF 2(4) Some] by blast
    show ?thesis
    proof (cases "GetHash (etx e) = GetHash tx")
      case True
      show ?thesis by (rule rest [of p rm]) (use Some True e 2 in \<open>auto simp: shrunk_refl\<close>)
    next
      case False
      obtain q rm2 where q: "remove_tx p (etx e) rm True = Inr (q, rm2)" "shrunk p q"
        "map_of (mapTx q) (GetHash (etx e)) = None"
        using shrunk_recursive [OF 2(4)] by metis
      have none: "map_of (mapNextTx q) (prevout txin) \<noteq> Some ip" for ip
      proof
        assume a: "map_of (mapNextTx q) (prevout txin) = Some ip"
        then have "ip = it" using shrunk_next [OF 2(4) q(2) a] Some by simp
        moreover have "pool_ok q" using q(2) by (simp add: shrunk_def)
        ultimately show False using pool_spender [OF _ a] q(3) e(2) by auto
      qed
      show ?thesis
      proof (rule rest [OF _ q(2)])
        show "conflicts_loop tx (txin # ins) p rm = conflicts_loop tx ins q rm2"
          using Some e False q(1) by simp
        show "\<exists>p' rm'. conflicts_loop tx ins q rm2 = Inr (p', rm') \<and> shrunk q p' \<and>
          (\<forall>txin\<in>set ins. \<forall>ip. map_of (mapNextTx p') (prevout txin) = Some ip \<longrightarrow> ptx ip = GetHash tx)"
          by (rule 2(2) [OF Some e(1) False]) (use q in \<open>auto simp: shrunk_def\<close>)
      qed (simp add: none)
    qed
  qed
qed

text \<open>After a block none of its transactions is in the pool and no entry spends what they spend.\<close>

lemma removeForBlock_ok:
  "pool_ok p \<Longrightarrow> \<exists>p' cs'. removeForBlock p txs cs = Inr (p', cs') \<and> shrunk p p' \<and>
     (\<forall>tx\<in>set txs. map_of (mapTx p') (GetHash tx) = None \<and>
        (\<forall>txin\<in>set (vin tx). map_of (mapNextTx p') (prevout txin) = None))"
proof (induction txs arbitrary: p cs)
  case Nil
  then show ?case by (simp add: shrunk_refl)
next
  case (Cons tx txs)
  obtain p1 rm1 where p1: "remove_tx p tx [] False = Inr (p1, rm1)" "pool_ok p1"
    "map_of (mapTx p1) = (map_of (mapTx p))(GetHash tx := None)"
    using remove_single [OF Cons.prems, of tx "[]"] by blast
  obtain p2 cs2 where p2: "removeConflicts p1 tx cs = Inr (p2, cs2)" "shrunk p1 p2"
    "\<And>txin ip. txin \<in> set (vin tx) \<Longrightarrow> map_of (mapNextTx p2) (prevout txin) = Some ip \<Longrightarrow> ptx ip = GetHash tx"
    using conflicts_loop_ok [OF p1(2), of tx "vin tx" cs] unfolding removeConflicts_def by blast
  let ?q = "ClearPrioritisation p2 (GetHash tx)"
  have same: "mapTx ?q = mapTx p2" "mapNextTx ?q = mapNextTx p2" by (simp_all add: ClearPrioritisation_def)
  have q: "shrunk p2 ?q" "pool_ok ?q"
    using p2(2) same by (auto simp: shrunk_def pool_ok_def pool_entry_ok_def spends_at_def pool_size_def ClearPrioritisation_def)
  have s1: "shrunk p p1" using p1(2,3) by (auto simp: shrunk_def map_le_def)
  have s: "shrunk p1 ?q" by (rule shrunk_trans [OF p2(2) q(1)])
  obtain p' cs' where p': "removeForBlock ?q txs cs2 = Inr (p', cs')" "shrunk ?q p'"
    "\<forall>tx\<in>set txs. map_of (mapTx p') (GetHash tx) = None \<and>
        (\<forall>txin\<in>set (vin tx). map_of (mapNextTx p') (prevout txin) = None)"
    using Cons.IH [OF q(2), of cs2] by blast
  have gone: "map_of (mapTx p') (GetHash tx) = None"
    by (rule shrunk_None [OF shrunk_trans [OF s p'(2)]]) (simp add: p1(3))
  have "map_of (mapNextTx p') (prevout txin) = None" if i: "txin \<in> set (vin tx)" for txin
  proof (rule ccontr)
    assume "map_of (mapNextTx p') (prevout txin) \<noteq> None"
    then obtain ip where ip: "map_of (mapNextTx p') (prevout txin) = Some ip" by blast
    then have "ptx ip = GetHash tx" using shrunk_next [OF q(2) p'(2) ip] same p2(3) [OF i] by simp
    moreover have "pool_ok p'" using p'(2) by (simp add: shrunk_def)
    ultimately show False using pool_spender [OF _ ip] gone by auto
  qed
  moreover have "removeForBlock p (tx # txs) cs = Inr (p', cs')" using p1(1) p2(1) p'(1) by simp
  ultimately show ?case using gone p'(3) shrunk_trans [OF s1 shrunk_trans [OF s p'(2)]] by auto
qed

section \<open>Spent outputs\<close>

text \<open>The entries of an ordered map whose keys lie in a range are consecutive.\<close>

lemma range_of_map:
  assumes "sorted_map m" "\<And>k k'. P k \<Longrightarrow> k' \<le> k \<Longrightarrow> \<not> below k' \<Longrightarrow> P k'"
    "\<And>k k'. below k \<Longrightarrow> k' \<le> k \<Longrightarrow> below k'" "\<And>k. P k \<Longrightarrow> \<not> below k"
  shows "takeWhile (\<lambda>(k, v). P k) (dropWhile (\<lambda>(k, v). below k) m) = filter (\<lambda>(k, v). P k) m"
  using assms(1)
proof (induction m)
  case (Cons x m)
  obtain k v where x: "x = (k, v)" by (cases x) auto
  have s: "sorted_map m" and lt: "\<And>y. y \<in> set m \<Longrightarrow> k < fst y" using Cons.prems x by (auto simp: sorted_map_def)
  show ?case
  proof (cases "below k")
    case True
    then show ?thesis using Cons.IH [OF s] assms(4) x by auto
  next
    case nb: False
    have "\<not> below (fst y)" if "y \<in> set m" for y using assms(3) [of "fst y" k] less_imp_le [OF lt [OF that]] nb by blast
    then have nb': "\<And>y. y \<in> set m \<Longrightarrow> \<not> (case y of (k, v) \<Rightarrow> below k)" by auto
    then have d: "dropWhile (\<lambda>(k, v). below k) m = m" by (cases m) auto
    show ?thesis
    proof (cases "P k")
      case True
      then show ?thesis using Cons.IH [OF s] nb x d by simp
    next
      case False
      have "\<not> P (fst y)" if "y \<in> set m" for y using assms(2) [of "fst y" k] less_imp_le [OF lt [OF that]] nb False by blast
      then have "filter (\<lambda>(k, v). P k) m = []" by (auto simp: filter_empty_conv)
      then show ?thesis using nb False x by simp
    qed
  qed
qed simp

lemma Cleanup_available: "IsAvailable (Cleanup coins) m \<longleftrightarrow> IsAvailable coins m"
proof -
  obtain k where k: "cvout coins = cvout (Cleanup coins) @ k" "list_all CTxOut_IsNull k" using Cleanup_split by blast
  show ?thesis
  proof (cases "m < length (cvout (Cleanup coins))")
    case True
    then show ?thesis by (simp add: IsAvailable_def k(1) [THEN arg_cong [of _ _ "\<lambda>v. v ! m"]]
        k(1) [THEN arg_cong [of _ _ length]] nth_append)
  next
    case False
    have "CTxOut_IsNull (cvout coins ! m)" if "m < length (cvout coins)"
    proof -
      have "cvout coins ! m = k ! (m - length (cvout (Cleanup coins)))" using False by (subst k(1)) (simp add: nth_append)
      moreover have "m - length (cvout (Cleanup coins)) < length k"
        using that False k(1) [THEN arg_cong [of _ _ length]] by simp
      ultimately show ?thesis using k(2) by (simp add: list_all_length)
    qed
    then show ?thesis using False by (auto simp: IsAvailable_def)
  qed
qed

lemma Spend_at_available: "IsAvailable (Spend_at coins n) m \<longleftrightarrow> IsAvailable coins m \<and> m \<noteq> unat n"
proof (cases "unat n < length (cvout coins) \<and> \<not> CTxOut_IsNull (cvout coins ! unat n)")
  case True
  then have "Spend_at coins n = Cleanup (coins\<lparr>cvout := (cvout coins)[unat n := CTxOut_null]\<rparr>)"
    by (simp add: Spend_at_def Spend_def Let_def)
  moreover have "IsAvailable (coins\<lparr>cvout := (cvout coins)[unat n := CTxOut_null]\<rparr>) m \<longleftrightarrow>
      IsAvailable coins m \<and> m \<noteq> unat n"
    by (cases "m = unat n") (auto simp: IsAvailable_def)
  ultimately show ?thesis by (simp add: Cleanup_available)
next
  case False
  then have "Spend_at coins n = coins" by (auto simp: Spend_at_def Spend_def)
  then show ?thesis using False by (auto simp: IsAvailable_def)
qed

lemma Spend_each_available:
  "IsAvailable (fold (\<lambda>(out, it) coins. Spend_at coins (outn out)) m coins) i \<longleftrightarrow>
   IsAvailable coins i \<and> i \<notin> (\<lambda>(out, it). unat (outn out)) ` set m"
  by (induction m arbitrary: coins) (auto simp: Spend_at_available)

lemma pruneSpent_available:
  assumes "pool_ok p" "i < 2 ^ 32"
  shows "IsAvailable (pruneSpent p h coins) i \<longleftrightarrow>
    IsAvailable coins i \<and> map_of (mapNextTx p) \<lparr>outhash = h, outn = of_nat i\<rparr> = None"
proof -
  let ?low = "\<lparr>outhash = h, outn = 0\<rparr>"
  let ?m = "takeWhile (\<lambda>(out, it). outhash out = h) (dropWhile (\<lambda>(out, it). out < ?low) (mapNextTx p))"
  have "?m = filter (\<lambda>(out, it). outhash out = h) (mapNextTx p)"
  proof (rule range_of_map [OF pool_okD(2) [OF assms(1)]])
    fix k k' :: COutPoint
    show "outhash k = h \<Longrightarrow> k' \<le> k \<Longrightarrow> \<not> k' < ?low \<Longrightarrow> outhash k' = h"
      by (auto simp: less_eq_COutPoint_ext_def less_COutPoint_ext_def)
    show "k < ?low \<Longrightarrow> k' \<le> k \<Longrightarrow> k' < ?low" by (rule le_less_trans)
    show "outhash k = h \<Longrightarrow> \<not> k < ?low" by (simp add: less_COutPoint_ext_def)
  qed
  moreover have "i \<in> (\<lambda>(out, it). unat (outn out)) ` set (filter (\<lambda>(out, it). outhash out = h) (mapNextTx p)) \<longleftrightarrow>
      map_of (mapNextTx p) \<lparr>outhash = h, outn = of_nat i\<rparr> \<noteq> None" (is "?l \<longleftrightarrow> ?r")
  proof
    assume ?l
    then obtain out it where "(out, it) \<in> set (mapNextTx p)" "outhash out = h" "unat (outn out) = i" by auto
    moreover from this have "out = \<lparr>outhash = h, outn = of_nat i\<rparr>" by (cases out) auto
    ultimately show ?r by (metis map_of_eq_None_iff fst_conv image_eqI)
  next
    assume ?r
    then obtain it where it: "(\<lparr>outhash = h, outn = of_nat i\<rparr>, it) \<in> set (mapNextTx p)" by (auto dest: map_of_SomeD)
    have "unat (of_nat i :: 32 word) = i" using assms(2) by (simp add: unat_of_nat take_bit_nat_eq_self)
    then show ?l using it by (auto intro!: image_eqI [of _ _ "(\<lparr>outhash = h, outn = of_nat i\<rparr>, it)"])
  qed
  ultimately show ?thesis unfolding pruneSpent_def by (simp add: Spend_each_available)
qed

section \<open>Immature coins\<close>

lemma spends_immature_total: "\<exists>b. spends_immature False view p n ins = Inr b"
  by (induction ins) (auto split: option.split)

lemma immature_entries_ok:
  "\<exists>txs. immature_entries False view p n es = Inr txs \<and>
     set txs = {tx. \<exists>h e. (h, e) \<in> set es \<and> tx = etx e \<and> spends_immature False view p n (vin tx) = Inr True}"
proof (induction es)
  case (Cons x es)
  obtain h e where x: "x = (h, e)" by (cases x) auto
  obtain b where b: "spends_immature False view p n (vin (etx e)) = Inr b" using spends_immature_total by blast
  obtain txs where t: "immature_entries False view p n es = Inr txs"
    "set txs = {tx. \<exists>h e. (h, e) \<in> set es \<and> tx = etx e \<and> spends_immature False view p n (vin tx) = Inr True}"
    using Cons.IH by blast
  show ?case using b t by (cases b) (auto simp: x)
qed simp

lemma remove_each_ok:
  "pool_ok p \<Longrightarrow> \<exists>p'. remove_each p txs = Inr p' \<and> shrunk p p' \<and>
     (\<forall>tx\<in>set txs. map_of (mapTx p') (GetHash tx) = None)"
proof (induction txs arbitrary: p)
  case Nil
  then show ?case by (simp add: shrunk_refl)
next
  case (Cons tx txs)
  obtain q rm where q: "remove_tx p tx [] True = Inr (q, rm)" "shrunk p q" "map_of (mapTx q) (GetHash tx) = None"
    using shrunk_recursive [OF Cons.prems] by metis
  obtain p' where p': "remove_each q txs = Inr p'" "shrunk q p'" "\<forall>tx\<in>set txs. map_of (mapTx p') (GetHash tx) = None"
    using Cons.IH [of q] q(2) unfolding shrunk_def by blast
  have "map_of (mapTx p') (GetHash tx) = None"
    by (rule shrunk_None [OF p'(2) q(3)])
  then show ?case using q(1) p' shrunk_trans [OF q(2) p'(2)] by auto
qed

text \<open>Every entry that stays spends outputs of the pool or mature coins of the view.\<close>

lemma removeCoinbaseSpends_ok:
  assumes "pool_ok p"
  shows "\<exists>p'. removeCoinbaseSpends False view p n = Inr p' \<and> shrunk p p' \<and>
    (\<forall>h e. map_of (mapTx p') h = Some e \<longrightarrow> spends_immature False view p n (vin (etx e)) = Inr False)"
proof -
  obtain txs where t: "immature_entries False view p n (mapTx p) = Inr txs"
    "set txs = {tx. \<exists>h e. (h, e) \<in> set (mapTx p) \<and> tx = etx e \<and> spends_immature False view p n (vin tx) = Inr True}"
    using immature_entries_ok by blast
  obtain p' where p': "remove_each p txs = Inr p'" "shrunk p p'" "\<forall>tx\<in>set txs. map_of (mapTx p') (GetHash tx) = None"
    using remove_each_ok [OF assms] by blast
  have "spends_immature False view p n (vin (etx e)) = Inr False" if e: "map_of (mapTx p') h = Some e" for h e
  proof (rule ccontr)
    assume "spends_immature False view p n (vin (etx e)) \<noteq> Inr False"
    then have imm: "spends_immature False view p n (vin (etx e)) = Inr True"
      using spends_immature_total [of view p n "vin (etx e)"] by auto
    have "map_of (mapTx p) h = Some e" by (rule shrunk_Some [OF p'(2) e])
    then have "(h, e) \<in> set (mapTx p)" by (rule map_of_SomeD)
    then have "etx e \<in> set txs" using t(2) imm by blast
    moreover have "GetHash (etx e) = h" using pool_okD(3) [OF _ e] p'(2) by (simp add: shrunk_def pool_entry_ok_def)
    ultimately show False using p'(3) e by auto
  qed
  then show ?thesis using t(1) p'(1,2) by (auto simp: removeCoinbaseSpends_def)
qed

section \<open>Every reachable pool\<close>

text \<open>What the node does with its pool.  AcceptToMemoryPool adds a transaction only when it may enter: it is not
there yet, and none of its inputs is spent by the pool.\<close>

inductive pool_reach :: "CTxMemPool \<Rightarrow> bool" where
  start: "pool_reach empty_pool"
| add: "pool_reach p \<Longrightarrow> may_enter p e \<Longrightarrow> addUnchecked p (GetHash (etx e)) e = Inr p' \<Longrightarrow> pool_reach p'"
| drop: "pool_reach p \<Longrightarrow> remove_tx p tx rm r = Inr (p', rm') \<Longrightarrow> pool_reach p'"
| conflicts: "pool_reach p \<Longrightarrow> removeConflicts p tx rm = Inr (p', rm') \<Longrightarrow> pool_reach p'"
| block: "pool_reach p \<Longrightarrow> removeForBlock p txs cs = Inr (p', cs') \<Longrightarrow> pool_reach p'"
| reorg: "pool_reach p \<Longrightarrow> removeCoinbaseSpends False view p n = Inr p' \<Longrightarrow> pool_reach p'"
| clear: "pool_reach p \<Longrightarrow> pool_reach (pool_clear p)"
| prioritise: "pool_reach p \<Longrightarrow> pool_reach (PrioritiseTransaction dadd p h d f)"
| count: "pool_reach p \<Longrightarrow> pool_reach (AddTransactionsUpdated p k)"

lemma pool_ok_same:
  "pool_ok p \<Longrightarrow> mapTx q = mapTx p \<Longrightarrow> mapNextTx q = mapNextTx p \<Longrightarrow> totalTxSize q = totalTxSize p \<Longrightarrow> pool_ok q"
  by (simp add: pool_ok_def pool_entry_ok_def spends_at_def pool_size_def)

lemma remove_tx_ok: "pool_ok p \<Longrightarrow> \<exists>p' rm'. remove_tx p tx rm r = Inr (p', rm') \<and> pool_ok p'"
  using remove_recursive [of p tx rm] remove_single [of p tx rm] by (cases r) (simp_all, blast+)

lemma pool_reach_ok: "pool_reach p \<Longrightarrow> pool_ok p"
proof (induction rule: pool_reach.induct)
  case (add p e p')
  then show ?case using addUnchecked_ok [of p e] by auto
next
  case (drop p tx rm r p' rm')
  then show ?case using remove_tx_ok [of p tx rm r] by auto
next
  case (conflicts p tx rm p' rm')
  then show ?case using conflicts_loop_ok [of p tx "vin tx" rm] by (auto simp: removeConflicts_def shrunk_def)
next
  case (block p txs cs p' cs')
  then show ?case using removeForBlock_ok [of p txs cs] by (auto simp: shrunk_def)
next
  case (reorg p view n p')
  then show ?case using removeCoinbaseSpends_ok [of p view n] by (auto simp: shrunk_def)
next
  case (clear p)
  then show ?case by (simp add: pool_clear_def pool_ok_def sorted_map_def spends_at_def pool_size_def)
next
  case (prioritise p dadd h d f)
  show ?case by (rule pool_ok_same [OF prioritise.IH]) (simp_all add: PrioritiseTransaction_def Let_def split: prod.split)
next
  case (count p k)
  show ?case by (rule pool_ok_same [OF count.IH]) (simp_all add: AddTransactionsUpdated_def)
qed (rule empty_pool_ok)

end
