(* ===== verification/Accept.thy ===== *)
theory Accept
  imports Mempool
begin

text \<open>
  AcceptToMemoryPool (main.cpp) with the rules of standard transactions, the fee of the relay and the view of
  the pool over pcoinsTip (CCoinsViewMemPool of txmempool.cpp).  The configuration, the floating-point
  parts (the priority and the limiter of free transactions) and the contextual checks of zerocoins are the
  record \<open>accept_env\<close>.
\<close>

section \<open>The environment\<close>

record accept_env =
  node :: node_env
  nMaintenanceTime :: int
  fRequireStandard :: bool
  fIsBareMultisigStd :: bool
  fDataCarrier :: bool
  nMaxDatacarrierBytes :: nat
  minRelayTxFee :: CAmount
  mapObfuscationBroadcastTxes :: "uint256 set"
  nMinZerocoinMintFee :: CAmount
  fRelayPriority :: bool
  AllowFree :: "CCoins option list \<Rightarrow> CTransaction \<Rightarrow> int \<Rightarrow> bool"
  dAdd :: "64 word \<Rightarrow> 64 word \<Rightarrow> 64 word"
  FreeLimiter :: "64 word \<times> int \<Rightarrow> int \<Rightarrow> nat \<Rightarrow> bool \<times> (64 word \<times> int)"
  MintRefusal :: "CTransaction \<Rightarrow> CTxOut \<Rightarrow> reject list option"
  SpendContextOk :: "CTransaction \<Rightarrow> CTxIn \<Rightarrow> bool"
  TransactionInChain :: "uint256 \<Rightarrow> bool"
  Verify :: "bytes \<Rightarrow> uint256 \<Rightarrow> bytes \<Rightarrow> bool"

definition REJECT_DUPLICATE :: nat where "REJECT_DUPLICATE = 0x12"
definition REJECT_INSUFFICIENTFEE :: nat where "REJECT_INSUFFICIENTFEE = 0x42"
definition MAX_STANDARD_TX_SIZE :: nat where "MAX_STANDARD_TX_SIZE = 100000"
definition MAX_P2SH_SIGOPS :: nat where "MAX_P2SH_SIGOPS = 15"
definition MAX_TX_SIGOPS_CURRENT :: nat where "MAX_TX_SIGOPS_CURRENT = MAX_BLOCK_SIGOPS_CURRENT div 5"
definition DEFAULT_BLOCK_PRIORITY_SIZE :: nat where "DEFAULT_BLOCK_PRIORITY_SIZE = 50000"

section \<open>Standard transactions\<close>

definition IsDust :: "CAmount \<Rightarrow> CTxOut \<Rightarrow> bool" where
  "IsDust minFee out \<longleftrightarrow> nValue out < wrap64 (3 * GetFee minFee (length (put_CTxOut out) + 148))"

text \<open>The reason of a refusal, or None.\<close>

fun standard_inputs :: "CTxIn list \<Rightarrow> string option" where
  "standard_inputs [] = None"
| "standard_inputs (txin # ins) =
     (if IsZerocoinSpend (scriptSig txin) then standard_inputs ins
      else if length (scriptSig txin) > 1650 then Some ''scriptsig-size''
      else if \<not> IsPushOnly (scriptSig txin) then Some ''scriptsig-not-pushonly''
      else standard_inputs ins)"

fun standard_outputs :: "accept_env \<Rightarrow> CTxOut list \<Rightarrow> nat \<Rightarrow> fault + string option" where
  "standard_outputs env [] nDataOut = Inr (if nDataOut > 1 then Some ''multi-op-return'' else None)"
| "standard_outputs env (txout # outs) nDataOut =
     bindE (IsStandard (fDataCarrier env) (nMaxDatacarrierBytes env) (scriptPubKey txout)) (\<lambda>(ok, whichType).
       if \<not> ok then Inr (Some ''scriptpubkey'')
       else if whichType = TX_NULL_DATA then standard_outputs env outs (nDataOut + 1)
       else if whichType = TX_MULTISIG \<and> \<not> fIsBareMultisigStd env then Inr (Some ''bare-multisig'')
       else if IsDust (minRelayTxFee env) txout then Inr (Some ''dust'')
       else standard_outputs env outs nDataOut)"

definition IsStandardTx :: "accept_env \<Rightarrow> CChain \<Rightarrow> CTransaction \<Rightarrow> fault + string option" where
  "IsStandardTx env chainActive tx =
     (if nVersion tx > 1 \<or> nVersion tx < 1 then Inr (Some ''version'')
      else if \<not> IsFinalTx (Height chainActive) (adjustedTime (node env)) tx (Height chainActive + 1) 0
      then Inr (Some ''non-final'')
      else bindE (ContainsZerocoins tx) (\<lambda>z.
        if length (put_CTransaction tx) \<ge> (if z then MAX_ZEROCOIN_TX_SIZE else MAX_STANDARD_TX_SIZE)
        then Inr (Some ''tx-size'')
        else case standard_inputs (vin tx) of Some r \<Rightarrow> Inr (Some r) | None \<Rightarrow> standard_outputs env (vout tx) 0))"

text \<open>BaseSignatureChecker answers false.  An input either ends AreInputsStandard with an answer or lets
it go on to the next input.\<close>

definition base_checker_env :: script_env where
  "base_checker_env = \<lparr>env_flags = SCRIPT_VERIFY_NONE, env_CheckSig = \<lambda>_ _ _. False,
     env_RIPEMD160 = ripemd160, env_SHA1 = sha1, env_SHA256 = sha256\<rparr>"

definition input_standard :: "CScript \<Rightarrow> CScript \<Rightarrow> fault + bool option" where
  "input_standard prevScript script =
     bindE (Solver prevScript) (\<lambda>(ok, whichType, vSolutions).
       if \<not> ok then Inr (Some False)
       else let nArgsExpected = ScriptSigArgsExpected whichType vSolutions in
       if nArgsExpected < 0 then Inr (Some False)
       else case EvalScript base_checker_env [] script of
         Inl (Fail _) \<Rightarrow> Inr (Some False)
       | Inl e \<Rightarrow> Inl e
       | Inr stk \<Rightarrow>
           if whichType = TX_SCRIPTHASH then
             (case stk of
                [] \<Rightarrow> Inr (Some False)
              | subscript # _ \<Rightarrow>
                  bindE (Solver subscript) (\<lambda>(ok2, whichType2, vSolutions2).
                    if ok2 then
                      (let tmpExpected = ScriptSigArgsExpected whichType2 vSolutions2 in
                       if tmpExpected < 0 then Inr (Some False)
                       else Inr (if int (length stk) \<noteq> nArgsExpected + tmpExpected then Some False else None))
                    else Inr (Some (GetSigOpCount subscript True \<le> MAX_P2SH_SIGOPS))))
           else Inr (if int (length stk) \<noteq> nArgsExpected then Some False else None))"

fun inputs_standard_loop :: "'s coins_ops \<Rightarrow> CTxIn list \<Rightarrow> 's cache \<Rightarrow> fault + bool \<times> 's cache" where
  "inputs_standard_loop ops [] c = Inr (True, c)"
| "inputs_standard_loop ops (txin # ins) c =
     bindE (GetOutputFor ops c txin) (\<lambda>(prev, c).
     bindE (input_standard (scriptPubKey prev) (scriptSig txin)) (\<lambda>r.
       case r of Some b \<Rightarrow> Inr (b, c) | None \<Rightarrow> inputs_standard_loop ops ins c))"

definition AreInputsStandard :: "'s coins_ops \<Rightarrow> CTransaction \<Rightarrow> 's cache \<Rightarrow> fault + bool \<times> 's cache" where
  "AreInputsStandard ops tx c =
     bindE (IsCoinBase tx) (\<lambda>cb.
     bindE (if cb then Inr True else IsZerocoinSpend_tx tx) (\<lambda>skip.
       if skip then Inr (True, c) else inputs_standard_loop ops (vin tx) c))"

section \<open>Fees\<close>

text \<open>A double is positive when its bit pattern lies between zero and infinity.\<close>

definition dPositive :: "64 word \<Rightarrow> bool" where
  "dPositive d \<longleftrightarrow> 0 < d \<and> d \<le> 0x7ff0000000000000"

definition GetMinRelayFee :: "accept_env \<Rightarrow> CTxMemPool \<Rightarrow> CTransaction \<Rightarrow> nat \<Rightarrow> bool \<Rightarrow> CAmount" where
  "GetMinRelayFee env p tx nBytes fAllowFree =
     (let (dPriorityDelta, nFeeDelta) = ApplyDeltas (dAdd env) p (GetHash tx) (0, 0) in
      if dPositive dPriorityDelta \<or> nFeeDelta > 0 then 0
      else let nMinFee = GetFee (minRelayTxFee env) nBytes;
               nMinFee = (if fAllowFree \<and> nBytes < DEFAULT_BLOCK_PRIORITY_SIZE - 1000 then 0 else nMinFee) in
      if \<not> MoneyRange nMinFee then nMaxMoneyOut else nMinFee)"

text \<open>The bits of the double 1000.\<close>

definition dThousand :: "64 word" where "dThousand = 0x408f400000000000"

definition refusal :: "nat \<Rightarrow> nat \<Rightarrow> string \<Rightarrow> reject list option" where
  "refusal level code reason = Some [Reject level code reason False False]"

definition check_pool_fee ::
  "accept_env \<Rightarrow> CChain \<Rightarrow> bool \<Rightarrow> bool \<Rightarrow> bool \<Rightarrow> CCoins option list \<Rightarrow> CTransaction \<Rightarrow> CAmount \<Rightarrow> nat \<Rightarrow>
   CTxMemPool \<Rightarrow> 64 word \<times> int \<Rightarrow> reject list option \<times> CTxMemPool \<times> (64 word \<times> int)" where
  "check_pool_fee env chainActive fLimitFree ignoreFees zs coins tx nFees nSize p free =
     (if GetHash tx \<in> mapObfuscationBroadcastTxes env
      then (None, PrioritiseTransaction (dAdd env) p (GetHash tx) dThousand 10000000, free)
      else if ignoreFees then (None, p, free)
      else let low = nFees < GetFee (minRelayTxFee env) nSize in
      if fLimitFree \<and> nFees < GetMinRelayFee env p tx nSize True \<and> \<not> zs
      then (refusal 0 REJECT_INSUFFICIENTFEE ''insufficient fee'', p, free)
      else if IsZerocoinMint_tx tx \<and> nFees < wrap64 (nMinZerocoinMintFee env * int (GetZerocoinMintCount tx))
      then (refusal 0 REJECT_INSUFFICIENTFEE ''insufficient fee for zerocoinmint'', p, free)
      else if \<not> IsZerocoinMint_tx tx \<and> \<not> zs \<and> fRelayPriority env \<and> low \<and>
        \<not> AllowFree env coins tx (Height chainActive + 1)
      then (refusal 0 REJECT_INSUFFICIENTFEE ''insufficient priority'', p, free)
      else if fLimitFree \<and> low \<and> \<not> zs then
        (let (ok, free) = FreeLimiter env free (nodeTime (node env)) nSize in
         (if ok then None else refusal 0 REJECT_INSUFFICIENTFEE ''rate limited free transaction'', p, free))
      else (None, p, free))"

section \<open>The view of the pool\<close>

definition mempool_ops :: "CTxMemPool \<Rightarrow> 's coins_ops \<Rightarrow> 's coins_ops" where
  "mempool_ops p ops = (Backed_ops ops)
     \<lparr>op_GetCoins := (\<lambda>s txid. case pool_lookup p txid of
          Some tx \<Rightarrow> bindE (FromTx tx MEMPOOL_HEIGHT) (\<lambda>coins. Inr (Some coins, s))
        | None \<Rightarrow> bindE (op_GetCoins ops s txid) (\<lambda>(r, s).
            Inr (case r of None \<Rightarrow> None | Some coins \<Rightarrow> if IsPruned coins then None else Some coins, s))),
      op_HaveCoins := (\<lambda>s txid. if pool_exists p txid then Inr (True, s) else op_HaveCoins ops s txid)\<rparr>"

section \<open>AcceptToMemoryPool\<close>

text \<open>The refusals before the coins are looked at, as the calls of DoS in their order; the empty list is a
plain return of false.\<close>

definition accept_pre :: "accept_env \<Rightarrow> CChain \<Rightarrow> CTxMemPool \<Rightarrow> CTransaction \<Rightarrow> fault + reject list option" where
  "accept_pre env chainActive p tx =
     bindE (if adjustedTime (node env) > nMaintenanceTime env then ContainsZerocoins tx else Inr False) (\<lambda>z.
     if z then Inr (refusal 10 REJECT_INVALID ''bad-tx'')
     else bindE (CheckTransaction (MintOk (node env)) (SpendOk (node env)) (nLastPOWBlock (net (node env)))
        (Height chainActive) tx True) (\<lambda>v. case v of
       Invalid d c r \<Rightarrow> Inr (Some [Reject d c r False False, Reject 100 REJECT_INVALID ''bad-tx'' False False])
     | Valid \<Rightarrow>
     bindE (IsCoinBase tx) (\<lambda>cb.
     if cb then Inr (refusal 100 REJECT_INVALID ''coinbase'')
     else if IsCoinStake tx then Inr (refusal 100 REJECT_INVALID ''coinstake'')
     else bindE (if fRequireStandard env then IsStandardTx env chainActive tx else Inr None) (\<lambda>reason. case reason of
       Some r \<Rightarrow> Inr (refusal 0 REJECT_NONSTANDARD r)
     | None \<Rightarrow>
     if pool_exists p (GetHash tx) then Inr (Some [])
     else if list_ex (lock_conflict (node env) tx) (vin tx) then Inr (refusal 0 REJECT_INVALID ''tx-lock-conflict'')
     else bindE (IsZerocoinSpend_tx tx) (\<lambda>zs.
       if \<not> zs \<and> list_ex (\<lambda>i. map_of (mapNextTx p) (prevout i) \<noteq> None) (vin tx) then Inr (Some [])
       else Inr None)))))"

fun inputs_exist :: "'s coins_ops \<Rightarrow> CTxIn list \<Rightarrow> 's cache \<Rightarrow> fault + bool \<times> 's cache" where
  "inputs_exist ops [] c = Inr (True, c)"
| "inputs_exist ops (txin # ins) c =
     bindE (HaveCoins ops c (outhash (prevout txin))) (\<lambda>(b, c).
       if b then inputs_exist ops ins c else Inr (False, c))"

fun mint_refusal :: "accept_env \<Rightarrow> CTransaction \<Rightarrow> CTxOut list \<Rightarrow> reject list option" where
  "mint_refusal env tx [] = None"
| "mint_refusal env tx (out # outs) =
     (if \<not> CTxOut_IsZerocoinMint out then mint_refusal env tx outs
      else case MintRefusal env tx out of Some rs \<Rightarrow> Some rs | None \<Rightarrow> mint_refusal env tx outs)"

text \<open>The branch of an ordinary transaction: a refusal, pfMissingInputs and the value of the inputs.\<close>

definition pool_inputs ::
  "accept_env \<Rightarrow> 's coins_ops \<Rightarrow> CTransaction \<Rightarrow> 's cache \<Rightarrow> fault + (reject list option \<times> bool \<times> CAmount) \<times> 's cache" where
  "pool_inputs env ops tx c =
     bindE (HaveCoins ops c (GetHash tx)) (\<lambda>(known, c).
     if known then Inr ((Some [], False, 0), c)
     else bindE (inputs_exist ops (vin tx) c) (\<lambda>(b, c).
     if \<not> b then Inr ((Some [], True, 0), c)
     else case (if IsZerocoinMint_tx tx then mint_refusal env tx (vout tx) else None) of
       Some rs \<Rightarrow> Inr ((Some rs, False, 0), c)
     | None \<Rightarrow>
     bindE (HaveInputs ops c tx) (\<lambda>(b, c).
     if \<not> b then Inr ((refusal 0 REJECT_DUPLICATE ''bad-txns-inputs-spent'', False, 0), c)
     else bindE (GetBestBlock ops c) (\<lambda>(_, c).
     bindE (GetValueIn ops c tx) (\<lambda>(nValueIn, c). Inr ((None, False, nValueIn), c))))))"

text \<open>The branch of a zerocoin spend.\<close>

definition spend_inputs_value :: "accept_env \<Rightarrow> CTransaction \<Rightarrow> fault + reject list option \<times> bool \<times> CAmount" where
  "spend_inputs_value env tx =
     bindE (GetZerocoinSpent tx) (\<lambda>nValueIn.
     if TransactionInChain env (GetHash tx) then Inr (refusal 0 REJECT_DUPLICATE ''bad-txns-inputs-spent'', False, nValueIn)
     else if \<not> list_all (\<lambda>i. IsZerocoinSpend (scriptSig i) \<longrightarrow> SpendContextOk env tx i) (vin tx)
     then Inr (refusal 0 REJECT_INVALID ''bad-txns-invalid-zpiv'', False, nValueIn)
     else Inr (None, False, nValueIn))"

definition check_pool_sigops :: "'s coins_ops \<Rightarrow> bool \<Rightarrow> CTransaction \<Rightarrow> 's cache \<Rightarrow> fault + reject list option \<times> 's cache" where
  "check_pool_sigops ops zs tx c =
     (if zs then Inr (None, c)
      else bindE (GetP2SHSigOpCount ops tx c) (\<lambda>(n, c).
        Inr (if GetLegacySigOpCount tx + n > MAX_TX_SIGOPS_CURRENT
             then refusal 0 REJECT_NONSTANDARD ''bad-txns-too-many-sigops'' else None, c)))"

definition check_pool_scripts ::
  "accept_env \<Rightarrow> 's coins_ops \<Rightarrow> (uint256 \<rightharpoonup> CBlockIndex) \<Rightarrow> CTransaction \<Rightarrow> 's cache \<Rightarrow> fault + reject list option \<times> 's cache" where
  "check_pool_scripts env ops idx tx c =
     bindE (CheckInputs ops (Verify env) idx True STANDARD_SCRIPT_VERIFY_FLAGS tx c) (\<lambda>(v, c). case v of
       Invalid d cd r \<Rightarrow> Inr (refusal d cd r, c)
     | Valid \<Rightarrow>
     bindE (CheckInputs ops (Verify env) idx True MANDATORY_SCRIPT_VERIFY_FLAGS tx c) (\<lambda>(v, c). case v of
       Invalid d cd r \<Rightarrow> Inr (refusal d cd r, c)
     | Valid \<Rightarrow> Inr (None, c)))"

record 's accept_state =
  apool :: CTxMemPool
  acoins :: 's
  avalidation :: CValidationState
  afree :: "64 word \<times> int"
  mapZerocoinspends :: "uint256 \<rightharpoonup> int"
  fMissingInputs :: bool

definition refuse :: "reject list \<Rightarrow> 's accept_state \<Rightarrow> bool \<times> 's accept_state" where
  "refuse rs st = (False, st\<lparr>avalidation := fold reject_state rs (avalidation st)\<rparr>)"

text \<open>The coins in the cache that the priority is computed from.\<close>

definition input_coins :: "'s cache \<Rightarrow> CTxIn list \<Rightarrow> CCoins option list" where
  "input_coins c ins = map (\<lambda>i. map_option ecoins (cacheCoins c (outhash (prevout i)))) ins"

text \<open>What follows the look at the coins; the backend of the cache is the empty view by then.\<close>

definition accept_post ::
  "accept_env \<Rightarrow> (uint256 \<rightharpoonup> CBlockIndex) \<Rightarrow> CChain \<Rightarrow> bool \<Rightarrow> bool \<Rightarrow> bool \<Rightarrow> bool \<Rightarrow> CTransaction \<Rightarrow> CAmount \<Rightarrow>
   's cache \<Rightarrow> 's accept_state \<Rightarrow> fault + bool \<times> 's accept_state" where
  "accept_post env idx chainActive fLimitFree fRejectInsaneFee ignoreFees zs tx nValueIn c st =
     bindE (if fRequireStandard env then AreInputsStandard CCoinsView_ops tx c else Inr (True, c)) (\<lambda>(std, c).
     if \<not> std then Inr (refuse [] st)
     else bindE (check_pool_sigops CCoinsView_ops zs tx c) (\<lambda>(r, c). case r of Some rs \<Rightarrow> Inr (refuse rs st) | None \<Rightarrow>
     bindE (GetValueOut tx) (\<lambda>nValueOut.
     let nFees = wrap64 (nValueIn - nValueOut);
         entry = new_pool_entry tx nFees (nodeTime (node env)) 0 (Height chainActive);
         nSize = eTxSize entry;
         (r, p, free) = check_pool_fee env chainActive fLimitFree ignoreFees zs (input_coins c (vin tx)) tx nFees nSize
           (apool st) (afree st);
         st = st\<lparr>apool := p, afree := free\<rparr> in
     case r of Some rs \<Rightarrow> Inr (refuse rs st) | None \<Rightarrow>
     if fRejectInsaneFee \<and> nFees > wrap64 (GetFee (minRelayTxFee env) nSize * 10000) then Inr (refuse [] st)
     else bindE (check_pool_scripts env CCoinsView_ops idx tx c) (\<lambda>(r, c). case r of Some rs \<Rightarrow> Inr (refuse rs st) | None \<Rightarrow>
     bindE (addUnchecked (apool st) (GetHash tx) entry) (\<lambda>p.
       Inr (True, st\<lparr>apool := p, mapZerocoinspends :=
         (if zs then (mapZerocoinspends st)(GetHash tx \<mapsto> adjustedTime (node env)) else mapZerocoinspends st)\<rparr>))))))"

definition AcceptToMemoryPool ::
  "accept_env \<Rightarrow> 's coins_ops \<Rightarrow> (uint256 \<rightharpoonup> CBlockIndex) \<Rightarrow> CChain \<Rightarrow> bool \<Rightarrow> bool \<Rightarrow> bool \<Rightarrow> CTransaction \<Rightarrow>
   's accept_state \<Rightarrow> fault + bool \<times> 's accept_state" where
  "AcceptToMemoryPool env ops idx chainActive fLimitFree fRejectInsaneFee ignoreFees tx st =
     (let st = st\<lparr>fMissingInputs := False\<rparr> in
      bindE (accept_pre env chainActive (apool st) tx) (\<lambda>r. case r of Some rs \<Rightarrow> Inr (refuse rs st) | None \<Rightarrow>
      bindE (IsZerocoinSpend_tx tx) (\<lambda>zs.
      bindE (if zs then bindE (spend_inputs_value env tx) (\<lambda>r. Inr (r, new_cache (acoins st)))
             else pool_inputs env (mempool_ops (apool st) ops) tx (new_cache (acoins st))) (\<lambda>((r, missing, nValueIn), c).
      let st = st\<lparr>acoins := base c, fMissingInputs := missing\<rparr> in
      case r of Some rs \<Rightarrow> Inr (refuse rs st) | None \<Rightarrow>
      accept_post env idx chainActive fLimitFree fRejectInsaneFee ignoreFees zs tx nValueIn c st))))"

section \<open>The view of the pool over a view\<close>

definition pool_view :: "CTxMemPool \<Rightarrow> utxos \<Rightarrow> utxos" where
  "pool_view p V = (\<lambda>h. case pool_lookup p h of
     Some tx \<Rightarrow> live (Some (tx_coins tx MEMPOOL_HEIGHT)) | None \<Rightarrow> V h)"

definition pool_txs_ok :: "CTxMemPool \<Rightarrow> bool" where
  "pool_txs_ok p \<longleftrightarrow> (\<forall>h e. map_of (mapTx p) h = Some e \<longrightarrow>
     tx_coins_ok (etx e) MEMPOOL_HEIGHT \<and> \<not> isl (has_inputs (etx e)))"

lemma pool_txs_coins:
  assumes "pool_txs_ok p" "pool_lookup p h = Some tx"
  shows "FromTx tx MEMPOOL_HEIGHT = Inr (tx_coins tx MEMPOOL_HEIGHT)" "coins_ok (tx_coins tx MEMPOOL_HEIGHT)"
proof -
  obtain e where e: "map_of (mapTx p) h = Some e" "tx = etx e" using assms(2) by (auto simp: pool_lookup_def)
  then have "tx_coins_ok tx MEMPOOL_HEIGHT \<and> \<not> isl (has_inputs tx)" using assms(1) by (auto simp: pool_txs_ok_def)
  then obtain b where "has_inputs tx = Inr b" "tx_coins_ok tx MEMPOOL_HEIGHT" by (cases "has_inputs tx") auto
  then show "FromTx tx MEMPOOL_HEIGHT = Inr (tx_coins tx MEMPOOL_HEIGHT)" "coins_ok (tx_coins tx MEMPOOL_HEIGHT)"
    using FromTx_tx_coins tx_coins_ok_coins by blast+
qed

context coins_reader
begin

lemma mempool_reader:
  "coins_reader (mempool_ops p ops) (\<lambda>s. pool_txs_ok p \<and> vinv s) (\<lambda>s. pool_view p (view s)) tip (\<lambda>_ _. True)"
proof
  fix s k assume i: "pool_txs_ok p \<and> vinv s"
  let ?same = "same_view (\<lambda>s. pool_txs_ok p \<and> vinv s) (\<lambda>s. pool_view p (view s)) tip (\<lambda>_ _. True)"
  show "\<exists>r s'. op_GetCoins (mempool_ops p ops) s k = Inr (r, s') \<and> ?same s s' \<and>
      live r = pool_view p (view s) k \<and> (\<forall>coins. r = Some coins \<longrightarrow> coins_ok coins \<and> True)"
  proof (cases "pool_lookup p k")
    case None
    obtain r s' where r: "op_GetCoins ops s k = Inr (r, s')" "same_view vinv view tip holds s s'" "live r = view s k"
      "\<forall>coins. r = Some coins \<longrightarrow> coins_ok coins" using get_coins i by blast
    have "live (case r of None \<Rightarrow> None | Some coins \<Rightarrow> if IsPruned coins then None else Some coins) = live r"
      by (auto simp: live_def split: option.splits)
    then show ?thesis using None r i
      by (auto simp: mempool_ops_def pool_view_def same_view_def split: option.splits)
  next
    case (Some tx)
    then show ?thesis using pool_txs_coins [of p k tx] i
      by (auto simp: mempool_ops_def pool_view_def same_view_def)
  qed
next
  fix s assume i: "pool_txs_ok p \<and> vinv s"
  then obtain s' where "op_GetBestBlock ops s = Inr (tip s, s')" "same_view vinv view tip holds s s'"
    using best_block by blast
  then show "\<exists>s'. op_GetBestBlock (mempool_ops p ops) s = Inr (tip s, s') \<and>
      same_view (\<lambda>s. pool_txs_ok p \<and> vinv s) (\<lambda>s. pool_view p (view s)) tip (\<lambda>_ _. True) s s'"
    using i by (auto simp: mempool_ops_def Backed_ops_def same_view_def)
qed

end

interpretation pool: coins_reader "mempool_ops p (cache_ops (DB_ops fully_valid decompress))"
  "\<lambda>s. pool_txs_ok p \<and> tip_inv fully_valid decompress s" "\<lambda>s. pool_view p (tip_view decompress s)"
  "cache_tip db_tip" "\<lambda>_ _. True" for p fully_valid decompress
  by (rule tip.mempool_reader)

section \<open>Reads that the cache answers\<close>

text \<open>Once the coins of the inputs are in the cache, its backend is not asked any more and the cache does not
change: the answers stay the same when the backend is replaced by the empty view.\<close>

definition cached :: "CTxIn list \<Rightarrow> 's cache \<Rightarrow> bool" where
  "cached ins c \<longleftrightarrow> (\<forall>i\<in>set ins. cacheCoins c (outhash (prevout i)) \<noteq> None)"

definition settled :: "(fault + 'r \<times> 's) \<Rightarrow> 's \<Rightarrow> bool" where
  "settled m c \<longleftrightarrow> (\<forall>r c'. m = Inr (r, c') \<longrightarrow> c' = c)"

lemma cached_simps [simp]:
  "cached [] c" "cached (i # is) c \<longleftrightarrow> cacheCoins c (outhash (prevout i)) \<noteq> None \<and> cached is c"
  by (simp_all add: cached_def)

lemma AccessCoins_cached: "cacheCoins c k = Some e \<Longrightarrow> AccessCoins ops c k = Inr (Some (ecoins e), c)"
  by (simp add: AccessCoins_def FetchCoins_def)

lemma GetOutputFor_cached:
  assumes "cacheCoins c (outhash (prevout i)) \<noteq> None"
  shows "GetOutputFor ops c i = GetOutputFor ops' c i \<and> settled (GetOutputFor ops c i) c"
  using assms by (auto simp: GetOutputFor_def AccessCoins_cached settled_def split: if_splits)

lemma have_inputs_loop_cached:
  "cached is c \<Longrightarrow> have_inputs_loop ops is c = have_inputs_loop ops' is c \<and> settled (have_inputs_loop ops is c) c"
proof (induction "is")
  case (Cons i "is")
  then obtain e where "cacheCoins c (outhash (prevout i)) = Some e" by auto
  then show ?case using Cons
    by (cases "IsAvailable (ecoins e) (unat (outn (prevout i)))") (simp_all add: AccessCoins_cached settled_def)
qed (simp add: settled_def)

lemma value_in_loop_cached:
  "cached is c \<Longrightarrow> value_in_loop ops is n c = value_in_loop ops' is n c \<and> settled (value_in_loop ops is n c) c"
  by (induction "is" arbitrary: n) (auto simp: GetOutputFor_def AccessCoins_cached settled_def split: if_splits)

lemma p2sh_sigops_cached:
  "cached is c \<Longrightarrow> p2sh_sigops ops is n c = p2sh_sigops ops' is n c \<and> settled (p2sh_sigops ops is n c) c"
  by (induction "is" arbitrary: n) (auto simp: GetOutputFor_def AccessCoins_cached settled_def split: if_splits)

lemma inputs_standard_cached:
  "cached is c \<Longrightarrow> inputs_standard_loop ops is c = inputs_standard_loop ops' is c \<and> settled (inputs_standard_loop ops is c) c"
proof (induction "is")
  case (Cons i "is")
  then obtain e where e: "cacheCoins c (outhash (prevout i)) = Some e" by auto
  show ?case
  proof (cases "IsAvailable (ecoins e) (unat (outn (prevout i)))")
    case True
    let ?out = "cvout (ecoins e) ! unat (outn (prevout i))"
    have o: "GetOutputFor ops c i = Inr (?out, c)" for ops
      using e True by (simp add: GetOutputFor_def AccessCoins_cached)
    show ?thesis
    proof (cases "input_standard (scriptPubKey ?out) (scriptSig i)")
      case (Inr r)
      then show ?thesis using Cons by (cases r) (auto simp: o settled_def)
    qed (simp add: o settled_def)
  next
    case False
    then show ?thesis using e by (simp add: GetOutputFor_def AccessCoins_cached settled_def)
  qed
qed (simp add: settled_def)

lemma check_values_cached:
  "cached is c \<Longrightarrow> check_values ops h is n c = check_values ops' h is n c \<and> settled (check_values ops h is n c) c"
proof (induction "is" arbitrary: n)
  case (Cons i "is")
  then obtain e where "cacheCoins c (outhash (prevout i)) = Some e" by auto
  then show ?case using Cons by (simp add: AccessCoins_cached settled_def Let_def)
qed (simp add: settled_def)

lemma check_scripts_cached:
  "cached (map (\<lambda>k. vin tx ! k) ks) c \<Longrightarrow>
   check_scripts ops verify tx fl ks c = check_scripts ops' verify tx fl ks c \<and>
   settled (check_scripts ops verify tx fl ks c) c"
proof (induction ks)
  case (Cons k ks)
  then obtain e where "cacheCoins c (outhash (prevout (vin tx ! k))) = Some e" by auto
  then show ?case using Cons by (simp add: AccessCoins_cached settled_def Let_def script_check_total)
qed (simp add: settled_def)

text \<open>Two computations that give the same answer and leave the cache alone.\<close>

definition agree :: "(fault + 'r \<times> 's) \<Rightarrow> (fault + 'r \<times> 's) \<Rightarrow> 's \<Rightarrow> bool" where
  "agree m m' c \<longleftrightarrow> m = m' \<and> settled m c"

lemma agree_bind:
  "agree m m' c \<Longrightarrow> (\<And>r. agree (f (r, c)) (f' (r, c)) c) \<Longrightarrow> agree (bindE m f) (bindE m' f') c"
  by (cases m) (auto simp: agree_def settled_def)

lemma agree_same: "(\<And>r. m = Inr r \<Longrightarrow> agree (f r) (f' r) c) \<Longrightarrow> agree (bindE m f) (bindE m f') c"
  by (cases m) (auto simp: agree_def settled_def)

lemma agree_Inr: "agree (Inr (r, c)) (Inr (r, c)) c" and agree_Inl: "agree (Inl e) (Inl e) c"
  by (simp_all add: agree_def settled_def)

lemmas loops_agree = have_inputs_loop_cached [folded agree_def] inputs_standard_cached [folded agree_def]
  p2sh_sigops_cached [folded agree_def] check_values_cached [folded agree_def] check_scripts_cached [folded agree_def]

lemma HaveInputs_cached: "cached (vin tx) c \<Longrightarrow> agree (HaveInputs ops c tx) (HaveInputs ops' c tx) c"
  unfolding HaveInputs_def by (auto intro!: agree_same agree_Inr loops_agree)

lemma AreInputsStandard_cached:
  "cached (vin tx) c \<Longrightarrow> agree (AreInputsStandard ops tx c) (AreInputsStandard ops' tx c) c"
  unfolding AreInputsStandard_def by (auto intro!: agree_same agree_Inr loops_agree)

lemma check_pool_sigops_cached:
  "cached (vin tx) c \<Longrightarrow> agree (check_pool_sigops ops zs tx c) (check_pool_sigops ops' zs tx c) c"
  unfolding check_pool_sigops_def GetP2SHSigOpCount_def
  by (auto intro!: agree_bind agree_same agree_Inr loops_agree)

lemma GetBestBlock_cached: "hashBlock c \<noteq> 0 \<Longrightarrow> GetBestBlock ops c = Inr (hashBlock c, c)"
  by (simp add: GetBestBlock_def)

lemma CheckInputs_cached:
  assumes "cached (vin tx) c" "hashBlock c \<noteq> 0"
  shows "agree (CheckInputs ops verify idx b fl tx c) (CheckInputs ops' verify idx b fl tx c) c"
proof -
  have scripts: "cached (map (\<lambda>k. vin tx ! k) [0..<length (vin tx)]) c" using assms(1) by (simp add: map_nth)
  show ?thesis
    unfolding CheckInputs_def
    by (auto intro!: agree_same agree_bind [OF HaveInputs_cached [OF assms(1)]] agree_bind [OF loops_agree(4)] agree_Inr agree_Inl
        loops_agree(5) [OF scripts] assms(1) simp: GetBestBlock_cached [OF assms(2)] split: option.split)
qed

section \<open>The coins of an accepted transaction\<close>

lemma FetchCoins_keeps:
  assumes "FetchCoins ops c k = Inr (r, c')"
  shows "cacheCoins c' k = r \<and> (\<forall>k'. cacheCoins c k' \<noteq> None \<longrightarrow> cacheCoins c' k' = cacheCoins c k') \<and>
    hashBlock c' = hashBlock c"
proof (cases "cacheCoins c k")
  case None
  obtain r0 b where "op_GetCoins ops (base c) k = Inr (r0, b)"
    using assms None by (cases "op_GetCoins ops (base c) k") (auto simp: FetchCoins_def)
  then show ?thesis using assms None by (cases r0) (auto simp: FetchCoins_def Let_def)
qed (use assms in \<open>auto simp: FetchCoins_def\<close>)

lemma have_inputs_caches:
  "have_inputs_loop ops is c = Inr (True, c') \<Longrightarrow> cached is c' \<and> hashBlock c' = hashBlock c \<and>
     (\<forall>k. cacheCoins c k \<noteq> None \<longrightarrow> cacheCoins c' k = cacheCoins c k)"
proof (induction "is" arbitrary: c)
  case (Cons i "is")
  obtain r c1 where r: "FetchCoins ops c (outhash (prevout i)) = Inr (r, c1)"
    using Cons.prems by (cases "FetchCoins ops c (outhash (prevout i))") (auto simp: AccessCoins_def)
  obtain e where e: "r = Some e" "have_inputs_loop ops is c1 = Inr (True, c')"
    using Cons.prems r by (auto simp: AccessCoins_def split: option.splits if_splits)
  show ?case using Cons.IH [OF e(2)] FetchCoins_keeps [OF r] e(1) by auto
qed simp

context coins_reader
begin

lemma inputs_exist_same:
  "cinv c \<Longrightarrow> \<exists>b c'. inputs_exist ops is c = Inr (b, c') \<and> csame c c'"
proof (induction "is" arbitrary: c)
  case (Cons i "is")
  obtain b c1 where c1: "HaveCoins ops c (outhash (prevout i)) = Inr (b, c1)" "csame c c1"
    using HaveCoins [OF Cons.prems] by blast
  obtain b' c2 where "inputs_exist ops is c1 = Inr (b', c2)" "csame c1 c2"
    using Cons.IH csame_view [OF c1(2)] by blast
  then show ?case using c1 csame_trans [OF c1(2)] by (cases b) auto
qed (auto simp: csame_refl)

lemma value_in_loop_sum:
  assumes "cinv c" "\<forall>i\<in>set is. have_coins_for (cache_view view c) (prevout i) \<and> 0 \<le> nValue (spent_output (cache_view view c) (prevout i))"
    "0 \<le> s" "s + value_in (cache_view view c) is \<le> nMaxMoneyOut"
  shows "\<exists>c'. value_in_loop ops is s c = Inr (s + value_in (cache_view view c) is, c')"
  using assms
proof (induction "is" arbitrary: s c)
  case (Cons i "is")
  let ?V = "cache_view view c" and ?p = "prevout i"
  obtain r c1 where r: "AccessCoins ops c (outhash ?p) = Inr (r, c1)" "csame c c1" "live r = ?V (outhash ?p)"
    using AccessCoins [OF Cons.prems(1)] by blast
  obtain coins where coins: "r = Some coins" "?V (outhash ?p) = Some coins" "unat (outn ?p) < length (cvout coins)"
    by (rule avail_view [where V = ?V and p = ?p and r = r, OF r(3)]) (use Cons.prems(2) in auto)
  have c1: "cinv c1" "cache_view view c1 = ?V" using csame_view [OF r(2)] by simp_all
  define v where "v = nValue (cvout coins ! unat (outn ?p))"
  have v: "nValue (spent_output ?V ?p) = v" by (simp add: spent_output_def coins(2) v_def)
  have avail: "IsAvailable coins (unat (outn ?p))" using Cons.prems(2) coins(2) by (simp add: have_coins_for_def)
  have rest: "0 \<le> value_in ?V is" unfolding value_in_def using Cons.prems(2) by (intro nonneg_sum_list) auto
  have sum: "value_in ?V (i # is) = v + value_in ?V is" by (simp add: value_in_def v)
  have pos: "0 \<le> v" using Cons.prems(2) v by simp
  have "wrap64 (s + v) = s + v"
    using Cons.prems(3,4) rest sum pos by (intro wrap64_id) (simp_all add: nMaxMoneyOut_def INT64_MIN_def INT64_MAX_def)
  then have "value_in_loop ops (i # is) s c = value_in_loop ops is (s + v) c1"
    using avail by (simp add: GetOutputFor_def r(1) coins(1) v_def)
  moreover have "\<exists>c'. value_in_loop ops is (s + v) c1 = Inr (s + v + value_in (cache_view view c1) is, c')"
    using Cons.prems(2-4) sum pos by (intro Cons.IH [OF c1(1)]) (simp_all add: c1(2))
  ultimately show ?case unfolding c1(2) sum by (simp add: add.assoc)
qed (simp add: value_in_def)

lemma pool_inputs_ok:
  assumes "cinv c" "cache_tip tip c \<noteq> 0" "IsCoinBase tx = Inr False" "IsZerocoinSpend_tx tx = Inr False"
    and p: "pool_inputs env ops tx c = Inr ((None, m, v), c')"
  shows "csame c c' \<and> cached (vin tx) c' \<and> hashBlock c' \<noteq> 0 \<and> cache_view view c (GetHash tx) = None \<and>
    value_in_loop ops (vin tx) 0 c' = Inr (v, c')"
proof -
  obtain c1 where c1: "HaveCoins ops c (GetHash tx) = Inr (cache_view view c (GetHash tx) \<noteq> None, c1)" "csame c c1"
    using HaveCoins [OF assms(1)] by blast
  have new: "cache_view view c (GetHash tx) = None" using p c1(1) by (auto simp: pool_inputs_def split: if_splits)
  have v1: "cinv c1" using csame_view [OF c1(2)] by simp
  obtain b c2 where c2: "inputs_exist ops (vin tx) c1 = Inr (b, c2)" "csame c1 c2" using inputs_exist_same [OF v1] by blast
  have v2: "cinv c2" "csame c c2" using csame_view [OF c2(2)] csame_trans [OF c1(2) c2(2)] by simp_all
  obtain h c3 where c3: "have_inputs_loop ops (vin tx) c2 = Inr (h, c3)" "csame c2 c3"
    using have_inputs_loop [OF v2(1)] by blast
  have v3: "cinv c3" "csame c c3" using csame_view [OF c3(2)] csame_trans [OF v2(2) c3(2)] by simp_all
  obtain c4 where c4: "GetBestBlock ops c3 = Inr (cache_tip tip c3, c4)" "csame c3 c4" using GetBestBlock [OF v3(1)] by blast
  have H: "HaveInputs ops c2 tx = Inr (h, c3)" using assms(3,4) c3(1) by (simp add: HaveInputs_def)
  have h: "h" using p c1(1) new c2(1) H by (auto simp: pool_inputs_def refusal_def split: if_splits option.splits)
  have "cached (vin tx) c3" using have_inputs_caches [of ops "vin tx" c2 c3] c3(1) h by simp
  moreover have "cacheCoins c4 = cacheCoins c3" "hashBlock c4 = cache_tip tip c3"
    using c4(1) by (auto simp: GetBestBlock_def cache_tip_def fault_simps split: if_splits)
  moreover have "cache_tip tip c3 = cache_tip tip c" using csame_view [OF v3(2)] by simp
  ultimately have k: "cached (vin tx) c4" "hashBlock c4 \<noteq> 0" using assms(2) by (simp_all add: cached_def)
  have G: "GetValueIn ops c4 tx = value_in_loop ops (vin tx) 0 c4" using assms(3,4) by (simp add: GetValueIn_def)
  have "value_in_loop ops (vin tx) 0 c4 = Inr (v, c')"
    using p c1(1) new c2(1) H h c4(1) G
    by (auto simp: pool_inputs_def refusal_def fault_simps split: if_splits option.splits)
  moreover from this have "c' = c4" using value_in_loop_cached [OF k(1), of ops 0 ops] by (auto simp: settled_def)
  ultimately show ?thesis using k new csame_trans [OF v3(2) c4(2)] by simp
qed

end

section \<open>What an accepted transaction satisfies\<close>

lemma check_outputs_range:
  "check_outputs mint_ok z tx outs s n = Inr (Valid, m) \<Longrightarrow> 0 \<le> s \<Longrightarrow> s \<le> nMaxMoneyOut \<Longrightarrow>
   (\<forall>txo\<in>set outs. 0 \<le> nValue txo) \<and> s + sum_list (map nValue outs) \<le> nMaxMoneyOut"
proof (induction outs arbitrary: s n)
  case (Cons txo outs)
  have r: "0 \<le> nValue txo" "nValue txo \<le> nMaxMoneyOut"
    using Cons.prems(1) by (auto simp: fault_simps Let_def split: if_splits)
  have "wrap64 (s + nValue txo) = s + nValue txo"
    using r Cons.prems(2,3) by (intro wrap64_id) (simp_all add: nMaxMoneyOut_def INT64_MIN_def INT64_MAX_def)
  then have "\<exists>n. check_outputs mint_ok z tx outs (s + nValue txo) n = Inr (Valid, m)" "MoneyRange (s + nValue txo)"
    using Cons.prems(1) r by (auto simp: fault_simps Let_def split: if_splits)
  then show ?case using Cons.IH [of "s + nValue txo"] r by (auto simp: MoneyRange_def add.assoc)
qed simp

lemma CheckTransaction_Valid:
  assumes "CheckTransaction mint_ok spend_ok nLastPOW chainHeight tx z = Inr Valid"
  shows "vin tx \<noteq> []" "\<forall>txo\<in>set (vout tx). 0 \<le> nValue txo" "sum_list (map nValue (vout tx)) \<le> nMaxMoneyOut"
    "sorted_wrt (\<lambda>i j. prevout i = prevout j \<longrightarrow> IsZerocoinSpend (scriptSig i)) (vin tx)"
proof -
  obtain m where "check_outputs mint_ok z tx (vout tx) 0 0 = Inr (Valid, m)" and d: "\<not> duplicate_inputs (vin tx) []"
    and "vin tx \<noteq> []"
    using assms by (auto simp: CheckTransaction_def fault_simps split: if_splits)
  then show "vin tx \<noteq> []" "\<forall>txo\<in>set (vout tx). 0 \<le> nValue txo" "sum_list (map nValue (vout tx)) \<le> nMaxMoneyOut"
    "sorted_wrt (\<lambda>i j. prevout i = prevout j \<longrightarrow> IsZerocoinSpend (scriptSig i)) (vin tx)"
    using check_outputs_range [of mint_ok z tx "vout tx" 0 0 m] d by (simp_all add: nMaxMoneyOut_def duplicate_inputs_iff)
qed

lemma GetValueOut_sum:
  assumes "\<forall>txo\<in>set (vout tx). 0 \<le> nValue txo" "sum_list (map nValue (vout tx)) \<le> nMaxMoneyOut"
  shows "GetValueOut tx = Inr (sum_list (map nValue (vout tx)))"
proof -
  have "list_all (\<lambda>txo. nValue txo \<le> INT64_MAX) (vout tx)"
    using member_le_sum [OF assms(1)] assms(2) by (fastforce simp: list_all_iff INT64_MAX_def nMaxMoneyOut_def)
  then show ?thesis
    using value_out_loop_sum [of 0 "vout tx"] assms by (simp add: GetValueOut_def list_all_iff INT64_MAX_def nMaxMoneyOut_def)
qed

lemma accept_pre_None:
  assumes "accept_pre env chainActive p tx = Inr None" "IsZerocoinSpend_tx tx = Inr zs"
  shows "\<exists>mint_ok spend_ok nLastPOW. CheckTransaction mint_ok spend_ok nLastPOW (Height chainActive) tx True = Inr Valid"
    "IsCoinBase tx = Inr False" "\<not> IsCoinStake tx" "\<not> pool_exists p (GetHash tx)"
    "\<not> zs \<Longrightarrow> i \<in> set (vin tx) \<Longrightarrow> map_of (mapNextTx p) (prevout i) = None"
    "i \<in> set (vin tx) \<Longrightarrow> \<not> lock_conflict (node env) tx i"
proof -
  let ?ct = "CheckTransaction (MintOk (node env)) (SpendOk (node env)) (nLastPOWBlock (net (node env))) (Height chainActive) tx True"
  obtain v where v: "?ct = Inr v"
    using assms(1) by (cases ?ct) (auto simp: accept_pre_def refusal_def fault_simps split: if_splits)
  have V: "v = Valid"
    using assms(1) v by (cases v) (auto simp: accept_pre_def refusal_def fault_simps split: if_splits)
  have "IsCoinBase tx = Inr False \<and> \<not> IsCoinStake tx \<and> \<not> pool_exists p (GetHash tx) \<and>
      \<not> list_ex (lock_conflict (node env) tx) (vin tx) \<and>
      \<not> (\<not> zs \<and> list_ex (\<lambda>i. map_of (mapNextTx p) (prevout i) \<noteq> None) (vin tx))"
    using assms v V by (auto simp: accept_pre_def refusal_def fault_simps simp del: list_ex_iff split: if_splits option.splits)
  then show "\<exists>mint_ok spend_ok nLastPOW. CheckTransaction mint_ok spend_ok nLastPOW (Height chainActive) tx True = Inr Valid"
    "IsCoinBase tx = Inr False" "\<not> IsCoinStake tx" "\<not> pool_exists p (GetHash tx)"
    "\<not> zs \<Longrightarrow> i \<in> set (vin tx) \<Longrightarrow> map_of (mapNextTx p) (prevout i) = None"
    "i \<in> set (vin tx) \<Longrightarrow> \<not> lock_conflict (node env) tx i"
    using v V by (auto simp: list_ex_iff)
qed

text \<open>The fee check only touches the prioritisation.\<close>

definition same_txs :: "CTxMemPool \<Rightarrow> CTxMemPool \<Rightarrow> bool" where
  "same_txs p q \<longleftrightarrow> mapTx q = mapTx p \<and> mapNextTx q = mapNextTx p \<and> totalTxSize q = totalTxSize p"

lemma check_pool_fee_same:
  "check_pool_fee env ch fl ig zs coins tx f n p free = (r, q, free') \<Longrightarrow> same_txs p q"
  by (auto simp: check_pool_fee_def same_txs_def PrioritiseTransaction_def Let_def refusal_def split: if_splits prod.splits)

definition accepted_entry :: "accept_env \<Rightarrow> CChain \<Rightarrow> CTransaction \<Rightarrow> CAmount \<Rightarrow> CTxMemPoolEntry" where
  "accepted_entry env chainActive tx nFees = new_pool_entry tx nFees (nodeTime (node env)) 0 (Height chainActive)"

lemma check_pool_scripts_None:
  assumes "check_pool_scripts env CCoinsView_ops idx tx c = Inr (None, c')" "cached (vin tx) c" "hashBlock c \<noteq> 0"
    and "fl = STANDARD_SCRIPT_VERIFY_FLAGS \<or> fl = MANDATORY_SCRIPT_VERIFY_FLAGS"
  shows "CheckInputs ops (Verify env) idx True fl tx c = Inr (Valid, c)"
proof -
  let ?run = "\<lambda>fl. CheckInputs CCoinsView_ops (Verify env) idx True fl tx c"
  have a: "agree (?run fl) (CheckInputs ops (Verify env) idx True fl tx c) c" for fl
    by (rule CheckInputs_cached [OF assms(2,3)])
  obtain v c1 where 1: "?run STANDARD_SCRIPT_VERIFY_FLAGS = Inr (v, c1)"
    using assms(1) by (cases "?run STANDARD_SCRIPT_VERIFY_FLAGS") (auto simp: check_pool_scripts_def)
  have v: "v = Valid" "c1 = c"
    using assms(1) 1 a [of STANDARD_SCRIPT_VERIFY_FLAGS]
    by (auto simp: check_pool_scripts_def refusal_def agree_def settled_def split: verdict.splits)
  obtain w c2 where 2: "?run MANDATORY_SCRIPT_VERIFY_FLAGS = Inr (w, c2)"
    using assms(1) 1 v by (cases "?run MANDATORY_SCRIPT_VERIFY_FLAGS") (auto simp: check_pool_scripts_def)
  have w: "w = Valid" "c2 = c"
    using assms(1) 1 2 v a [of MANDATORY_SCRIPT_VERIFY_FLAGS]
    by (auto simp: check_pool_scripts_def refusal_def agree_def settled_def split: verdict.splits)
  show ?thesis using 1 2 v w a assms(4) by (auto simp: agree_def)
qed

lemma accept_post_True:
  assumes "accept_post env idx ch fl fr ig zs tx v c st = Inr (True, st')" "cached (vin tx) c" "hashBlock c \<noteq> 0"
    and "f = STANDARD_SCRIPT_VERIFY_FLAGS \<or> f = MANDATORY_SCRIPT_VERIFY_FLAGS"
  shows "CheckInputs ops (Verify env) idx True f tx c = Inr (Valid, c)"
    "\<exists>out q. GetValueOut tx = Inr out \<and> same_txs (apool st) q \<and>
      addUnchecked q (GetHash tx) (accepted_entry env ch tx (wrap64 (v - out))) = Inr (apool st')"
proof -
  have std: "agree (if fRequireStandard env then AreInputsStandard CCoinsView_ops tx c else Inr (True, c))
      (if fRequireStandard env then AreInputsStandard CCoinsView_ops tx c else Inr (True, c)) c"
    by (auto intro: AreInputsStandard_cached [OF assms(2)] agree_Inr)
  have sig: "agree (check_pool_sigops CCoinsView_ops zs tx c) (check_pool_sigops CCoinsView_ops zs tx c) c"
    by (rule check_pool_sigops_cached [OF assms(2)])
  obtain b where b: "(if fRequireStandard env then AreInputsStandard CCoinsView_ops tx c else Inr (True, c)) = Inr (b, c)"
    using assms(1) std by (auto simp: accept_post_def bindE_eq_Inr agree_def settled_def)
  have B: "b" using assms(1) unfolding accept_post_def b by (cases b) (auto simp: refuse_def)
  obtain r where r: "check_pool_sigops CCoinsView_ops zs tx c = Inr (r, c)"
    using assms(1) sig B unfolding accept_post_def b by (auto simp: bindE_eq_Inr agree_def settled_def)
  have R: "r = None" using assms(1) B unfolding accept_post_def b by (cases r) (auto simp: refuse_def r)
  obtain out where out: "GetValueOut tx = Inr out"
    using assms(1) B R unfolding accept_post_def b by (cases "GetValueOut tx") (auto simp: r)
  let ?e = "accepted_entry env ch tx (wrap64 (v - out))"
  obtain s q free where f: "check_pool_fee env ch fl ig zs (input_coins c (vin tx)) tx (wrap64 (v - out)) (eTxSize ?e) (apool st) (afree st) = (s, q, free)"
    by (rule prod_cases3)
  note run = assms(1) [unfolded accept_post_def b bindE_Inr prod.case Let_def, simplified B R r out, simplified,
      folded accepted_entry_def, unfolded f, simplified]
  have S: "s = None" using run by (cases s) (auto simp: refuse_def)
  obtain t c2 where t: "check_pool_scripts env CCoinsView_ops idx tx c = Inr (t, c2)"
    using run S by (cases "check_pool_scripts env CCoinsView_ops idx tx c") (auto simp: refuse_def split: if_splits)
  have T: "t = None" using run S t by (cases t) (auto simp: refuse_def split: if_splits)
  have "addUnchecked q (GetHash tx) ?e = Inr (apool st')"
    using run S t T by (auto simp: refuse_def fault_simps split: if_splits)
  then show "\<exists>out q. GetValueOut tx = Inr out \<and> same_txs (apool st) q \<and>
      addUnchecked q (GetHash tx) (accepted_entry env ch tx (wrap64 (v - out))) = Inr (apool st')"
    using out check_pool_fee_same [OF f] by blast
  show "CheckInputs ops (Verify env) idx True f tx c = Inr (Valid, c)"
    by (rule check_pool_scripts_None [OF t [unfolded T] assms(2,3,4)])
qed

lemma same_txs_ok: "pool_ok p \<Longrightarrow> same_txs p q \<Longrightarrow> pool_ok q"
  by (rule pool_ok_same) (auto simp: same_txs_def)

lemma same_txs_enter: "may_enter p e \<Longrightarrow> same_txs p q \<Longrightarrow> may_enter q e"
  by (simp add: may_enter_def same_txs_def)

lemma fresh_cache_inv: "vinv s \<Longrightarrow> cache_inv vinv view holds (new_cache s)"
  by (simp add: cache_inv_def new_cache_def entries_ok_def)

lemma fresh_cache_view: "cache_view view (new_cache s) = view s" and fresh_cache_tip: "cache_tip tip (new_cache s) = tip s"
  by (simp_all add: cache_view_def cache_tip_def new_cache_def over_def)

text \<open>Everything but the pool: \<open>p\<close> and \<open>V\<close> are the pool and the coins that the transaction is checked against.\<close>

context coins_reader
begin

lemma accepted_inputs:
  assumes "cinv c" "cache_tip tip c \<noteq> 0" "idx (cache_tip tip c) = Some pindexPrev" "IsZerocoinSpend_tx tx = Inr False"
    and pre: "accept_pre env ch p tx = Inr None"
    and ins: "pool_inputs env ops tx c = Inr ((None, m, v), c')"
    and post: "accept_post env idx ch fl fr ig False tx v c' st = Inr (True, st')"
  shows "inputs_acceptable (Verify env) (cache_view view c) (int (iHeight pindexPrev) + 1) True STANDARD_SCRIPT_VERIFY_FLAGS tx \<and>
    cache_view view c (GetHash tx) = None \<and> distinct (map prevout (vin tx)) \<and>
    (\<exists>q. same_txs (apool st) q \<and> addUnchecked q (GetHash tx) (accepted_entry env ch tx
       (value_in (cache_view view c) (vin tx) - sum_list (map nValue (vout tx)))) = Inr (apool st'))"
proof -
  let ?V = "cache_view view c"
  note P = accept_pre_None [OF pre assms(4)]
  obtain mint_ok spend_ok nLastPOW where ct: "CheckTransaction mint_ok spend_ok nLastPOW (Height ch) tx True = Inr Valid"
    using P(1) by blast
  note T = CheckTransaction_Valid [OF ct]
  note I = pool_inputs_ok [OF assms(1,2) P(2) assms(4) ins]
  have same: "csame c c'" and cd: "cached (vin tx) c'" and hb: "hashBlock c' \<noteq> 0" using I by blast+
  have v': "cinv c'" "cache_view view c' = ?V" "cache_tip tip c' = cache_tip tip c" using csame_view [OF same] by simp_all
  have has: "has_inputs tx = Inr True" using P(2) assms(4) by (simp add: has_inputs_def)
  note A = accept_post_True [OF post cd hb, of STANDARD_SCRIPT_VERIFY_FLAGS, simplified]
  have idx': "idx (cache_tip tip c') = Some pindexPrev" using assms(3) v'(3) by simp
  have acc: "inputs_acceptable (Verify env) ?V (int (iHeight pindexPrev) + 1) True STANDARD_SCRIPT_VERIFY_FLAGS tx"
    using CheckInputs [where idx = idx and c = c' and tx = tx and verify = "Verify env" and fScriptChecks = True and
        fl = STANDARD_SCRIPT_VERIFY_FLAGS, OF v'(1) has idx' T(2,3)] A(1) [of ops] v'(2) by auto
  have "\<not> IsZerocoinSpend (scriptSig j)" if "j \<in> set (vin tx)" for j
    using acc that by (auto simp: inputs_acceptable_def in_set_conv_nth dest!: VerifyScript_ZEROCOINSPEND)
  then have d: "distinct (map prevout (vin tx))" using T(4) by (intro distinct_inputs) auto
  let ?in = "value_in ?V (vin tx)" and ?out = "sum_list (map nValue (vout tx))"
  have range: "?in \<le> nMaxMoneyOut" "?out \<le> ?in" "0 \<le> ?out"
    using acc P(3) nonneg_sum_list [OF T(2)] by (auto simp: inputs_acceptable_def)
  have ins_ok: "\<forall>i\<in>set (vin tx). have_coins_for (cache_view view c') (prevout i) \<and>
      0 \<le> nValue (spent_output (cache_view view c') (prevout i))"
    using acc v'(2) by (auto simp: inputs_acceptable_def)
  obtain c2 where "value_in_loop ops (vin tx) 0 c' = Inr (0 + value_in (cache_view view c') (vin tx), c2)"
    using value_in_loop_sum [OF v'(1) ins_ok, of 0] range(1) v'(2) by auto
  then have v: "v = ?in" using I v'(2) by simp
  have "wrap64 (?in - ?out) = ?in - ?out"
    using range by (intro wrap64_id) (simp_all add: nMaxMoneyOut_def INT64_MIN_def INT64_MAX_def)
  then have "\<exists>q. same_txs (apool st) q \<and>
      addUnchecked q (GetHash tx) (accepted_entry env ch tx (?in - ?out)) = Inr (apool st')"
    using A(2) GetValueOut_sum [OF T(2,3)] v by auto
  then show ?thesis using acc d I by blast
qed

end

lemma Accept_runs:
  assumes "AcceptToMemoryPool env ops idx ch fl fr ig tx st = Inr (True, st')" "IsZerocoinSpend_tx tx = Inr False"
  shows "\<exists>m v c'. accept_pre env ch (apool st) tx = Inr None \<and>
    pool_inputs env (mempool_ops (apool st) ops) tx (new_cache (acoins st)) = Inr ((None, m, v), c') \<and>
    accept_post env idx ch fl fr ig False tx v c' (st\<lparr>acoins := base c', fMissingInputs := m\<rparr>) = Inr (True, st')"
proof -
  obtain r where r: "accept_pre env ch (apool st) tx = Inr r"
    using assms(1) by (cases "accept_pre env ch (apool st) tx") (auto simp: AcceptToMemoryPool_def)
  have R: "r = None" using assms(1) r by (cases r) (auto simp: AcceptToMemoryPool_def refuse_def)
  obtain s m v c' where s: "pool_inputs env (mempool_ops (apool st) ops) tx (new_cache (acoins st)) = Inr ((s, m, v), c')"
    using assms r R by (cases "pool_inputs env (mempool_ops (apool st) ops) tx (new_cache (acoins st))")
      (auto simp: AcceptToMemoryPool_def)
  have "s = None" using assms r R s by (cases s) (auto simp: AcceptToMemoryPool_def refuse_def)
  then show ?thesis using assms r R s by (auto simp: AcceptToMemoryPool_def)
qed

lemma accepted_may_enter:
  assumes "accept_pre env ch p tx = Inr None" "IsZerocoinSpend_tx tx = Inr False" "distinct (map prevout (vin tx))"
    and "\<forall>i\<in>set (vin tx). V (outhash (prevout i)) \<noteq> None"
    and "\<forall>h e i. map_of (mapTx p) h = Some e \<and> IsZerocoinSpend_tx (etx e) = Inr True \<and> i \<in> set (vin (etx e)) \<longrightarrow>
      V (outhash (prevout i)) = None"
    and e: "etx e = tx"
  shows "may_enter p e"
proof -
  note P = accept_pre_None [OF assms(1,2)]
  have "prevout ` set (vin tx) \<inter> prevout ` set (vin (etx e')) = {}"
    if "map_of (mapTx p) h = Some e'" "IsZerocoinSpend_tx (etx e') = Inr True" for h e'
  proof (rule ccontr)
    assume "prevout ` set (vin tx) \<inter> prevout ` set (vin (etx e')) \<noteq> {}"
    then obtain i j where ij: "i \<in> set (vin tx)" "j \<in> set (vin (etx e'))" "prevout i = prevout j" by blast
    then show False using assms(4,5) that by (metis (no_types, lifting))
  qed
  then show ?thesis using P(4,5) assms(2,3) e by (auto simp: may_enter_def pool_exists_def)
qed

text \<open>An ordinary transaction is accepted against the coins of pcoinsTip and of the pool.\<close>

lemma AcceptToMemoryPool_accepts:
  fixes fully_valid decompress
  defines "ops \<equiv> cache_ops (DB_ops fully_valid decompress)"
  assumes tip: "tip_inv fully_valid decompress (acoins st)" "cache_tip db_tip (acoins st) \<noteq> 0"
    "idx (cache_tip db_tip (acoins st)) = Some pindexPrev"
    and p: "pool_ok (apool st)" "pool_txs_ok (apool st)"
    and V: "V = pool_view (apool st) (tip_view decompress (acoins st))"
    and spends: "\<forall>h e i. map_of (mapTx (apool st)) h = Some e \<and> IsZerocoinSpend_tx (etx e) = Inr True \<and> i \<in> set (vin (etx e)) \<longrightarrow>
      V (outhash (prevout i)) = None"
    and run: "IsZerocoinSpend_tx tx = Inr False" "AcceptToMemoryPool env ops idx ch fl fr ig tx st = Inr (True, st')"
  shows "inputs_acceptable (Verify env) V (int (iHeight pindexPrev) + 1) True STANDARD_SCRIPT_VERIFY_FLAGS tx \<and>
    (\<forall>i\<in>set (vin tx). map_of (mapNextTx (apool st)) (prevout i) = None) \<and>
    map_of (mapTx (apool st)) (GetHash tx) = None \<and> V (GetHash tx) = None \<and>
    map_of (mapTx (apool st')) = (map_of (mapTx (apool st)))(GetHash tx \<mapsto>
      accepted_entry env ch tx (value_in V (vin tx) - sum_list (map nValue (vout tx)))) \<and>
    pool_ok (apool st')"
proof -
  let ?c = "new_cache (acoins st)"
  obtain m v c' where r: "accept_pre env ch (apool st) tx = Inr None"
    "pool_inputs env (mempool_ops (apool st) ops) tx ?c = Inr ((None, m, v), c')"
    "accept_post env idx ch fl fr ig False tx v c' (st\<lparr>acoins := base c', fMissingInputs := m\<rparr>) = Inr (True, st')"
    using Accept_runs [OF run(2,1)] by blast
  have inv: "cache_inv (\<lambda>s. pool_txs_ok (apool st) \<and> tip_inv fully_valid decompress s)
      (\<lambda>s. pool_view (apool st) (tip_view decompress s)) (\<lambda>_ _. True) ?c"
    using tip(1) p(2) by (intro fresh_cache_inv) simp
  note A = pool.accepted_inputs [OF inv _ _ run(1) r(1) r(2) [unfolded ops_def] r(3),
      unfolded fresh_cache_view fresh_cache_tip, OF tip(2,3), folded V]
  let ?e = "accepted_entry env ch tx (value_in V (vin tx) - sum_list (map nValue (vout tx)))"
  have e: "etx ?e = tx" by (simp add: accepted_entry_def new_pool_entry_def Let_def)
  have "\<forall>i\<in>set (vin tx). V (outhash (prevout i)) \<noteq> None"
    using A by (auto simp: inputs_acceptable_def have_coins_for_def split: option.splits)
  then have enter: "may_enter (apool st) ?e"
    using A accepted_may_enter [OF r(1) run(1) _ _ spends e] by blast
  obtain q where q: "same_txs (apool st) q" "addUnchecked q (GetHash tx) ?e = Inr (apool st')" using A by auto
  have "\<exists>p'. addUnchecked q (GetHash (etx ?e)) ?e = Inr p' \<and> pool_ok p' \<and>
      map_of (mapTx p') = (map_of (mapTx q))(GetHash (etx ?e) \<mapsto> ?e)"
    by (rule addUnchecked_ok [OF same_txs_ok [OF p(1) q(1)] same_txs_enter [OF enter q(1)]])
  then have "pool_ok (apool st')" "map_of (mapTx (apool st')) = (map_of (mapTx (apool st)))(GetHash tx \<mapsto> ?e)"
    using q by (auto simp: e same_txs_def)
  then show ?thesis using A enter by (auto simp: may_enter_def e)
qed

text \<open>A refusal leaves the transactions of the pool alone.\<close>

definition keeps :: "(fault + bool \<times> 's accept_state) \<Rightarrow> CTxMemPool \<Rightarrow> bool" where
  "keeps m p \<longleftrightarrow> (\<forall>st. m = Inr (False, st) \<longrightarrow> same_txs p (apool st))"

lemma keeps_bind: "(\<And>r. keeps (f r) p) \<Longrightarrow> keeps (bindE m f) p"
  by (cases m) (auto simp: keeps_def)

lemma keeps_refuse: "same_txs p (apool st) \<Longrightarrow> keeps (Inr (refuse rs st)) p" and keeps_True: "keeps (Inr (True, st)) p"
  by (simp_all add: keeps_def refuse_def)

lemma accept_post_keeps: "keeps (accept_post env idx ch fl fr ig zs tx v c st) (apool st)"
proof -
  have same: "same_txs p p" for p by (simp add: same_txs_def)
  show ?thesis
    unfolding accept_post_def Let_def
    by (auto intro!: keeps_bind keeps_refuse keeps_True same check_pool_fee_same split: prod.split option.split)
qed

lemma AcceptToMemoryPool_refuses:
  assumes "AcceptToMemoryPool env ops idx ch fl fr ig tx st = Inr (False, st')"
  shows "same_txs (apool st) (apool st')"
proof -
  have same: "same_txs p p" for p by (simp add: same_txs_def)
  have post: "keeps (accept_post env idx ch fl fr ig zs tx v c st') p" if "apool st' = p" for zs v c st' p
    using accept_post_keeps [of env idx ch fl fr ig zs tx v c st'] that by simp
  have "keeps (AcceptToMemoryPool env ops idx ch fl fr ig tx st) (apool st)"
    unfolding AcceptToMemoryPool_def Let_def
    by (auto intro!: keeps_bind keeps_refuse same post split: prod.split option.split)
  then show ?thesis using assms by (simp add: keeps_def)
qed

section \<open>Zerocoin spends in the pool\<close>

text \<open>addUnchecked does not enter the inputs of a zerocoin spend, and AcceptToMemoryPool does not compare them
with the inputs of the pool, but remove erases the outpoints of all its inputs.  A zerocoin spend that names the
input of an entry makes the pool forget that the input is spent.\<close>

lemma zerocoin_spend_frees_input:
  assumes ok: "pool_ok p" and e: "map_of (mapTx p) h = Some e" "i \<in> set (vin (etx e))"
    and f: "etx f = tx" "IsZerocoinSpend_tx tx = Inr True" "map_of (mapTx p) (GetHash tx) = None"
    and j: "j \<in> set (vin tx)" "prevout j = prevout i"
  shows "\<exists>p1 p2 rm. addUnchecked p (GetHash tx) f = Inr p1 \<and> remove_tx p1 tx [] False = Inr (p2, rm) \<and>
    map_of (mapTx p2) h = Some e \<and> map_of (mapNextTx p2) (prevout i) = None"
proof -
  let ?h = "GetHash tx"
  obtain p1 where p1: "addUnchecked p ?h f = Inr p1" "mapTx p1 = map_put ?h f (mapTx p)" "mapNextTx p1 = mapNextTx p"
    using f(1,2) by (simp add: addUnchecked_def)
  have look: "map_of (mapTx p1) = (map_of (mapTx p))(?h \<mapsto> f)"
    unfolding p1(2) using pool_okD(1) [OF ok] by (simp add: map_of_map_put)
  have "remove_tx p1 tx [] False = Inr (remove_entry p1 ?h f, [tx])"
    using look f(1) by (simp add: remove_tx_def remove_loop.simps)
  moreover have "map_of (mapTx (remove_entry p1 ?h f)) h = Some e"
    using e(1) f(3) look by (auto simp: remove_entry_tx)
  moreover have "map_of (mapNextTx (remove_entry p1 ?h f)) (prevout i) = None"
    using j f(1) by (auto simp: remove_entry_next restrict_map_def intro: image_eqI [of _ _ j])
  ultimately show ?thesis using p1(1) by blast
qed

section \<open>When a transaction is accepted\<close>

text \<open>The rules of AcceptToMemoryPool over the coins \<open>V\<close> of pcoinsTip and of the pool.\<close>

fun p2sh_count :: "utxos \<Rightarrow> CTxIn list \<Rightarrow> nat" where
  "p2sh_count V [] = 0"
| "p2sh_count V (i # is) =
     (let script = scriptPubKey (spent_output V (prevout i)) in
      (if IsPayToScriptHash script then GetSigOpCount_P2SH script (scriptSig i) else 0) + p2sh_count V is)"

fun standard_spends :: "utxos \<Rightarrow> CTxIn list \<Rightarrow> fault + bool" where
  "standard_spends V [] = Inr True"
| "standard_spends V (i # is) =
     bindE (input_standard (scriptPubKey (spent_output V (prevout i))) (scriptSig i)) (\<lambda>r.
       case r of Some b \<Rightarrow> Inr b | None \<Rightarrow> standard_spends V is)"

definition pool_fee_ok ::
  "accept_env \<Rightarrow> CChain \<Rightarrow> bool \<Rightarrow> bool \<Rightarrow> bool \<Rightarrow> utxos \<Rightarrow> CTransaction \<Rightarrow> CAmount \<Rightarrow> CTxMemPool \<Rightarrow> 64 word \<times> int \<Rightarrow> bool" where
  "pool_fee_ok env ch fLimitFree fRejectInsaneFee ignoreFees V tx nFees p free \<longleftrightarrow>
     (let nSize = length (put_CTransaction tx) in
      fst (check_pool_fee env ch fLimitFree ignoreFees False (map (\<lambda>i. V (outhash (prevout i))) (vin tx)) tx nFees nSize p free) = None \<and>
      \<not> (fRejectInsaneFee \<and> nFees > wrap64 (GetFee (minRelayTxFee env) nSize * 10000)))"

definition pool_acceptable ::
  "accept_env \<Rightarrow> CChain \<Rightarrow> bool \<Rightarrow> bool \<Rightarrow> bool \<Rightarrow> utxos \<Rightarrow> int \<Rightarrow> CTransaction \<Rightarrow> CTxMemPool \<Rightarrow> 64 word \<times> int \<Rightarrow> bool" where
  "pool_acceptable env ch fLimitFree fRejectInsaneFee ignoreFees V nSpendHeight tx p free \<longleftrightarrow>
     V (GetHash tx) = None \<and>
     (IsZerocoinMint_tx tx \<longrightarrow> mint_refusal env tx (vout tx) = None) \<and>
     (fRequireStandard env \<longrightarrow> standard_spends V (vin tx) = Inr True) \<and>
     GetLegacySigOpCount tx + p2sh_count V (vin tx) \<le> MAX_TX_SIGOPS_CURRENT \<and>
     pool_fee_ok env ch fLimitFree fRejectInsaneFee ignoreFees V tx (value_in V (vin tx) - sum_list (map nValue (vout tx))) p free \<and>
     inputs_acceptable (Verify env) V nSpendHeight True STANDARD_SCRIPT_VERIFY_FLAGS tx \<and>
     inputs_acceptable (Verify env) V nSpendHeight True MANDATORY_SCRIPT_VERIFY_FLAGS tx"

context coins_reader
begin

lemma cached_coins:
  assumes "cinv c" "cacheCoins c (outhash (prevout i)) \<noteq> None" "have_coins_for (cache_view view c) (prevout i)"
  shows "map_option ecoins (cacheCoins c (outhash (prevout i))) = cache_view view c (outhash (prevout i))"
    "GetOutputFor ops' c i = Inr (spent_output (cache_view view c) (prevout i), c)"
proof -
  let ?V = "cache_view view c" and ?k = "outhash (prevout i)"
  obtain e where e: "cacheCoins c ?k = Some e" using assms(2) by blast
  have "live (Some (ecoins e)) = ?V ?k" using AccessCoins [OF assms(1), of ?k] AccessCoins_cached [OF e, of ops] by auto
  then have V: "?V ?k = Some (ecoins e)" using assms(3) by (auto simp: have_coins_for_def live_def split: if_splits)
  then show "map_option ecoins (cacheCoins c ?k) = ?V ?k" using e by simp
  show "GetOutputFor ops' c i = Inr (spent_output ?V (prevout i), c)"
    using assms(3) V by (simp add: GetOutputFor_def AccessCoins_cached [OF e] have_coins_for_def spent_output_def)
qed

definition ready :: "'s cache \<Rightarrow> CTxIn list \<Rightarrow> bool" where
  "ready c ins \<longleftrightarrow> cinv c \<and> cached ins c \<and> (\<forall>i\<in>set ins. have_coins_for (cache_view view c) (prevout i))"

lemma ready_Cons: "ready c (i # is) \<Longrightarrow> ready c is \<and> GetOutputFor ops' c i = Inr (spent_output (cache_view view c) (prevout i), c)"
  using cached_coins(2) [of c i ops'] by (simp add: ready_def)

lemma p2sh_sigops_view:
  "ready c is \<Longrightarrow> p2sh_sigops ops' is n c = Inr (n + p2sh_count (cache_view view c) is, c)"
  by (induction "is" arbitrary: n) (auto simp: Let_def dest!: ready_Cons [of c _ _ ops'])

lemma inputs_standard_view:
  "ready c is \<Longrightarrow> inputs_standard_loop ops' is c = bindE (standard_spends (cache_view view c) is) (\<lambda>b. Inr (b, c))"
proof (induction "is")
  case (Cons i "is")
  note R = ready_Cons [OF Cons.prems, of ops']
  let ?m = "input_standard (scriptPubKey (spent_output (cache_view view c) (prevout i))) (scriptSig i)"
  show ?case
  proof (cases ?m)
    case (Inr r)
    then show ?thesis using R Cons.IH by (cases r) simp_all
  qed (use R in simp)
qed simp

lemma CheckInputs_view:
  assumes "ready c (vin tx)" "hashBlock c \<noteq> 0" "has_inputs tx = Inr True" "idx (cache_tip tip c) = Some pindexPrev"
    "\<forall>txo\<in>set (vout tx). 0 \<le> nValue txo" "sum_list (map nValue (vout tx)) \<le> nMaxMoneyOut"
  shows "\<exists>r. CheckInputs ops' verify idx True fl tx c = Inr (r, c) \<and>
    (r = Valid \<longleftrightarrow> inputs_acceptable verify (cache_view view c) (int (iHeight pindexPrev) + 1) True fl tx)"
proof -
  have c: "cinv c" "cached (vin tx) c" using assms(1) by (simp_all add: ready_def)
  obtain r c' where r: "CheckInputs ops verify idx True fl tx c = Inr (r, c')"
    "r = Valid \<longleftrightarrow> inputs_acceptable verify (cache_view view c) (int (iHeight pindexPrev) + 1) True fl tx"
    using CheckInputs [where idx = idx and c = c and tx = tx and verify = verify and fScriptChecks = True and fl = fl,
        OF c(1) assms(3-6)] by blast
  have "agree (CheckInputs ops verify idx True fl tx c) (CheckInputs ops' verify idx True fl tx c) c"
    by (rule CheckInputs_cached [OF c(2) assms(2)])
  then have "CheckInputs ops' verify idx True fl tx c = Inr (r, c)"
    using r(1) unfolding agree_def settled_def by (metis (no_types))
  then show ?thesis using r(2) by blast
qed

lemma accept_post_iff:
  assumes R: "ready c (vin tx)" and hb: "hashBlock c \<noteq> 0" "idx (cache_tip tip c) = Some pindexPrev"
    and tx: "IsCoinBase tx = Inr False" "IsZerocoinSpend_tx tx = Inr False"
    and outs: "\<forall>txo\<in>set (vout tx). 0 \<le> nValue txo" "sum_list (map nValue (vout tx)) \<le> nMaxMoneyOut"
  shows "(\<exists>st'. accept_post env idx ch fl fr ig False tx v c st = Inr (True, st')) \<longleftrightarrow>
    (fRequireStandard env \<longrightarrow> standard_spends (cache_view view c) (vin tx) = Inr True) \<and>
    GetLegacySigOpCount tx + p2sh_count (cache_view view c) (vin tx) \<le> MAX_TX_SIGOPS_CURRENT \<and>
    pool_fee_ok env ch fl fr ig (cache_view view c) tx (wrap64 (v - sum_list (map nValue (vout tx)))) (apool st) (afree st) \<and>
    inputs_acceptable (Verify env) (cache_view view c) (int (iHeight pindexPrev) + 1) True STANDARD_SCRIPT_VERIFY_FLAGS tx \<and>
    inputs_acceptable (Verify env) (cache_view view c) (int (iHeight pindexPrev) + 1) True MANDATORY_SCRIPT_VERIFY_FLAGS tx"
proof -
  let ?V = "cache_view view c" and ?f = "wrap64 (v - sum_list (map nValue (vout tx)))"
  let ?size = "length (put_CTransaction tx)"
  have has: "has_inputs tx = Inr True" using tx by (simp add: has_inputs_def)
  have std: "AreInputsStandard CCoinsView_ops tx c = bindE (standard_spends ?V (vin tx)) (\<lambda>b. Inr (b, c))"
    using tx inputs_standard_view [OF R] by (simp add: AreInputsStandard_def)
  have sig: "check_pool_sigops CCoinsView_ops False tx c = Inr (if GetLegacySigOpCount tx + p2sh_count ?V (vin tx) > MAX_TX_SIGOPS_CURRENT
      then refusal 0 REJECT_NONSTANDARD ''bad-txns-too-many-sigops'' else None, c)"
    using p2sh_sigops_view [OF R, of CCoinsView_ops 0] has by (simp add: check_pool_sigops_def GetP2SHSigOpCount_def)
  have coins: "input_coins c (vin tx) = map (\<lambda>i. ?V (outhash (prevout i))) (vin tx)"
    using R cached_coins(1) by (auto simp: input_coins_def ready_def cached_def)
  obtain r1 where r1: "CheckInputs CCoinsView_ops (Verify env) idx True STANDARD_SCRIPT_VERIFY_FLAGS tx c = Inr (r1, c)"
    "r1 = Valid \<longleftrightarrow> inputs_acceptable (Verify env) ?V (int (iHeight pindexPrev) + 1) True STANDARD_SCRIPT_VERIFY_FLAGS tx"
    using CheckInputs_view [where idx = idx and c = c and tx = tx, OF R hb(1) has hb(2) outs] by blast
  obtain r2 where r2: "CheckInputs CCoinsView_ops (Verify env) idx True MANDATORY_SCRIPT_VERIFY_FLAGS tx c = Inr (r2, c)"
    "r2 = Valid \<longleftrightarrow> inputs_acceptable (Verify env) ?V (int (iHeight pindexPrev) + 1) True MANDATORY_SCRIPT_VERIFY_FLAGS tx"
    using CheckInputs_view [where idx = idx and c = c and tx = tx, OF R hb(1) has hb(2) outs] by blast
  obtain s where s: "check_pool_scripts env CCoinsView_ops idx tx c = Inr (s, c)" "s = None \<longleftrightarrow> r1 = Valid \<and> r2 = Valid"
    by (cases r1; cases r2) (simp_all add: check_pool_scripts_def r1(1) r2(1) refusal_def)
  let ?e = "new_pool_entry tx ?f (nodeTime (node env)) 0 (Height ch)"
  have e: "eTxSize ?e = ?size" "etx ?e = tx" by (simp_all add: new_pool_entry_def Let_def)
  have add: "\<exists>p'. addUnchecked p (GetHash tx) ?e = Inr p'" for p using tx(2) by (simp add: addUnchecked_def e)
  obtain r q free where f: "check_pool_fee env ch fl ig False (map (\<lambda>i. ?V (outhash (prevout i))) (vin tx)) tx ?f ?size (apool st) (afree st) = (r, q, free)"
    by (rule prod_cases3)
  have post: "(\<exists>st'. accept_post env idx ch fl fr ig False tx v c st = Inr (True, st')) \<longleftrightarrow>
      r = None \<and> \<not> (fr \<and> ?f > wrap64 (GetFee (minRelayTxFee env) ?size * 10000)) \<and> s = None"
    if "fRequireStandard env \<longrightarrow> standard_spends ?V (vin tx) = Inr True" "GetLegacySigOpCount tx + p2sh_count ?V (vin tx) \<le> MAX_TX_SIGOPS_CURRENT"
  proof -
    have "(if fRequireStandard env then AreInputsStandard CCoinsView_ops tx c else Inr (True, c)) = Inr (True, c)"
      using that(1) by (simp add: std)
    then show ?thesis
      using that(2) add [of q] GetValueOut_sum [OF outs]
      by (cases r; cases s) (auto simp: accept_post_def Let_def sig e coins f s(1) refuse_def)
  qed
  have no: "\<not> (\<exists>st'. accept_post env idx ch fl fr ig False tx v c st = Inr (True, st'))"
    if "\<not> ((fRequireStandard env \<longrightarrow> standard_spends ?V (vin tx) = Inr True) \<and>
      GetLegacySigOpCount tx + p2sh_count ?V (vin tx) \<le> MAX_TX_SIGOPS_CURRENT)"
  proof (cases "fRequireStandard env \<longrightarrow> standard_spends ?V (vin tx) = Inr True")
    case True
    then have "(if fRequireStandard env then AreInputsStandard CCoinsView_ops tx c else Inr (True, c)) = Inr (True, c)"
      by (simp add: std)
    then show ?thesis using that True by (auto simp: accept_post_def sig refuse_def refusal_def)
  next
    case False
    then show ?thesis by (cases "standard_spends ?V (vin tx)") (auto simp: accept_post_def std refuse_def)
  qed
  show ?thesis
    using post no r1(2) r2(2) s(2) by (auto simp: pool_fee_ok_def Let_def f)
qed

end

context coins_reader
begin

lemma inputs_exist_view:
  "cinv c \<Longrightarrow> \<exists>c'. inputs_exist ops is c = Inr (list_all (\<lambda>i. cache_view view c (outhash (prevout i)) \<noteq> None) is, c') \<and> csame c c'"
proof (induction "is" arbitrary: c)
  case (Cons i "is")
  let ?ex = "\<lambda>i. cache_view view c (outhash (prevout i)) \<noteq> None"
  obtain c1 where c1: "HaveCoins ops c (outhash (prevout i)) = Inr (?ex i, c1)" "csame c c1"
    using HaveCoins [OF Cons.prems] by blast
  have v1: "cinv c1" "cache_view view c1 = cache_view view c" using csame_view [OF c1(2)] by simp_all
  obtain c2 where "inputs_exist ops is c1 = Inr (list_all ?ex is, c2)" "csame c1 c2"
    using Cons.IH [OF v1(1)] unfolding v1(2) by blast
  then show ?case using c1 csame_trans [OF c1(2)] by (cases "?ex i") auto
qed (auto simp: csame_refl)

lemma value_in_loop_ready: "ready c is \<Longrightarrow> \<exists>v. value_in_loop ops' is n c = Inr (v, c)"
  by (induction "is" arbitrary: n) (auto dest!: ready_Cons [of c _ _ ops'])

lemma pool_inputs_view:
  assumes "cinv c" "cache_tip tip c \<noteq> 0" "IsCoinBase tx = Inr False" "IsZerocoinSpend_tx tx = Inr False"
  shows "\<exists>r m v c'. pool_inputs env ops tx c = Inr ((r, m, v), c') \<and>
    (r = None \<longleftrightarrow> cache_view view c (GetHash tx) = None \<and> (IsZerocoinMint_tx tx \<longrightarrow> mint_refusal env tx (vout tx) = None) \<and>
       (\<forall>i\<in>set (vin tx). have_coins_for (cache_view view c) (prevout i)))"
proof -
  let ?V = "cache_view view c"
  let ?mint = "if IsZerocoinMint_tx tx then mint_refusal env tx (vout tx) else None"
  let ?have = "\<forall>i\<in>set (vin tx). have_coins_for ?V (prevout i)"
  obtain c1 where c1: "HaveCoins ops c (GetHash tx) = Inr (?V (GetHash tx) \<noteq> None, c1)" "csame c c1"
    using HaveCoins [OF assms(1)] by blast
  have v1: "cinv c1" "cache_view view c1 = ?V" using csame_view [OF c1(2)] by simp_all
  obtain c2 where c2: "inputs_exist ops (vin tx) c1 = Inr (list_all (\<lambda>i. ?V (outhash (prevout i)) \<noteq> None) (vin tx), c2)" "csame c1 c2"
    using inputs_exist_view [OF v1(1)] unfolding v1(2) by blast
  have v2: "cinv c2" "cache_view view c2 = ?V" using csame_view [OF c2(2)] v1 by simp_all
  obtain c3 where c3: "have_inputs_loop ops (vin tx) c2 = Inr (list_all (have_coins_for ?V) (map prevout (vin tx)), c3)" "csame c2 c3"
    using have_inputs_loop [OF v2(1)] unfolding v2(2) by blast
  have v3: "cinv c3" "cache_view view c3 = ?V" using csame_view [OF c3(2)] v2 by simp_all
  have H: "HaveInputs ops c2 tx = Inr (?have, c3)" using assms(3,4) c3(1) by (simp add: HaveInputs_def list_all_iff)
  have ex: "?have \<Longrightarrow> list_all (\<lambda>i. ?V (outhash (prevout i)) \<noteq> None) (vin tx)"
    by (auto simp: list_all_iff have_coins_for_def split: option.splits)
  show ?thesis
  proof (cases "?V (GetHash tx) = None \<and> ?mint = None \<and> ?have")
    case False
    then have "\<exists>r m v c'. pool_inputs env ops tx c = Inr ((Some r, m, v), c')"
      using c1(1) c2(1) H by (auto simp: pool_inputs_def refusal_def list_all_iff split: option.splits if_splits)
    then show ?thesis using False by (auto split: if_splits)
  next
    case True
    obtain c4 where c4: "GetBestBlock ops c3 = Inr (cache_tip tip c3, c4)" "csame c3 c4" using GetBestBlock [OF v3(1)] by blast
    have v4: "cinv c4" "cache_view view c4 = ?V" using csame_view [OF c4(2)] v3 by simp_all
    have "cached (vin tx) c3" using have_inputs_caches [of ops "vin tx" c2 c3] c3(1) True by (simp add: list_all_iff)
    moreover have "cacheCoins c4 = cacheCoins c3"
      using c4(1) by (auto simp: GetBestBlock_def cache_tip_def fault_simps split: if_splits)
    ultimately have "ready c4 (vin tx)" using v4 True by (simp add: ready_def cached_def)
    then obtain v where "value_in_loop ops (vin tx) 0 c4 = Inr (v, c4)" using value_in_loop_ready by blast
    then have "GetValueIn ops c4 tx = Inr (v, c4)" using assms(3,4) by (simp add: GetValueIn_def)
    then have "pool_inputs env ops tx c = Inr ((None, False, v), c4)"
      using c1(1) c2(1) H ex True c4(1) by (simp add: pool_inputs_def)
    then show ?thesis using True by auto
  qed
qed

text \<open>The whole check of an ordinary transaction on a fresh cache over a reader.\<close>

lemma accept_iff:
  assumes c: "cinv c" "cache_tip tip c \<noteq> 0" "idx (cache_tip tip c) = Some pindexPrev" and zs: "IsZerocoinSpend_tx tx = Inr False"
    and pre: "accept_pre env ch p tx = Inr None"
  shows "\<exists>r m v c'. pool_inputs env ops tx c = Inr ((r, m, v), c') \<and>
    (\<forall>st. r = None \<and> (\<exists>st'. accept_post env idx ch fl fr ig False tx v c' st = Inr (True, st')) \<longleftrightarrow>
       pool_acceptable env ch fl fr ig (cache_view view c) (int (iHeight pindexPrev) + 1) tx (apool st) (afree st))"
proof -
  let ?V = "cache_view view c"
  note P = accept_pre_None [OF pre zs]
  obtain mint_ok spend_ok nLastPOW where ct: "CheckTransaction mint_ok spend_ok nLastPOW (Height ch) tx True = Inr Valid"
    using P(1) by blast
  note T = CheckTransaction_Valid [OF ct]
  obtain r m v c' where r: "pool_inputs env ops tx c = Inr ((r, m, v), c')"
    "r = None \<longleftrightarrow> ?V (GetHash tx) = None \<and> (IsZerocoinMint_tx tx \<longrightarrow> mint_refusal env tx (vout tx) = None) \<and>
       (\<forall>i\<in>set (vin tx). have_coins_for ?V (prevout i))"
    using pool_inputs_view [OF c(1,2) P(2) zs, of env] by (elim exE conjE) (rule that)
  show ?thesis
  proof (cases r)
    case (Some rs)
    then have "\<not> pool_acceptable env ch fl fr ig ?V (int (iHeight pindexPrev) + 1) tx q free" for q free
      using r(2) unfolding pool_acceptable_def inputs_acceptable_def by blast
    then show ?thesis using r(1) Some by (intro exI [of _ r] exI [of _ m] exI [of _ v] exI [of _ c']) simp
  next
    case None
    note I = pool_inputs_ok [OF c(1,2) P(2) zs r(1) [unfolded None]]
    have same: "csame c c'" using I by blast
    have v': "cinv c'" "cache_view view c' = ?V" "cache_tip tip c' = cache_tip tip c" using csame_view [OF same] by simp_all
    have R: "ready c' (vin tx)" using I v' r(2) None by (auto simp: ready_def)
    have idx': "idx (cache_tip tip c') = Some pindexPrev" using c(3) v'(3) by simp
    let ?in = "value_in ?V (vin tx)" and ?out = "sum_list (map nValue (vout tx))"
    have v: "wrap64 (v - ?out) = ?in - ?out"
      if acc: "inputs_acceptable (Verify env) ?V (int (iHeight pindexPrev) + 1) True STANDARD_SCRIPT_VERIFY_FLAGS tx"
    proof -
      have range: "?in \<le> nMaxMoneyOut" "?out \<le> ?in" "0 \<le> ?out"
        using acc P(3) nonneg_sum_list [OF T(2)] by (auto simp: inputs_acceptable_def)
      have "\<forall>i\<in>set (vin tx). have_coins_for (cache_view view c') (prevout i) \<and>
          0 \<le> nValue (spent_output (cache_view view c') (prevout i))"
        using acc v'(2) by (auto simp: inputs_acceptable_def)
      from value_in_loop_sum [OF v'(1) this, of 0] have "v = ?in" using I range(1) v'(2) by auto
      then show ?thesis using range by (simp add: wrap64_id nMaxMoneyOut_def INT64_MIN_def INT64_MAX_def)
    qed
    have hb: "hashBlock c' \<noteq> 0" using I by blast
    have "(\<exists>st'. accept_post env idx ch fl fr ig False tx v c' st = Inr (True, st')) \<longleftrightarrow>
        pool_acceptable env ch fl fr ig ?V (int (iHeight pindexPrev) + 1) tx (apool st) (afree st)" for st
      unfolding accept_post_iff [where idx = idx and c = c' and tx = tx, OF R hb idx' P(2) zs T(2,3)] v'(2) pool_acceptable_def
      using v r(2) None by auto
    then show ?thesis using r(1) None by (intro exI [of _ r] exI [of _ m] exI [of _ v] exI [of _ c']) simp
  qed
qed

end

lemma AcceptToMemoryPool_iff:
  fixes fully_valid decompress
  defines "ops \<equiv> cache_ops (DB_ops fully_valid decompress)"
  assumes tip: "tip_inv fully_valid decompress (acoins st)" "cache_tip db_tip (acoins st) \<noteq> 0"
    "idx (cache_tip db_tip (acoins st)) = Some pindexPrev"
    and p: "pool_txs_ok (apool st)" and V: "V = pool_view (apool st) (tip_view decompress (acoins st))"
    and zs: "IsZerocoinSpend_tx tx = Inr False"
  shows "(\<exists>st'. AcceptToMemoryPool env ops idx ch fl fr ig tx st = Inr (True, st')) \<longleftrightarrow>
    accept_pre env ch (apool st) tx = Inr None \<and>
    pool_acceptable env ch fl fr ig V (int (iHeight pindexPrev) + 1) tx (apool st) (afree st)"
proof (cases "accept_pre env ch (apool st) tx = Inr None")
  case False
  then show ?thesis using Accept_runs [OF _ zs] by blast
next
  case True
  let ?c = "new_cache (acoins st)" and ?ops = "mempool_ops (apool st) ops"
  have inv: "cache_inv (\<lambda>s. pool_txs_ok (apool st) \<and> tip_inv fully_valid decompress s)
      (\<lambda>s. pool_view (apool st) (tip_view decompress s)) (\<lambda>_ _. True) ?c"
    using tip(1) p by (intro fresh_cache_inv) simp
  note A = pool.accept_iff [where idx = idx and tx = tx and env = env and ch = ch and fl = fl and fr = fr and ig = ig, OF inv, unfolded fresh_cache_view fresh_cache_tip, OF tip(2,3) zs True, folded V ops_def]
  obtain r m v c' where r: "pool_inputs env ?ops tx ?c = Inr ((r, m, v), c')"
    "\<And>st. r = None \<and> (\<exists>st'. accept_post env idx ch fl fr ig False tx v c' st = Inr (True, st')) \<longleftrightarrow>
       pool_acceptable env ch fl fr ig V (int (iHeight pindexPrev) + 1) tx (apool st) (afree st)"
    using A by blast
  let ?st = "st\<lparr>acoins := base c', fMissingInputs := m\<rparr>"
  have "AcceptToMemoryPool env ops idx ch fl fr ig tx st =
      (case r of Some rs \<Rightarrow> Inr (refuse rs ?st) | None \<Rightarrow> accept_post env idx ch fl fr ig False tx v c' ?st)"
    using True zs r(1) by (simp add: AcceptToMemoryPool_def Let_def)
  then have "(\<exists>st'. AcceptToMemoryPool env ops idx ch fl fr ig tx st = Inr (True, st')) \<longleftrightarrow>
      r = None \<and> (\<exists>st'. accept_post env idx ch fl fr ig False tx v c' ?st = Inr (True, st'))"
    by (cases r) (simp_all add: refuse_def)
  then show ?thesis using True r(2) [of ?st] by simp
qed

end
