(* ===== verification/Samples.thy ===== *)
theory Samples
  imports Accept
begin

text \<open>
  Concrete inputs at which the properties of the development are applied: an environment of the
  script machine, a transaction, coins, a stack of coin caches over a database.  Nothing here
  models code.
\<close>

definition sample_env :: script_env where
  "sample_env = \<lparr>env_flags = SCRIPT_VERIFY_P2SH, env_CheckSig = \<lambda>sig key code. sig = key,
     env_RIPEMD160 = \<lambda>b. replicate 20 7, env_SHA1 = \<lambda>b. replicate 20 7,
     env_SHA256 = \<lambda>b. replicate 32 7\<rparr>"

definition sample_tx :: CTransaction where
  "sample_tx = \<lparr>nVersion = 1,
     vin = [\<lparr>prevout = \<lparr>outhash = 5, outn = 1\<rparr>, scriptSig = [0x51], nSequence = -1\<rparr>],
     vout = [\<lparr>nValue = 700, scriptPubKey = [0x51]\<rparr>, \<lparr>nValue = 200, scriptPubKey = [0x52]\<rparr>],
     nLockTime = 0\<rparr>"

definition sample_coins :: CCoins where
  "sample_coins = \<lparr>fCoinBase = False, fCoinStake = False,
     cvout = [CTxOut_null, \<lparr>nValue = 1000, scriptPubKey = [0x51]\<rparr>], cHeight = 7, cVersion = 1\<rparr>"

definition sample_db :: coins_db where
  "sample_db = \<lparr>dbCoins = Map.empty, dbBest = Some 9\<rparr>"

definition sample_tip :: "coins_db cache" where
  "sample_tip = \<lparr>base = sample_db,
     cacheCoins = [5 \<mapsto> \<lparr>ecoins = sample_coins, eDirty = True, eFresh = True\<rparr>], hashBlock = 11, hasModifier = False\<rparr>"

abbreviation no_key :: "bytes \<Rightarrow> bool" where "no_key \<equiv> \<lambda>_. False"
abbreviation no_point :: "bytes \<Rightarrow> bytes option" where "no_point \<equiv> \<lambda>_. None"

lemma sample_hashes: "hash_sizes sample_env" by (simp add: hash_sizes_def sample_env_def)

lemma sample_coins_ok: "coins_ok sample_coins"
  by (simp add: coins_ok_def sample_coins_def is_clean_def out_ok_def CTxOut_IsNull_def CTxOut_null_def)

lemma sample_tip_inv: "tip_inv no_key no_point sample_tip"
  using sample_coins_ok
  by (simp add: cache_inv_def sample_tip_def sample_db_def entries_ok_def entry_ok_def db_inv_def all_stored_def
    recovers_def db_view_def decoded_def)

lemma sample_block_inv: "block_inv no_key no_point (new_cache sample_tip)"
  using sample_tip_inv by (simp add: cache_inv_def new_cache_def entries_ok_def)

lemma sample_tx_facts: "has_inputs sample_tx = Inr True" "tx_coins_ok sample_tx 8" "tx_ok sample_tx"
  by (simp_all add: has_inputs_def tx_coins_ok_def tx_ok_def sample_tx_def IsCoinBase_def IsZerocoinSpend_tx_def
    COutPoint_IsNull_def fault_simps
    vector_ok_def sint_ok_def txin_ok_def txout_ok_def)

lemma sample_p2sh: "IsPushOnly (push_data [0x51])" "EvalScript sample_env [] (push_data [0x51]) = Inr [[0x51]]"
  "EvalScript sample_env [] [0x51] = Inr [[1]]" "check_top [[1]] = Inr ()"
  by code_simp+

lemma sample_encodings:
  "CheckSignatureEncoding sig (env_flags sample_env) = Inr ()"
  "CheckPubKeyEncoding pk (env_flags sample_env) = Inr ()"
  by (simp_all add: sample_env_def CheckSignatureEncoding_def CheckPubKeyEncoding_def has_flag_def)

lemma sample_spend: "spend_coins (block_view no_point (new_cache sample_tip)) (map prevout (vin sample_tx)) \<noteq> None"
  by (simp add: cache_view_def over_def new_cache_def sample_tip_def sample_tx_def live_def
    sample_coins_def IsPruned_def Spend_def CTxOut_IsNull_def CTxOut_null_def Let_def split: option.splits)

lemma sample_have_inputs:
  "\<exists>c'. HaveInputs (cache_ops (DB_ops no_key no_point)) (new_cache sample_tip) sample_tx = Inr (True, c')"
proof -
  let ?v = "block_view no_point (new_cache sample_tip)"
  have "list_all (have_coins_for ?v) (map prevout (vin sample_tx))"
    by (simp add: have_coins_for_def cache_view_def over_def new_cache_def sample_tip_def sample_tx_def live_def
      sample_coins_def IsPruned_def IsAvailable_def IsZerocoinMint_def CTxOut_IsNull_def CTxOut_null_def)
  then obtain c' where "have_inputs_loop (cache_ops (DB_ops no_key no_point)) (vin sample_tx) (new_cache sample_tip) =
      Inr (True, c')"
    using tip.have_inputs_loop [OF sample_block_inv, of "vin sample_tx"] by auto
  moreover have "IsCoinBase sample_tx = Inr False" "IsZerocoinSpend_tx sample_tx = Inr False"
    by (simp_all add: IsCoinBase_def IsZerocoinSpend_tx_def sample_tx_def COutPoint_IsNull_def)
  ultimately show ?thesis by (simp add: HaveInputs_def)
qed

text \<open>A coinbase transaction over an empty database, and a coinstake whose flag was lost.\<close>

definition sample_coinbase :: CTransaction where
  "sample_coinbase = \<lparr>nVersion = 1,
     vin = [\<lparr>prevout = COutPoint_null, scriptSig = [0x51], nSequence = -1\<rparr>],
     vout = [\<lparr>nValue = 700, scriptPubKey = [0x51]\<rparr>], nLockTime = 0\<rparr>"

definition sample_stake :: CTransaction where
  "sample_stake = sample_tx\<lparr>vout := [\<lparr>nValue = 0, scriptPubKey = []\<rparr>, \<lparr>nValue = 900, scriptPubKey = [0x51]\<rparr>]\<rparr>"

definition lost_stake_cache :: "coins_db cache cache" where
  "lost_stake_cache = new_cache \<lparr>base = sample_db,
     cacheCoins = [GetHash sample_stake \<mapsto>
       \<lparr>ecoins = (tx_coins sample_stake 8)\<lparr>fCoinStake := False\<rparr>, eDirty = True, eFresh = True\<rparr>],
     hashBlock = 11, hasModifier = False\<rparr>"

lemma sample_empty_inv: "block_inv no_key no_point (new_cache (new_cache sample_db))"
  by (simp add: cache_inv_def new_cache_def sample_db_def entries_ok_def db_inv_def all_stored_def recovers_def)

lemma sample_empty_view: "block_view no_point (new_cache (new_cache sample_db)) = Map.empty"
  by (simp add: fun_eq_iff cache_view_def over_def new_cache_def sample_db_def db_view_def decoded_def)

lemma sample_coinbase_facts: "has_inputs sample_coinbase = Inr False" "tx_coins_ok sample_coinbase 8"
  by (simp_all add: has_inputs_def tx_coins_ok_def sample_coinbase_def IsCoinBase_def ContainsZerocoins_def
    IsZerocoinSpend_tx_def IsZerocoinMint_tx_def COutPoint_IsNull_def COutPoint_null_def fault_simps
    IsZerocoinMint_def IsZerocoinSpend_def)

lemma lost_stake_facts:
  "block_inv no_key no_point lost_stake_cache" "has_inputs sample_stake = Inr True" "tx_coins_ok sample_stake 8"
  "fCoinStake (tx_coins sample_stake 8)" "\<not> IsPruned (tx_coins sample_stake 8)"
  "block_view no_point lost_stake_cache (GetHash sample_stake) = Some ((tx_coins sample_stake 8)\<lparr>fCoinStake := False\<rparr>)"
proof -
  show h: "has_inputs sample_stake = Inr True" and ok: "tx_coins_ok sample_stake 8"
    by (simp_all add: has_inputs_def tx_coins_ok_def sample_stake_def sample_tx_def IsCoinBase_def IsZerocoinSpend_tx_def
      COutPoint_IsNull_def fault_simps)
  have c: "IsCoinBase sample_stake = Inr False"
    by (simp add: sample_stake_def sample_tx_def IsCoinBase_def COutPoint_IsNull_def)
  have t: "tx_coins sample_stake 8 = \<lparr>fCoinBase = False, fCoinStake = True,
      cvout = [\<lparr>nValue = 0, scriptPubKey = []\<rparr>, \<lparr>nValue = 900, scriptPubKey = [0x51]\<rparr>], cHeight = 8, cVersion = 1\<rparr>"
    by (simp add: tx_coins_def FromTx_def c ClearUnspendable_def Cleanup_def)
      (simp add: sample_stake_def sample_tx_def IsCoinStake_def COutPoint_IsNull_def CTxOut_IsEmpty_def
        IsUnspendable_def CTxOut_IsNull_def)
  show "fCoinStake (tx_coins sample_stake 8)" and p: "\<not> IsPruned (tx_coins sample_stake 8)"
    by (simp_all add: t IsPruned_def CTxOut_IsNull_def CTxOut_null_def)
  have "coins_ok ((tx_coins sample_stake 8)\<lparr>fCoinStake := False\<rparr>)"
    by (simp add: t coins_ok_def is_clean_def out_ok_def CTxOut_IsNull_def CTxOut_null_def)
  then show "block_inv no_key no_point lost_stake_cache"
    by (simp add: lost_stake_cache_def cache_inv_def new_cache_def sample_db_def entries_ok_def entry_ok_def db_inv_def
      all_stored_def recovers_def db_view_def decoded_def)
  show "block_view no_point lost_stake_cache (GetHash sample_stake) = Some ((tx_coins sample_stake 8)\<lparr>fCoinStake := False\<rparr>)"
    using p by (simp add: lost_stake_cache_def cache_view_def over_def new_cache_def live_def IsPruned_def)
qed

section \<open>Block index entries\<close>

text \<open>A chain of entries at intervals of 3000 seconds, each of which generated a stake modifier.\<close>

definition sample_genesis :: CBlockIndex where
  "sample_genesis = CBlockIndex 100 1 0 1000 0x1e0fffff 0 0 0 4 0 0 COutPoint_null 0 0 1 1 None None"

definition sample_ext :: "32 word \<Rightarrow> CBlockIndex \<Rightarrow> CBlockIndex" where
  "sample_ext flags q = CBlockIndex (blockHash q + 1) 1 0 (iTime q + 3000) 0x1e0fffff 0 0 (iHeight q + 1) flags
     9 0 COutPoint_null 0 0 1 1 (Some q)
     (case BuildSkip (Some q) (iHeight q + 1) of Inl _ \<Rightarrow> None | Inr s \<Rightarrow> s)"

fun sample_chain :: "nat \<Rightarrow> CBlockIndex" where
  "sample_chain 0 = sample_genesis"
| "sample_chain (Suc n) = sample_ext 4 (sample_chain n)"

lemma sample_ext_simps [simp]:
  "blockHash (sample_ext fl q) = blockHash q + 1" "iTime (sample_ext fl q) = iTime q + 3000"
  "iBits (sample_ext fl q) = 0x1e0fffff" "iHeight (sample_ext fl q) = Suc (iHeight q)"
  "iFlags (sample_ext fl q) = fl" "pprev (sample_ext fl q) = Some q" "iStakeModifier (sample_ext fl q) = 9"
  by (simp_all add: sample_ext_def)

lemma sample_genesis_simps [simp]:
  "blockHash sample_genesis = 100" "iTime sample_genesis = 1000" "iBits sample_genesis = 0x1e0fffff"
  "iHeight sample_genesis = 0" "iFlags sample_genesis = 4" "pprev sample_genesis = None"
  by (simp_all add: sample_genesis_def)

lemma sample_genesis_ok: "index_ok sample_genesis"
  by (rule index_ok.genesis) (simp_all add: sample_genesis_def)

lemma sample_ext_ok: "index_ok q \<Longrightarrow> index_ok (sample_ext fl q)"
proof -
  assume q: "index_ok q"
  have "\<exists>s. BuildSkip (Some q) (iHeight q + 1) = Inr s"
    unfolding BuildSkip_def option.case by (rule exI, rule GetAncestor_parent [OF q])
  then obtain s where s: "BuildSkip (Some q) (iHeight q + 1) = Inr s" ..
  have "pskip (sample_ext fl q) = s" unfolding sample_ext_def s by simp
  show ?thesis by (rule index_ok.child [of _ q]) (use q s \<open>pskip (sample_ext fl q) = s\<close> in simp_all)
qed

lemma sample_chain_ok: "index_ok (sample_chain n)"
  by (induction n) (simp_all add: sample_genesis_ok sample_ext_ok)

lemma sample_chain_simps [simp]:
  "iHeight (sample_chain n) = n" "blockHash (sample_chain n) = 100 + of_nat n"
  "iTime (sample_chain n) = 1000 + 3000 * of_nat n" "iBits (sample_chain n) = 0x1e0fffff"
  "iFlags (sample_chain n) = 4"
  by (induction n) (simp_all add: algebra_simps)

lemma sample_generated [simp]: "GeneratedStakeModifier (sample_chain n)"
  by (simp add: GeneratedStakeModifier_def)

lemma sample_path: "path (sample_chain n) = map sample_chain [0..<Suc n]"
proof (induction n)
  case 0
  then show ?case by (simp add: path.simps [of sample_genesis])
next
  case (Suc n)
  then show ?case by (simp add: path.simps [of "sample_ext 4 (sample_chain n)"])
qed

lemma sample_active: "active (map sample_chain [0..<n])"
proof (cases n)
  case (Suc k)
  then show ?thesis using sample_chain_ok [of k] unfolding active_def Suc sample_path [symmetric] by blast
qed (simp add: active_def)

lemma sample_chain_eq [simp]: "sample_chain m = sample_chain n \<longleftrightarrow> m = n"
  using sample_chain_simps(1) by metis

definition sample_index :: "uint256 \<Rightarrow> CBlockIndex option" where
  "sample_index h = (if 100 \<le> h \<and> h < 110 then Some (sample_chain (unat h - 100)) else None)"

lemma sample_index_hash: "n < 10 \<Longrightarrow> sample_index (100 + of_nat n) = Some (sample_chain n)"
proof -
  assume n: "n < 10"
  have u: "unat (100 + of_nat n :: uint256) = 100 + n"
  proof -
    have "unat (of_nat (100 + n) :: uint256) = 100 + n" using n by (simp only: unat_of_nat) simp
    then show ?thesis by simp
  qed
  then show ?thesis using n by (simp add: sample_index_def word_le_nat_alt word_less_nat_alt)
qed

lemma sample_index_ok: "sample_index h = Some p \<Longrightarrow> blockHash p = h \<and> index_ok p"
proof -
  assume a: "sample_index h = Some p"
  then have h: "100 \<le> h" and p: "p = sample_chain (unat h - 100)" by (auto simp: sample_index_def split: if_splits)
  have "100 + of_nat (unat h - 100) = h"
    using h by (simp add: word_unat_eq_iff word_le_nat_alt of_nat_diff)
  then show ?thesis using p sample_chain_ok by simp
qed

section \<open>Transaction checks\<close>

abbreviation no_sig :: "bytes \<Rightarrow> uint256 \<Rightarrow> bytes \<Rightarrow> bool" where "no_sig \<equiv> \<lambda>_ _ _. False"

definition twice_in :: CTxIn where
  "twice_in = \<lparr>prevout = \<lparr>outhash = 5, outn = 1\<rparr>, scriptSig = [0xc2], nSequence = -1\<rparr>"

definition twice_tx :: CTransaction where
  "twice_tx = \<lparr>nVersion = 1, vin = [twice_in, twice_in],
     vout = [\<lparr>nValue = 1700, scriptPubKey = [0x51]\<rparr>], nLockTime = 0\<rparr>"

lemma sample_tip_block: "cache_tip (cache_tip db_tip) (new_cache sample_tip) = 11"
  by (simp add: cache_tip_def new_cache_def sample_tip_def)

lemma sample_view: "block_view no_point (new_cache sample_tip) 5 = Some sample_coins"
  by (simp add: cache_view_def over_def new_cache_def sample_tip_def live_def sample_coins_def IsPruned_def
    CTxOut_IsNull_def CTxOut_null_def)

lemma sample_spent_output:
  "spent_output (block_view no_point (new_cache sample_tip)) \<lparr>outhash = 5, outn = 1\<rparr> =
    \<lparr>nValue = 1000, scriptPubKey = [0x51]\<rparr>"
  by (simp add: spent_output_def sample_view) (simp add: sample_coins_def)

lemma sample_mature: "mature (block_view no_point (new_cache sample_tip)) h \<lparr>outhash = 5, outn = 1\<rparr>"
  by (simp add: mature_def sample_view) (simp add: sample_coins_def)

lemma sample_have: "have_coins_for (block_view no_point (new_cache sample_tip)) \<lparr>outhash = 5, outn = 1\<rparr>"
  by (simp add: have_coins_for_def sample_view)
    (simp add: sample_coins_def IsAvailable_def IsZerocoinMint_def CTxOut_IsNull_def CTxOut_null_def)

lemma sample_run: "EvalScript (tx_env no_sig 0 sample_tx 0) [] [0x51] = Inr [[1]]"
  "EvalScript (tx_env no_sig 0 sample_tx 0) [[1]] [0x51] = Inr [[1], [1]]" "check_top [[1], [1]] = Inr ()"
  by code_simp+

lemma sample_verify: "VerifyScript (tx_env no_sig 0 sample_tx 0) [0x51] [0x51] = Inr ()"
proof -
  have "env_flags (tx_env no_sig 0 sample_tx 0) = 0" by (simp add: tx_env_def)
  then show ?thesis by (simp add: VerifyScript_def sample_run has_flag_def)
qed

lemma sample_acceptable:
  "inputs_acceptable no_sig (block_view no_point (new_cache sample_tip)) h True 0 sample_tx"
proof -
  have "vin sample_tx = [\<lparr>prevout = \<lparr>outhash = 5, outn = 1\<rparr>, scriptSig = [0x51], nSequence = -1\<rparr>]"
    "sum_list (map nValue (vout sample_tx)) = 900" by (simp_all add: sample_tx_def)
  then show ?thesis using sample_verify
    by (simp add: inputs_acceptable_def value_in_def sample_have sample_mature sample_spent_output nMaxMoneyOut_def)
qed

lemma sample_tx_size: "length (put_CTransaction sample_tx) \<le> 150000"
  "length (put_CTransaction (sample_tx\<lparr>vin := vin sample_tx @ vin sample_tx\<rparr>)) \<le> 150000"
  "length (put_CTransaction twice_tx) \<le> 150000"
  by (simp_all add: put_CTransaction_def put_vector_def put_CTxIn_def put_CTxOut_def put_blob_def put_COutPoint_def
    put_word32_def put_uint256_def WriteCompactSize_def write_uint_def write_sint_def uint256_bytes_def
    sample_tx_def twice_tx_def twice_in_def)

lemma sample_CheckTransaction: "CheckTransaction mint_ok spend_ok 100000 5 sample_tx False = Inr Valid"
proof -
  have "IsCoinBase sample_tx = Inr False" by (simp add: sample_tx_def IsCoinBase_def COutPoint_IsNull_def)
  then show ?thesis using sample_tx_size(1)
    unfolding CheckTransaction_iff [OF \<open>IsCoinBase sample_tx = Inr False\<close>] tx_acceptable_def
    by (simp add: sample_tx_def CTxOut_IsEmpty_def nMaxMoneyOut_def)
qed

lemma sample_CheckInputs:
  "\<exists>c1. CheckInputs (cache_ops (DB_ops no_key no_point)) no_sig [11 \<mapsto> sample_chain 7] True 0 sample_tx
     (new_cache sample_tip) = Inr (Valid, c1)"
proof -
  have "\<forall>txo\<in>set (vout sample_tx). 0 \<le> nValue txo" "sum_list (map nValue (vout sample_tx)) \<le> nMaxMoneyOut"
    by (simp_all add: sample_tx_def nMaxMoneyOut_def)
  from tip.CheckInputs [where idx = "[11 \<mapsto> sample_chain 7]", OF sample_block_inv sample_tx_facts(1) _ this,
      of "sample_chain 7" no_sig True 0]
  show ?thesis using sample_acceptable by (auto simp: sample_tip_block)
qed

lemma twice_tx_facts:
  "vin twice_tx = [twice_in, twice_in]" "vout twice_tx = [\<lparr>nValue = 1700, scriptPubKey = [0x51]\<rparr>]"
  "prevout twice_in = \<lparr>outhash = 5, outn = 1\<rparr>" "IsZerocoinSpend (scriptSig twice_in)"
  "\<not> CTxOut_IsEmpty \<lparr>nValue = 1700, scriptPubKey = [0x51]\<rparr>"
  "length (put_CTransaction twice_tx) \<le> 150000" "tx_coins_ok twice_tx 8"
  "have_coins_for (block_view no_point (new_cache sample_tip)) \<lparr>outhash = 5, outn = 1\<rparr>"
  using sample_tx_size(3) sample_have
  by (simp_all add: twice_tx_def twice_in_def IsZerocoinSpend_def CTxOut_IsEmpty_def tx_coins_ok_def)

section \<open>Blocks\<close>

definition no_index :: BlockIndexState where
  "no_index = \<lparr>mapBlockIndex = Map.empty, setStakeSeen = {}, mapProofOfStake = Map.empty, pindexBestHeader = None\<rparr>"

definition sample_block :: CBlock where
  "sample_block = \<lparr>bheader = \<lparr>hVersion = 1, hashPrevBlock = 0, hashMerkleRoot = 0, hTime = 1000, hBits = 0x1e0fffff,
     hNonce = 0, nAccumulatorCheckpoint = 0\<rparr>, vtx = [sample_coinbase], vchBlockSig = []\<rparr>"

definition stake_block :: CBlock where
  "stake_block = sample_block\<lparr>vtx := [sample_coinbase, sample_stake]\<rparr>"

lemma sample_block_facts: "header_ok (bheader sample_block)" "hashPrevBlock (bheader sample_block) = 0"
  "header_hash (\<lambda>_. 7) (bheader sample_block) = 7"
  by (simp_all add: sample_block_def header_ok_def sint_ok_def header_hash_def)

lemma sample_no_index: "index_inv (\<lambda>_. 7) no_index"
  "mapBlockIndex no_index (hashPrevBlock (bheader sample_block)) = None \<longrightarrow> hashPrevBlock (bheader sample_block) = 0"
  by (simp_all add: index_inv_def no_index_def sample_block_facts(2))

lemma stake_block_facts: "IsProofOfStake (vtx stake_block)" "vtx stake_block ! Suc 0 = sample_stake"
  "IsZerocoinSpend_tx sample_stake = Inr False"
  by (simp_all add: stake_block_def IsProofOfStake_def sample_stake_def sample_tx_def IsCoinStake_def
    IsZerocoinSpend_tx_def COutPoint_IsNull_def CTxOut_IsEmpty_def)

definition sample_fork_index :: "uint256 \<Rightarrow> CBlockIndex option" where
  "sample_fork_index = [100 \<mapsto> sample_genesis, 101 \<mapsto> sample_ext 0 sample_genesis]"

lemma sample_recent: "q \<in> set (recent 24 (sample_chain 30)) \<Longrightarrow> iTime q \<noteq> 0 \<and> iBits q = 0x1e0fffff"
proof -
  assume "q \<in> set (recent 24 (sample_chain 30))"
  then have "q \<in> set (path (sample_chain 30))" by (auto dest: in_set_takeD)
  then obtain n where n: "n < 31" "q = sample_chain n" unfolding sample_path by auto
  have "unat (1000 + 3000 * of_nat n :: 32 word) = 1000 + 3000 * n"
  proof -
    have "unat (of_nat (1000 + 3000 * n) :: 32 word) = 1000 + 3000 * n" using n(1) by (simp only: unat_of_nat) simp
    then show ?thesis by simp
  qed
  then show ?thesis using n(2) by (auto simp: word_unat_eq_iff)
qed

lemma sample_fork:
  "\<exists>f. last_common (path (sample_chain 5)) (map sample_chain [0..<3]) = Some f \<and> iHeight f = 2"
  unfolding sample_path by (simp add: upt_rec numeral_nat)

section \<open>Headers and blocks\<close>

definition node_h0 :: CBlockIndex where
  "node_h0 = CBlockIndex 5 1 0 1000 0 0x05000000 0 0 4 0 0 COutPoint_null 0 0 0 0 None None"

definition node_h1 :: CBlockIndex where
  "node_h1 = CBlockIndex 6 1 0 4000 0 0x06000000 0 1 4 9 0 COutPoint_null 0 0 0 0 (Some node_h0) (Some node_h0)"

definition sample_node :: node_env where
  "sample_node = \<lparr>net = mainParams, hashGenesis = 5, cps = [(0, 5), (1, 6)], fCheckpoints = True,
     nZerocoinStartTime = 1000000, nZerocoinHeaderVersion = 4, nMaxReorgDepth = 100,
     Quark = \<lambda>bs. ucast (last bs), adjustedTime = 10000, nodeTime = 10000, fSwiftTX = True, mapLockedInputs = Map.empty,
     fInitialDownload = True, PayeeValid = \<lambda>_ _. True, MintOk = \<lambda>_. True, SpendOk = \<lambda>_. True, Serial = \<lambda>_. 0\<rparr>"

definition sample_headers :: HeaderState where
  "sample_headers = \<lparr>index = \<lparr>mapBlockIndex = [5 \<mapsto> node_h0, 6 \<mapsto> node_h1], setStakeSeen = {},
     mapProofOfStake = Map.empty, pindexBestHeader = Some node_h0\<rparr>, blockStatus = (\<lambda>_. BLOCK_VALID_TREE)\<rparr>"

lemma node_simps [simp]:
  "blockHash node_h0 = 5" "iHeight node_h0 = 0" "pprev node_h0 = None" "pskip node_h0 = None" "iTime node_h0 = 1000"
  "blockHash node_h1 = 6" "iHeight node_h1 = 1" "pprev node_h1 = Some node_h0" "pskip node_h1 = Some node_h0" "iTime node_h1 = 4000"
  "iFlags node_h0 = 4" "iFlags node_h1 = 4" "iBits node_h0 = 0" "iBits node_h1 = 0" "iChainWork node_h0 = 0" "iChainWork node_h1 = 0"
  by (simp_all add: node_h0_def node_h1_def)

lemma node_path: "path node_h0 = [node_h0]" "path node_h1 = [node_h0, node_h1]"
  by (simp_all add: path.simps [of node_h0] path.simps [of node_h1])

lemma node_ok: "index_ok node_h0" "index_ok node_h1"
proof -
  show ok: "index_ok node_h0" by (rule index_ok.genesis) simp_all
  show "index_ok node_h1"
    by (rule index_ok.child [OF _ ok]) (simp_all add: BuildSkip_def GetSkipHeight_def GetAncestor_parent [OF ok])
qed

lemma four: "(4 :: nat) = Suc (Suc (Suc (Suc 0)))"
  by simp

lemma node_hash: "header_hash (Quark sample_node) (GetBlockHeader node_h0) = 5"
  "header_hash (Quark sample_node) (GetBlockHeader node_h1) = 6"
proof -
  have "put_word32 0x05000000 = [0, 0, 0, 5]" "put_word32 0x06000000 = [0, 0, 0, 6]"
    unfolding put_word32_def write_uint_def four by simp_all
  then show "header_hash (Quark sample_node) (GetBlockHeader node_h0) = 5"
    "header_hash (Quark sample_node) (GetBlockHeader node_h1) = 6"
    by (simp_all add: sample_node_def header_hash_def Let_def GetBlockHeader_def node_h0_def node_h1_def)
qed

lemma sample_headers_inv: "header_inv sample_node sample_headers"
proof -
  have "GetBlockProof 0 = Inr 0"
  proof -
    have "compact_nat 0 = 0" by (simp add: compact_value_def compact_exp_def compact_man_def)
    then show ?thesis using GetBlockProof_value [of 0] by (auto simp: word_unat_eq_iff)
  qed
  then have "index_inv (Quark sample_node) (HeaderState.index sample_headers)"
    using node_hash node_ok
    by (simp add: index_inv_def sample_headers_def node_path GeneratedStakeModifier_def)
  moreover have "GetMedianTimePast node_h0 = 1000" by code_simp
  ultimately show ?thesis
    by (simp add: header_inv_def sample_headers_def entry_fine_def sample_node_def Checkpoints_CheckBlock_def)
qed

lemma sample_headers_entry: "mapBlockIndex (HeaderState.index sample_headers) 6 = Some node_h1"
  by (simp add: sample_headers_def)

definition next_block :: CBlock where
  "next_block = \<lparr>bheader = \<lparr>hVersion = 1, hashPrevBlock = 6, hashMerkleRoot = GetHash sample_coinbase, hTime = 8000,
     hBits = 0, hNonce = 0x07000000, nAccumulatorCheckpoint = 0\<rparr>, vtx = [sample_coinbase], vchBlockSig = []\<rparr>"

lemma next_block_hash: "block_hash sample_node next_block = 7"
proof -
  have "put_word32 0x07000000 = [0, 0, 0, 7]" unfolding put_word32_def write_uint_def four by simp
  then show ?thesis by (simp add: block_hash_def sample_node_def header_hash_def Let_def next_block_def)
qed

lemma next_block_header: "header_ok (bheader next_block)"
  by (simp add: next_block_def header_ok_def sint_ok_def)
lemma sample_coinbase_size: "length (put_CTransaction sample_coinbase) \<le> 150000"
  by (simp add: put_CTransaction_def put_vector_def put_CTxIn_def put_CTxOut_def put_blob_def put_COutPoint_def
    put_word32_def put_uint256_def WriteCompactSize_def write_uint_def write_sint_def uint256_bytes_def sample_coinbase_def)

lemma next_block_accepted:
  "\<exists>st rej. CheckBlock sample_node Map.empty [] next_block False True CValidationState_init Map.empty = Inr (True, st, rej)"
proof -
  have ng: "block_hash sample_node next_block \<noteq> hashGenesis sample_node"
    unfolding next_block_hash by (simp add: sample_node_def)
  have cb: "IsCoinBase sample_coinbase = Inr True"
    by (simp add: sample_coinbase_def IsCoinBase_def ContainsZerocoins_def IsZerocoinSpend_tx_def IsZerocoinMint_tx_def
      COutPoint_IsNull_def COutPoint_null_def IsZerocoinMint_def)
  have "CheckTransaction (MintOk sample_node) (SpendOk sample_node) n h sample_coinbase False = Inr Valid" if "h \<le> int n" for n h
    using that unfolding CheckTransaction_iff [OF cb] tx_acceptable_def using sample_coinbase_size
    by (simp add: sample_coinbase_def CTxOut_IsEmpty_def nMaxMoneyOut_def)
  moreover have "IsZerocoinSpend_tx sample_coinbase = Inr False"
    by (simp add: sample_coinbase_def IsZerocoinSpend_tx_def COutPoint_null_def)
  moreover have "GetLegacySigOpCount sample_coinbase \<le> 20000" by code_simp
  ultimately have t: "transactions_fine sample_node [] next_block"
    using cb by (simp add: transactions_fine_def next_block_def spent_serials_def Let_def sample_node_def Height_def)
  have m: "merkle_root [h] = h \<and> \<not> merkle_mutated [h]" for h
    by (simp add: merkle_root_def merkle_mutated_def levels_short)
  have l: "length (put_block next_block) \<le> 2000000"
    using sample_coinbase_size by (simp add: put_block_def next_block_def put_header_def put_vector_def
      put_word32_def put_uint256_def WriteCompactSize_def write_uint_def write_sint_def uint256_bytes_def)
  have s: "\<not> IsProofOfStake (vtx next_block)" by (simp add: IsProofOfStake_def next_block_def)
  show ?thesis
    unfolding CheckBlock_iff [OF ng] using t l s m
    by (simp add: header_fine_def check_payee_def Tip_def) (simp add: next_block_def sample_node_def)
qed

end
