(* ===== verification/Spec2Isabelle.thy ===== *)
theory Spec2Isabelle
  imports Samples
begin

text \<open>
  A verification development for the consensus core of the Lytix node (src/src, C++).

  The program validates transactions and blocks against the set of unspent coins.  A block is
  read from the network (serialize.h, primitives), its transactions are bound to its header by a
  Merkle tree (primitives/block.cpp), each input is checked by running two scripts
  (script/interpreter.cpp) whose signature checks hash the spending transaction, and the coins are
  moved through a stack of caches over a database (coins.cpp, txdb.cpp) by UpdateCoins and
  DisconnectBlock (main.cpp).  The theories follow these parts.

  Theories, in the order of their imports:
    Prelude      generic lemmas; \<open>bindE\<close> composes computations that may fail (\<open>fault + 'a\<close>)
    ScriptNum    CScriptNum (script/script.h); the type \<open>fault\<close>: a thrown exception, an abort
                 (failed assertion, out-of-range access) or a script error
    Script       CScript: the instruction reader GetOp, pushes, FindAndDelete, sigop counts
    SigEncoding  the encoding checks of script/interpreter.cpp and eccryptoverify.cpp
    Interpreter, EvalScript   one definition per opcode, the loop, VerifyScript; the state of the
                 machine is the record \<open>interp\<close>, the checker and the hashes are \<open>script_env\<close>
    ScriptVM     the machine as a step relation, its limits, freedom from aborts, multisignatures
    Templates    what the pay-to-public-key-hash and pay-to-script-hash templates do
    Serialize    serialize.h; the locales \<open>codec\<close> and \<open>canonical_codec\<close>, interpreted for every type
    Crypto       SHA-256, SHA-1, RIPEMD-160 and hash.h; the locale \<open>compression\<close> for the shared
                 buffering of the three classes
    Transaction  primitives/transaction.*, amount.*
    SigHash      SignatureHash and CheckSig, with the copying algorithm as reference
    Standard     script/standard.cpp
    Compressor, Coins   the compact encoding of coins and CCoins, CTxInUndo
    CoinsView    the views: the virtual table is the record \<open>coins_ops\<close>, the locale \<open>coins_view\<close>
                 states what a view promises; interpreted for the database, for a cache over it and
                 for a cache over that cache
    ChainState   UpdateCoins and DisconnectBlock over any \<open>coins_view\<close>
    Merkle, Block   blocks, Merkle trees and branches, partial Merkle trees (merkleblock.cpp)
    ArithUint, Uint256   base_uint of uint256.h: lists of 32-bit limbs, their operations as numbers;
                 the compact form (SetCompact, GetCompact) and the hexadecimal form
    Chain        chain.h, chain.cpp: CBlockIndex with skip pointers, CChain as a vector of entries,
                 locators; \<open>index_ok\<close> are the entries that BuildSkip can produce, \<open>path p\<close> the chain
                 from the first block to p, \<open>active es\<close> says that the vector is such a path
    Pow          pow.cpp, the work and trust of a block, the network parameters
    Kernel       kernel.cpp, stakeinput.cpp, AddToBlockIndex (main.cpp): stake modifiers, the kernel
                 and its target, the state of the index as the record \<open>BlockIndexState\<close>
    TxChecks     CheckTransaction and CheckInputs (main.cpp) on a cache of coins
    Samples      concrete inputs for the witnesses

  Conventions.  Bytes are 8-bit words, uint256 is a 256-bit word, C++ integers whose wrap-around
  matters are words or ints with the wrap written out (\<open>wrap64\<close>), sizes and indices are nat.  Every
  throw, assert and out-of-range access of the code is a value of \<open>fault\<close>.  An object that a
  method changes is returned changed.  An unordered map that is iterated over is a list of its
  entries in an arbitrary order.  The recursive definitions terminate without fuel: the loop of the
  script machine consumes its script, tree loops halve their level, loops over the index follow
  parents.  Two loops of the code may run forever on a malformed index, GetLocator and
  GetKernelStakeModifier: they are partial functions into option, and the properties show that they
  return on every well-formed one.

  Parameters of the model, for code outside src/ or libraries: the ECDSA verification (\<open>verify\<close>),
  the point decompression and full validation of public keys (\<open>fully_valid\<close>, \<open>decompress\<close>, with the
  law \<open>recovers\<close>: a fully valid uncompressed key is recovered from its x coordinate and parity),
  the Quark hash of a block header (\<open>HashQuark\<close>), the libzerocoin checks (\<open>mint_ok\<close>, \<open>spend_ok\<close>,
  \<open>zerocoin\<close>), the transaction index and the block files (\<open>GetTransaction\<close>, \<open>ReadBlockFromDisk\<close>), the
  address of the string literal that kernel.cpp uses as the first stake modifier (\<open>literal\<close>).

  What the properties show.  Acceptance: a transaction that passes CheckTransaction and CheckInputs
  is connected without a failed assertion and creates no money.  Scripts: VerifyScript never aborts, the limits of the machine are
  invariants, templates behave as documented, multisignatures match in order, the signature hash
  equals the reference algorithm and commits to the transaction.  Coins: the caches refine a map
  from hashes to coins, UpdateCoins refines the spending of coins on that map, disconnecting
  undoes it, encodings are read back.  Blocks: codecs are canonical, Merkle branches and partial
  Merkle trees deliver and bind the transactions.  Index: entries added by AddToBlockIndex keep the
  invariant of the index, skip pointers agree with parents, SetTip selects the path of the new tip, a
  locator finds the fork of two chains.  Targets: the retarget equals its formula over the integers
  and stays in range, stake modifiers select blocks by their hash, CheckProofOfStake accepts exactly
  the blocks its conditions describe.  Safety statements about hashes name the second
  preimage that a violation would exhibit.

  Not modelled: see PROJECT.json.  ConnectBlock, the activation of the best chain, the memory pool,
  the wallet, the network layer, zerocoin, masternodes and the user interfaces are left out so far; vendored
  libraries are used through laws.  Locks, logging and time are not part of the model.
\<close>

section \<open>Acceptance of a transaction\<close>

text \<open>
  C1. A transaction that passes CheckTransaction (zerocoin inactive) and CheckInputs with script
  verification is connected by UpdateCoins without a failed assertion; the undo records hold
  exactly the outputs its inputs name, each once, and unless it is a coinstake they are worth at
  least what the transaction pays out.
\<close>

theorem accepted_transaction_connects:
  assumes "block_inv fully_valid decompress c" "has_inputs tx = Inr True"
    "idx (cache_tip (cache_tip db_tip) c) = Some pindexPrev" "tx_coins_ok tx nHeight"
    "CheckTransaction mint_ok spend_ok nLastPOW chainHeight tx False = Inr Valid"
    "CheckInputs (cache_ops (DB_ops fully_valid decompress)) verify idx True fl tx c = Inr (Valid, c1)"
  shows "\<exists>undos c2. UpdateCoins (cache_ops (DB_ops fully_valid decompress)) tx nHeight c1 = Inr (undos, c2) \<and>
    block_inv fully_valid decompress c2 \<and>
    map utxout undos = map (\<lambda>i. spent_output (block_view decompress c) (prevout i)) (vin tx) \<and>
    (\<not> IsCoinStake tx \<longrightarrow> sum_list (map nValue (vout tx)) \<le> sum_list (map (nValue \<circ> utxout) undos))"
  using assms by (rule tip.accepted_connects)

lemma accepted_transaction_connects_witness:
  "\<exists>c1 undos c2.
     CheckInputs (cache_ops (DB_ops no_key no_point)) no_sig [11 \<mapsto> sample_chain 7] True 0 sample_tx (new_cache sample_tip) = Inr (Valid, c1) \<and>
     UpdateCoins (cache_ops (DB_ops no_key no_point)) sample_tx 8 c1 = Inr (undos, c2) \<and>
     map utxout undos = [\<lparr>nValue = 1000, scriptPubKey = [0x51]\<rparr>]"
proof -
  obtain c1 where c1: "CheckInputs (cache_ops (DB_ops no_key no_point)) no_sig [11 \<mapsto> sample_chain 7] True 0 sample_tx
      (new_cache sample_tip) = Inr (Valid, c1)" using sample_CheckInputs by blast
  have m: "map (\<lambda>i. spent_output (block_view no_point (new_cache sample_tip)) (prevout i)) (vin sample_tx) =
      [\<lparr>nValue = 1000, scriptPubKey = [0x51]\<rparr>]" by (simp add: sample_tx_def sample_spent_output)
  have b: "[11 \<mapsto> sample_chain 7] (cache_tip (cache_tip db_tip) (new_cache sample_tip)) = Some (sample_chain 7)"
    by (simp add: sample_tip_block)
  show ?thesis
    using accepted_transaction_connects [OF sample_block_inv sample_tx_facts(1) b sample_tx_facts(2) sample_CheckTransaction c1]
      c1 unfolding m by (elim exE conjE, intro exI conjI)
qed

text \<open>
  C2. On a block cache CheckInputs always answers for a transaction with spendable inputs whose
  outputs are in range, leaves the coins as they were, and accepts exactly when every input names
  an available, mature output of non-negative value, the values sum up within the money range and
  (unless it is a coinstake) to at least the outputs, and, when scripts are checked, every script
  verifies.
\<close>

theorem CheckInputs_accepts:
  assumes "block_inv fully_valid decompress c" "has_inputs tx = Inr True"
    "idx (cache_tip (cache_tip db_tip) c) = Some pindexPrev"
    "\<forall>txo\<in>set (vout tx). 0 \<le> nValue txo" "sum_list (map nValue (vout tx)) \<le> nMaxMoneyOut"
  shows "\<exists>r c'. CheckInputs (cache_ops (DB_ops fully_valid decompress)) verify idx fScriptChecks fl tx c = Inr (r, c') \<and>
    block_inv fully_valid decompress c' \<and> block_view decompress c' = block_view decompress c \<and>
    (r = Valid \<longleftrightarrow>
      inputs_acceptable verify (block_view decompress c) (int (iHeight pindexPrev) + 1) fScriptChecks fl tx)"
proof -
  obtain r c' where r: "CheckInputs (cache_ops (DB_ops fully_valid decompress)) verify idx fScriptChecks fl tx c = Inr (r, c')"
    "same_view (block_inv fully_valid decompress) (block_view decompress) (cache_tip (cache_tip db_tip)) cache_holds c c'"
    "r = Valid \<longleftrightarrow> inputs_acceptable verify (block_view decompress c) (int (iHeight pindexPrev) + 1) fScriptChecks fl tx"
    using tip.CheckInputs [where idx = idx, OF assms, of verify fScriptChecks fl] by blast
  have "block_inv fully_valid decompress c'" "block_view decompress c' = block_view decompress c"
    using r(2) by (simp_all add: same_view_def)
  then show ?thesis using r(1,3) by blast
qed

lemma CheckInputs_accepts_witness:
  "\<exists>r c'. CheckInputs (cache_ops (DB_ops no_key no_point)) no_sig [11 \<mapsto> sample_chain 7] True 0 sample_tx (new_cache sample_tip) =
     Inr (r, c') \<and> r = Valid"
  using CheckInputs_accepts [where idx = "[11 \<mapsto> sample_chain 7]", OF sample_block_inv sample_tx_facts(1), of "sample_chain 7" no_sig True 0]
    sample_tip_block sample_acceptable by (auto simp: sample_tx_def nMaxMoneyOut_def)

text \<open>
  C3. While zerocoin is not active, CheckTransaction accepts exactly the transactions with inputs
  and outputs, of at most 150000 bytes, whose output values are non-negative and sum up within the
  money range, with no empty output unless coinbase or coinstake, with no outpoint repeated after
  an input whose scriptSig does not begin with OP_ZEROCOINSPEND, and, for a coinbase, with a
  scriptSig of the right length.
\<close>

theorem CheckTransaction_accepts_exactly:
  assumes "IsCoinBase tx = Inr cb"
  shows "CheckTransaction mint_ok spend_ok nLastPOW chainHeight tx False = Inr Valid \<longleftrightarrow>
    vin tx \<noteq> [] \<and> vout tx \<noteq> [] \<and> length (put_CTransaction tx) \<le> 150000 \<and>
    (\<forall>txo\<in>set (vout tx). 0 \<le> nValue txo \<and> (CTxOut_IsEmpty txo \<longrightarrow> cb \<or> IsCoinStake tx)) \<and>
    sum_list (map nValue (vout tx)) \<le> 10 ^ 16 \<and>
    sorted_wrt (\<lambda>i j. prevout i = prevout j \<longrightarrow> IsZerocoinSpend (scriptSig i)) (vin tx) \<and>
    (cb \<longrightarrow> length (scriptSig (vin tx ! 0)) \<in> {(if chainHeight > int nLastPOW then 2 else 1)..150})"
  using CheckTransaction_iff [OF assms] by (simp add: tx_acceptable_def nMaxMoneyOut_def)

lemma CheckTransaction_accepts_exactly_witness:
  "CheckTransaction (\<lambda>_. True) (\<lambda>_. True) 100000 5 sample_tx False = Inr Valid \<and>
   CheckTransaction (\<lambda>_. True) (\<lambda>_. True) 100000 5 (sample_tx\<lparr>vin := vin sample_tx @ vin sample_tx\<rparr>) False \<noteq> Inr Valid"
proof -
  have "IsCoinBase sample_tx = Inr False" "IsCoinBase (sample_tx\<lparr>vin := vin sample_tx @ vin sample_tx\<rparr>) = Inr False"
    by (simp_all add: IsCoinBase_def sample_tx_def COutPoint_IsNull_def)
  from this [THEN CheckTransaction_accepts_exactly] show ?thesis
    using sample_tx_size by (simp add: sample_tx_def IsZerocoinSpend_def CTxOut_IsEmpty_def)
qed

text \<open>
  C4. CheckTransaction does not remember the outpoint of an input whose scriptSig begins with
  OP_ZEROCOINSPEND. With script checks off, a transaction that names one output twice in this way
  passes both checks, its value counted twice, and UpdateCoins then fails its assertion.
\<close>

theorem duplicate_inputs_abort:
  assumes "block_inv fully_valid decompress c" "idx (cache_tip (cache_tip db_tip) c) = Some pindexPrev"
    "vin tx = [i, j]" "prevout i = prevout j"
    "IsZerocoinSpend (scriptSig i)" "IsZerocoinSpend (scriptSig j)" "outhash (prevout i) \<noteq> 0"
    "vout tx = [txo]" "0 \<le> nValue txo" "nValue txo \<le> nMaxMoneyOut" "\<not> CTxOut_IsEmpty txo"
    "length (put_CTransaction tx) \<le> 150000" "tx_coins_ok tx nHeight"
    "have_coins_for (block_view decompress c) (prevout i)"
    "mature (block_view decompress c) (int (iHeight pindexPrev) + 1) (prevout i)"
    "0 \<le> nValue (spent_output (block_view decompress c) (prevout i))"
    "2 * nValue (spent_output (block_view decompress c) (prevout i)) \<le> nMaxMoneyOut"
    "nValue txo \<le> 2 * nValue (spent_output (block_view decompress c) (prevout i))"
  shows "\<exists>c1. CheckTransaction mint_ok spend_ok nLastPOW chainHeight tx False = Inr Valid \<and>
    CheckInputs (cache_ops (DB_ops fully_valid decompress)) verify idx False fl tx c = Inr (Valid, c1) \<and>
    UpdateCoins (cache_ops (DB_ops fully_valid decompress)) tx nHeight c1 = Inl Abort"
  using assms by (rule tip.duplicate_aborts)

lemma duplicate_inputs_abort_witness:
  "\<exists>c1. CheckTransaction (\<lambda>_. True) (\<lambda>_. True) 100000 5 twice_tx False = Inr Valid \<and>
     CheckInputs (cache_ops (DB_ops no_key no_point)) no_sig [11 \<mapsto> sample_chain 7] False 0 twice_tx (new_cache sample_tip) = Inr (Valid, c1) \<and>
     UpdateCoins (cache_ops (DB_ops no_key no_point)) twice_tx 8 c1 = Inl Abort"
  by (rule duplicate_inputs_abort [OF sample_block_inv, where pindexPrev = "sample_chain 7" and tx = twice_tx and
      i = twice_in and j = twice_in and txo = "\<lparr>nValue = 1700, scriptPubKey = [0x51]\<rparr>"])
    (simp_all add: sample_tip_block twice_tx_facts sample_spent_output sample_mature nMaxMoneyOut_def)

section \<open>Headers and blocks\<close>

text \<open>
  C5. AcceptBlockHeader always answers on a well-formed index. An accepted header is in the index
  and not marked as failed, a refused one changes nothing, entries are never removed or replaced,
  and the invariant is kept: besides the structure of the index, every entry other than the first
  block is later than the median time of the blocks before it and agrees with the checkpoints.
\<close>

theorem AcceptBlockHeader_keeps_the_index:
  assumes "header_inv env hs" "header_ok (bheader b)"
  shows "\<exists>ok pindex st' hs'. AcceptBlockHeader env literal reconsider chainActive b st hs = Inr (ok, pindex, st', hs') \<and>
    header_inv env hs' \<and> mapBlockIndex (index hs) \<subseteq>\<^sub>m mapBlockIndex (index hs') \<and>
    (ok \<longrightarrow> st' = st \<and> (\<exists>p. pindex = Some p \<and> mapBlockIndex (index hs') (block_hash env b) = Some p \<and> \<not> failed hs' p)) \<and>
    (\<not> ok \<longrightarrow> hs' = hs)"
  using assms by (rule AcceptBlockHeader_inv)

lemma AcceptBlockHeader_keeps_the_index_witness:
  "\<exists>ok pindex st' hs'. AcceptBlockHeader sample_node 3 (\<lambda>_ _. None) [] next_block CValidationState_init sample_headers =
     Inr (ok, pindex, st', hs') \<and> header_inv sample_node hs'"
  using AcceptBlockHeader_keeps_the_index [OF sample_headers_inv next_block_header, of 3 "\<lambda>_ _. None" "[]" CValidationState_init]
  by blast



text \<open>
  C7. Along every chain of the header index the median time past never decreases, although the
  times of single blocks may.
\<close>

theorem median_time_never_decreases:
  assumes "header_inv env hs" "mapBlockIndex (index hs) h = Some p"
  shows "sorted (map GetMedianTimePast (path p))"
  using assms by (rule chain_times)

lemma median_time_never_decreases_witness:
  "GetMedianTimePast node_h0 \<le> GetMedianTimePast node_h1"
  using median_time_never_decreases [OF sample_headers_inv sample_headers_entry] by (simp add: node_path)

text \<open>
  C8. CheckBlock accepts a block other than the first one exactly when its header, time, Merkle
  root and size are right, the transaction list does not repeat a sequence (CVE-2012-2459), the
  first transaction and no other is a coinbase, a stake block has an empty coinbase and one
  coinstake, no input conflicts with a transaction lock, the payee is valid, every transaction
  passes CheckTransaction, no zerocoin serial is spent twice and the signature operations are
  within the limit.
\<close>

theorem CheckBlock_accepts_exactly:
  assumes "block_hash env b \<noteq> hashGenesis env"
  shows "(\<exists>st' rej'. CheckBlock env idx chainActive b fCheckPOW fCheckMerkleRoot st rej = Inr (True, st', rej')) \<longleftrightarrow>
    (fCheckPOW \<and> IsProofOfWork (vtx b) \<longrightarrow> CheckProofOfWork (net env) (block_hash env b) (hBits (bheader b))) \<and>
    header_fine env b \<and>
    BlockTime b \<le> adjustedTime env + (if IsProofOfStake (vtx b) then 180 else 7200) \<and>
    (fCheckMerkleRoot \<longrightarrow> hashMerkleRoot (bheader b) = merkle_root (map GetHash (vtx b)) \<and>
       \<not> merkle_mutated (map GetHash (vtx b))) \<and>
    vtx b \<noteq> [] \<and> length (vtx b) \<le> 2000000 \<and> length (put_block b) \<le> 2000000 \<and>
    (IsProofOfStake (vtx b) \<longrightarrow> length (vout (hd (vtx b))) = 1 \<and> CTxOut_IsEmpty (hd (vout (hd (vtx b)))) \<and>
       list_all (\<lambda>tx. \<not> IsCoinStake tx) (drop 2 (vtx b))) \<and>
    (fSwiftTX env \<longrightarrow> (\<forall>tx\<in>set (tl (vtx b)). \<forall>i\<in>set (vin tx). \<not> lock_conflict env tx i)) \<and>
    check_payee env idx chainActive b = None \<and>
    transactions_fine env chainActive b"
  using assms by (rule CheckBlock_iff)

lemma CheckBlock_accepts_exactly_witness:
  "header_fine sample_node next_block \<and> transactions_fine sample_node [] next_block"
proof -
  have ng: "block_hash sample_node next_block \<noteq> hashGenesis sample_node" unfolding next_block_hash by (simp add: sample_node_def)
  from next_block_accepted show ?thesis
    unfolding CheckBlock_accepts_exactly [OF ng] by (elim conjE) (intro conjI)
qed



text \<open>
  C10. A new header whose parent is marked as failed is refused with 100 points, also when the
  parent is the block of a checkpoint: the branch of AcceptBlockHeader that reconsiders such a
  parent tests a pointer that is always null and is never taken, whatever it would do.
\<close>

theorem failed_parent_is_refused:
  assumes "mapBlockIndex (index hs) (block_hash env b) = None" "block_hash env b \<noteq> hashGenesis env"
    and "CheckBlockHeader env b False = None" "mapBlockIndex (index hs) (hashPrevBlock (bheader b)) = Some q" "failed hs q"
  shows "AcceptBlockHeader env literal reconsider chainActive b st hs =
    Inr (False, None, DoS 100 REJECT_INVALID ''bad-prevblk'' False st, hs)"
  using assms by (rule AcceptBlockHeader_failed_parent)

lemma failed_parent_is_refused_witness:
  "AcceptBlockHeader sample_node 3 (\<lambda>hs _. Some hs) [] next_block CValidationState_init
     (sample_headers\<lparr>blockStatus := (\<lambda>_. 32)\<rparr>) =
   Inr (False, None, DoS 100 REJECT_INVALID ''bad-prevblk'' False CValidationState_init, sample_headers\<lparr>blockStatus := (\<lambda>_. 32)\<rparr>)"
proof -
  have "CheckBlockHeader sample_node next_block False = None"
    by (simp add: CheckBlockHeader_None header_fine_def next_block_def sample_node_def)
  then show ?thesis
    by (intro failed_parent_is_refused [where q = node_h1])
      (simp_all only: next_block_hash, simp_all add: sample_headers_def sample_node_def next_block_def failed_def BLOCK_FAILED_MASK_def)
qed

section \<open>Script evaluation\<close>

text \<open>
  C11. With SCRIPT_VERIFY_P2SH set and a push-only scriptSig, VerifyScript accepts a
  pay-to-script-hash output exactly when evaluating the scriptSig leaves a redeem script on top of
  at most 998 elements, the redeem script hashes to the committed 20 bytes, and evaluating it on
  the remaining stack succeeds with a true top element.
\<close>

theorem VerifyScript_pay_to_script_hash:
  assumes "has_flag (env_flags env) SCRIPT_VERIFY_P2SH" "length h = 20" "IsPushOnly sigScript"
  shows "VerifyScript env sigScript (p2sh h) = Inr () \<longleftrightarrow>
    (\<exists>redeem s stk. EvalScript env [] sigScript = Inr (redeem # s) \<and> length s \<le> 998 \<and>
       CHash160 env redeem = h \<and> EvalScript env s redeem = Inr stk \<and> check_top stk = Inr ())"
  using assms by (rule VerifyScript_p2sh)

lemma VerifyScript_pay_to_script_hash_witness:
  "VerifyScript sample_env (push_data [0x51]) (p2sh (replicate 20 7)) = Inr ()"
proof -
  have "has_flag (env_flags sample_env) SCRIPT_VERIFY_P2SH" "CHash160 sample_env [0x51] = replicate 20 7"
    by (simp_all add: sample_env_def has_flag_def CHash160_def)
  then show ?thesis
    using VerifyScript_pay_to_script_hash [of sample_env "replicate 20 7" "push_data [0x51]"] sample_p2sh by auto
qed

text \<open>
  C12. Every state the script machine reaches from a state within the limits is within them: all
  elements of both stacks are at most 520 bytes, the two stacks hold at most 1000 elements
  together, and at most 201 operations are counted.
\<close>

theorem EvalScript_keeps_limits:
  assumes "vm_steps env pc st pc' st'" "vm_ok st" "hash_sizes env"
  shows "vm_ok st'"
  using assms by (rule vm_steps_ok)

lemma EvalScript_keeps_limits_witness:
  "vm_ok \<lparr>stack = [[1]], altstack = [], vfExec = [], pbegincodehash = [0x51], nOpCount = 0\<rparr>"
proof -
  let ?s = "\<lambda>s. \<lparr>stack = s, altstack = [], vfExec = [], pbegincodehash = [0x51], nOpCount = 0\<rparr>"
  have "eval_loop sample_env [0x51] (?s []) = Inr (?s [[1]])" by code_simp
  then have "vm_steps sample_env [0x51] (?s []) [] (?s [[1]])" by (simp add: eval_loop_iff_steps)
  then show ?thesis
    by (rule EvalScript_keeps_limits) (simp_all add: vm_ok_def sample_hashes)
qed




section \<open>Coins and the chain state\<close>

text \<open>
  C15. On a stack of a block cache over the tip cache over the coin database, UpdateCoins
  implements the transition on the map of unspent coins: spend the prevouts in order, then add the
  outputs of the transaction under its hash; it aborts exactly where the specification has no
  successor, keeps the cache invariant and the best block, and returns the undo records of the
  specification.
\<close>

theorem UpdateCoins_refines_connect:
  assumes "block_inv fully_valid decompress c" "has_inputs tx = Inr b" "tx_coins_ok tx nHeight"
  shows "case connect_view tx b nHeight (block_view decompress c) of
      None \<Rightarrow> UpdateCoins (cache_ops (DB_ops fully_valid decompress)) tx nHeight c = Inl Abort
    | Some (undos, V') \<Rightarrow> \<exists>c'.
        UpdateCoins (cache_ops (DB_ops fully_valid decompress)) tx nHeight c = Inr (undos, c') \<and>
        block_inv fully_valid decompress c' \<and> block_view decompress c' = V' \<and>
        cache_tip (cache_tip db_tip) c' = cache_tip (cache_tip db_tip) c"
  using assms by (rule tip.UpdateCoins)

lemma UpdateCoins_refines_connect_witness:
  "\<exists>undos c'. UpdateCoins (cache_ops (DB_ops no_key no_point)) sample_tx 8 (new_cache sample_tip) =
     Inr (undos, c') \<and> block_inv no_key no_point c'"
proof -
  have "spend_coins (block_view no_point (new_cache sample_tip)) (map prevout (vin sample_tx)) \<noteq> None"
    by (rule sample_spend)
  then show ?thesis
    using UpdateCoins_refines_connect [OF sample_block_inv sample_tx_facts(1,2)]
    by (auto simp: connect_view_def split: option.splits)
qed

text \<open>
  C16. Disconnecting a transaction with the undo records that UpdateCoins produced for it reports
  a clean disconnect and gives the unspent coins of before the connection, up to the coin-stake
  flag.
\<close>

theorem disconnect_undoes_UpdateCoins:
  assumes "block_inv fully_valid decompress c" "has_inputs tx = Inr b" "tx_coins_ok tx nHeight"
    "all_live (block_view decompress c)" "block_view decompress c (GetHash tx) = None"
    "UpdateCoins (cache_ops (DB_ops fully_valid decompress)) tx nHeight c = Inr (undos, c1)"
  shows "\<exists>c2. disconnect_tx (cache_ops (DB_ops fully_valid decompress)) tx nHeight (Some undos) c1 = Inr (Some True, c2) \<and>
    block_inv fully_valid decompress c2 \<and>
    unstaked \<circ> block_view decompress c2 = unstaked \<circ> block_view decompress c \<and>
    cache_tip (cache_tip db_tip) c2 = cache_tip (cache_tip db_tip) c"
  using assms by (rule tip.disconnect_UpdateCoins)

lemma disconnect_undoes_UpdateCoins_witness:
  "\<exists>c1 undos c2. UpdateCoins (cache_ops (DB_ops no_key no_point)) sample_coinbase 8 (new_cache (new_cache sample_db)) =
     Inr (undos, c1) \<and>
   disconnect_tx (cache_ops (DB_ops no_key no_point)) sample_coinbase 8 (Some undos) c1 = Inr (Some True, c2)"
proof -
  obtain undos c1 where u: "UpdateCoins (cache_ops (DB_ops no_key no_point)) sample_coinbase 8
      (new_cache (new_cache sample_db)) = Inr (undos, c1)"
    using tip.UpdateCoins [OF sample_empty_inv sample_coinbase_facts] by (auto simp: connect_view_def)
  then show ?thesis
    using disconnect_undoes_UpdateCoins [OF sample_empty_inv sample_coinbase_facts _ _ u]
    by (auto simp: sample_empty_view all_live_def)
qed

text \<open>
  C17. Flushing the tip cache into the database, in any order of the cache entries, succeeds,
  empties the cache and leaves the database holding exactly the coins the cache showed before,
  with the best block of the cache.
\<close>

theorem Flush_writes_the_view:
  assumes "tip_inv fully_valid decompress c" "distinct (map fst es)" "map_of es = cacheCoins c"
  shows "\<exists>c'. Flush (DB_ops fully_valid decompress) es c = Inr (True, c') \<and>
    tip_inv fully_valid decompress c' \<and> cacheCoins c' = Map.empty \<and>
    tip_view decompress c' = tip_view decompress c \<and>
    db_view decompress (base c') = tip_view decompress c \<and>
    (hashBlock c \<noteq> 0 \<longrightarrow> db_tip (base c') = hashBlock c)"
  using assms by (rule db.Flush)

lemma Flush_writes_the_view_witness:
  "\<exists>c'. Flush (DB_ops no_key no_point) [(5, \<lparr>ecoins = sample_coins, eDirty = True, eFresh = True\<rparr>)] sample_tip =
     Inr (True, c') \<and> db_view no_point (base c') = tip_view no_point sample_tip"
  using Flush_writes_the_view [OF sample_tip_inv, of "[(5, \<lparr>ecoins = sample_coins, eDirty = True, eFresh = True\<rparr>)]"]
  by (auto simp: sample_tip_def)

text \<open>
  C18. When the coin-stake flag of a transaction was lost by an earlier disconnect, disconnecting
  the transaction itself is reported as unclean although the stored outputs are the outputs of the
  transaction.
\<close>

theorem disconnect_after_lost_stake_flag:
  assumes "block_inv fully_valid decompress c" "has_inputs tx = Inr b" "tx_coins_ok tx nHeight"
    "fCoinStake (tx_coins tx nHeight)" "\<not> IsPruned (tx_coins tx nHeight)"
    "block_view decompress c (GetHash tx) = Some ((tx_coins tx nHeight)\<lparr>fCoinStake := False\<rparr>)"
  shows "\<exists>c'. disconnect_outputs (cache_ops (DB_ops fully_valid decompress)) tx nHeight c = Inr (False, c')"
  using assms by (rule tip.disconnect_lost_stake)

lemma disconnect_after_lost_stake_flag_witness:
  "\<exists>c'. disconnect_outputs (cache_ops (DB_ops no_key no_point)) sample_stake 8 lost_stake_cache = Inr (False, c')"
  by (rule disconnect_after_lost_stake_flag [OF lost_stake_facts(1-3)]) (rule lost_stake_facts)+

text \<open>
  C19. A well-formed, not fully spent CCoins is written to the database in the compact form (bit
  mask of the unspent outputs, compressed amounts and scripts) and read back unchanged, whatever
  follows it.
\<close>

theorem CCoins_roundtrip:
  assumes "recovers fully_valid decompress" "coins_ok coins" "\<not> IsPruned coins"
  shows "\<exists>b. put_CCoins fully_valid coins = Inr b \<and> get_CCoins decompress (b @ rest) = Inr (coins, rest)"
  using assms by (rule get_put_CCoins)

lemma CCoins_roundtrip_witness:
  "\<exists>b. put_CCoins no_key sample_coins = Inr b \<and> get_CCoins no_point (b @ [1]) = Inr (sample_coins, [1])"
  by (rule CCoins_roundtrip [OF _ sample_coins_ok])
    (simp_all add: recovers_def sample_coins_def IsPruned_def CTxOut_IsNull_def CTxOut_null_def)

section \<open>Transactions, signature hashes and serialization\<close>



text \<open>
  C21. For a hash type with none of NONE, SINGLE and ANYONECANPAY the serialized message
  determines the script code without its separators, the version, the lock time, all outputs, and
  the prevouts and sequence numbers of all inputs.
\<close>

theorem SIGHASH_ALL_commits:
  assumes "tx_ok tx" "tx_ok tx'" "nIn < length (vin tx)" "nIn < length (vin tx')"
    and "\<not> fAnyoneCanPay nHashType" "\<not> fHashNone nHashType" "\<not> fHashSingle nHashType"
    and "SerializeScriptCode c = put_blob code" "SerializeScriptCode c' = put_blob code'"
      "length code \<le> MAX_SIZE" "length code' \<le> MAX_SIZE"
    and "sighash_Serialize c tx nIn nHashType = sighash_Serialize c' tx' nIn nHashType"
  shows "code = code' \<and> nVersion tx = nVersion tx' \<and> nLockTime tx = nLockTime tx' \<and>
    vout tx = vout tx' \<and> map prevout (vin tx) = map prevout (vin tx') \<and>
    map nSequence (vin tx) = map nSequence (vin tx')"
  using assms by (rule sighash_ALL_commits)

lemma SIGHASH_ALL_commits_witness:
  "SerializeScriptCode [0xab, 0x51] = put_blob [0x51] \<and> SerializeScriptCode [0x51] = put_blob [0x51] \<and>
   sighash_Serialize [0xab, 0x51] sample_tx 0 1 = sighash_Serialize [0x51] (sample_tx\<lparr>vin := map (\<lambda>i. i\<lparr>scriptSig := []\<rparr>) (vin sample_tx)\<rparr>) 0 1 \<and>
   map prevout (vin sample_tx) = map prevout (vin (sample_tx\<lparr>vin := map (\<lambda>i. i\<lparr>scriptSig := []\<rparr>) (vin sample_tx)\<rparr>))"
proof -
  let ?tx = "sample_tx\<lparr>vin := map (\<lambda>i. i\<lparr>scriptSig := []\<rparr>) (vin sample_tx)\<rparr>"
  have c: "SerializeScriptCode [0xab, 0x51] = put_blob [0x51]" "SerializeScriptCode [0x51] = put_blob [0x51]"
    by code_simp+
  have f: "\<not> fAnyoneCanPay 1" "\<not> fHashNone 1" "\<not> fHashSingle 1" by code_simp+
  have ok: "tx_ok ?tx" "0 < length (vin sample_tx)" "0 < length (vin ?tx)"
    using sample_tx_facts(3) by (simp_all add: tx_ok_def vector_ok_def txin_ok_def sample_tx_def)
  have s: "sighash_Serialize [0xab, 0x51] sample_tx 0 1 = sighash_Serialize [0x51] ?tx 0 1"
    using f by (simp add: sighash_Serialize_def SerializeInput_def SerializeOutput_def c sample_tx_def)
  show ?thesis using SIGHASH_ALL_commits [OF sample_tx_facts(3) ok f c _ _ s] c s by simp
qed

text \<open>
  C22. The transaction deserializer is the exact inverse of the serializer: it returns a
  transaction and the remaining bytes exactly when the input starts with the serialization of that
  transaction, so no transaction has two encodings.
\<close>

theorem CTransaction_codec:
  "get_CTransaction s = Inr (tx, rest) \<longleftrightarrow> tx_ok tx \<and> s = put_CTransaction tx @ rest"
  by (rule tx.get_iff)

text \<open>
  C23. CSHA256 fed with a message in any pieces computes the Merkle-Damgard hash of the whole
  message: padding with a one bit, zeros and the 64-bit length, then the compression function
  block by block.
\<close>

theorem sha256_streaming:
  "hash_Finalize sha256_Transform WriteBE64 WriteBE32
     (foldl (hash_Write sha256_Transform) (hasher_init sha256_Initialize) pieces) =
   md_hash sha256_Transform sha256_Initialize WriteBE64 WriteBE32 (concat pieces)"
  using sha256.Write_pieces [OF represents_init] by simp

text \<open>
  C24. A partial Merkle tree built over a block of up to 33333 transactions, serialized, read by a
  peer and extracted gives the Merkle root of the block and exactly the matched transaction hashes
  in order.
\<close>

theorem partial_tree_delivers_matches:
  assumes "xs \<noteq> []" "length xs \<le> 33333"
  shows "\<exists>pmt. get_pmt (put_pmt (new_pmt xs m) @ rest) = Inr (pmt, rest) \<and>
    ExtractMatches pmt = (merkle_root xs, map fst (filter snd (zip xs (map (\<lambda>p. m ! p) [0..<length xs]))))"
  using assms by (rule ExtractMatches_wire)

lemma partial_tree_delivers_matches_witness:
  "\<exists>pmt. get_pmt (put_pmt (new_pmt [10, 20, 30] [False, True, False]) @ []) = Inr (pmt, []) \<and>
     ExtractMatches pmt = (merkle_root [10, 20, 30], [20])"
  using partial_tree_delivers_matches [of "[10, 20, 30]" "[False, True, False]" "[]"]
  by (simp add: upt_rec)

text \<open>
  C25. Whatever bits and hashes a peer sends, if ExtractMatches gives the (nonzero) Merkle root of
  a block with the claimed number of transactions, every match is a transaction of the block, or a
  second preimage for a node of the tree of the block exists.
\<close>

theorem ExtractMatches_is_sound:
  assumes "pmTransactions pmt = length xs" "ExtractMatches pmt = (merkle_root xs, ms)" "merkle_root xs \<noteq> 0"
  shows "set ms \<subseteq> set xs \<or> second_preimage (tree_nodes xs)"
  using assms by (rule ExtractMatches_sound)

lemma ExtractMatches_is_sound_witness:
  "ExtractMatches \<lparr>pmTransactions = 1, vBits = [True, False], vHash = [5], fBad = False\<rparr> = (5, [5]) \<and>
   (set [5] \<subseteq> set [5 :: uint256] \<or> second_preimage (tree_nodes [5]))"
proof -
  let ?pmt = "\<lparr>pmTransactions = 1, vBits = [True, False], vHash = [5], fBad = False\<rparr>"
  have "tree_height 1 0 = 0" by (subst tree_height.simps) (simp add: CalcTreeWidth_eq)
  then have e: "ExtractMatches ?pmt = (5, [5])"
    using extract_leaf [of 0 True 1 "[]" "[False]" "[]" 5 "[]" 0 "[]" False] by (simp add: ExtractMatches_def)
  have "merkle_root [5] = 5" by (simp add: merkle_root_def levels_short)
  then show ?thesis using ExtractMatches_is_sound [of ?pmt "[5]" "[5]"] e by simp
qed

section \<open>Block index, proof of work and proof of stake\<close>



text \<open>
  C27. GetAncestor, which takes skip pointers built by BuildSkip, returns the entry at the given
  height that following the parent pointers one by one would reach, or null outside the chain; it
  never dereferences a null pointer.
\<close>

theorem GetAncestor_follows_the_parents:
  assumes "index_ok p"
  shows "GetAncestor p h = Inr (if 0 \<le> h \<and> h \<le> int (iHeight p) then parent (iHeight p - nat h) p else None)"
  using assms by (rule GetAncestor_parent)

lemma GetAncestor_follows_the_parents_witness:
  "GetAncestor (sample_chain 9) 7 = Inr (Some (sample_chain 7))"
  using GetAncestor_follows_the_parents [OF sample_chain_ok, of 9 7] by (simp add: eval_nat_numeral)

text \<open>
  C28. From any chain SetTip changes the vector to exactly the path from the first block to the
  new tip: entries of the old chain above the fork are replaced, those below are kept.
\<close>

theorem SetTip_selects_the_path:
  assumes "active es" "index_ok p"
  shows "SetTip (Some p) (map Some es) = Inr (map Some (path p))"
  using assms by (rule SetTip_path)

lemma SetTip_selects_the_path_witness:
  "SetTip (Some (sample_ext 0 (sample_chain 1))) (map Some (map sample_chain [0..<5])) =
     Inr (map Some (path (sample_ext 0 (sample_chain 1))))"
  by (rule SetTip_selects_the_path [OF sample_active sample_ext_ok [OF sample_chain_ok]])

text \<open>
  C29. GetLocator terminates on every indexed block, whatever the active chain is: the locator
  starts with the hash of the block, ends with the hash of the first block, and has at most k + 11
  hashes for a height below 2^k.
\<close>

theorem GetLocator_ends_at_genesis:
  assumes "index_ok p" "active es" "iHeight p < 2 ^ k"
  shows "\<exists>hs. GetLocator (map Some es) (Some p) = Some (Inr hs) \<and> hd hs = blockHash p \<and>
    last hs = blockHash (hd (path p)) \<and> length hs \<le> k + 11"
  using assms by (rule GetLocator_short)

lemma GetLocator_ends_at_genesis_witness:
  "\<exists>hs. GetLocator (map Some (map sample_chain [0..<3])) (Some (sample_chain 5)) = Some (Inr hs) \<and>
     hd hs = 105 \<and> last hs = 100 \<and> length hs \<le> 14"
proof -
  have "hd (path (sample_chain 5)) = sample_chain 0" unfolding sample_path by (simp add: upt_rec)
  then show ?thesis
    using GetLocator_ends_at_genesis [OF sample_chain_ok sample_active, of 5 3 3] by simp
qed

text \<open>
  C30. CheckProofOfWork accepts exactly when the target encoded in nBits is positive, not marked
  negative, fits below the limit of the network without overflow, and the hash as a number does
  not exceed it (or the network skips the check).
\<close>

theorem CheckProofOfWork_exactly:
  "CheckProofOfWork params hash nBits \<longleftrightarrow> fSkipProofOfWorkCheck params \<or>
     (\<not> odd (unat nBits div 2 ^ 23) \<and> 0 < compact_nat nBits \<and>
      compact_nat nBits \<le> unat (bnProofOfWorkLimit params) \<and> unat hash \<le> compact_nat nBits)"
  by (rule CheckProofOfWork_iff)

text \<open>
  C31. Between heights 24 and the last proof-of-work block GetNextWorkRequired encodes the ideal
  DarkGravity target: the running average of the last 24 targets scaled by the time they took,
  held between a third and three times the target time, and capped; the 256-bit arithmetic does
  not wrap while the targets stay below 2^240.
\<close>

theorem GetNextWorkRequired_is_the_average:
  assumes "index_ok p" "24 \<le> iHeight p" "iHeight p \<le> nLastPOWBlock params"
    and "0 < nTargetSpacing params" "nTargetSpacing params \<le> 900"
    and "\<forall>q\<in>set (recent 24 p). iTime q \<noteq> 0 \<and> block_target q < 2 ^ 240"
  shows "\<exists>c. GetNextWorkRequired params (Some p) = Inr c \<and> encodes c (ideal_work_target params p)"
  using assms by (rule GetNextWorkRequired_ideal)

lemma GetNextWorkRequired_is_the_average_witness:
  "\<exists>c. GetNextWorkRequired mainParams (Some (sample_chain 30)) = Inr c \<and> encodes c (ideal_work_target mainParams (sample_chain 30))"
proof -
  have "\<forall>q\<in>set (recent 24 (sample_chain 30)). iTime q \<noteq> 0 \<and> block_target q < 2 ^ 240"
    using sample_recent by (fastforce simp: compact_value_def compact_exp_def compact_man_def)
  then show ?thesis
    by (intro GetNextWorkRequired_is_the_average [OF sample_chain_ok]) (simp_all add: mainParams_def)
qed

text \<open>
  C32. GetNextWorkRequired always answers for an indexed block: no division by zero and no null
  pointer; the encoded target is not negative and at most the limit of the network, or below 2^232
  in the proof-of-stake phase.
\<close>

theorem GetNextWorkRequired_stays_in_range:
  assumes "case last_index of None \<Rightarrow> True | Some p \<Rightarrow> index_ok p"
    and "0 < nTargetSpacing params" "nTargetSpacing params < 2 ^ 59"
  shows "\<exists>c. GetNextWorkRequired params last_index = Inr c \<and> \<not> odd (unat c div 2 ^ 23) \<and>
    compact_nat c \<le> (case last_index of
      Some p \<Rightarrow> if max 23 (nLastPOWBlock params) < iHeight p then 2 ^ 232 - 1 else unat (bnProofOfWorkLimit params)
    | None \<Rightarrow> unat (bnProofOfWorkLimit params))"
  using assms by (rule GetNextWorkRequired_total)

lemma GetNextWorkRequired_stays_in_range_witness:
  "\<exists>c. GetNextWorkRequired mainParams (Some (sample_chain 30)) = Inr c \<and> compact_nat c \<le> unat (bnProofOfWorkLimit mainParams)"
  using GetNextWorkRequired_stays_in_range [of "Some (sample_chain 30)" mainParams] sample_chain_ok
  by (auto simp: mainParams_def)

text \<open>
  C33. The shift-and-subtract division of base_uint computes the integer quotient on numbers of
  any number of limbs, and throws exactly when the divisor is zero.
\<close>

theorem uint256_division:
  assumes "length a = length b" "a \<noteq> []"
  shows "if limbs_val b = 0 then limbs_div a b = Inl Throw
    else \<exists>q. limbs_div a b = Inr q \<and> length q = length a \<and> limbs_val q = limbs_val a div limbs_val b"
  using limbs_div_val [OF assms] by simp

lemma uint256_division_witness:
  "\<exists>q. limbs_div [0, 1] [3, 0] = Inr q \<and> limbs_val q = 1431655765"
  using uint256_division [of "[0, 1]" "[3, 0]"] by auto




text \<open>
  C36. GetKernelStakeModifier, a loop along the active chain, always ends: it returns the first
  modifier generated above the staked block at least 2087 seconds after it, and false when the
  chain has none yet.
\<close>

theorem GetKernelStakeModifier_ends:
  assumes "active es" "m hashBlockFrom = Some blk"
  shows "GetKernelStakeModifier m (map Some es) hashBlockFrom =
    Inr (Some (map_option (\<lambda>q. (iStakeModifier q, iHeight q, block_time q))
      (find (\<lambda>q. GeneratedStakeModifier q \<and> block_time blk + 2087 \<le> block_time q)
        (drop (iHeight blk + 1) es))))"
  using assms by (rule GetKernelStakeModifier_first)

lemma GetKernelStakeModifier_ends_witness:
  "GetKernelStakeModifier sample_index (map Some (map sample_chain [0..<3])) 100 = Inr (Some (Some (9, 1, 4000)))"
proof -
  have f: "sample_index 100 = Some (sample_chain 0)" using sample_index_hash [of 0] by simp
  have "drop 1 (map sample_chain [0..<3]) = [sample_chain 1, sample_chain 2]" by (simp add: upt_rec numeral_nat)
  then show ?thesis using GetKernelStakeModifier_ends [where m = sample_index, OF sample_active f, of 3]
    by (simp add: GeneratedStakeModifier_def)
qed

text \<open>
  C37. CheckProofOfStake accepts a block with a transparent stake exactly when its second
  transaction is a coinstake whose first input spends an existing output on the active chain with
  a verifying script, a later block of the chain generated a modifier at least 2087 seconds after
  the staked block, and the kernel hash of modifier, staked output and times hits the target
  weighted by the value.
\<close>

theorem CheckProofOfStake_exactly:
  assumes "active es" "\<forall>h p. m h = Some p \<longrightarrow> blockHash p = h \<and> index_ok p"
    and "IsZerocoinSpend_tx (vtx b ! 1) = Inr False"
  shows "CheckProofOfStake verify GetTransaction ReadBlockFromDisk zerocoin m (map Some es) b = Inr (Some (Some h)) \<longleftrightarrow>
    IsProofOfStake (vtx b) \<and>
    (\<exists>txPrev p q blockprev. stake_accepted verify GetTransaction ReadBlockFromDisk m es b h txPrev p q blockprev)"
  using assms by (rule CheckProofOfStake_iff)

lemma CheckProofOfStake_exactly_witness:
  "\<forall>h. CheckProofOfStake no_sig (\<lambda>_. None) (\<lambda>_. None) (\<lambda>_. Inr None) sample_index (map Some (map sample_chain [0..<3])) stake_block
     \<noteq> Inr (Some (Some h))"
  using CheckProofOfStake_exactly [OF sample_active, of sample_index stake_block no_sig "\<lambda>_. None" "\<lambda>_. None" "\<lambda>_. Inr None" 3]
    sample_index_ok stake_block_facts by (auto simp: stake_accepted_def Let_def)

text \<open>
  C38. CheckProofOfStake indexes the outputs of the staked transaction with the number the input
  names, without comparing it with their count: a block whose coinstake names an output that does
  not exist makes it read outside the vector.
\<close>

theorem CheckProofOfStake_reads_past_the_end:
  assumes "IsProofOfStake (vtx b)" and "IsZerocoinSpend_tx (vtx b ! 1) = Inr False"
    and "GetTransaction (outhash (prevout (vin (vtx b ! 1) ! 0))) = Some (txPrev, blk)"
    and "length (vout txPrev) \<le> unat (outn (prevout (vin (vtx b ! 1) ! 0)))"
  shows "CheckProofOfStake verify GetTransaction ReadBlockFromDisk zerocoin m chainActive b = Inl Abort"
  using assms by (rule CheckProofOfStake_reads_past_the_outputs)

lemma CheckProofOfStake_reads_past_the_end_witness:
  "CheckProofOfStake no_sig (\<lambda>_. Some (sample_coinbase, 100)) (\<lambda>_. None) (\<lambda>_. Inr None) sample_index [] stake_block = Inl Abort"
  by (rule CheckProofOfStake_reads_past_the_end [where txPrev = sample_coinbase and blk = 100])
    (simp_all add: stake_block_facts, simp add: sample_stake_def sample_tx_def sample_coinbase_def)


text \<open>
  C40. CCoins::Spend turns well-formed coins (no trailing null outputs, values and heights in the
  range of the encodings) into well-formed coins and a well-formed undo record, so that both can
  be written and read back.
\<close>

theorem Spend_keeps_wellformed:
  assumes "coins_ok coins" "0 < cHeight coins" "cHeight coins < 2 ^ 30" "Spend coins out = Some (coins', undo)"
    and "recovers fully_valid decompress"
  shows "coins_ok coins' \<and> undo_ok undo \<and>
    (\<exists>b. put_CTxInUndo fully_valid undo = Inr b \<and> get_CTxInUndo decompress (b @ rest) = Inr (undo, rest))"
  using Spend_coins_ok [OF assms(4,1)] Spend_undo_ok [OF assms(1-4)] get_put_CTxInUndo [OF assms(5)] by blast

lemma Spend_keeps_wellformed_witness:
  "\<exists>coins' undo. Spend sample_coins \<lparr>outhash = 5, outn = 1\<rparr> = Some (coins', undo) \<and> coins_ok coins' \<and> undo_ok undo"
proof -
  obtain coins' undo where s: "Spend sample_coins \<lparr>outhash = 5, outn = 1\<rparr> = Some (coins', undo)"
    by (simp add: sample_coins_def Spend_def CTxOut_IsNull_def CTxOut_null_def Let_def)
  moreover have "0 < cHeight sample_coins" "cHeight sample_coins < 2 ^ 30" "recovers no_key no_point"
    by (simp_all add: sample_coins_def recovers_def)
  ultimately show ?thesis using Spend_keeps_wellformed [OF sample_coins_ok _ _ s] by blast
qed

end
